(* ===== verification/Prelude.thy ===== *)
theory Prelude
  imports Main "HOL-Library.Word" "HOL-Library.Finite_Map" "HOL-Library.FSet"
    "HOL-Library.Multiset" "HOL-Library.List_Lexorder" "HOL-Library.Product_Lexorder"
begin

text \<open>
  What the components share: the machine integer types, the crate's error type
  (\<^verbatim>\<open>crates/rapid/src/error.rs\<close>), the reading of Rust's collections, the interface of an
  event-driven component with an invariant, and generic lemmas on finite cyclic orders, stable
  sorting and iteration.

  Rust collections. A \<^verbatim>\<open>HashMap\<close> or \<^verbatim>\<open>BTreeMap\<close> is a finite map (\<open>fmap\<close>), a
  \<^verbatim>\<open>HashSet\<close> or \<^verbatim>\<open>BTreeSet\<close> a finite set (\<open>fset\<close>). Iterating a B-tree is ascending
  in the key; iterating a hash set visits every element exactly once in an order the standard
  library leaves open, so a function that iterates one takes the order as an argument
  \<open>it :: 'a fset \<Rightarrow> 'a list\<close>, constrained only by \<open>iter_order\<close>. A theorem that quantifies
  over \<open>it\<close> holds for every order.
\<close>

section \<open>Machine integers, errors, results\<close>

type_synonym u8 = "8 word"
type_synonym u16 = "16 word"
type_synonym u32 = "32 word"
type_synonym u64 = "64 word"
type_synonym i32 = "32 word"
type_synonym i64 = "64 word"
type_synonym bytes = "8 word list"
type_synonym socket_addr = "bytes \<times> u16"

text \<open>
  The constructors of \<^verbatim>\<open>error::Error\<close>. The message a variant carries is display text only
  (nothing in the program branches on it) and is dropped.
\<close>

datatype error =
    Transport
  | ProtocolRejected
  | Decode
  | Internal
  | Shutdown
  | Bootstrapping

type_synonym 'a result = "error + 'a"

named_theorems view_inv_intros \<open>preservation of the membership-view invariant\<close>
named_theorems cut_inv_intros \<open>preservation of the cut-detector invariant\<close>
named_theorems paxos_simps \<open>unfolding of the classic and fast Paxos transitions\<close>
named_theorems svc_simps \<open>frame rules of the membership-service handlers\<close>

lemma sint_eq_iff [simp]: "sint a = sint b \<longleftrightarrow> a = b"
  by (auto intro: signed_word_eqI)

section \<open>Hash iteration orders\<close>

definition iter_order :: "('a fset \<Rightarrow> 'a list) \<Rightarrow> bool" where
  "iter_order it \<longleftrightarrow> (\<forall>S. distinct (it S) \<and> set (it S) = fset S)"

definition sorted_iter :: "'a::linorder fset \<Rightarrow> 'a list" where
  "sorted_iter S = sorted_list_of_set (fset S)"

definition fm_get_or :: "'v \<Rightarrow> ('k, 'v) fmap \<Rightarrow> 'k \<Rightarrow> 'v" where
  "fm_get_or d m k = (case fmlookup m k of Some v \<Rightarrow> v | None \<Rightarrow> d)"

definition fm_len :: "('k, 'v) fmap \<Rightarrow> nat" where
  "fm_len m = fcard (fmdom m)"

lemma iter_orderD [dest]:
  "iter_order it \<Longrightarrow> distinct (it S)" "iter_order it \<Longrightarrow> set (it S) = fset S"
  by (auto simp: iter_order_def)

lemma sorted_iter_order [intro!, simp]: "iter_order sorted_iter"
  by (simp add: iter_order_def sorted_iter_def)

lemma iter_order_length: "iter_order it \<Longrightarrow> length (it S) = fcard S"
  by (metis distinct_card fcard.rep_eq iter_orderD)

lemma iter_order_mset:
  assumes "iter_order it" and "iter_order it'"
  shows "mset (it S) = mset (it' S)"
  using assms by (metis iter_orderD set_eq_iff_mset_eq_distinct)

lemma iter_order_Nil [simp]: "iter_order it \<Longrightarrow> it S = [] \<longleftrightarrow> S = {||}"
  by (metis empty_set fset_inject iter_orderD(2) set_empty bot_fset.rep_eq)

lemma fm_len_empty [simp]: "fm_len fmempty = 0"
  by (simp add: fm_len_def)

lemma fm_len_upd:
  "fm_len (fmupd k v m) = (if fmlookup m k = None then Suc (fm_len m) else fm_len m)"
  by (auto simp: fm_len_def fcard_finsert_if fmlookup_dom_iff)

lemma fm_len_upd_new [simp]: "fmlookup m k = None \<Longrightarrow> fm_len (fmupd k v m) = Suc (fm_len m)"
  by (simp add: fm_len_upd)

lemma fm_len_upd_old [simp]: "fmlookup m k = Some w \<Longrightarrow> fm_len (fmupd k v m) = fm_len m"
  by (simp add: fm_len_upd)

lemma fm_len_0 [simp]: "fm_len m = 0 \<longleftrightarrow> m = fmempty"
  by (auto simp: fm_len_def intro!: fmap_ext) (metis fmdom_notD fempty_iff)

section \<open>Finite cyclic orders\<close>

text \<open>
  The neighbour of a point on a ring of keys: the next key above it, or the smallest one when
  there is none; and its mirror image. \<open>cyc_next_prev\<close> is the heart of the K-ring topology: on
  the keys of the ring the two are inverse to each other.
\<close>

definition cyc_next :: "'a::linorder set \<Rightarrow> 'a \<Rightarrow> 'a" where
  "cyc_next S x = (let U = Set.filter (\<lambda>y. x < y) S in if U = {} then Min S else Min U)"

definition cyc_prev :: "'a::linorder set \<Rightarrow> 'a \<Rightarrow> 'a" where
  "cyc_prev S x = (let L = Set.filter (\<lambda>y. y < x) S in if L = {} then Max S else Max L)"

lemma cyc_next_in:
  assumes "finite S" "S \<noteq> {}"
  shows "cyc_next S x \<in> S"
proof -
  have "Min S \<in> S" using assms by (rule Min_in)
  moreover have "Min {y \<in> S. x < y} \<in> {y \<in> S. x < y}" if "{y \<in> S. x < y} \<noteq> {}"
    using assms that by (intro Min_in) auto
  ultimately show ?thesis by (auto simp: cyc_next_def Let_def)
qed

lemma cyc_prev_in:
  assumes "finite S" "S \<noteq> {}"
  shows "cyc_prev S x \<in> S"
proof -
  have "Max S \<in> S" using assms by (rule Max_in)
  moreover have "Max {y \<in> S. y < x} \<in> {y \<in> S. y < x}" if "{y \<in> S. y < x} \<noteq> {}"
    using assms that by (intro Max_in) auto
  ultimately show ?thesis by (auto simp: cyc_prev_def Let_def)
qed

lemma cyc_prev_next:
  assumes fin: "finite S" and x: "x \<in> S"
  shows "cyc_prev S (cyc_next S x) = x"
proof (cases "{y \<in> S. x < y} = {}")
  case True
  then have mx: "Max S = x" using fin x by (intro Max_eqI) (auto simp: not_less[symmetric])
  have "{y \<in> S. y < Min S} = {}" using fin by (auto simp: Min_le leD)
  with True mx show ?thesis by (simp add: cyc_next_def cyc_prev_def Let_def)
next
  case False
  let ?m = "Min {y \<in> S. x < y}"
  have m: "?m \<in> {y \<in> S. x < y}" using fin False by (intro Min_in) auto
  have le: "?m \<le> y" if "y \<in> S" "x < y" for y using fin that by (intro Min_le) auto
  have "Max {y \<in> S. y < ?m} = x"
  proof (rule Max_eqI)
    show "finite {y \<in> S. y < ?m}" using fin by simp
    show "y \<le> x" if "y \<in> {y \<in> S. y < ?m}" for y using le that by (auto simp: not_less[symmetric])
    show "x \<in> {y \<in> S. y < ?m}" using x m by simp
  qed
  moreover have "{y \<in> S. y < ?m} \<noteq> {}" using x m by auto
  ultimately show ?thesis using False by (auto simp: cyc_next_def cyc_prev_def Let_def)
qed

lemma cyc_next_prev:
  assumes fin: "finite S" and x: "x \<in> S"
  shows "cyc_next S (cyc_prev S x) = x"
proof (cases "{y \<in> S. y < x} = {}")
  case True
  then have mn: "Min S = x" using fin x by (intro Min_eqI) (auto simp: not_less[symmetric])
  have "{y \<in> S. Max S < y} = {}" using fin by (auto simp: Max_ge leD)
  with True mn show ?thesis by (simp add: cyc_next_def cyc_prev_def Let_def)
next
  case False
  let ?m = "Max {y \<in> S. y < x}"
  have m: "?m \<in> {y \<in> S. y < x}" using fin False by (intro Max_in) auto
  have le: "y \<le> ?m" if "y \<in> S" "y < x" for y using fin that by (intro Max_ge) auto
  have "Min {y \<in> S. ?m < y} = x"
  proof (rule Min_eqI)
    show "finite {y \<in> S. ?m < y}" using fin by simp
    show "x \<le> y" if "y \<in> {y \<in> S. ?m < y}" for y using le that by (auto simp: not_less[symmetric])
    show "x \<in> {y \<in> S. ?m < y}" using x m by simp
  qed
  moreover have "{y \<in> S. ?m < y} \<noteq> {}" using x m by auto
  ultimately show ?thesis using False by (auto simp: cyc_next_def cyc_prev_def Let_def)
qed

lemma cyc_next_eq_iff:
  assumes "finite S" "x \<in> S" "y \<in> S"
  shows "cyc_next S x = y \<longleftrightarrow> cyc_prev S y = x"
  using assms cyc_next_prev cyc_prev_next by metis

lemma cyc_next_neq:
  assumes fin: "finite S" and x: "x \<in> S" and y: "y \<in> S" "y \<noteq> x"
  shows "cyc_next S x \<noteq> x"
proof (cases "{z \<in> S. x < z} = {}")
  case True
  with y(1) have "\<not> x < y" by auto
  with y(2) have "y < x" by simp
  moreover have "Min S \<le> y" using fin y by (intro Min_le)
  ultimately show ?thesis using True by (auto simp: cyc_next_def)
next
  case False
  then have "Min {z \<in> S. x < z} \<in> {z \<in> S. x < z}" using fin by (intro Min_in) auto
  with False show ?thesis by (auto simp: cyc_next_def Let_def)
qed

lemma cyc_prev_neq:
  assumes "finite S" "x \<in> S" "y \<in> S" "y \<noteq> x"
  shows "cyc_prev S x \<noteq> x"
  using assms cyc_next_neq cyc_next_prev by metis

lemma cyc_next_cases:
  "{y \<in> S. x < y} = {} \<Longrightarrow> cyc_next S x = Min S"
  "{y \<in> S. x < y} \<noteq> {} \<Longrightarrow> cyc_next S x = Min {y \<in> S. x < y}"
  unfolding cyc_next_def Let_def Set.filter_eq by (simp_all only: if_True if_False refl)

lemma cyc_next_insert:
  assumes fin: "finite S" and ne: "S \<noteq> {}" and kj: "k \<noteq> j" and nk: "cyc_next (insert k S) j \<noteq> k"
  shows "cyc_next (insert k S) j = cyc_next S j"
proof (cases "j < k")
  case True
  let ?U = "{y \<in> S. j < y}"
  have U: "{y \<in> insert k S. j < y} = insert k ?U" using True by auto
  then have n: "cyc_next (insert k S) j = Min (insert k ?U)"
    using cyc_next_cases(2)[of "insert k S" j] by (metis insert_not_empty)
  have u: "?U \<noteq> {}"
  proof
    assume "?U = {}"
    with n have "cyc_next (insert k S) j = k" by (simp only: Min_singleton)
    with nk show False ..
  qed
  then have "Min (insert k ?U) = min k (Min ?U)" using fin by (intro Min_insert) auto
  with n nk have "cyc_next (insert k S) j = Min ?U" unfolding min_def by presburger
  with cyc_next_cases(2)[OF u] show ?thesis by simp
next
  case False
  then have U: "{y \<in> insert k S. j < y} = {y \<in> S. j < y}" by auto
  have "Min (insert k S) = min k (Min S)" using fin ne by (rule Min_insert)
  then show ?thesis
    using nk cyc_next_cases[of S j] cyc_next_cases[of "insert k S" j] unfolding U min_def
    by metis
qed

section \<open>Canonical sorting\<close>

lemma rev_nonempty: "xs \<noteq> [] \<Longrightarrow> rev xs = last xs # rev (butlast xs)"
  by (induction xs rule: rev_induct) auto

lemma sort_key_canonical:
  assumes "mset xs = mset ys" and "inj_on f (set xs)"
  shows "sort_key f xs = sort_key f ys"
proof (rule sort_key_inj_key_eq)
  show "mset xs = mset (sort_key f ys)" using assms(1) by simp
  show "inj_on f (set xs)" by (rule assms(2))
  show "sorted (map f (sort_key f ys))" by simp
qed

section \<open>Components driven by a sequence of events\<close>

text \<open>
  The interface of an event-driven component: a transition function and an invariant that every
  transition keeps. The lemmas lift the one-step law to whole runs; every component that
  handles a stream of messages is an interpretation.
\<close>

fun run :: "('s \<Rightarrow> 'e \<Rightarrow> 's) \<Rightarrow> 's \<Rightarrow> 'e list \<Rightarrow> 's" where
  "run step s [] = s"
| "run step s (e # es) = run step (step s e) es"

text \<open>Runs of events that must be possible when they happen, and runs in which something never happens.\<close>

fun exec :: "('s \<Rightarrow> 'e \<Rightarrow> 's) \<Rightarrow> ('s \<Rightarrow> 'e \<Rightarrow> bool) \<Rightarrow> 's \<Rightarrow> 'e list \<Rightarrow> 's option" where
  "exec step possible s [] = Some s"
| "exec step possible s (e # es) = (if possible s e then exec step possible (step s e) es else None)"

fun never :: "('s \<Rightarrow> 'e \<Rightarrow> 's) \<Rightarrow> ('s \<Rightarrow> 'e \<Rightarrow> bool) \<Rightarrow> 's \<Rightarrow> 'e list \<Rightarrow> bool" where
  "never step bad s [] \<longleftrightarrow> True"
| "never step bad s (e # es) \<longleftrightarrow> \<not> bad s e \<and> never step bad (step s e) es"

lemma exec_guarded:
  assumes "\<And>s e. enabled s e \<longleftrightarrow> possible s e \<and> \<not> bad s e \<and> \<not> bad' s e"
  shows "exec step enabled s es = Some t \<longleftrightarrow>
    exec step possible s es = Some t \<and> never step bad s es \<and> never step bad' s es"
  by (induction es arbitrary: s) (auto simp: assms)

lemma exec_append:
  "exec step possible s (es @ es') = (case exec step possible s es of None \<Rightarrow> None | Some t \<Rightarrow> exec step possible t es')"
  by (induction es arbitrary: s) auto

lemma run_append: "run step s (xs @ ys) = run step (run step s xs) ys"
  by (induction xs arbitrary: s) auto

locale event_machine =
  fixes step :: "'s \<Rightarrow> 'e \<Rightarrow> 's"
    and inv :: "'s \<Rightarrow> bool"
    and ok :: "'e \<Rightarrow> bool"
  assumes step_inv: "inv s \<Longrightarrow> ok e \<Longrightarrow> inv (step s e)"
begin

lemma run_inv: "inv s \<Longrightarrow> list_all ok es \<Longrightarrow> inv (run step s es)"
  by (induction es arbitrary: s) (auto intro: step_inv)

lemma run_frame:
  assumes "\<And>s e. inv s \<Longrightarrow> ok e \<Longrightarrow> f (step s e) = f s"
  shows "inv s \<Longrightarrow> list_all ok es \<Longrightarrow> f (run step s es) = f s"
  by (induction es arbitrary: s) (auto simp: assms step_inv)

lemma run_mono:
  fixes f :: "'s \<Rightarrow> 'b::preorder"
  assumes "\<And>s e. inv s \<Longrightarrow> ok e \<Longrightarrow> f s \<le> f (step s e)"
  shows "inv s \<Longrightarrow> list_all ok es \<Longrightarrow> f s \<le> f (run step s es)"
proof (induction es arbitrary: s)
  case Nil
  then show ?case by simp
next
  case (Cons e es)
  then have "f s \<le> f (step s e)" "f (step s e) \<le> f (run step (step s e) es)"
    using assms step_inv by auto
  then show ?case by (simp add: order_trans)
qed

end

end
