(* ===== verification/Wire.thy ===== *)
theory Wire
  imports Prelude
begin

text \<open>
  The protocol messages of \<^verbatim>\<open>crates/rapid/proto/rapid.proto\<close> as the generated \<^verbatim>\<open>pb\<close> module
  has them: a nested message is an option, an enum field is its \<^verbatim>\<open>i32\<close> number, a \<^verbatim>\<open>repeated\<close>
  field a list. \<^verbatim>\<open>Endpoint\<close>, \<^verbatim>\<open>NodeId\<close> and \<^verbatim>\<open>Rank\<close> are datatypes with named fields so that
  they can carry orders; the other messages are records.

  The six modules that key hash maps by endpoint each declare the same private
  \<^verbatim>\<open>EndpointKey { hostname, port }\<close>; here it is one type, with its conversion
  \<open>endpoint_key_of\<close>.
\<close>

section \<open>Data\<close>

datatype endpoint = Endpoint (ep_hostname: bytes) (ep_port: i32)

datatype endpoint_key = EndpointKey (key_hostname: bytes) (key_port: i32)

definition endpoint_key_of :: "endpoint \<Rightarrow> endpoint_key" where
  "endpoint_key_of value = EndpointKey (ep_hostname value) (ep_port value)"

definition default_endpoint :: endpoint where
  "default_endpoint = Endpoint [] 0"

datatype node_id = NodeId (nid_high: i64) (nid_low: i64)

definition default_node_id :: node_id where
  "default_node_id = NodeId 0 0"

datatype node_id_key = NodeIdKey (nik_high: i64) (nik_low: i64)

definition node_id_key_of :: "node_id \<Rightarrow> node_id_key" where
  "node_id_key_of value = NodeIdKey (nid_high value) (nid_low value)"

datatype rank = Rank (rank_round: i32) (rank_node_index: i32)

type_synonym metadata = "(string, bytes) fmap"

datatype edge_status = Up | Down

definition edge_status_num :: "edge_status \<Rightarrow> i32" where
  "edge_status_num s = (case s of Up \<Rightarrow> 0 | Down \<Rightarrow> 1)"

definition edge_status_try_from :: "i32 \<Rightarrow> edge_status option" where
  "edge_status_try_from n = (if n = 0 then Some Up else if n = 1 then Some Down else None)"

definition edge_status_or_up :: "i32 \<Rightarrow> edge_status" where
  "edge_status_or_up n = (case edge_status_try_from n of Some s \<Rightarrow> s | None \<Rightarrow> Up)"

datatype node_status = OkStatus | BootstrappingStatus

definition node_status_num :: "node_status \<Rightarrow> i32" where
  "node_status_num s = (case s of OkStatus \<Rightarrow> 0 | BootstrappingStatus \<Rightarrow> 1)"

definition node_status_try_from :: "i32 \<Rightarrow> node_status option" where
  "node_status_try_from n =
     (if n = 0 then Some OkStatus else if n = 1 then Some BootstrappingStatus else None)"

definition node_status_or_ok :: "i32 \<Rightarrow> node_status" where
  "node_status_or_ok n = (case node_status_try_from n of Some s \<Rightarrow> s | None \<Rightarrow> OkStatus)"

datatype join_status_code =
    HostnameAlreadyInRingCode
  | UuidAlreadyInRingCode
  | SafeToJoinCode
  | ConfigChangedCode
  | MembershipRejectedCode

definition join_status_num :: "join_status_code \<Rightarrow> i32" where
  "join_status_num c = (case c of
     HostnameAlreadyInRingCode \<Rightarrow> 0 | UuidAlreadyInRingCode \<Rightarrow> 1 | SafeToJoinCode \<Rightarrow> 2
   | ConfigChangedCode \<Rightarrow> 3 | MembershipRejectedCode \<Rightarrow> 4)"

section \<open>Messages\<close>

record pre_join_message =
  pj_sender :: "endpoint option"
  pj_node_id :: "node_id option"
  pj_ring_number :: "i32 list"
  pj_configuration_id :: i64

record join_message =
  jm_sender :: "endpoint option"
  jm_node_id :: "node_id option"
  jm_ring_number :: "i32 list"
  jm_configuration_id :: i64
  jm_metadata :: "metadata option"

record join_response =
  jr_sender :: "endpoint option"
  jr_status_code :: i32
  jr_configuration_id :: i64
  jr_endpoints :: "endpoint list"
  jr_identifiers :: "node_id list"
  jr_metadata_keys :: "endpoint list"
  jr_metadata_values :: "metadata list"

record alert_message =
  al_edge_src :: "endpoint option"
  al_edge_dst :: "endpoint option"
  al_edge_status :: i32
  al_configuration_id :: i64
  al_ring_number :: "i32 list"
  al_node_id :: "node_id option"
  al_metadata :: "metadata option"

record batched_alert_message =
  ba_sender :: "endpoint option"
  ba_messages :: "alert_message list"

record fast_round_phase2b_message =
  fr_sender :: "endpoint option"
  fr_configuration_id :: i64
  fr_endpoints :: "endpoint list"

record phase1a_message =
  p1a_sender :: "endpoint option"
  p1a_configuration_id :: i64
  p1a_rank :: "rank option"

record phase1b_message =
  p1b_sender :: "endpoint option"
  p1b_configuration_id :: i64
  p1b_rnd :: "rank option"
  p1b_vrnd :: "rank option"
  p1b_vval :: "endpoint list"

record phase2a_message =
  p2a_sender :: "endpoint option"
  p2a_configuration_id :: i64
  p2a_rnd :: "rank option"
  p2a_vval :: "endpoint list"

record phase2b_message =
  p2b_sender :: "endpoint option"
  p2b_configuration_id :: i64
  p2b_rnd :: "rank option"
  p2b_endpoints :: "endpoint list"

record leave_message =
  lv_sender :: "endpoint option"

record probe_message =
  pm_sender :: "endpoint option"
  pm_payload :: "bytes list"

record probe_response_message =
  pr_status :: i32

datatype request_content =
    PreJoinMessage pre_join_message
  | JoinMessage join_message
  | BatchedAlertMessage batched_alert_message
  | ProbeMessage probe_message
  | FastRoundPhase2bMessage fast_round_phase2b_message
  | Phase1aMessage phase1a_message
  | Phase1bMessage phase1b_message
  | Phase2aMessage phase2a_message
  | Phase2bMessage phase2b_message
  | LeaveMessage leave_message

datatype rapid_request = RapidRequest (req_content: "request_content option")

datatype response_content =
    JoinResponse join_response
  | Response
  | ConsensusResponse
  | ProbeResponse probe_response_message

datatype rapid_response = RapidResponse (resp_content: "response_content option")

definition default_response :: rapid_response where
  "default_response = RapidResponse None"

definition probe_request :: "probe_message \<Rightarrow> rapid_request" where
  "probe_request msg = RapidRequest (Some (ProbeMessage msg))"

definition probe_response :: "probe_response_message \<Rightarrow> rapid_response" where
  "probe_response msg = RapidResponse (Some (ProbeResponse msg))"

definition probe_reply_status :: "probe_response_message \<Rightarrow> node_status" where
  "probe_reply_status msg = node_status_or_ok (pr_status msg)"

section \<open>Orders\<close>

text \<open>
  \<^verbatim>\<open>#[derive(Ord)]\<close> on \<^verbatim>\<open>NodeIdKey(i64, i64)\<close> and the tuple comparison of
  \<^verbatim>\<open>compare_ranks\<close> are lexicographic on \<^emph>\<open>signed\<close> components. The order on endpoint keys
  is not used by the program; it makes \<open>sorted_iter\<close> a concrete hash iteration order.
\<close>

definition node_id_tuple :: "node_id_key \<Rightarrow> int \<times> int" where
  "node_id_tuple k = (sint (nik_high k), sint (nik_low k))"

definition rank_tuple :: "rank \<Rightarrow> int \<times> int" where
  "rank_tuple r = (sint (rank_round r), sint (rank_node_index r))"

definition endpoint_key_tuple :: "endpoint_key \<Rightarrow> bytes \<times> i32" where
  "endpoint_key_tuple k = (key_hostname k, key_port k)"

lemma node_id_tuple_inj: "node_id_tuple a = node_id_tuple b \<longleftrightarrow> a = b"
  by (cases a; cases b) (auto simp: node_id_tuple_def)

lemma rank_tuple_inj: "rank_tuple a = rank_tuple b \<longleftrightarrow> a = b"
  by (cases a; cases b) (auto simp: rank_tuple_def)

lemma endpoint_key_tuple_inj: "endpoint_key_tuple a = endpoint_key_tuple b \<longleftrightarrow> a = b"
  by (cases a; cases b) (auto simp: endpoint_key_tuple_def)

instantiation node_id_key :: linorder
begin

definition less_eq_node_id_key :: "node_id_key \<Rightarrow> node_id_key \<Rightarrow> bool" where
  "less_eq_node_id_key a b \<longleftrightarrow> node_id_tuple a \<le> node_id_tuple b"

definition less_node_id_key :: "node_id_key \<Rightarrow> node_id_key \<Rightarrow> bool" where
  "less_node_id_key a b \<longleftrightarrow> node_id_tuple a < node_id_tuple b"

instance
  by standard (auto simp: less_eq_node_id_key_def less_node_id_key_def node_id_tuple_inj
      dest: antisym)

end

instantiation rank :: linorder
begin

definition less_eq_rank :: "rank \<Rightarrow> rank \<Rightarrow> bool" where
  "less_eq_rank a b \<longleftrightarrow> rank_tuple a \<le> rank_tuple b"

definition less_rank :: "rank \<Rightarrow> rank \<Rightarrow> bool" where
  "less_rank a b \<longleftrightarrow> rank_tuple a < rank_tuple b"

instance
  by standard (auto simp: less_eq_rank_def less_rank_def rank_tuple_inj dest: antisym)

end

instantiation endpoint_key :: linorder
begin

definition less_eq_endpoint_key :: "endpoint_key \<Rightarrow> endpoint_key \<Rightarrow> bool" where
  "less_eq_endpoint_key a b \<longleftrightarrow> endpoint_key_tuple a \<le> endpoint_key_tuple b"

definition less_endpoint_key :: "endpoint_key \<Rightarrow> endpoint_key \<Rightarrow> bool" where
  "less_endpoint_key a b \<longleftrightarrow> endpoint_key_tuple a < endpoint_key_tuple b"

instance
  by standard (auto simp: less_eq_endpoint_key_def less_endpoint_key_def endpoint_key_tuple_inj
      dest: antisym)

end

section \<open>Lemmas\<close>

lemma endpoint_key_of_eq [simp]: "endpoint_key_of a = endpoint_key_of b \<longleftrightarrow> a = b"
  by (cases a; cases b) (simp add: endpoint_key_of_def)

lemma inj_endpoint_key_of [simp]: "inj endpoint_key_of" "inj_on endpoint_key_of A"
  by (auto simp: inj_on_def)

lemma node_id_key_of_eq [simp]: "node_id_key_of a = node_id_key_of b \<longleftrightarrow> a = b"
  by (cases a; cases b) (simp add: node_id_key_of_def)

lemma endpoint_key_of_surj: "\<exists>e. endpoint_key_of e = k"
  by (cases k) (metis endpoint.sel endpoint_key_of_def)

lemma edge_status_or_up_num [simp]: "edge_status_or_up (edge_status_num s) = s"
  by (cases s) (simp_all add: edge_status_or_up_def edge_status_try_from_def edge_status_num_def)

lemma node_status_or_ok_num [simp]: "node_status_or_ok (node_status_num s) = s"
  by (cases s) (simp_all add: node_status_or_ok_def node_status_try_from_def node_status_num_def)

lemma join_status_num_inj [simp]: "join_status_num a = join_status_num b \<longleftrightarrow> a = b"
  by (cases a; cases b) (simp_all add: join_status_num_def)

lemma rank_less_iff:
  "a < b \<longleftrightarrow> sint (rank_round a) < sint (rank_round b) \<or>
     (rank_round a = rank_round b \<and> sint (rank_node_index a) < sint (rank_node_index b))"
  for a b :: rank
  by (auto simp: less_rank_def rank_tuple_def)

end
