(* ===== verification/View_Hash.thy ===== *)
theory View_Hash
  imports Wire
begin

text \<open>
  \<^verbatim>\<open>crates/rapid/src/view_hash.rs\<close> and the newtypes of \<^verbatim>\<open>types.rs\<close> it uses. The
  \<^verbatim>\<open>xxh64\<close> function comes from the third-party crate \<^verbatim>\<open>xxhash_rust\<close>: it is an argument
  (\<open>xxh64\<close>) of every definition that hashes. Hashes are \<open>u64\<close>; the multiplications and
  additions wrap as \<^verbatim>\<open>wrapping_mul\<close> and \<^verbatim>\<open>wrapping_add\<close> do.
\<close>

type_synonym xxh64_fn = "bytes \<Rightarrow> u64 \<Rightarrow> u64"
type_synonym configuration_id = i64

definition SENTINEL :: configuration_id where
  "SENTINEL = - 1"

definition to_le_bytes :: "nat \<Rightarrow> 'a::len word \<Rightarrow> bytes" where
  "to_le_bytes n w = map (\<lambda>i. ucast (drop_bit (8 * i) w)) [0..<n]"

definition xxh_long :: "xxh64_fn \<Rightarrow> u64 \<Rightarrow> i64 \<Rightarrow> u64" where
  "xxh_long xxh64 seed value = xxh64 (to_le_bytes 8 value) seed"

definition xxh_int :: "xxh64_fn \<Rightarrow> u64 \<Rightarrow> i32 \<Rightarrow> u64" where
  "xxh_int xxh64 seed value = xxh64 (to_le_bytes 4 value) seed"

definition address_hash :: "xxh64_fn \<Rightarrow> u64 \<Rightarrow> endpoint \<Rightarrow> u64" where
  "address_hash xxh64 seed endpoint =
     (let host_hash = xxh64 (ep_hostname endpoint) seed;
          port_hash = xxh_int xxh64 seed (ep_port endpoint)
      in host_hash * 31 + port_hash)"

definition address_hash_seed_zero :: "xxh64_fn \<Rightarrow> endpoint \<Rightarrow> u64" where
  "address_hash_seed_zero xxh64 endpoint = address_hash xxh64 0 endpoint"

fun hash_identifiers :: "xxh64_fn \<Rightarrow> u64 \<Rightarrow> node_id list \<Rightarrow> u64" where
  "hash_identifiers xxh64 hash [] = hash"
| "hash_identifiers xxh64 hash (nid # ids) =
     (let hash = hash * 37 + xxh_long xxh64 0 (nid_high nid);
          hash = hash * 37 + xxh_long xxh64 0 (nid_low nid)
      in hash_identifiers xxh64 hash ids)"

fun hash_endpoints :: "xxh64_fn \<Rightarrow> u64 \<Rightarrow> endpoint list \<Rightarrow> u64" where
  "hash_endpoints xxh64 hash [] = hash"
| "hash_endpoints xxh64 hash (endpoint # endpoints) =
     (let hash = hash * 37 + xxh64 (ep_hostname endpoint) 0;
          hash = hash * 37 + xxh_int xxh64 0 (ep_port endpoint)
      in hash_endpoints xxh64 hash endpoints)"

definition configuration_id_for ::
  "xxh64_fn \<Rightarrow> node_id list \<Rightarrow> endpoint list \<Rightarrow> configuration_id" where
  "configuration_id_for xxh64 identifiers endpoints =
     hash_endpoints xxh64 (hash_identifiers xxh64 1 identifiers) endpoints"

text \<open>
  A concrete stand-in for \<^verbatim>\<open>xxh64\<close> used by the witnesses: small enough to evaluate, and
  ordering the endpoints differently for different seeds. It is not xxh64; the theorems it
  instantiates are stated for every hash.
\<close>

definition demo_hash :: xxh64_fn where
  "demo_hash bs seed = (fold (\<lambda>b h. h + ucast b) bs 0 * (3 + 2 * seed)) mod 11"

text \<open>Endpoints and identifiers for the witnesses.\<close>

definition demo_ep :: "nat \<Rightarrow> endpoint" where
  "demo_ep n = Endpoint [of_nat n] (of_nat n)"

definition demo_nid :: "nat \<Rightarrow> node_id" where
  "demo_nid n = NodeId (of_nat n) (of_nat n)"

section \<open>Lemmas\<close>

lemma to_le_bytes_length [simp]: "length (to_le_bytes n w) = n"
  by (simp add: to_le_bytes_def)

text \<open>The four and eight little-endian bytes determine the integer they encode.\<close>

lemma to_le_bytes_inj:
  fixes v w :: "'a::len word"
  assumes "LENGTH('a) \<le> 8 * n" and "to_le_bytes n v = to_le_bytes n w"
  shows "v = w"
proof (rule bit_word_eqI)
  fix m assume m: "m < LENGTH('a)"
  with assms(1) have "m div 8 < n" by (simp add: less_mult_imp_div_less mult.commute)
  with assms(2) have "(ucast (drop_bit (8 * (m div 8)) v) :: u8) = ucast (drop_bit (8 * (m div 8)) w)"
    by (auto simp: to_le_bytes_def)
  then have "bit (ucast (drop_bit (8 * (m div 8)) v) :: u8) (m mod 8)
    = bit (ucast (drop_bit (8 * (m div 8)) w) :: u8) (m mod 8)" by simp
  then show "bit v m = bit w m" by (simp add: bit_simps)
qed

lemma hash_identifiers_append:
  "hash_identifiers x h (xs @ ys) = hash_identifiers x (hash_identifiers x h xs) ys"
  by (induction xs arbitrary: h) (auto simp: Let_def)

lemma hash_endpoints_append:
  "hash_endpoints x h (xs @ ys) = hash_endpoints x (hash_endpoints x h xs) ys"
  by (induction xs arbitrary: h) (auto simp: Let_def)

end
