(* ===== verification/Paxos.thy ===== *)
theory Paxos
  imports View_Hash
begin

unbundle bit_operations_syntax

text \<open>
  \<^verbatim>\<open>crates/rapid/src/consensus/paxos.rs\<close>: classic single-decree Paxos with the Fast Paxos
  coordinator rule. Each handler takes the state and a message and returns the new state with
  the list of outgoing messages, as the Rust methods do; a branch that returns an empty vector
  returns the empty list. \<^verbatim>\<open>usize\<close> is \<open>nat\<close>, a rank is compared as the pair of its signed
  components (the order of \<open>Wire\<close>). The scan of \<^verbatim>\<open>select_proposal_from_messages\<close> with its
  early return is the recursion \<open>scan_counters\<close>.

  Properties: what the coordinator rule returns and that it recovers a value the fast round may
  have chosen; the acceptor's promises; what a classic decision rests on.
\<close>

section \<open>State and operations\<close>

datatype paxos_outgoing =
    PxBroadcast rapid_request
  | PxUnicast endpoint rapid_request
  | PxDecision "endpoint list"

record paxos =
  px_my_addr :: endpoint
  px_configuration_id :: i64
  px_n :: nat
  px_rnd :: rank
  px_vrnd :: rank
  px_vval :: "endpoint list"
  px_phase1b_messages :: "phase1b_message list"
  px_accept_responses :: "(rank, (endpoint_key, phase2b_message) fmap) fmap"
  px_crnd :: rank
  px_cval :: "endpoint list"
  px_decided :: bool

definition paxos_new :: "endpoint \<Rightarrow> i64 \<Rightarrow> nat \<Rightarrow> paxos" where
  "paxos_new my_addr configuration_id n =
     (let zero = Rank 0 0 in
      \<lparr>px_my_addr = my_addr, px_configuration_id = configuration_id, px_n = n, px_rnd = zero,
       px_vrnd = zero, px_vval = [], px_phase1b_messages = [], px_accept_responses = fmempty,
       px_crnd = zero, px_cval = [], px_decided = False\<rparr>)"

definition stable_node_index :: "xxh64_fn \<Rightarrow> endpoint \<Rightarrow> i32" where
  "stable_node_index x endpoint =
     (let h = address_hash x 0 endpoint in ucast (h XOR drop_bit 32 h))"

definition start_phase1a :: "xxh64_fn \<Rightarrow> paxos \<Rightarrow> i32 \<Rightarrow> paxos \<times> paxos_outgoing list" where
  "start_phase1a x p classic_round =
     (if sint (rank_round (px_crnd p)) > sint classic_round then (p, [])
      else
        (let p = p\<lparr>px_crnd := Rank classic_round (stable_node_index x (px_my_addr p))\<rparr>;
             prepare = \<lparr>p1a_sender = Some (px_my_addr p),
               p1a_configuration_id = px_configuration_id p, p1a_rank = Some (px_crnd p)\<rparr>
         in (p, [PxBroadcast (RapidRequest (Some (Phase1aMessage prepare)))])))"

definition handle_phase1a :: "paxos \<Rightarrow> phase1a_message \<Rightarrow> paxos \<times> paxos_outgoing list" where
  "handle_phase1a p msg =
     (if p1a_configuration_id msg \<noteq> px_configuration_id p then (p, [])
      else case p1a_rank msg of
        None \<Rightarrow> (p, [])
      | Some rank \<Rightarrow>
          if px_rnd p < rank then
            (let p = p\<lparr>px_rnd := rank\<rparr>;
                 response = \<lparr>p1b_sender = Some (px_my_addr p),
                   p1b_configuration_id = px_configuration_id p, p1b_rnd = Some (px_rnd p),
                   p1b_vrnd = Some (px_vrnd p), p1b_vval = px_vval p\<rparr>;
                 req = RapidRequest (Some (Phase1bMessage response))
             in case p1a_sender msg of
                  None \<Rightarrow> (p, [])
                | Some sender \<Rightarrow> (p, [PxUnicast sender req]))
          else (p, []))"

definition max_vrnd :: "phase1b_message list \<Rightarrow> rank option" where
  "max_vrnd messages =
     (case List.map_filter p1b_vrnd messages of [] \<Rightarrow> None | r # rs \<Rightarrow> Some (fold max rs r))"

definition value_key :: "endpoint list \<Rightarrow> endpoint_key list" where
  "value_key v = map endpoint_key_of v"

fun scan_counters ::
  "nat \<Rightarrow> (endpoint_key list, nat) fmap \<Rightarrow> endpoint list list \<Rightarrow> endpoint list option" where
  "scan_counters quarter counters [] = None"
| "scan_counters quarter counters (v # vs) =
     (let key = value_key v;
          entry = fm_get_or 0 counters key
      in if entry + 1 > quarter then Some v
         else scan_counters quarter (fmupd key (entry + 1) counters) vs)"

definition first_nonempty_vval :: "phase1b_message list \<Rightarrow> endpoint list" where
  "first_nonempty_vval messages =
     (case filter (\<lambda>v. v \<noteq> []) (map p1b_vval messages) of [] \<Rightarrow> [] | v # _ \<Rightarrow> v)"

definition collected_vvals :: "phase1b_message list \<Rightarrow> rank \<Rightarrow> endpoint list list" where
  "collected_vvals messages r =
     map p1b_vval (filter (\<lambda>m. p1b_vval m \<noteq> []) (filter (\<lambda>m. p1b_vrnd m = Some r) messages))"

definition select_proposal_from_messages :: "phase1b_message list \<Rightarrow> nat \<Rightarrow> endpoint list" where
  "select_proposal_from_messages messages n =
     (if messages = [] then []
      else case max_vrnd messages of
        None \<Rightarrow> []
      | Some r \<Rightarrow>
          (let collected = collected_vvals messages r;
               unique = remdups (map value_key collected)
           in if length unique = 1 then (case collected of [] \<Rightarrow> [] | v # _ \<Rightarrow> v)
              else case (if collected \<noteq> [] then scan_counters (n div 4) fmempty collected else None) of
                Some v \<Rightarrow> v
              | None \<Rightarrow> first_nonempty_vval messages))"

definition select_proposal_using_coordinator_rule :: "paxos \<Rightarrow> endpoint list" where
  "select_proposal_using_coordinator_rule p =
     select_proposal_from_messages (px_phase1b_messages p) (px_n p)"

definition handle_phase1b :: "paxos \<Rightarrow> phase1b_message \<Rightarrow> paxos \<times> paxos_outgoing list" where
  "handle_phase1b p msg =
     (if p1b_configuration_id msg \<noteq> px_configuration_id p then (p, [])
      else case p1b_rnd msg of
        None \<Rightarrow> (p, [])
      | Some rnd \<Rightarrow>
          if px_crnd p \<noteq> rnd then (p, [])
          else
            (let p = p\<lparr>px_phase1b_messages := px_phase1b_messages p @ [msg]\<rparr>
             in if length (px_phase1b_messages p) \<le> px_n p div 2 then (p, [])
                else
                  (let chosen = select_proposal_using_coordinator_rule p
                   in if px_cval p \<noteq> [] \<or> chosen = [] then (p, [])
                      else
                        (let p = p\<lparr>px_cval := chosen\<rparr>;
                             phase2a = \<lparr>p2a_sender = Some (px_my_addr p),
                               p2a_configuration_id = px_configuration_id p,
                               p2a_rnd = Some (px_crnd p), p2a_vval = chosen\<rparr>
                         in (p, [PxBroadcast (RapidRequest (Some (Phase2aMessage phase2a)))])))))"

definition handle_phase2a :: "paxos \<Rightarrow> phase2a_message \<Rightarrow> paxos \<times> paxos_outgoing list" where
  "handle_phase2a p msg =
     (if p2a_configuration_id msg \<noteq> px_configuration_id p then (p, [])
      else case p2a_rnd msg of
        None \<Rightarrow> (p, [])
      | Some rnd \<Rightarrow>
          if px_rnd p \<le> rnd \<and> px_vrnd p \<noteq> rnd then
            (let p = p\<lparr>px_rnd := rnd, px_vrnd := rnd, px_vval := p2a_vval msg\<rparr>;
                 response = \<lparr>p2b_sender = Some (px_my_addr p),
                   p2b_configuration_id = px_configuration_id p, p2b_rnd = Some rnd,
                   p2b_endpoints = px_vval p\<rparr>
             in (p, [PxBroadcast (RapidRequest (Some (Phase2bMessage response)))]))
          else (p, []))"

definition handle_phase2b :: "paxos \<Rightarrow> phase2b_message \<Rightarrow> paxos \<times> paxos_outgoing list" where
  "handle_phase2b p msg =
     (if p2b_configuration_id msg \<noteq> px_configuration_id p \<or> px_decided p then (p, [])
      else case p2b_rnd msg of
        None \<Rightarrow> (p, [])
      | Some rnd \<Rightarrow>
          (case p2b_sender msg of
             None \<Rightarrow> (p, [])
           | Some sender \<Rightarrow>
               (let bucket = fmupd (endpoint_key_of sender) msg
                      (fm_get_or fmempty (px_accept_responses p) rnd);
                    p = p\<lparr>px_accept_responses := fmupd rnd bucket (px_accept_responses p)\<rparr>
                in if fm_len bucket > px_n p div 2
                   then (p\<lparr>px_decided := True\<rparr>, [PxDecision (p2b_endpoints msg)])
                   else (p, []))))"

definition register_fast_round_vote :: "paxos \<Rightarrow> endpoint list \<Rightarrow> paxos" where
  "register_fast_round_vote p vote =
     (if sint (rank_round (px_rnd p)) > 1 then p
      else p\<lparr>px_rnd := Rank 1 1, px_vrnd := Rank 1 1, px_vval := vote\<rparr>)"

section \<open>Quorums\<close>

text \<open>
  The size laws the protocol relies on: a fast quorum, a classic quorum, two fast quorums and a
  classic one always share an acceptor. The locale turns them into statements about sets of
  acceptors; it is interpreted on the thresholds the two state machines test.
\<close>

definition classic_quorum :: "nat \<Rightarrow> nat" where
  "classic_quorum n = n div 2 + 1"

definition fast_quorum :: "nat \<Rightarrow> nat" where
  "fast_quorum membership_size = (let f = (membership_size - 1) div 4 in membership_size - f)"

locale quorums =
  fixes classic :: "nat \<Rightarrow> nat" and fast :: "nat \<Rightarrow> nat"
  assumes classic_classic: "n < 2 * classic n"
    and fast_fast_classic: "0 < n \<Longrightarrow> 2 * n < 2 * fast n + classic n"
    and fast_le: "fast n \<le> n" and classic_le: "0 < n \<Longrightarrow> classic n \<le> n"
begin

lemma fast_fast: "0 < n \<Longrightarrow> n < 2 * fast n"
  using fast_fast_classic[of n] classic_le[of n] by linarith

lemma meet:
  assumes "finite A" "X \<subseteq> A" "Y \<subseteq> A" "card A < card X + card Y"
  shows "X \<inter> Y \<noteq> {}"
proof
  assume "X \<inter> Y = {}"
  then have "card X + card Y = card (X \<union> Y)"
    using assms finite_subset by (intro card_Un_disjoint[symmetric]) blast+
  also have "\<dots> \<le> card A" using assms by (intro card_mono) auto
  finally show False using assms(4) by simp
qed

lemma fast_fast_meet:
  assumes "finite A" "A \<noteq> {}" "X \<subseteq> A" "Y \<subseteq> A" "fast (card A) \<le> card X" "fast (card A) \<le> card Y"
  shows "X \<inter> Y \<noteq> {}"
  using assms fast_fast[of "card A"] by (intro meet[of A]) (auto simp: card_gt_0_iff)

lemma classic_meet:
  assumes "finite A" "X \<subseteq> A" "Y \<subseteq> A" "classic (card A) \<le> card X" "classic (card A) \<le> card Y"
  shows "X \<inter> Y \<noteq> {}"
  using assms classic_classic[of "card A"] by (intro meet[of A]) auto

text \<open>Of a classic quorum \<open>Q\<close>, those inside a fast quorum \<open>V\<close> outnumber what is outside it.\<close>

lemma classic_fast_counts:
  assumes A: "finite A" "A \<noteq> {}" "Q \<subseteq> A" "V \<subseteq> A" and Q: "classic (card A) \<le> card Q"
    and V: "fast (card A) \<le> card V"
  shows "card (Q - V) \<le> card A - fast (card A)" "card A - fast (card A) < card (Q \<inter> V)"
    "classic (card A) \<le> card (Q \<inter> V) + (card A - fast (card A))"
proof -
  have fin: "finite Q" "finite V" using A finite_subset by blast+
  have "card (Q - V) \<le> card (A - V)" using A by (intro card_mono) auto
  also have "\<dots> = card A - card V" using A fin by (intro card_Diff_subset) auto
  finally show "card (Q - V) \<le> card A - fast (card A)" using V by linarith
  have "card Q = card (Q \<inter> V) + card (Q - V)"
    using fin by (metis Int_Diff_disjoint Int_Diff_Un card_Un_disjoint finite_Diff finite_Int)
  moreover have "card A - fast (card A) + (card A - fast (card A)) < classic (card A)"
    using fast_fast_classic[of "card A"] fast_le[of "card A"] A by (simp add: card_gt_0_iff)
  ultimately show "card A - fast (card A) < card (Q \<inter> V)"
    "classic (card A) \<le> card (Q \<inter> V) + (card A - fast (card A))"
    using Q \<open>card (Q - V) \<le> card A - fast (card A)\<close> by linarith+
qed

end

interpretation qs: quorums classic_quorum fast_quorum
proof
  fix n :: nat
  show "n < 2 * classic_quorum n" by (simp add: classic_quorum_def)
  show "2 * n < 2 * fast_quorum n + classic_quorum n" if "0 < n"
    using that by (simp add: classic_quorum_def fast_quorum_def Let_def)
  show "fast_quorum n \<le> n" by (simp add: fast_quorum_def Let_def)
  show "classic_quorum n \<le> n" if "0 < n" using that by (simp add: classic_quorum_def)
qed

section \<open>The coordinator rule\<close>

lemma value_key_eq [simp]: "value_key v = value_key w \<longleftrightarrow> v = w"
proof -
  have "inj endpoint_key_of" by simp
  then show ?thesis unfolding value_key_def by (metis inj_map_eq_map)
qed

lemma scan_counters_majority:
  assumes "\<And>w. w \<noteq> v \<Longrightarrow> fm_get_or 0 counters (value_key w) + count_list vs w \<le> q"
    and "q < fm_get_or 0 counters (value_key v) + count_list vs v"
    and "fm_get_or 0 counters (value_key v) \<le> q"
  shows "scan_counters q counters vs = Some v"
  using assms
proof (induction vs arbitrary: counters)
  case (Cons w vs)
  have upd: "fm_get_or 0 (fmupd (value_key w) c counters) (value_key u) =
    (if u = w then c else fm_get_or 0 counters (value_key u))" for u c
    by (simp add: fm_get_or_def)
  let ?c = "fm_get_or 0 counters (value_key w)"
  let ?counters = "fmupd (value_key w) (?c + 1) counters"
  have other: "fm_get_or 0 ?counters (value_key u) + count_list vs u \<le> q" if "u \<noteq> v" for u
    using Cons.prems(1)[OF that] by (cases "u = w") (simp_all add: upd)
  have more: "q < fm_get_or 0 ?counters (value_key v) + count_list vs v"
    using Cons.prems(2) by (cases "v = w") (simp_all add: upd)
  show ?case
  proof (cases "?c + 1 > q")
    case True
    then have "w = v" using Cons.prems(1)[of w] by (cases "w = v") simp_all
    with True show ?thesis by (simp add: Let_def)
  next
    case False
    then have "fm_get_or 0 ?counters (value_key v) \<le> q" using Cons.prems(3) by (simp add: upd)
    from Cons.IH[OF other more this] False show ?thesis by (simp add: Let_def)
  qed
qed simp

lemma count_list_map_filter: "count_list (map f xs) y = length (filter (\<lambda>x. f x = y) xs)"
  by (induction xs) auto

lemma length_filter_mono:
  "(\<And>x. x \<in> set xs \<Longrightarrow> P x \<Longrightarrow> Q x) \<Longrightarrow> length (filter P xs) \<le> length (filter Q xs)"
  by (induction xs) auto

lemma fold_max_ge: "r \<le> fold max rs (r :: 'a :: linorder)" "s \<in> set rs \<Longrightarrow> s \<le> fold max rs r"
proof (induction rs arbitrary: r)
  case (Cons t rs)
  { case 1 show ?case using Cons(1)[of "max t r"] by simp }
  { case 2 then show ?case using Cons(1)[of "max t r"] Cons(2)[of "max t r"] by auto }
qed simp_all

lemma fold_max_in: "fold max rs (r :: 'a :: linorder) \<in> insert r (set rs)"
  by (induction rs arbitrary: r) (auto simp: max_def split: if_splits)

lemma max_vrnd_eq:
  assumes "m \<in> set msgs" "p1b_vrnd m = Some r"
    and "\<And>m' r'. m' \<in> set msgs \<Longrightarrow> p1b_vrnd m' = Some r' \<Longrightarrow> r' \<le> r"
  shows "max_vrnd msgs = Some r"
proof -
  let ?rs = "List.map_filter p1b_vrnd msgs"
  have rin: "r' \<in> set ?rs \<longleftrightarrow> (\<exists>m' \<in> set msgs. p1b_vrnd m' = Some r')" for r'
    by (force simp: List.map_filter_def)
  then have "?rs \<noteq> []" using assms(1,2) by force
  then obtain a rs where rs: "?rs = a # rs" by (meson list.exhaust)
  have "fold max rs a \<in> set ?rs" using fold_max_in[of rs a] rs by simp
  then have "fold max rs a \<le> r" using rin assms(3) by blast
  moreover have "r \<in> insert a (set rs)" using rin[of r] assms(1,2) rs by auto
  then have "r \<le> fold max rs a" using fold_max_ge by blast
  ultimately show ?thesis by (simp add: max_vrnd_def rs)
qed

lemma select_proposal_collected:
  assumes "max_vrnd msgs = Some r" and "collected_vvals msgs r \<noteq> []"
    and "\<And>w. w \<noteq> v \<Longrightarrow> count_list (collected_vvals msgs r) w \<le> n div 4"
    and "n div 4 < count_list (collected_vvals msgs r) v"
  shows "select_proposal_from_messages msgs n = v"
proof -
  let ?c = "collected_vvals msgs r"
  have ne: "msgs \<noteq> []" using assms(2) by (auto simp: collected_vvals_def)
  have scan: "scan_counters (n div 4) fmempty ?c = Some v"
    using assms(3,4) by (intro scan_counters_majority) (auto simp: fm_get_or_def)
  have vin: "v \<in> set ?c" using assms(4) by (metis count_notin not_less_zero)
  have "hd ?c = v" if "length (remdups (map value_key ?c)) = 1"
  proof -
    have "card (value_key ` set ?c) = 1" using that by (simp add: length_remdups_card_conv)
    then obtain k where "value_key ` set ?c = {k}" by (auto simp: card_1_singleton_iff)
    moreover have "hd ?c \<in> set ?c" using assms(2) by simp
    ultimately have "value_key (hd ?c) = value_key v" using vin by (metis imageI singletonD)
    then show ?thesis by simp
  qed
  then show ?thesis
    using scan assms(1,2) ne by (auto simp: select_proposal_from_messages_def Let_def split: list.split)
qed

text \<open>The senders of a list of phase 1b messages.\<close>

definition p1b_senders :: "phase1b_message list \<Rightarrow> endpoint set" where
  "p1b_senders msgs = {s. Some s \<in> set (map p1b_sender msgs)}"

lemma filter_sender_card:
  assumes "distinct (map p1b_sender msgs)" "None \<notin> set (map p1b_sender msgs)"
  shows "length (filter (\<lambda>m. the (p1b_sender m) \<in> V) msgs) = card (p1b_senders msgs \<inter> V)"
    "length (filter (\<lambda>m. the (p1b_sender m) \<notin> V) msgs) = card (p1b_senders msgs - V)"
proof -
  have *: "length (filter (\<lambda>m. the (p1b_sender m) \<in> W) msgs) = card (p1b_senders msgs \<inter> W)" for W
  proof -
    let ?L = "filter (\<lambda>m. the (p1b_sender m) \<in> W) msgs"
    have d: "distinct (map p1b_sender ?L)" using assms(1) by (simp add: distinct_map_filter)
    have "inj_on the (set (map p1b_sender ?L))"
      using assms(2) by (auto simp: inj_on_def image_iff) (metis option.expand)
    then have "distinct (map the (map p1b_sender ?L))" using d by (simp add: distinct_map comp_inj_on)
    then have "length ?L = card (set (map the (map p1b_sender ?L)))" by (metis distinct_card length_map)
    also have "set (map the (map p1b_sender ?L)) = p1b_senders msgs \<inter> W"
    proof -
      have "p1b_sender m = Some (the (p1b_sender m))" if "m \<in> set msgs" for m
        using assms(2) that by (metis image_eqI list.set_map option.collapse)
      then show ?thesis by (auto simp: p1b_senders_def image_iff) (metis option.sel)+
    qed
    finally show ?thesis .
  qed
  show "length (filter (\<lambda>m. the (p1b_sender m) \<in> V) msgs) = card (p1b_senders msgs \<inter> V)" by (rule *)
  show "length (filter (\<lambda>m. the (p1b_sender m) \<notin> V) msgs) = card (p1b_senders msgs - V)"
    using *[of "- V"] by (simp add: Diff_eq)
qed

text \<open>
  The coordinator rule recovers a fast choice. Let a fast quorum \<open>V\<close> of the \<open>n\<close> acceptors have
  voted \<open>v\<close> in the fast round, and let the coordinator hold phase 1b messages from more than
  \<open>n div 2\<close> distinct acceptors none of which reports a vote above the fast round. If those of \<open>V\<close>
  report their vote, the rule selects \<open>v\<close>, so the classic round cannot decide anything else.
\<close>

lemma coordinator_rule_safe:
  assumes "finite A" and "card A = n" and "v \<noteq> []"
    and "V \<subseteq> A" and "fast_quorum n \<le> card V"
    and "distinct (map p1b_sender msgs)" and "set (map p1b_sender msgs) \<subseteq> Some ` A"
    and "n div 2 < length msgs"
    and "\<And>m. m \<in> set msgs \<Longrightarrow> the (p1b_sender m) \<in> V \<Longrightarrow> p1b_vrnd m = Some (Rank 1 1) \<and> p1b_vval m = v"
    and "\<And>m r. m \<in> set msgs \<Longrightarrow> p1b_vrnd m = Some r \<Longrightarrow> r \<le> Rank 1 1"
  shows "select_proposal_from_messages msgs n = v"
proof -
  let ?Q = "p1b_senders msgs" and ?r = "Rank 1 1"
  have nn: "None \<notin> set (map p1b_sender msgs)" using assms(7) by auto
  have Q: "?Q \<subseteq> A" using assms(7) by (auto simp: p1b_senders_def)
  have cQ: "card ?Q = length msgs"
    using filter_sender_card(1)[OF assms(6) nn, of UNIV] by simp
  have ne: "A \<noteq> {}" using assms(1,2,7,8) by fastforce
  have cl: "classic_quorum (card A) \<le> card ?Q" using cQ assms(2,8) by (simp add: classic_quorum_def)
  note counts = qs.classic_fast_counts[OF assms(1) ne Q assms(4) cl, unfolded assms(2), OF assms(5)]
  have f: "n - fast_quorum n \<le> n div 4" by (simp add: fast_quorum_def Let_def)
  have big: "n div 4 < card (?Q \<inter> V)"
    using counts(3) by (simp add: classic_quorum_def fast_quorum_def Let_def)
  then obtain m where m: "m \<in> set msgs" "the (p1b_sender m) \<in> V"
    using filter_sender_card(1)[OF assms(6) nn, of V] by (metis filter_False list.size(3) not_less_zero)
  have mx: "max_vrnd msgs = Some ?r"
    using assms(9)[OF m] assms(10) m(1) by (intro max_vrnd_eq) auto
  let ?c = "collected_vvals msgs ?r"
  have cnt: "count_list ?c w = length (filter (\<lambda>m. p1b_vrnd m = Some ?r \<and> p1b_vval m \<noteq> [] \<and> p1b_vval m = w) msgs)" for w
    by (simp add: collected_vvals_def count_list_map_filter conj_ac)
  have "count_list ?c w \<le> n div 4" if "w \<noteq> v" for w
  proof -
    have "count_list ?c w \<le> length (filter (\<lambda>m. the (p1b_sender m) \<notin> V) msgs)"
      unfolding cnt using assms(9) that by (intro length_filter_mono) auto
    then show ?thesis using filter_sender_card(2)[OF assms(6) nn, of V] counts(1) f by linarith
  qed
  moreover have "n div 4 < count_list ?c v"
  proof -
    have "length (filter (\<lambda>m. the (p1b_sender m) \<in> V) msgs) \<le> count_list ?c v"
      unfolding cnt using assms(3,9) by (intro length_filter_mono) auto
    then show ?thesis using filter_sender_card(1)[OF assms(6) nn, of V] big by linarith
  qed
  moreover from this have "?c \<noteq> []" by auto
  ultimately show ?thesis by (intro select_proposal_collected[OF mx])
qed

section \<open>The acceptor over histories\<close>

datatype paxos_event =
    StartPhase1aEv i32
  | Phase1aEv phase1a_message
  | Phase1bEv phase1b_message
  | Phase2aEv phase2a_message
  | Phase2bEv phase2b_message
  | FastVoteEv "endpoint list"

fun paxos_react :: "xxh64_fn \<Rightarrow> paxos \<Rightarrow> paxos_event \<Rightarrow> paxos \<times> paxos_outgoing list" where
  "paxos_react x p (StartPhase1aEv r) = start_phase1a x p r"
| "paxos_react x p (Phase1aEv m) = handle_phase1a p m"
| "paxos_react x p (Phase1bEv m) = handle_phase1b p m"
| "paxos_react x p (Phase2aEv m) = handle_phase2a p m"
| "paxos_react x p (Phase2bEv m) = handle_phase2b p m"
| "paxos_react x p (FastVoteEv v) = (register_fast_round_vote p v, [])"

definition paxos_step :: "xxh64_fn \<Rightarrow> paxos \<Rightarrow> paxos_event \<Rightarrow> paxos" where
  "paxos_step x p ev = fst (paxos_react x p ev)"

fun paxos_outs :: "xxh64_fn \<Rightarrow> paxos \<Rightarrow> paxos_event list \<Rightarrow> paxos_outgoing list" where
  "paxos_outs x p [] = []"
| "paxos_outs x p (ev # evs) = snd (paxos_react x p ev) @ paxos_outs x (paxos_step x p ev) evs"

text \<open>Classic messages carry a round above the fast round, as the fallback's always do.\<close>

definition classic_rank :: "rank \<Rightarrow> bool" where
  "classic_rank r \<longleftrightarrow> 1 < sint (rank_round r)"

definition classic_event :: "paxos_event \<Rightarrow> bool" where
  "classic_event ev = (case ev of
       Phase1aEv m \<Rightarrow> (case p1a_rank m of None \<Rightarrow> True | Some r \<Rightarrow> classic_rank r)
     | Phase2aEv m \<Rightarrow> (case p2a_rnd m of None \<Rightarrow> True | Some r \<Rightarrow> classic_rank r)
     | _ \<Rightarrow> True)"

definition acceptor_inv :: "paxos \<Rightarrow> bool" where
  "acceptor_inv p \<longleftrightarrow> px_vrnd p \<le> px_rnd p \<and> (classic_rank (px_rnd p) \<or> px_rnd p \<le> Rank 1 1)"

lemmas paxos_handler_defs = start_phase1a_def handle_phase1a_def handle_phase1b_def
  handle_phase2a_def handle_phase2b_def register_fast_round_vote_def Let_def

lemma paxos_step_inv:
  "acceptor_inv p \<Longrightarrow> classic_event ev \<Longrightarrow> acceptor_inv (paxos_step x p ev)"
  by (cases ev)
    (auto simp: paxos_step_def paxos_handler_defs acceptor_inv_def classic_event_def
      split: option.splits if_splits)

lemma rank_less_classic: "classic_rank r \<Longrightarrow> Rank 1 1 < r"
  by (simp add: classic_rank_def less_rank_def rank_tuple_def)

lemma paxos_step_mono:
  assumes "acceptor_inv p" "classic_event ev"
  shows "px_rnd p \<le> px_rnd (paxos_step x p ev) \<and> px_vrnd p \<le> px_vrnd (paxos_step x p ev)"
  using assms
  by (cases ev)
    (auto simp: paxos_step_def paxos_handler_defs acceptor_inv_def classic_event_def classic_rank_def
      split: option.splits if_splits)

interpretation pm: event_machine "paxos_step x" acceptor_inv classic_event for x
  by unfold_locales (rule paxos_step_inv)

lemma paxos_run_mono:
  assumes "acceptor_inv p" "list_all classic_event evs"
  shows "px_rnd p \<le> px_rnd (run (paxos_step x) p evs)" "px_vrnd p \<le> px_vrnd (run (paxos_step x) p evs)"
  using pm.run_mono[of px_rnd x p evs] pm.run_mono[of px_vrnd x p evs] paxos_step_mono[of _ _ x] assms
  by auto

lemma acceptor_inv_new [simp]: "acceptor_inv (paxos_new a c n)"
  by (simp add: acceptor_inv_def paxos_new_def Let_def less_eq_rank_def rank_tuple_def)

text \<open>
  C38. Promises are kept. An acceptor that satisfies \<open>acceptor_inv\<close> (a new one does) and has answered a phase 1a of a classic
  rank \<open>r\<close> never afterwards accepts a value of a lower rank nor registers a fast-round vote, whatever further
  messages it handles, as long as those of phases 1a and 2a that have a rank have a classic one.
\<close>

theorem promise_kept:
  assumes "acceptor_inv p" and "list_all classic_event (Phase1aEv m # evs)"
    and "handle_phase1a p m = (p', outs)" and "outs \<noteq> []" and "p1a_rank m = Some r"
    and "p2a_rnd m2 = Some r2" and "r2 < r"
  shows "handle_phase2a (run (paxos_step x) p' evs) m2 = (run (paxos_step x) p' evs, []) \<and>
    register_fast_round_vote (run (paxos_step x) p' evs) v = run (paxos_step x) p' evs"
proof -
  let ?p = "run (paxos_step x) p' evs"
  have p': "px_rnd p' = r" using assms(3-5) by (auto simp: handle_phase1a_def Let_def split: if_splits option.splits)
  have "acceptor_inv p'"
    using paxos_step_inv[OF assms(1), of "Phase1aEv m" x] assms(2,3) by (simp add: paxos_step_def)
  then have le: "r \<le> px_rnd ?p" using paxos_run_mono(1)[of p' evs x] assms(2) p' by simp
  then have "\<not> px_rnd ?p \<le> r2" using assms(7) by simp
  moreover have "1 < sint (rank_round (px_rnd ?p))"
  proof -
    have "1 < sint (rank_round r)"
      using assms(2,5) by (simp add: classic_event_def classic_rank_def)
    moreover have "sint (rank_round r) \<le> sint (rank_round (px_rnd ?p))"
      using le by (auto simp: less_eq_rank_def rank_tuple_def)
    ultimately show ?thesis by simp
  qed
  ultimately show ?thesis using assms(6)
    by (auto simp: handle_phase2a_def register_fast_round_vote_def)
qed

definition demo_p1a :: "nat \<Rightarrow> rank \<Rightarrow> phase1a_message" where
  "demo_p1a n r = \<lparr>p1a_sender = Some (demo_ep n), p1a_configuration_id = 0, p1a_rank = Some r\<rparr>"

definition demo_p2a :: "nat \<Rightarrow> rank \<Rightarrow> endpoint list \<Rightarrow> phase2a_message" where
  "demo_p2a n r v = \<lparr>p2a_sender = Some (demo_ep n), p2a_configuration_id = 0, p2a_rnd = Some r,
     p2a_vval = v\<rparr>"

definition demo_promised :: paxos where
  "demo_promised = fst (handle_phase1a (paxos_new (demo_ep 1) 0 5) (demo_p1a 2 (Rank 3 4)))"

theorem promise_kept_witness:
  "handle_phase2a (run (paxos_step demo_hash) demo_promised [Phase1aEv (demo_p1a 3 (Rank 2 9))])
      (demo_p2a 5 (Rank 2 1) [demo_ep 9]) =
     (run (paxos_step demo_hash) demo_promised [Phase1aEv (demo_p1a 3 (Rank 2 9))], []) \<and>
   register_fast_round_vote (run (paxos_step demo_hash) demo_promised [Phase1aEv (demo_p1a 3 (Rank 2 9))])
      [demo_ep 8] = run (paxos_step demo_hash) demo_promised [Phase1aEv (demo_p1a 3 (Rank 2 9))]"
proof (rule promise_kept[OF acceptor_inv_new])
  let ?m = "demo_p1a 2 (Rank 3 4)"
  show "list_all classic_event [Phase1aEv ?m, Phase1aEv (demo_p1a 3 (Rank 2 9))]" by code_simp
  show "handle_phase1a (paxos_new (demo_ep 1) 0 5) ?m =
    (demo_promised, snd (handle_phase1a (paxos_new (demo_ep 1) 0 5) ?m))"
    by (simp add: demo_promised_def)
  have "\<not> List.null (snd (handle_phase1a (paxos_new (demo_ep 1) 0 5) ?m))" by code_simp
  then show "snd (handle_phase1a (paxos_new (demo_ep 1) 0 5) ?m) \<noteq> []" by auto
  show "p1a_rank ?m = Some (Rank 3 4)" by (simp add: demo_p1a_def)
  show "p2a_rnd (demo_p2a 5 (Rank 2 1) [demo_ep 9]) = Some (Rank 2 1)" by (simp add: demo_p2a_def)
  show "Rank 2 1 < Rank 3 4" by code_simp
qed

fun phase2b_ranks :: "paxos_outgoing list \<Rightarrow> rank list" where
  "phase2b_ranks [] = []"
| "phase2b_ranks (PxBroadcast (RapidRequest (Some (Phase2bMessage m))) # os) =
     (case p2b_rnd m of None \<Rightarrow> phase2b_ranks os | Some r \<Rightarrow> r # phase2b_ranks os)"
| "phase2b_ranks (_ # os) = phase2b_ranks os"

lemma phase2b_ranks_append [simp]: "phase2b_ranks (xs @ ys) = phase2b_ranks xs @ phase2b_ranks ys"
  by (induction xs rule: phase2b_ranks.induct) (auto split: option.split)

lemma react_phase2b:
  assumes "acceptor_inv p" "r \<in> set (phase2b_ranks (snd (paxos_react x p ev)))"
  shows "phase2b_ranks (snd (paxos_react x p ev)) = [r]" "px_vrnd p < r" "px_vrnd (paxos_step x p ev) = r"
  using assms
  by (cases ev; auto simp: paxos_step_def paxos_handler_defs acceptor_inv_def less_le
      split: option.splits if_splits)+

lemma phase2b_ranks_sorted:
  assumes "acceptor_inv p" "list_all classic_event evs"
  shows "sorted_wrt (<) (phase2b_ranks (paxos_outs x p evs)) \<and>
    (\<forall>r \<in> set (phase2b_ranks (paxos_outs x p evs)). px_vrnd p < r)"
  using assms
proof (induction evs arbitrary: p)
  case (Cons ev evs)
  let ?q = "paxos_step x p ev" and ?o = "phase2b_ranks (snd (paxos_react x p ev))"
  have IH: "sorted_wrt (<) (phase2b_ranks (paxos_outs x ?q evs))"
    "\<forall>r \<in> set (phase2b_ranks (paxos_outs x ?q evs)). px_vrnd ?q < r"
    using Cons.IH[of ?q] Cons.prems paxos_step_inv by simp_all
  have le: "px_vrnd p \<le> px_vrnd ?q" using paxos_step_mono[of p ev x] Cons.prems by simp
  show ?case
  proof (cases ?o)
    case Nil
    then show ?thesis using IH le by (auto intro: order.strict_trans1)
  next
    case (Cons r rs)
    then have r: "?o = [r]" "px_vrnd p < r" "px_vrnd ?q = r"
      using react_phase2b[of p r x ev] \<open>acceptor_inv p\<close> by simp_all
    then show ?thesis using IH by (auto intro: order.strict_trans)
  qed
qed simp

text \<open>
  One vote per rank. In any history from a fresh acceptor the ranks of the phase 2b messages it
  broadcasts are strictly increasing: it never votes twice in the same classic round, and never
  votes in a round lower than one it has voted in.
\<close>

lemma one_vote_per_rank:
  assumes "list_all classic_event evs"
  shows "sorted_wrt (<) (phase2b_ranks (paxos_outs x (paxos_new a c n) evs))"
  using phase2b_ranks_sorted[OF acceptor_inv_new assms] by blast

section \<open>Decisions\<close>

text \<open>
  The senders of phase 2b messages of one rank in a history, and the decisions a history emits.
\<close>

definition phase2b_senders :: "i64 \<Rightarrow> paxos_event list \<Rightarrow> rank \<Rightarrow> endpoint set" where
  "phase2b_senders c evs r = {s. \<exists>m. Phase2bEv m \<in> set evs \<and> p2b_configuration_id m = c \<and>
     p2b_rnd m = Some r \<and> p2b_sender m = Some s}"

fun decisions :: "paxos_outgoing list \<Rightarrow> endpoint list list" where
  "decisions [] = []"
| "decisions (PxDecision v # os) = v # decisions os"
| "decisions (_ # os) = decisions os"

lemma decisions_append [simp]: "decisions (xs @ ys) = decisions xs @ decisions ys"
  by (induction xs rule: decisions.induct) auto

text \<open>Every recorded response was received: the invariant behind the vote count.\<close>

definition bucket_of :: "paxos \<Rightarrow> rank \<Rightarrow> (endpoint_key, phase2b_message) fmap" where
  "bucket_of p r = fm_get_or fmempty (px_accept_responses p) r"

definition responses_received :: "paxos \<Rightarrow> paxos_event list \<Rightarrow> bool" where
  "responses_received p past \<longleftrightarrow>
     (\<forall>r. fset (fmdom (bucket_of p r)) \<subseteq>
        endpoint_key_of ` phase2b_senders (px_configuration_id p) past r)"

lemma paxos_step_frame [simp]:
  "px_configuration_id (paxos_step x p ev) = px_configuration_id p"
  "px_n (paxos_step x p ev) = px_n p" "px_my_addr (paxos_step x p ev) = px_my_addr p"
  by (cases ev; auto simp: paxos_step_def paxos_handler_defs split: option.splits)+

lemma paxos_step_bucket:
  "bucket_of (paxos_step x p ev) r = (case ev of
      Phase2bEv m \<Rightarrow>
        (if p2b_configuration_id m = px_configuration_id p \<and> \<not> px_decided p \<and> p2b_rnd m = Some r
         then (case p2b_sender m of None \<Rightarrow> bucket_of p r
               | Some s \<Rightarrow> fmupd (endpoint_key_of s) m (bucket_of p r))
         else bucket_of p r)
    | _ \<Rightarrow> bucket_of p r)"
  by (cases ev)
    (auto simp: paxos_step_def paxos_handler_defs bucket_of_def fm_get_or_def split: option.splits)

lemma responses_received_step:
  assumes "responses_received p past"
  shows "responses_received (paxos_step x p ev) (past @ [ev])"
proof -
  have mono: "phase2b_senders c past r \<subseteq> phase2b_senders c (past @ [ev]) r" for c r
    by (auto simp: phase2b_senders_def)
  show ?thesis
    unfolding responses_received_def
  proof (intro allI)
    fix r
    let ?S = "endpoint_key_of ` phase2b_senders (px_configuration_id p) (past @ [ev]) r"
    have "fset (fmdom (bucket_of p r)) \<subseteq> ?S"
      using assms mono by (fastforce simp: responses_received_def)
    moreover have "endpoint_key_of s \<in> ?S"
      if "ev = Phase2bEv m" "p2b_configuration_id m = px_configuration_id p" "p2b_rnd m = Some r"
        "p2b_sender m = Some s" for m s
      using that by (auto simp: phase2b_senders_def)
    ultimately show "fset (fmdom (bucket_of (paxos_step x p ev) r))
      \<subseteq> endpoint_key_of ` phase2b_senders (px_configuration_id (paxos_step x p ev)) (past @ [ev]) r"
      by (auto simp: paxos_step_bucket split: paxos_event.split option.split)
  qed
qed

lemma paxos_step_decided:
  "px_decided p \<Longrightarrow> px_decided (paxos_step x p ev)"
  "px_decided p \<Longrightarrow> decisions (snd (paxos_react x p ev)) = []"
  by (cases ev; auto simp: paxos_step_def paxos_handler_defs split: option.splits)+

lemma decided_no_decisions: "px_decided p \<Longrightarrow> decisions (paxos_outs x p evs) = []"
  by (induction evs arbitrary: p) (auto simp: paxos_step_decided)

lemma react_decision:
  assumes "v \<in> set (decisions (snd (paxos_react x p ev)))"
  obtains m r where "ev = Phase2bEv m" "p2b_configuration_id m = px_configuration_id p"
    "p2b_rnd m = Some r" "p2b_endpoints m = v" "decisions (snd (paxos_react x p ev)) = [v]"
    "px_decided (paxos_step x p ev)" "px_n p div 2 < fm_len (bucket_of (paxos_step x p ev) r)"
  using assms
  by (cases ev)
    (auto simp: paxos_step_def paxos_handler_defs bucket_of_def fm_get_or_def
      split: option.splits if_splits)

lemma decisions_quorum_step:
  assumes rec: "responses_received p past"
    and v: "v \<in> set (decisions (paxos_outs x p evs))"
  shows "\<exists>r m. px_n p div 2 < card (phase2b_senders (px_configuration_id p) (past @ evs) r) \<and>
    Phase2bEv m \<in> set evs \<and> p2b_configuration_id m = px_configuration_id p \<and>
    p2b_rnd m = Some r \<and> p2b_endpoints m = v \<and> decisions (paxos_outs x p evs) = [v]"
  using assms
proof (induction evs arbitrary: p past)
  case (Cons ev evs)
  let ?q = "paxos_step x p ev"
  have rec': "responses_received ?q (past @ [ev])" by (rule responses_received_step[OF Cons.prems(1)])
  show ?case
  proof (cases "decisions (snd (paxos_react x p ev)) = []")
    case True
    then have "v \<in> set (decisions (paxos_outs x ?q evs))" using Cons.prems(2) by simp
    from Cons.IH[OF rec' this] show ?thesis using True by auto
  next
    case False
    then obtain w where "w \<in> set (decisions (snd (paxos_react x p ev)))" by fastforce
    then obtain m r where m: "ev = Phase2bEv m" "p2b_configuration_id m = px_configuration_id p"
      "p2b_rnd m = Some r" "p2b_endpoints m = w" "decisions (snd (paxos_react x p ev)) = [w]"
      "px_decided ?q" "px_n p div 2 < fm_len (bucket_of ?q r)" by (rule react_decision)
    have nil: "decisions (paxos_outs x ?q evs) = []" using decided_no_decisions[OF m(6)] .
    then have w: "w = v" using Cons.prems(2) m(5) by simp
    let ?S = "phase2b_senders (px_configuration_id p) (past @ ev # evs) r"
    have "phase2b_senders (px_configuration_id p) (past @ [ev]) r \<subseteq> ?S"
      by (auto simp: phase2b_senders_def)
    then have sub: "fset (fmdom (bucket_of ?q r)) \<subseteq> endpoint_key_of ` ?S"
      using rec' by (fastforce simp: responses_received_def)
    have "finite (phase2b_senders (px_configuration_id p) (past @ ev # evs) r)"
      by (rule finite_subset[of _ "the ` p2b_sender ` (\<lambda>e. case e of Phase2bEv m \<Rightarrow> m) ` set (past @ ev # evs)"])
        (force simp: phase2b_senders_def image_iff)+
    then have "fm_len (bucket_of ?q r) \<le> card ?S"
      using card_mono[OF _ sub] by (simp add: fm_len_def fcard.rep_eq card_image)
    then show ?thesis using m w nil by (intro exI[of _ r] exI[of _ m]) auto
  qed
qed simp

text \<open>
  What a classic decision rests on. If a fresh instance for \<open>n\<close> members decides \<open>v\<close> in some
  history, then more than \<open>n div 2\<close> distinct senders sent it a phase 2b message of one rank in its
  configuration, one of which carried \<open>v\<close>, and the history contains no second decision.
\<close>

lemma classic_decision_quorum:
  assumes "v \<in> set (decisions (paxos_outs x (paxos_new a c n) evs))"
  shows "\<exists>r m. n div 2 < card (phase2b_senders c evs r) \<and> Phase2bEv m \<in> set evs \<and>
    p2b_configuration_id m = c \<and> p2b_rnd m = Some r \<and> p2b_endpoints m = v \<and>
    decisions (paxos_outs x (paxos_new a c n) evs) = [v]"
proof -
  have "responses_received (paxos_new a c n) []"
    by (simp add: responses_received_def bucket_of_def paxos_new_def Let_def fm_get_or_def)
  from decisions_quorum_step[OF this assms] show ?thesis by (simp add: paxos_new_def Let_def)
qed

end
