(* ===== verification/Fast_Paxos.thy ===== *)
theory Fast_Paxos
  imports Paxos
begin

text \<open>
  \<^verbatim>\<open>crates/rapid/src/consensus/fast_paxos.rs\<close>: the fast round, its vote counting, the classic
  fallback and the dispatch of consensus messages. The exponential jitter of
  \<^verbatim>\<open>random_delay\<close> is drawn from a random number in floating point; the drawn number of
  milliseconds is the argument \<open>jitter\<close>. Durations are milliseconds. \<^verbatim>\<open>membership_size - f\<close>
  cannot underflow because \<open>f \<le> membership_size\<close>.

  Properties: a fast decision rests on a fast quorum of distinct senders, fast quorums
  intersect, one decision per fast round, and how a fast vote and the classic fallback interact.
\<close>

section \<open>State and operations\<close>

datatype fast_outgoing =
    FastBroadcast rapid_request
  | FastUnicast endpoint rapid_request
  | ScheduleClassicFallback nat
  | FastDecision "endpoint list"

record fast_paxos =
  fp_my_addr :: endpoint
  fp_configuration_id :: i64
  fp_membership_size :: nat
  fp_paxos :: paxos
  fp_votes_received :: "endpoint_key fset"
  fp_votes_per_proposal :: "(endpoint_key list, nat) fmap"
  fp_proposal_lookup :: "(endpoint_key list, endpoint list) fmap"
  fp_decided :: bool
  fp_fallback_base_delay :: nat
  fp_classic_started :: bool

definition fast_paxos_new :: "endpoint \<Rightarrow> i64 \<Rightarrow> nat \<Rightarrow> nat \<Rightarrow> fast_paxos" where
  "fast_paxos_new my_addr configuration_id membership_size fallback_base_delay =
     \<lparr>fp_my_addr = my_addr, fp_configuration_id = configuration_id,
      fp_membership_size = membership_size,
      fp_paxos = paxos_new my_addr configuration_id membership_size,
      fp_votes_received = {||}, fp_votes_per_proposal = fmempty, fp_proposal_lookup = fmempty,
      fp_decided = False, fp_fallback_base_delay = fallback_base_delay,
      fp_classic_started = False\<rparr>"

definition random_delay :: "nat \<Rightarrow> fast_paxos \<Rightarrow> nat" where
  "random_delay jitter fp = fp_fallback_base_delay fp + jitter"

definition propose :: "nat \<Rightarrow> fast_paxos \<Rightarrow> endpoint list \<Rightarrow> fast_paxos \<times> fast_outgoing list" where
  "propose jitter fp proposal =
     (let fp = fp\<lparr>fp_paxos := register_fast_round_vote (fp_paxos fp) proposal\<rparr>;
          msg = \<lparr>fr_sender = Some (fp_my_addr fp), fr_configuration_id = fp_configuration_id fp,
            fr_endpoints = proposal\<rparr>
      in (fp, [FastBroadcast (RapidRequest (Some (FastRoundPhase2bMessage msg))),
               ScheduleClassicFallback (random_delay jitter fp)]))"

definition handle_fast_round_proposal ::
  "fast_paxos \<Rightarrow> fast_round_phase2b_message \<Rightarrow> fast_paxos \<times> fast_outgoing list" where
  "handle_fast_round_proposal fp msg =
     (if fr_configuration_id msg \<noteq> fp_configuration_id fp \<or> fp_decided fp then (fp, [])
      else case fr_sender msg of
        None \<Rightarrow> (fp, [])
      | Some sender \<Rightarrow>
          (let sender_key = endpoint_key_of sender in
           if sender_key |\<in>| fp_votes_received fp then (fp, [])
           else
             (let key = value_key (fr_endpoints msg);
                  count = fm_get_or 0 (fp_votes_per_proposal fp) key + 1;
                  fp = fp\<lparr>fp_votes_received := finsert sender_key (fp_votes_received fp),
                          fp_proposal_lookup :=
                            fmupd key (fm_get_or (fr_endpoints msg) (fp_proposal_lookup fp) key)
                              (fp_proposal_lookup fp),
                          fp_votes_per_proposal := fmupd key count (fp_votes_per_proposal fp)\<rparr>
              in if fcard (fp_votes_received fp) \<ge> fast_quorum (fp_membership_size fp)
                    \<and> count \<ge> fast_quorum (fp_membership_size fp)
                 then (fp\<lparr>fp_decided := True\<rparr>, [FastDecision (fr_endpoints msg)])
                 else (fp, []))))"

fun wrap :: "paxos_outgoing \<Rightarrow> fast_outgoing" where
  "wrap (PxBroadcast req) = FastBroadcast req"
| "wrap (PxUnicast target request) = FastUnicast target request"
| "wrap (PxDecision d) = FastDecision d"

definition start_classic_round :: "xxh64_fn \<Rightarrow> fast_paxos \<Rightarrow> fast_paxos \<times> fast_outgoing list" where
  "start_classic_round x fp =
     (if fp_decided fp \<or> fp_classic_started fp then (fp, [])
      else
        (let (p, outs) = start_phase1a x (fp_paxos fp) 2
         in (fp\<lparr>fp_classic_started := True, fp_paxos := p\<rparr>, map wrap outs)))"

definition handle_paxos ::
  "fast_paxos \<Rightarrow> paxos \<times> paxos_outgoing list \<Rightarrow> fast_paxos \<times> fast_outgoing list" where
  "handle_paxos fp r =
     (let fp = fp\<lparr>fp_paxos := fst r\<rparr>;
          fp = (if px_decided (fp_paxos fp) then fp\<lparr>fp_decided := True\<rparr> else fp)
      in (fp, map wrap (snd r)))"

definition handle_consensus_message ::
  "fast_paxos \<Rightarrow> rapid_request \<Rightarrow> fast_paxos \<times> fast_outgoing list" where
  "handle_consensus_message fp request =
     (case req_content request of
        None \<Rightarrow> (fp, [])
      | Some (Phase1aMessage msg) \<Rightarrow> handle_paxos fp (handle_phase1a (fp_paxos fp) msg)
      | Some (Phase1bMessage msg) \<Rightarrow> handle_paxos fp (handle_phase1b (fp_paxos fp) msg)
      | Some (Phase2aMessage msg) \<Rightarrow> handle_paxos fp (handle_phase2a (fp_paxos fp) msg)
      | Some (Phase2bMessage msg) \<Rightarrow> handle_paxos fp (handle_phase2b (fp_paxos fp) msg)
      | Some (FastRoundPhase2bMessage msg) \<Rightarrow> handle_fast_round_proposal fp msg
      | _ \<Rightarrow> (fp, []))"

section \<open>Vote counting\<close>

type_synonym vote = fast_round_phase2b_message

definition count_vote :: "fast_paxos \<Rightarrow> vote \<Rightarrow> fast_paxos" where
  "count_vote fp m = fst (handle_fast_round_proposal fp m)"

fun fast_decisions :: "fast_paxos \<Rightarrow> vote list \<Rightarrow> endpoint list list" where
  "fast_decisions fp [] = []"
| "fast_decisions fp (m # ms) =
     (case snd (handle_fast_round_proposal fp m) of
        [FastDecision v] \<Rightarrow> v # fast_decisions (count_vote fp m) ms
      | _ \<Rightarrow> fast_decisions (count_vote fp m) ms)"

definition voters :: "i64 \<Rightarrow> vote list \<Rightarrow> endpoint list \<Rightarrow> endpoint set" where
  "voters c ms v = {s. \<exists>m \<in> set ms. fr_configuration_id m = c \<and> fr_sender m = Some s \<and> fr_endpoints m = v}"

text \<open>
  \<open>W\<close> records for every sender counted so far the value of the vote that was counted; the counters
  are the sizes of its classes.
\<close>

definition votes_by :: "fast_paxos \<Rightarrow> vote list \<Rightarrow> (endpoint, endpoint list) fmap \<Rightarrow> bool" where
  "votes_by fp past W \<longleftrightarrow>
     fset (fp_votes_received fp) = endpoint_key_of ` fset (fmdom W) \<and>
     (\<forall>v. fm_get_or 0 (fp_votes_per_proposal fp) (value_key v) = card {s. fmlookup W s = Some v}) \<and>
     (\<forall>s v. fmlookup W s = Some v \<longrightarrow> s \<in> voters (fp_configuration_id fp) past v)"

lemma count_vote_frame [simp]:
  "fp_configuration_id (count_vote fp m) = fp_configuration_id fp"
  "fp_membership_size (count_vote fp m) = fp_membership_size fp"
  "fp_paxos (count_vote fp m) = fp_paxos fp" "fp_my_addr (count_vote fp m) = fp_my_addr fp"
  "fp_classic_started (count_vote fp m) = fp_classic_started fp"
  by (auto simp: count_vote_def handle_fast_round_proposal_def Let_def split: option.split)

definition counted :: "fast_paxos \<Rightarrow> vote \<Rightarrow> endpoint \<Rightarrow> bool" where
  "counted fp m s \<longleftrightarrow> fr_configuration_id m = fp_configuration_id fp \<and> \<not> fp_decided fp \<and>
     fr_sender m = Some s \<and> endpoint_key_of s |\<notin>| fp_votes_received fp"

lemma not_counted:
  assumes "\<And>s. \<not> counted fp m s"
  shows "handle_fast_round_proposal fp m = (fp, [])"
  using assms by (auto simp: handle_fast_round_proposal_def counted_def Let_def split: option.split)

lemma counted_state:
  assumes "counted fp m s"
  shows "fp_votes_received (count_vote fp m) = finsert (endpoint_key_of s) (fp_votes_received fp)"
    "fm_get_or 0 (fp_votes_per_proposal (count_vote fp m)) k =
       fm_get_or 0 (fp_votes_per_proposal fp) k + (if k = value_key (fr_endpoints m) then 1 else 0)"
    "fp_decided (count_vote fp m) \<longleftrightarrow>
       fast_quorum (fp_membership_size fp) \<le> fcard (finsert (endpoint_key_of s) (fp_votes_received fp)) \<and>
       fast_quorum (fp_membership_size fp) \<le> fm_get_or 0 (fp_votes_per_proposal fp) (value_key (fr_endpoints m)) + 1"
    "snd (handle_fast_round_proposal fp m) =
       (if fp_decided (count_vote fp m) then [FastDecision (fr_endpoints m)] else [])"
  using assms
  by (auto simp: counted_def count_vote_def handle_fast_round_proposal_def Let_def fm_get_or_def)

lemma voters_mono: "voters c past v \<subseteq> voters c (past @ ms) v"
  by (auto simp: voters_def)

lemma votes_by_step:
  assumes W: "votes_by fp past W"
  shows "\<exists>W'. votes_by (count_vote fp m) (past @ [m]) W'"
proof (cases "\<exists>s. counted fp m s")
  case False
  then have "count_vote fp m = fp" using not_counted by (simp add: count_vote_def)
  moreover have "votes_by fp (past @ [m]) W" using W voters_mono by (fastforce simp: votes_by_def)
  ultimately show ?thesis by auto
next
  case True
  then obtain s where s: "counted fp m s" by blast
  let ?v = "fr_endpoints m" and ?W = "fmupd s (fr_endpoints m) W"
  have new: "fmlookup W s = None"
    using s W by (auto simp: counted_def votes_by_def image_iff fmdom_notI intro: fmdom_notD)
  have cls: "{t. fmlookup ?W t = Some v} = (if v = ?v then insert s {t. fmlookup W t = Some v}
    else {t. fmlookup W t = Some v})" for v using new by auto
  have fin: "finite {t. fmlookup W t = Some v}" for v
    by (rule finite_subset[of _ "fset (fmdom W)"]) (auto intro: fmdomI)
  have "votes_by (count_vote fp m) (past @ [m]) ?W"
    unfolding votes_by_def
  proof (intro conjI allI impI)
    show "fset (fp_votes_received (count_vote fp m)) = endpoint_key_of ` fset (fmdom ?W)"
      using W counted_state(1)[OF s] by (simp add: votes_by_def)
    fix v
    show "fm_get_or 0 (fp_votes_per_proposal (count_vote fp m)) (value_key v) = card {t. fmlookup ?W t = Some v}"
      using W counted_state(2)[OF s] new fin unfolding cls by (simp add: votes_by_def)
    fix t assume "fmlookup ?W t = Some v"
    then show "t \<in> voters (fp_configuration_id (count_vote fp m)) (past @ [m]) v"
      using W s voters_mono[of _ past v "[m]"]
      by (auto simp: votes_by_def counted_def voters_def split: if_splits)
  qed
  then show ?thesis by blast
qed

lemma decided_no_fast:
  assumes "fp_decided fp"
  shows "fast_decisions fp ms = []" "handle_fast_round_proposal fp m = (fp, [])"
proof -
  have h: "handle_fast_round_proposal fp m = (fp, [])" for m
    using assms by (auto simp: handle_fast_round_proposal_def)
  show "fast_decisions fp ms = []" by (induction ms) (auto simp: h count_vote_def)
  show "handle_fast_round_proposal fp m = (fp, [])" by (rule h)
qed

lemma fast_decision_step:
  assumes "votes_by fp past W" and "v \<in> set (fast_decisions fp ms)"
  shows "fast_quorum (fp_membership_size fp) \<le> card (voters (fp_configuration_id fp) (past @ ms) v) \<and>
    fast_decisions fp ms = [v]"
  using assms
proof (induction ms arbitrary: fp past W)
  case (Cons m ms)
  let ?q = "count_vote fp m"
  obtain W' where W': "votes_by ?q (past @ [m]) W'" using votes_by_step[OF Cons.prems(1)] by blast
  show ?case
  proof (cases "snd (handle_fast_round_proposal fp m) = []")
    case True
    then have "v \<in> set (fast_decisions ?q ms)" using Cons.prems(2) by simp
    from Cons.IH[OF W' this] True show ?thesis by simp
  next
    case False
    then obtain s where s: "counted fp m s" using not_counted by fastforce
    then have d: "fp_decided ?q" "snd (handle_fast_round_proposal fp m) = [FastDecision (fr_endpoints m)]"
      using counted_state(4) False by (auto split: if_splits)
    then have l: "fast_decisions fp (m # ms) = [fr_endpoints m]" using decided_no_fast(1) by simp
    then have v: "v = fr_endpoints m" using Cons.prems(2) by simp
    have "fast_quorum (fp_membership_size fp) \<le> fm_get_or 0 (fp_votes_per_proposal ?q) (value_key v)"
      using counted_state(2,3)[OF s] d(1) v by simp
    also have "\<dots> = card {t. fmlookup W' t = Some v}" using W' by (simp add: votes_by_def)
    also have "\<dots> \<le> card (voters (fp_configuration_id fp) (past @ m # ms) v)"
    proof (rule card_mono)
      show "finite (voters (fp_configuration_id fp) (past @ m # ms) v)"
        by (rule finite_subset[of _ "the ` fr_sender ` set (past @ m # ms)"])
          (force simp: voters_def image_iff)+
      show "{t. fmlookup W' t = Some v} \<subseteq> voters (fp_configuration_id fp) (past @ m # ms) v"
        using W' voters_mono[of "fp_configuration_id fp" "past @ [m]" v ms] by (auto simp: votes_by_def)
    qed
    finally show ?thesis using l v by simp
  qed
qed simp

lemma votes_by_new: "votes_by (fast_paxos_new a c n d) [] fmempty"
  by (simp add: votes_by_def fast_paxos_new_def fm_get_or_def)

text \<open>
  What a fast decision rests on. If a fresh instance for \<open>n\<close> members decides \<open>v\<close> in the fast
  round, at least \<open>n - (n - 1) div 4\<close> distinct senders voted exactly \<open>v\<close> in its configuration (a
  sender's repeated votes count once), and the round yields no second decision.
\<close>

lemma fast_decision_quorum:
  assumes "v \<in> set (fast_decisions (fast_paxos_new a c n d) ms)"
  shows "n - (n - 1) div 4 \<le> card (voters c ms v) \<and> fast_decisions (fast_paxos_new a c n d) ms = [v]"
  using fast_decision_step[OF votes_by_new assms]
  by (simp add: fast_paxos_new_def fast_quorum_def Let_def)

definition demo_vote :: "nat \<Rightarrow> endpoint list \<Rightarrow> vote" where
  "demo_vote n v = \<lparr>fr_sender = Some (demo_ep n), fr_configuration_id = 0, fr_endpoints = v\<rparr>"

definition demo_votes :: "vote list" where
  "demo_votes = [demo_vote 1 [demo_ep 9], demo_vote 1 [demo_ep 9], demo_vote 2 [demo_ep 9],
     demo_vote 5 [demo_ep 8], demo_vote 3 [demo_ep 9], demo_vote 4 [demo_ep 9]]"

text \<open>
  Fast-round agreement. Two nodes of a configuration with member set \<open>A\<close>, counting the votes
  they receive in any order and with any losses and duplicates, never decide differently in the
  fast round as long as no member sends two different votes.
\<close>

theorem fast_agreement:
  assumes "finite A" and "A \<noteq> {}"
    and "\<And>m. m \<in> set ms1 \<union> set ms2 \<Longrightarrow> fr_sender m \<in> Some ` A"
    and "\<And>m m'. m \<in> set ms1 \<Longrightarrow> m' \<in> set ms2 \<Longrightarrow> fr_sender m = fr_sender m' \<Longrightarrow> fr_endpoints m = fr_endpoints m'"
    and "v1 \<in> set (fast_decisions (fast_paxos_new a1 c (card A) d1) ms1)"
    and "v2 \<in> set (fast_decisions (fast_paxos_new a2 c (card A) d2) ms2)"
  shows "v1 = v2"
proof -
  have q: "fast_quorum (card A) \<le> card (voters c ms1 v1)" "fast_quorum (card A) \<le> card (voters c ms2 v2)"
    using fast_decision_step[OF votes_by_new assms(5)] fast_decision_step[OF votes_by_new assms(6)]
    by (simp_all add: fast_paxos_new_def)
  have "voters c ms1 v1 \<subseteq> A" "voters c ms2 v2 \<subseteq> A" using assms(3) by (fastforce simp: voters_def)+
  then have "voters c ms1 v1 \<inter> voters c ms2 v2 \<noteq> {}"
    by (rule qs.fast_fast_meet[OF assms(1,2) _ _ q])
  then show ?thesis using assms(4) by (fastforce simp: voters_def)
qed

theorem fast_agreement_witness:
  "hd (fast_decisions (fast_paxos_new (demo_ep 1) 0 5 100) demo_votes) =
   hd (fast_decisions (fast_paxos_new (demo_ep 2) 0 5 100) (rev demo_votes))"
proof -
  let ?A = "demo_ep ` {1, 2, 3, 4, 5}"
  let ?d1 = "fast_decisions (fast_paxos_new (demo_ep 1) 0 5 100) demo_votes"
  let ?d2 = "fast_decisions (fast_paxos_new (demo_ep 2) 0 5 100) (rev demo_votes)"
  have c: "card ?A = 5" by code_simp
  have "length ?d1 = 1" "length ?d2 = 1" by code_simp+
  then have ne: "?d1 \<noteq> []" "?d2 \<noteq> []" by (metis length_0_conv zero_neq_one)+
  have m1: "hd ?d1 \<in> set (fast_decisions (fast_paxos_new (demo_ep 1) 0 (card ?A) 100) demo_votes)"
    unfolding c by (rule hd_in_set[OF ne(1)])
  have m2: "hd ?d2 \<in> set (fast_decisions (fast_paxos_new (demo_ep 2) 0 (card ?A) 100) (rev demo_votes))"
    unfolding c by (rule hd_in_set[OF ne(2)])
  show ?thesis
    by (rule fast_agreement[OF _ _ _ _ m1 m2]) (auto simp: demo_votes_def demo_vote_def demo_ep_def)
qed

section \<open>A full vote decides\<close>

definition votes_exact :: "fast_paxos \<Rightarrow> vote list \<Rightarrow> bool" where
  "votes_exact fp past \<longleftrightarrow>
     fset (fp_votes_received fp) = endpoint_key_of ` {s. \<exists>v. s \<in> voters (fp_configuration_id fp) past v} \<and>
     (\<forall>v. fm_get_or 0 (fp_votes_per_proposal fp) (value_key v) = card (voters (fp_configuration_id fp) past v)) \<and>
     (\<forall>v. card (voters (fp_configuration_id fp) past v) < fast_quorum (fp_membership_size fp))"

lemma finite_voters [simp]: "finite (voters c ms v)"
  by (rule finite_subset[of _ "the ` fr_sender ` set ms"]) (force simp: voters_def image_iff)+

lemma finite_all_voters [simp]: "finite {s. \<exists>v. s \<in> voters c ms v}"
  by (rule finite_subset[of _ "the ` fr_sender ` set ms"]) (force simp: voters_def image_iff)+

lemma voters_snoc:
  "voters c (past @ [m]) v =
     (if fr_configuration_id m = c \<and> fr_endpoints m = v then set_option (fr_sender m) \<union> voters c past v
      else voters c past v)"
  by (auto simp: voters_def)

lemma votes_exact_step:
  assumes ex: "votes_exact fp past" and und: "\<not> fp_decided fp"
    and new: "fr_sender m \<notin> fr_sender ` set past" and some: "fr_sender m \<noteq> None"
    and und': "\<not> fp_decided (count_vote fp m)"
  shows "votes_exact (count_vote fp m) (past @ [m])"
proof -
  obtain s where s: "fr_sender m = Some s" using some by blast
  have notin: "s \<notin> voters c past v" for c v using new s by (force simp: voters_def)
  show ?thesis
  proof (cases "fr_configuration_id m = fp_configuration_id fp")
    case True
    then have cnt: "counted fp m s" using und s ex notin by (auto simp: counted_def votes_exact_def)
    have le: "fm_get_or 0 (fp_votes_per_proposal fp) (value_key (fr_endpoints m)) \<le> fcard (fp_votes_received fp)"
    proof -
      have "card (voters (fp_configuration_id fp) past (fr_endpoints m))
        \<le> card {s. \<exists>v. s \<in> voters (fp_configuration_id fp) past v}"
        by (rule card_mono) auto
      then show ?thesis using ex by (simp add: votes_exact_def fcard.rep_eq card_image)
    qed
    have "endpoint_key_of s |\<notin>| fp_votes_received fp" using cnt by (simp add: counted_def)
    then have lt: "fm_get_or 0 (fp_votes_per_proposal fp) (value_key (fr_endpoints m)) + 1
      < fast_quorum (fp_membership_size fp)"
      using und' counted_state(3)[OF cnt] le by (auto simp: fcard_finsert_if)
    show ?thesis
      unfolding votes_exact_def voters_snoc counted_state(1,2)[OF cnt]
      using ex notin s True lt by (auto simp: votes_exact_def)
  next
    case False
    then have "count_vote fp m = fp" using not_counted[of fp m] by (auto simp: count_vote_def counted_def)
    then show ?thesis using ex False by (simp add: votes_exact_def voters_snoc)
  qed
qed

lemma undecided_counts:
  assumes "votes_exact fp past" "\<not> fp_decided fp" "distinct (map fr_sender (past @ ms))"
    and "None \<notin> set (map fr_sender ms)" and "fast_decisions fp ms = []"
  shows "card (voters (fp_configuration_id fp) (past @ ms) v) < fast_quorum (fp_membership_size fp)"
  using assms
proof (induction ms arbitrary: fp past)
  case Nil
  then show ?case by (simp add: votes_exact_def)
next
  case (Cons m ms)
  have und': "\<not> fp_decided (count_vote fp m)"
  proof
    assume d: "fp_decided (count_vote fp m)"
    then have "\<exists>s. counted fp m s"
      using not_counted[of fp m] Cons.prems(2) by (metis count_vote_def fst_conv)
    then show False using counted_state(4) d Cons.prems(5) by auto
  qed
  have "fast_decisions (count_vote fp m) ms = []"
    using Cons.prems(5) by (auto split: list.splits fast_outgoing.splits)
  moreover have "votes_exact (count_vote fp m) (past @ [m])"
    using Cons.prems und' by (intro votes_exact_step) (auto simp: image_iff)
  ultimately have "card (voters (fp_configuration_id (count_vote fp m)) ((past @ [m]) @ ms) v)
    < fast_quorum (fp_membership_size (count_vote fp m))"
    using und' Cons.prems(3,4) by (intro Cons.IH) auto
  then show ?case by simp
qed

text \<open>
  C39. A fast quorum decides. When a new instance handles votes of members, at most one from each, in any order, and a fast quorum of
  them are votes of its configuration for \<open>v\<close>, it decides \<open>v\<close> exactly once, without a classic round and however the other
  members voted.
\<close>

theorem fast_quorum_decides:
  assumes "finite A" and "A \<noteq> {}" and "distinct (map fr_sender ms)"
    and "set (map fr_sender ms) \<subseteq> Some ` A" and "fast_quorum (card A) \<le> card (voters c ms v)"
  shows "fast_decisions (fast_paxos_new a c (card A) d) ms = [v]"
proof -
  let ?fp = "fast_paxos_new a c (card A) d"
  have q: "0 < fast_quorum (card A)" using assms(1,2) qs.fast_fast[of "card A"] by (simp add: card_gt_0_iff)
  have fp: "fp_configuration_id ?fp = c" "fp_membership_size ?fp = card A" "\<not> fp_decided ?fp"
    by (simp_all add: fast_paxos_new_def)
  have "votes_exact ?fp []" using q by (simp add: votes_exact_def fast_paxos_new_def fm_get_or_def voters_def)
  moreover have "None \<notin> set (map fr_sender ms)" using assms(4) by auto
  ultimately have "fast_decisions ?fp ms \<noteq> []"
    using undecided_counts[of ?fp "[]" ms v] assms(3,5) fp by auto
  then obtain w where w: "w \<in> set (fast_decisions ?fp ms)" by fastforce
  note dw = fast_decision_step[OF votes_by_new w]
  have sub: "voters c ms u \<subseteq> A" for u using assms(4) by (fastforce simp: voters_def)
  have "voters c ms w \<inter> voters c ms v \<noteq> {}"
    using dw fp assms(5) by (intro qs.fast_fast_meet[OF assms(1,2) sub sub]) auto
  then obtain m m' where "m \<in> set ms" "m' \<in> set ms" "fr_sender m = fr_sender m'"
    "fr_endpoints m = w" "fr_endpoints m' = v" by (fastforce simp: voters_def)
  then have "w = v" using assms(3) by (auto simp: distinct_map inj_on_def)
  then show ?thesis using dw by simp
qed

theorem fast_quorum_decides_witness:
  "fast_decisions (fast_paxos_new (demo_ep 1) 0 (card (demo_ep ` {1, 2, 3, 4, 5})) 100)
     [demo_vote 5 [demo_ep 8], demo_vote 1 [demo_ep 9], demo_vote 2 [demo_ep 9], demo_vote 3 [demo_ep 9],
      demo_vote 4 [demo_ep 9]] = [[demo_ep 9]]"
proof (rule fast_quorum_decides)
  let ?ms = "[demo_vote 5 [demo_ep 8], demo_vote 1 [demo_ep 9], demo_vote 2 [demo_ep 9],
    demo_vote 3 [demo_ep 9], demo_vote 4 [demo_ep 9]]"
  have "voters 0 ?ms [demo_ep 9] = demo_ep ` {1, 2, 3, 4}"
    by (auto simp: voters_def demo_vote_def demo_ep_def)
  moreover have "fast_quorum (card (demo_ep ` {1, 2, 3, 4, 5})) \<le> card (demo_ep ` {1, 2, 3, 4})"
    by code_simp
  ultimately show "fast_quorum (card (demo_ep ` {1, 2, 3, 4, 5})) \<le> card (voters 0 ?ms [demo_ep 9])"
    by simp
  show "distinct (map fr_sender ?ms)" by code_simp
qed (auto simp: demo_vote_def)

section \<open>Fast votes and the classic fallback\<close>

fun handle_all :: "fast_paxos \<Rightarrow> rapid_request list \<Rightarrow> fast_paxos \<times> fast_outgoing list" where
  "handle_all fp [] = (fp, [])"
| "handle_all fp (req # reqs) =
     (let (fp, out) = handle_consensus_message fp req; (fp, out') = handle_all fp reqs in (fp, out @ out'))"

definition sent_requests :: "fast_outgoing list \<Rightarrow> rapid_request list" where
  "sent_requests outs = List.map_filter
     (\<lambda>out. case out of FastBroadcast r \<Rightarrow> Some r | FastUnicast _ r \<Rightarrow> Some r | _ \<Rightarrow> None) outs"

definition decided_values :: "fast_outgoing list \<Rightarrow> endpoint list list" where
  "decided_values outs = List.map_filter (\<lambda>out. case out of FastDecision v \<Rightarrow> Some v | _ \<Rightarrow> None) outs"

text \<open>
  An execution of five nodes, every transition one of the handlers and every message delivered one
  that was sent. Node 1 proposes \<open>w\<close> and starts the classic round; nodes 1, 2 and 3 promise and
  the coordinator rule picks \<open>w\<close>. Then nodes 2 to 5 propose \<open>v\<close>: nodes 2 and 3 have promised the
  classic round, so \<^verbatim>\<open>register_fast_round_vote\<close> ignores the vote, but \<^verbatim>\<open>propose\<close> broadcasts it all
  the same. The result is what nodes 4 and 1 decide.
\<close>

definition late_vote_execution :: "endpoint list \<Rightarrow> endpoint list \<Rightarrow> endpoint list list \<times> endpoint list list" where
  "late_vote_execution w v =
     (let mk = (\<lambda>i. fast_paxos_new (demo_ep i) 0 5 100);
          (n1, _) = propose 0 (mk 1) w;
          (n1, p1a) = start_classic_round demo_hash n1;
          (n1, b1) = handle_all n1 (sent_requests p1a);
          (n2, b2) = handle_all (mk 2) (sent_requests p1a);
          (n3, b3) = handle_all (mk 3) (sent_requests p1a);
          (n1, p2a) = handle_all n1 (sent_requests (b1 @ b2 @ b3));
          (n2, v2) = propose 0 n2 v;
          (n3, v3) = propose 0 n3 v;
          (n4, v4) = propose 0 (mk 4) v;
          (n5, v5) = propose 0 (mk 5) v;
          (n4, d4) = handle_all n4 (sent_requests (v2 @ v3 @ v4 @ v5));
          (n1, a1) = handle_all n1 (sent_requests p2a);
          (n2, a2) = handle_all n2 (sent_requests p2a);
          (n3, a3) = handle_all n3 (sent_requests p2a);
          (n1, d1) = handle_all n1 (sent_requests (a1 @ a2 @ a3))
      in (decided_values d1, decided_values d4))"

text \<open>
  Agreement fails when a node broadcasts a fast-round vote after promising a classic round: in
  the execution above, node 1 decides \<open>[9]\<close> in the classic round and node 4 decides \<open>[8]\<close> in the
  fast round of the same configuration.
\<close>

theorem late_fast_vote_disagreement:
  "late_vote_execution [demo_ep 9] [demo_ep 8] = ([[demo_ep 9]], [[demo_ep 8]])"
  by code_simp

text \<open>
  A second execution of five nodes. Nodes 1 to 4 propose \<open>v\<close> and node 5 proposes \<open>w\<close>; node 2 receives
  the votes. Node 1 starts the classic round; node 5's promise reaches it three times and no other
  promise does. Nodes 1, 3 and 5 receive what node 1 then proposes, and node 3 their answers. The
  result is what nodes 2 and 3 decide.
\<close>

definition repeated_promise_execution :: "endpoint list \<Rightarrow> endpoint list \<Rightarrow> endpoint list list \<times> endpoint list list" where
  "repeated_promise_execution v w =
     (let mk = (\<lambda>i. fast_paxos_new (demo_ep i) 0 5 100);
          (n1, v1) = propose 0 (mk 1) v;
          (n2, v2) = propose 0 (mk 2) v;
          (n3, v3) = propose 0 (mk 3) v;
          (n4, v4) = propose 0 (mk 4) v;
          (n5, v5) = propose 0 (mk 5) w;
          (n2, d2) = handle_all n2 (sent_requests (v1 @ v2 @ v3 @ v4));
          (n1, p1a) = start_classic_round demo_hash n1;
          (n5, b5) = handle_all n5 (sent_requests p1a);
          (n1, p2a) = handle_all n1 (sent_requests (b5 @ b5 @ b5));
          (n1, a1) = handle_all n1 (sent_requests p2a);
          (n3, a3) = handle_all n3 (sent_requests p2a);
          (n5, a5) = handle_all n5 (sent_requests p2a);
          (n3, d3) = handle_all n3 (sent_requests (a1 @ a3 @ a5))
      in (decided_values d2, decided_values d3))"

text \<open>
  Agreement fails when a promise is counted more than once: \<^verbatim>\<open>handle_phase1b\<close> compares the number
  of phase 1b messages it holds with the majority, so three copies of one promise make a classic
  quorum. In the execution above node 2 decides \<open>[9]\<close> in the fast round and node 3 decides \<open>[8]\<close> in
  the classic round of the same configuration.
\<close>

theorem repeated_promise_disagreement:
  "repeated_promise_execution [demo_ep 9] [demo_ep 8] = ([[demo_ep 9]], [[demo_ep 8]])"
  by code_simp

datatype fast_event = ProposeEv nat "endpoint list" | RequestEv rapid_request | StartClassicEv

fun fast_react :: "xxh64_fn \<Rightarrow> fast_paxos \<Rightarrow> fast_event \<Rightarrow> fast_paxos \<times> fast_outgoing list" where
  "fast_react x fp (ProposeEv jitter v) = propose jitter fp v"
| "fast_react x fp (RequestEv req) = handle_consensus_message fp req"
| "fast_react x fp StartClassicEv = start_classic_round x fp"

fun fast_outs :: "xxh64_fn \<Rightarrow> fast_paxos \<Rightarrow> fast_event list \<Rightarrow> fast_outgoing list" where
  "fast_outs x fp [] = []"
| "fast_outs x fp (ev # evs) = snd (fast_react x fp ev) @ fast_outs x (fst (fast_react x fp ev)) evs"

fun is_phase1a :: "fast_outgoing \<Rightarrow> bool" where
  "is_phase1a (FastBroadcast (RapidRequest (Some (Phase1aMessage _)))) = True"
| "is_phase1a _ = False"

lemma handle_paxos_no_phase1a:
  "filter is_phase1a (map wrap (snd (handle_phase1a p m1))) = []"
  "filter is_phase1a (map wrap (snd (handle_phase1b p m2))) = []"
  "filter is_phase1a (map wrap (snd (handle_phase2a p m3))) = []"
  "filter is_phase1a (map wrap (snd (handle_phase2b p m4))) = []"
  by (auto simp: handle_phase1a_def handle_phase1b_def handle_phase2a_def handle_phase2b_def Let_def
      split: option.split)

lemma fast_react_started:
  "fp_classic_started fp \<Longrightarrow> fp_classic_started (fst (fast_react x fp ev))"
  "fp_classic_started fp \<Longrightarrow> filter is_phase1a (snd (fast_react x fp ev)) = []"
  "filter is_phase1a (snd (fast_react x fp ev)) \<noteq> [] \<Longrightarrow>
     fp_classic_started (fst (fast_react x fp ev)) \<and> length (filter is_phase1a (snd (fast_react x fp ev))) = 1"
proof -
  have c: "fp_classic_started (fst (handle_consensus_message fp req)) = fp_classic_started fp"
    "filter is_phase1a (snd (handle_consensus_message fp req)) = []" for req
    using handle_paxos_no_phase1a
    by (auto simp: handle_consensus_message_def handle_paxos_def handle_fast_round_proposal_def Let_def
        split: option.split request_content.split)
  show "fp_classic_started fp \<Longrightarrow> fp_classic_started (fst (fast_react x fp ev))"
    "fp_classic_started fp \<Longrightarrow> filter is_phase1a (snd (fast_react x fp ev)) = []"
    "filter is_phase1a (snd (fast_react x fp ev)) \<noteq> [] \<Longrightarrow>
       fp_classic_started (fst (fast_react x fp ev)) \<and> length (filter is_phase1a (snd (fast_react x fp ev))) = 1"
    by (cases ev; auto simp: c propose_def start_classic_round_def start_phase1a_def Let_def split: if_splits)+
qed

lemma fast_outs_started: "fp_classic_started fp \<Longrightarrow> filter is_phase1a (fast_outs x fp evs) = []"
  by (induction evs arbitrary: fp) (auto simp: fast_react_started(1,2))

text \<open>
  The classic fallback starts at most once per instance: whatever proposals, messages and
  (possibly stale) fallback timers an instance sees, it broadcasts at most one phase 1a message.
\<close>

theorem phase1a_once: "length (filter is_phase1a (fast_outs x fp evs)) \<le> 1"
proof (induction evs arbitrary: fp)
  case (Cons ev evs)
  show ?case
  proof (cases "filter is_phase1a (snd (fast_react x fp ev)) = []")
    case True
    then show ?thesis using Cons.IH by simp
  next
    case False
    then show ?thesis using fast_react_started(3)[OF False] by (simp add: fast_outs_started)
  qed
qed simp

end
