(* ===== verification/Voting.thy ===== *)
theory Voting
  imports Paxos
begin

text \<open>
  The abstract specification of consensus in one configuration: acceptors that promise ranks and
  vote, and one proposal per classic rank, with no messages, counters or coordinators. The rank of
  the fast round is \<open>Rank 1 1\<close>, the one \<^verbatim>\<open>register_fast_round_vote\<close> of
  \<^verbatim>\<open>crates/rapid/src/consensus/paxos.rs\<close> writes; every acceptor may vote any value in it, and in a
  classic rank only the proposal of that rank. The guard \<open>selectable\<close> says what the coordinator
  rule has to guarantee about the value it proposes.

  The lemmas show that the abstract machine never chooses two values. The network of
  fast Paxos instances in \<open>Consensus\<close> refines it.
\<close>

section \<open>The voting machine\<close>

abbreviation fast_rank :: rank where
  "fast_rank \<equiv> Rank 1 1"

record voting =
  vt_rnd :: "endpoint \<Rightarrow> rank"
  vt_last :: "endpoint \<Rightarrow> rank \<times> endpoint list"
  vt_votes :: "(endpoint \<times> rank \<times> endpoint list) set"
  vt_promises :: "(endpoint \<times> rank \<times> rank \<times> endpoint list) set"
  vt_proposals :: "(rank \<times> endpoint list) set"

definition voting_init :: voting where
  "voting_init = \<lparr>vt_rnd = (\<lambda>_. Rank 0 0), vt_last = (\<lambda>_. (Rank 0 0, [])), vt_votes = {},
     vt_promises = {}, vt_proposals = {}\<rparr>"

definition reports :: "voting \<Rightarrow> endpoint set \<Rightarrow> rank \<Rightarrow> (rank \<times> endpoint list) set" where
  "reports s Q r = {l. \<exists>a \<in> Q. (a, r, l) \<in> vt_promises s}"

definition fast_possible :: "endpoint set \<Rightarrow> voting \<Rightarrow> endpoint set \<Rightarrow> rank \<Rightarrow> endpoint list \<Rightarrow> bool" where
  "fast_possible A s Q r w \<longleftrightarrow>
     (\<exists>V \<subseteq> A. fast_quorum (card A) \<le> card V \<and> (\<forall>a \<in> Q \<inter> V. (a, r, fast_rank, w) \<in> vt_promises s))"

definition selectable :: "endpoint set \<Rightarrow> voting \<Rightarrow> endpoint set \<Rightarrow> rank \<Rightarrow> endpoint list \<Rightarrow> bool" where
  "selectable A s Q r v \<longleftrightarrow> (\<exists>k. fast_rank \<le> k \<and> (k, v) \<in> reports s Q r) \<and>
     ((\<exists>k. classic_rank k \<and> (k, v) \<in> reports s Q r \<and> (\<forall>l \<in> reports s Q r. fst l \<le> k)) \<or>
      ((\<forall>l \<in> reports s Q r. fst l \<le> fast_rank) \<and> (\<forall>w. fast_possible A s Q r w \<longrightarrow> w = v)))"

inductive voting_step :: "endpoint set \<Rightarrow> voting \<Rightarrow> voting \<Rightarrow> bool" for A where
  fast_vote: "a \<in> A \<Longrightarrow> vt_rnd s a < fast_rank \<Longrightarrow>
    voting_step A s (s\<lparr>vt_rnd := (vt_rnd s)(a := fast_rank), vt_last := (vt_last s)(a := (fast_rank, v)),
      vt_votes := insert (a, fast_rank, v) (vt_votes s)\<rparr>)"
| promise: "a \<in> A \<Longrightarrow> classic_rank r \<Longrightarrow> vt_rnd s a < r \<Longrightarrow>
    voting_step A s (s\<lparr>vt_rnd := (vt_rnd s)(a := r),
      vt_promises := insert (a, r, vt_last s a) (vt_promises s)\<rparr>)"
| suggest: "classic_rank r \<Longrightarrow> r \<notin> fst ` vt_proposals s \<Longrightarrow> Q \<subseteq> A \<Longrightarrow>
    classic_quorum (card A) \<le> card Q \<Longrightarrow> Q \<subseteq> {a. \<exists>l. (a, r, l) \<in> vt_promises s} \<Longrightarrow>
    selectable A s Q r v \<Longrightarrow>
    voting_step A s (s\<lparr>vt_proposals := insert (r, v) (vt_proposals s)\<rparr>)"
| accept: "a \<in> A \<Longrightarrow> (r, v) \<in> vt_proposals s \<Longrightarrow> vt_rnd s a \<le> r \<Longrightarrow> fst (vt_last s a) \<noteq> r \<Longrightarrow>
    voting_step A s (s\<lparr>vt_rnd := (vt_rnd s)(a := r), vt_last := (vt_last s)(a := (r, v)),
      vt_votes := insert (a, r, v) (vt_votes s)\<rparr>)"

inductive voting_reachable :: "endpoint set \<Rightarrow> voting \<Rightarrow> bool" for A where
  vr_init: "voting_reachable A voting_init"
| vr_step: "voting_reachable A s \<Longrightarrow> voting_step A s t \<Longrightarrow> voting_reachable A t"

section \<open>What is chosen\<close>

definition voters_of :: "voting \<Rightarrow> rank \<Rightarrow> endpoint list \<Rightarrow> endpoint set" where
  "voters_of s r v = {a. (a, r, v) \<in> vt_votes s}"

definition quorum_size :: "endpoint set \<Rightarrow> rank \<Rightarrow> nat" where
  "quorum_size A r = (if r = fast_rank then fast_quorum (card A) else classic_quorum (card A))"

definition chosen :: "endpoint set \<Rightarrow> voting \<Rightarrow> rank \<Rightarrow> endpoint list \<Rightarrow> bool" where
  "chosen A s r v \<longleftrightarrow> quorum_size A r \<le> card (voters_of s r v)"

text \<open>Those that voted \<open>v\<close> in rank \<open>r\<close> or may still do so: the set only shrinks.\<close>

definition open_to :: "endpoint set \<Rightarrow> voting \<Rightarrow> rank \<Rightarrow> endpoint list \<Rightarrow> endpoint set" where
  "open_to A s r v = {a \<in> A. (a, r, v) \<in> vt_votes s \<or> (vt_rnd s a \<le> r \<and> (\<forall>u. (a, r, u) \<notin> vt_votes s))}"

definition choosable :: "endpoint set \<Rightarrow> voting \<Rightarrow> rank \<Rightarrow> endpoint list \<Rightarrow> bool" where
  "choosable A s r v \<longleftrightarrow> quorum_size A r \<le> card (open_to A s r v)"

section \<open>Invariants\<close>

definition votes_ok :: "endpoint set \<Rightarrow> voting \<Rightarrow> bool" where
  "votes_ok A s \<longleftrightarrow>
     (\<forall>a r v. (a, r, v) \<in> vt_votes s \<longrightarrow> a \<in> A \<and> fast_rank \<le> r \<and> r \<le> fst (vt_last s a) \<and>
        (r \<noteq> fast_rank \<longrightarrow> (r, v) \<in> vt_proposals s)) \<and>
     (\<forall>a r v w. (a, r, v) \<in> vt_votes s \<longrightarrow> (a, r, w) \<in> vt_votes s \<longrightarrow> v = w) \<and>
     (\<forall>a. fst (vt_last s a) \<le> vt_rnd s a) \<and>
     (\<forall>a. vt_last s a = (Rank 0 0, []) \<or> (a, vt_last s a) \<in> vt_votes s)"

definition promise_ok :: "endpoint set \<Rightarrow> voting \<Rightarrow> endpoint \<Rightarrow> rank \<Rightarrow> rank \<times> endpoint list \<Rightarrow> bool" where
  "promise_ok A s a r l \<longleftrightarrow> a \<in> A \<and> classic_rank r \<and> r \<le> vt_rnd s a \<and> fst l < r \<and>
     (l = (Rank 0 0, []) \<or> (a, l) \<in> vt_votes s) \<and>
     (\<forall>r' v. (a, r', v) \<in> vt_votes s \<longrightarrow> r' < r \<longrightarrow> r' \<le> fst l)"

definition promises_ok :: "endpoint set \<Rightarrow> voting \<Rightarrow> bool" where
  "promises_ok A s \<longleftrightarrow>
     (\<forall>a r l. (a, r, l) \<in> vt_promises s \<longrightarrow> promise_ok A s a r l) \<and>
     (\<forall>a r l l'. (a, r, l) \<in> vt_promises s \<longrightarrow> (a, r, l') \<in> vt_promises s \<longrightarrow> l = l')"

definition proposals_ok :: "voting \<Rightarrow> bool" where
  "proposals_ok s \<longleftrightarrow>
     (\<forall>r v. (r, v) \<in> vt_proposals s \<longrightarrow> classic_rank r) \<and>
     (\<forall>r v w. (r, v) \<in> vt_proposals s \<longrightarrow> (r, w) \<in> vt_proposals s \<longrightarrow> v = w)"

definition proposals_safe :: "endpoint set \<Rightarrow> voting \<Rightarrow> bool" where
  "proposals_safe A s \<longleftrightarrow> (\<forall>r v r' w. (r, v) \<in> vt_proposals s \<longrightarrow> fast_rank \<le> r' \<longrightarrow> r' < r \<longrightarrow>
     choosable A s r' w \<longrightarrow> w = v)"

definition voting_inv :: "endpoint set \<Rightarrow> voting \<Rightarrow> bool" where
  "voting_inv A s \<longleftrightarrow> votes_ok A s \<and> promises_ok A s \<and> proposals_ok s \<and> proposals_safe A s"

lemma rank_facts [simp]:
  "Rank 0 0 < fast_rank" "classic_rank r \<Longrightarrow> fast_rank < r" "classic_rank r \<Longrightarrow> r \<noteq> fast_rank"
  "classic_rank r \<Longrightarrow> fast_rank \<le> r" "Rank 0 0 \<le> fast_rank" "\<not> fast_rank \<le> Rank 0 0"
proof -
  show z: "Rank 0 0 < fast_rank" by (simp add: less_rank_def rank_tuple_def)
  then show "Rank 0 0 \<le> fast_rank" "\<not> fast_rank \<le> Rank 0 0" by simp_all
  show "classic_rank r \<Longrightarrow> fast_rank < r" by (rule rank_less_classic)
  then show "classic_rank r \<Longrightarrow> r \<noteq> fast_rank" "classic_rank r \<Longrightarrow> fast_rank \<le> r" by auto
qed

lemma voting_inv_init: "voting_inv A voting_init"
  by (simp add: voting_inv_def votes_ok_def promises_ok_def proposals_ok_def proposals_safe_def voting_init_def)

lemma votes_ok_step:
  assumes "voting_step A s t" "votes_ok A s" "proposals_ok s"
  shows "votes_ok A t"
  using assms
proof (cases rule: voting_step.cases)
  case (fast_vote a v)
  have "fst (vt_last s a) < fast_rank" using assms(2) fast_vote(3)
    by (meson votes_ok_def le_less_trans)
  then have "(a, r, u) \<notin> vt_votes s" for r u
    using assms(2) unfolding votes_ok_def by (meson leD le_less_trans order_trans)
  then show ?thesis using assms(2) fast_vote unfolding votes_ok_def by auto
next
  case (promise a r)
  then show ?thesis using assms(2) unfolding votes_ok_def
    by (auto intro: order.strict_implies_order order.trans)
next
  case (suggest r Q v)
  then show ?thesis using assms(2) unfolding votes_ok_def by auto
next
  case (accept a r v)
  have lt: "fst (vt_last s a) < r" using assms(2) accept(4,5)
    by (meson votes_ok_def order.trans order.not_eq_order_implies_strict)
  then have "(a, r, u) \<notin> vt_votes s" for u
    using assms(2) unfolding votes_ok_def by (meson leD)
  moreover have "fast_rank \<le> r" using assms(3) accept(3) by (meson proposals_ok_def rank_facts(4))
  moreover have "r' \<le> r" if "(a, r', u) \<in> vt_votes s" for r' u
    using assms(2) that lt unfolding votes_ok_def by (meson less_imp_le order.trans)
  ultimately show ?thesis using assms(2) accept unfolding votes_ok_def by auto
qed

lemma promises_okD:
  assumes "promises_ok A s" "(a, r, l) \<in> vt_promises s"
  shows "a \<in> A" "classic_rank r" "r \<le> vt_rnd s a" "fst l < r"
    "l = (Rank 0 0, []) \<or> (a, l) \<in> vt_votes s"
    "(a, r', v) \<in> vt_votes s \<Longrightarrow> r' < r \<Longrightarrow> r' \<le> fst l"
    "(a, r, l') \<in> vt_promises s \<Longrightarrow> l' = l"
  using assms unfolding promises_ok_def promise_ok_def by blast+

lemma promises_ok_new_vote:
  assumes "promises_ok A s" and "\<And>r' l. (a, r', l) \<in> vt_promises s \<Longrightarrow> r' \<le> r" and "vt_rnd s a \<le> r"
    and "vt_rnd t = (vt_rnd s)(a := r)" "vt_votes t = insert (a, r, v) (vt_votes s)"
    "vt_promises t = vt_promises s"
  shows "promises_ok A t"
proof -
  have "promise_ok A t b r' l" if "(b, r', l) \<in> vt_promises s" for b r' l
    using promises_okD(1-6)[OF assms(1) that] assms(2)[of r' l] assms(3-5) that
    unfolding promise_ok_def by (cases "b = a") (simp_all, force+)
  then show ?thesis using promises_okD(7)[OF assms(1)] unfolding promises_ok_def assms(6) by blast
qed

lemma promises_ok_step:
  assumes "voting_step A s t" "promises_ok A s" "votes_ok A s"
  shows "promises_ok A t"
  using assms(1)
proof (cases rule: voting_step.cases)
  case (fast_vote a v)
  have none: "r \<le> fast_rank" if "(a, r, l) \<in> vt_promises s" for r l
    using promises_okD(2,3)[OF assms(2) that] fast_vote(3) by (meson le_less_trans less_imp_le)
  show ?thesis
    by (rule promises_ok_new_vote[OF assms(2) none, where v = v])
      (use fast_vote in \<open>simp_all add: less_imp_le\<close>)
next
  case (promise a r)
  have rnd: "vt_rnd s b \<le> vt_rnd t b" for b using promise by auto
  have "promise_ok A t b r' l" if "(b, r', l) \<in> vt_promises s" for b r' l
    using promises_okD(1-6)[OF assms(2) that] order.trans[OF _ rnd[of b]]
    unfolding promise_ok_def promise(1) by simp
  moreover have "promise_ok A t a r (vt_last s a)"
    using assms(3) promise(2-4) unfolding promise_ok_def votes_ok_def promise(1)
    by (auto intro: le_less_trans)
  moreover have "(a, r, l) \<notin> vt_promises s" for l
    using promises_okD(3)[OF assms(2)] promise(4) by (meson leD)
  moreover have "vt_promises t = insert (a, r, vt_last s a) (vt_promises s)" using promise(1) by simp
  ultimately show ?thesis using promises_okD(7)[OF assms(2)] unfolding promises_ok_def
    by (intro conjI allI impI) (metis insert_iff prod.inject)+
next
  case (suggest r Q v)
  show ?thesis using assms(2) unfolding promises_ok_def promise_ok_def suggest(1) by simp
next
  case (accept a r v)
  have le: "r' \<le> r" if "(a, r', l) \<in> vt_promises s" for r' l
    using promises_okD(3)[OF assms(2) that] accept(4) by (rule order.trans)
  show ?thesis
    by (rule promises_ok_new_vote[OF assms(2) le, where v = v]) (use accept in simp_all)
qed

lemma proposals_ok_step: "voting_step A s t \<Longrightarrow> proposals_ok s \<Longrightarrow> proposals_ok t"
  by (erule voting_step.cases) (auto simp: proposals_ok_def image_iff)

lemma open_to_antimono:
  assumes "voting_step A s t" "votes_ok A s"
  shows "open_to A t r w \<subseteq> open_to A s r w"
  using assms(1)
proof (cases rule: voting_step.cases)
  case (fast_vote a v)
  have "fst (vt_last s a) < fast_rank" using assms(2) fast_vote(3)
    by (meson votes_ok_def le_less_trans)
  then have "(a, r, u) \<notin> vt_votes s" for r u
    using assms(2) unfolding votes_ok_def by (meson leD le_less_trans order_trans)
  then show ?thesis using fast_vote(3) unfolding fast_vote(1) open_to_def by auto
next
  case (promise a r)
  then show ?thesis by (auto simp: open_to_def)
next
  case (suggest r Q v)
  then show ?thesis by (auto simp: open_to_def)
next
  case (accept a r v)
  have "fst (vt_last s a) < r" using assms(2) accept(4,5)
    by (meson votes_ok_def order.trans order.not_eq_order_implies_strict)
  then have "(a, r, u) \<notin> vt_votes s" for u
    using assms(2) unfolding votes_ok_def by (meson leD)
  then show ?thesis using accept(4) unfolding accept(1) open_to_def by auto
qed

lemma choosable_antimono:
  assumes "finite A" "voting_step A s t" "votes_ok A s" "choosable A t r w"
  shows "choosable A s r w"
proof -
  have "finite (open_to A s r w)" using assms(1) by (simp add: open_to_def)
  then show ?thesis using card_mono[OF _ open_to_antimono[OF assms(2,3), of r w]] assms(4)
    by (meson choosable_def order.trans)
qed

text \<open>A classic quorum of promises of rank \<open>r\<close> meets every quorum that is open in a lower rank.\<close>

lemma quorums_meet:
  assumes "finite A" "A \<noteq> {}" "Q \<subseteq> A" "classic_quorum (card A) \<le> card Q" "V \<subseteq> A" "quorum_size A r \<le> card V"
  shows "Q \<inter> V \<noteq> {}"
proof (cases "r = fast_rank")
  case True
  then have "card A - fast_quorum (card A) < card (Q \<inter> V)"
    using qs.classic_fast_counts(2)[of A Q V] assms by (simp add: quorum_size_def)
  then show ?thesis by auto
next
  case False
  then show ?thesis using qs.classic_meet[of A Q V] assms by (simp add: quorum_size_def)
qed

lemma promised_voted:
  assumes "promises_ok A s" "(a, r, l) \<in> vt_promises s" "a \<in> open_to A s r' w" "r' < r"
  shows "(a, r', w) \<in> vt_votes s" "r' \<le> fst l"
proof -
  show v: "(a, r', w) \<in> vt_votes s"
    using promises_okD(3)[OF assms(1,2)] assms(3,4) unfolding open_to_def by auto
  show "r' \<le> fst l" using promises_okD(6)[OF assms(1,2) v assms(4)] .
qed

lemma selectable_safe:
  assumes fin: "finite A" and inv: "voting_inv A s" and r: "classic_rank r"
    and Q: "Q \<subseteq> A" "classic_quorum (card A) \<le> card Q" "Q \<subseteq> {a. \<exists>l. (a, r, l) \<in> vt_promises s}"
    and sel: "selectable A s Q r v" and r': "fast_rank \<le> r'" "r' < r" and ch: "choosable A s r' w"
  shows "w = v"
proof -
  let ?V = "open_to A s r' w"
  have ok: "votes_ok A s" "promises_ok A s" "proposals_ok s" "proposals_safe A s"
    using inv by (simp_all add: voting_inv_def)
  have V: "?V \<subseteq> A" "quorum_size A r' \<le> card ?V" using ch by (auto simp: open_to_def choosable_def)
  have "A \<noteq> {}" using Q(1,2) fin by (auto simp: classic_quorum_def)
  from quorums_meet[OF fin this Q(1,2) V] obtain a where a: "a \<in> Q" "a \<in> ?V" by blast
  then obtain l where ku: "(a, r, l) \<in> vt_promises s" using Q(3) by blast
  then have rep: "l \<in> reports s Q r" using a(1) by (auto simp: reports_def)
  note av = promised_voted[OF ok(2) ku a(2) r'(2)]
  from sel[unfolded selectable_def, THEN conjunct2] show ?thesis
  proof (elim disjE exE conjE)
    fix k' assume k': "classic_rank k'" "(k', v) \<in> reports s Q r" "\<forall>l \<in> reports s Q r. fst l \<le> k'"
    obtain b where b: "(b, r, k', v) \<in> vt_promises s" using k'(2) by (auto simp: reports_def)
    have "(b, k', v) \<in> vt_votes s"
      using promises_okD(5)[OF ok(2) b] rank_facts(2)[OF k'(1)] rank_facts(1) by (metis order.asym prod.inject)
    then have pk: "(k', v) \<in> vt_proposals s"
      using ok(1) k'(1) unfolding votes_ok_def by (metis rank_facts(3))
    have "r' \<le> k'" using av(2) k'(3) rep by fastforce
    show "w = v"
    proof (cases "r' = k'")
      case True
      then have "(k', w) \<in> vt_proposals s" using av(1) ok(1) k'(1) unfolding votes_ok_def by (metis rank_facts(3))
      then show ?thesis using pk ok(3) unfolding proposals_ok_def by blast
    next
      case False
      then have "r' < k'" using \<open>r' \<le> k'\<close> by simp
      then show ?thesis using pk ok(4) ch r'(1) unfolding proposals_safe_def by blast
    qed
  next
    assume f: "\<forall>l \<in> reports s Q r. fst l \<le> fast_rank" "\<forall>w. fast_possible A s Q r w \<longrightarrow> w = v"
    then have "r' = fast_rank" using av(2) rep r'(1) by fastforce
    have "(b, r, fast_rank, w) \<in> vt_promises s" if bQ: "b \<in> Q \<inter> ?V" for b
    proof -
      obtain l where b: "(b, r, l) \<in> vt_promises s" using bQ Q(3) by blast
      have bV: "b \<in> ?V" using bQ by blast
      note bv = promised_voted[OF ok(2) b bV r'(2)]
      have "l \<in> reports s Q r" using b bQ by (auto simp: reports_def)
      then have l: "fst l = fast_rank" using f(1) bv(2) r'(1) by (meson order.antisym order.trans)
      then have "(b, l) \<in> vt_votes s" using promises_okD(5)[OF ok(2) b] by auto
      then have "(b, fast_rank, snd l) \<in> vt_votes s" using l by (metis prod.collapse)
      then have "snd l = w" using bv(1) \<open>r' = fast_rank\<close> ok(1) unfolding votes_ok_def by blast
      then show ?thesis using b l by (metis prod.collapse)
    qed
    then have "fast_possible A s Q r w"
      using V \<open>r' = fast_rank\<close> by (auto simp: fast_possible_def quorum_size_def)
    then show "w = v" using f(2) by blast
  qed
qed

lemma proposals_safe_step:
  assumes "finite A" "voting_step A s t" "voting_inv A s"
  shows "proposals_safe A t"
proof -
  have ok: "votes_ok A s" "proposals_safe A s" using assms(3) by (simp_all add: voting_inv_def)
  have old: "w = v" if "(r, v) \<in> vt_proposals s" "fast_rank \<le> r'" "r' < r" "choosable A t r' w" for r v r' w
    using ok(2) that choosable_antimono[OF assms(1,2) ok(1)] unfolding proposals_safe_def by blast
  from assms(2) show ?thesis
  proof (cases rule: voting_step.cases)
    case (suggest r Q v)
    have "choosable A t r' w \<Longrightarrow> choosable A s r' w" for r' w
      by (rule choosable_antimono[OF assms(1,2) ok(1)])
    then have "w = v" if "fast_rank \<le> r'" "r' < r" "choosable A t r' w" for r' w
      using selectable_safe[OF assms(1,3) suggest(2,4,5,6,7)] that by blast
    then show ?thesis using old suggest(1) unfolding proposals_safe_def by auto
  qed (use old in \<open>auto simp: proposals_safe_def\<close>)
qed

lemma voting_inv_step:
  "finite A \<Longrightarrow> voting_step A s t \<Longrightarrow> voting_inv A s \<Longrightarrow> voting_inv A t"
  using votes_ok_step promises_ok_step proposals_ok_step proposals_safe_step
  unfolding voting_inv_def by blast

lemma voting_reachable_inv: "voting_reachable A s \<Longrightarrow> finite A \<Longrightarrow> voting_inv A s"
  by (induction rule: voting_reachable.induct) (blast intro: voting_inv_init voting_inv_step)+

section \<open>Agreement\<close>

lemma chosen_choosable:
  assumes "votes_ok A s" "chosen A s r v" "finite A"
  shows "choosable A s r v"
proof -
  have "voters_of s r v \<subseteq> open_to A s r v"
    using assms(1) unfolding votes_ok_def voters_of_def open_to_def by blast
  moreover have "finite (open_to A s r v)" using assms(3) by (simp add: open_to_def)
  ultimately show ?thesis using assms(2) card_mono unfolding chosen_def choosable_def by (meson order.trans)
qed

lemma quorum_size_pos: "finite A \<Longrightarrow> A \<noteq> {} \<Longrightarrow> 0 < quorum_size A r"
  using qs.fast_fast[of "card A"] by (auto simp: quorum_size_def classic_quorum_def card_gt_0_iff)

lemma chosen_voter:
  assumes "finite A" "A \<noteq> {}" "votes_ok A s" "chosen A s r v"
  shows "\<exists>a. (a, r, v) \<in> vt_votes s"
proof -
  have "voters_of s r v \<noteq> {}"
    using quorum_size_pos[OF assms(1,2), of r] assms(4) by (auto simp: chosen_def)
  then show ?thesis by (auto simp: voters_of_def)
qed

lemma same_rank_agree:
  assumes "finite A" "A \<noteq> {}" "votes_ok A s" "chosen A s r v" "chosen A s r w"
  shows "v = w"
proof -
  have sub: "voters_of s r u \<subseteq> A" for u using assms(3) unfolding votes_ok_def voters_of_def by blast
  have "voters_of s r v \<inter> voters_of s r w \<noteq> {}"
    using qs.fast_fast_meet[OF assms(1,2) sub sub] qs.classic_meet[OF assms(1) sub sub] assms(4,5)
    by (auto simp: chosen_def quorum_size_def split: if_splits)
  then show ?thesis using assms(3) unfolding votes_ok_def voters_of_def by blast
qed

lemma lower_rank_agree:
  assumes "finite A" "A \<noteq> {}" "voting_inv A s" "chosen A s r v" "chosen A s r' w" "r < r'"
  shows "v = w"
proof -
  have ok: "votes_ok A s" "proposals_safe A s" using assms(3) by (simp_all add: voting_inv_def)
  have "fast_rank \<le> r" using chosen_voter[OF assms(1,2) ok(1) assms(4)] ok(1) unfolding votes_ok_def by blast
  moreover obtain b where "(b, r', w) \<in> vt_votes s" using chosen_voter[OF assms(1,2) ok(1) assms(5)] by blast
  then have "(r', w) \<in> vt_proposals s" using ok(1) assms(6) calculation unfolding votes_ok_def by (metis leD)
  ultimately show ?thesis
    using ok(2) assms(6) chosen_choosable[OF ok(1) assms(4,1)] unfolding proposals_safe_def by blast
qed

lemma voting_agreement:
  assumes "finite A" "A \<noteq> {}" "voting_inv A s" "chosen A s r v" "chosen A s r' w"
  shows "v = w"
  using lower_rank_agree[OF assms(1-3)] same_rank_agree[OF assms(1,2)] assms(3-5)
  by (metis linorder_neqE voting_inv_def)

section \<open>Validity\<close>

definition votes_valid :: "voting \<Rightarrow> bool" where
  "votes_valid s \<longleftrightarrow> (\<forall>v. v \<in> (snd \<circ> snd) ` vt_votes s \<union> snd ` vt_proposals s \<longrightarrow>
     (\<exists>b. (b, fast_rank, v) \<in> vt_votes s))"

lemma votes_valid_step:
  assumes "voting_step A s t" "votes_valid s" "promises_ok A s"
  shows "votes_valid t"
  using assms(1)
proof (cases rule: voting_step.cases)
  case (suggest r Q v)
  obtain k b where k: "fast_rank \<le> k" "(b, r, k, v) \<in> vt_promises s"
    using suggest(7) unfolding selectable_def reports_def by blast
  then have "(b, k, v) \<in> vt_votes s" using promises_okD(5)[OF assms(3) k(2)] by auto
  then have "\<exists>b. (b, fast_rank, v) \<in> vt_votes s" using assms(2) unfolding votes_valid_def by force
  then show ?thesis using assms(2) unfolding votes_valid_def suggest(1) by auto
next
  case (accept a r v)
  then have "\<exists>b. (b, fast_rank, v) \<in> vt_votes s" using assms(2) unfolding votes_valid_def by force
  then show ?thesis using assms(2) unfolding votes_valid_def accept(1) by auto
qed (use assms(2) in \<open>auto simp: votes_valid_def\<close>)

lemma voting_reachable_valid:
  assumes "voting_reachable A s" "finite A"
  shows "votes_valid s"
  using assms
proof (induction rule: voting_reachable.induct)
  case (vr_step s t)
  then have "promises_ok A s" using voting_reachable_inv by (simp add: voting_inv_def)
  then show ?case using votes_valid_step[OF vr_step.hyps(2)] vr_step by simp
qed (simp add: votes_valid_def voting_init_def)

end
