(* ===== verification/Consensus.thy ===== *)
theory Consensus
  imports Fast_Paxos Voting
begin

text \<open>
  One configuration's consensus as a whole: a network of \<^verbatim>\<open>FastPaxos\<close> instances of
  \<^verbatim>\<open>crates/rapid/src/consensus/fast_paxos.rs\<close>, one per member, exchanging the messages their
  handlers emit.

  A message once sent may be delivered late, out of order, never, or again and again, with one
  exception: a phase 1b message reaches its coordinator at most once, because \<^verbatim>\<open>handle_phase1b\<close>
  counts the messages it holds and not their senders. A member proposes once, and not after it
  has promised a classic round (a late vote is broadcast although it is not registered:
  \<open>late_fast_vote_disagreement\<close>). The classic fallback may start at any moment at any member.
  The code ensures neither exclusion: \<open>net_exec\<close> runs whatever the code can do, and the two are hypotheses on the
  run, under which (\<open>net_reachable\<close>) the network refines the voting machine of \<open>Voting\<close>, and all decisions of the
  configuration are equal.
\<close>

section \<open>The network\<close>

record consensus_net =
  cn_nodes :: "endpoint \<Rightarrow> fast_paxos"
  cn_sent :: "(endpoint \<times> rapid_request) set"
  cn_consumed :: "(endpoint \<times> rapid_request) set"
  cn_proposed :: "endpoint set"
  cn_decisions :: "(endpoint \<times> endpoint list) set"

definition net_init :: "i64 \<Rightarrow> nat \<Rightarrow> endpoint set \<Rightarrow> consensus_net" where
  "net_init c delay A = \<lparr>cn_nodes = (\<lambda>a. fast_paxos_new a c (card A) delay), cn_sent = {},
     cn_consumed = {}, cn_proposed = {}, cn_decisions = {}\<rparr>"

fun addressed :: "endpoint set \<Rightarrow> fast_outgoing \<Rightarrow> (endpoint \<times> rapid_request) set" where
  "addressed A (FastBroadcast req) = (\<lambda>b. (b, req)) ` A"
| "addressed A (FastUnicast target req) = {(target, req)}"
| "addressed A (ScheduleClassicFallback _) = {}"
| "addressed A (FastDecision _) = {}"

definition absorb ::
  "endpoint set \<Rightarrow> endpoint \<Rightarrow> fast_paxos \<times> fast_outgoing list \<Rightarrow> consensus_net \<Rightarrow> consensus_net" where
  "absorb A a r s = s\<lparr>cn_nodes := (cn_nodes s)(a := fst r),
     cn_sent := cn_sent s \<union> \<Union> (set (map (addressed A) (snd r))),
     cn_decisions := cn_decisions s \<union> Pair a ` set (decided_values (snd r))\<rparr>"

datatype net_event =
    NetPropose endpoint nat "endpoint list"
  | NetStart endpoint
  | NetDeliver endpoint rapid_request

definition is_phase1b :: "rapid_request \<Rightarrow> bool" where
  "is_phase1b req = (case req_content req of Some (Phase1bMessage _) \<Rightarrow> True | _ \<Rightarrow> False)"

text \<open>
  What may happen: a member proposes a nonempty value, once (\<open>one_fast_vote_per_configuration\<close> in
  \<open>Service_Props\<close>), a member starts the fallback, a message that was sent arrives.
\<close>

fun net_possible :: "endpoint set \<Rightarrow> consensus_net \<Rightarrow> net_event \<Rightarrow> bool" where
  "net_possible A s (NetPropose a jitter v) \<longleftrightarrow> a \<in> A \<and> a \<notin> cn_proposed s \<and> v \<noteq> []"
| "net_possible A s (NetStart a) \<longleftrightarrow> a \<in> A"
| "net_possible A s (NetDeliver a req) \<longleftrightarrow> a \<in> A \<and> (a, req) \<in> cn_sent s"

text \<open>
  The two events under which the code does not agree (\<open>late_fast_vote_disagreement\<close>,
  \<open>repeated_promise_disagreement\<close>); no guard of the code excludes them.
\<close>

definition late_vote :: "consensus_net \<Rightarrow> net_event \<Rightarrow> bool" where
  "late_vote s ev = (case ev of NetPropose a _ _ \<Rightarrow> classic_rank (px_rnd (fp_paxos (cn_nodes s a))) | _ \<Rightarrow> False)"

definition repeated_promise :: "consensus_net \<Rightarrow> net_event \<Rightarrow> bool" where
  "repeated_promise s ev = (case ev of NetDeliver a req \<Rightarrow> is_phase1b req \<and> (a, req) \<in> cn_consumed s | _ \<Rightarrow> False)"

definition net_enabled :: "endpoint set \<Rightarrow> consensus_net \<Rightarrow> net_event \<Rightarrow> bool" where
  "net_enabled A s ev \<longleftrightarrow> net_possible A s ev \<and> \<not> late_vote s ev \<and> \<not> repeated_promise s ev"

lemma net_enabled_simps [simp]:
  "net_enabled A s (NetPropose a jitter v) \<longleftrightarrow> a \<in> A \<and> a \<notin> cn_proposed s \<and> v \<noteq> [] \<and>
     \<not> classic_rank (px_rnd (fp_paxos (cn_nodes s a)))"
  "net_enabled A s (NetStart a) \<longleftrightarrow> a \<in> A"
  "net_enabled A s (NetDeliver a req) \<longleftrightarrow> a \<in> A \<and> (a, req) \<in> cn_sent s \<and>
     (if is_phase1b req then (a, req) \<notin> cn_consumed s else True)"
  by (auto simp: net_enabled_def late_vote_def repeated_promise_def)

fun net_apply :: "xxh64_fn \<Rightarrow> endpoint set \<Rightarrow> consensus_net \<Rightarrow> net_event \<Rightarrow> consensus_net" where
  "net_apply x A s (NetPropose a jitter v) =
     (absorb A a (propose jitter (cn_nodes s a) v) s)\<lparr>cn_proposed := insert a (cn_proposed s)\<rparr>"
| "net_apply x A s (NetStart a) = absorb A a (start_classic_round x (cn_nodes s a)) s"
| "net_apply x A s (NetDeliver a req) =
     (absorb A a (handle_consensus_message (cn_nodes s a) req) s)\<lparr>cn_consumed := insert (a, req) (cn_consumed s)\<rparr>"

inductive net_reachable :: "xxh64_fn \<Rightarrow> i64 \<Rightarrow> nat \<Rightarrow> endpoint set \<Rightarrow> consensus_net \<Rightarrow> bool"
  for x c delay A where
  net_start: "net_reachable x c delay A (net_init c delay A)"
| net_next: "net_reachable x c delay A s \<Longrightarrow> net_enabled A s ev \<Longrightarrow>
    net_reachable x c delay A (net_apply x A s ev)"

fun net_run :: "xxh64_fn \<Rightarrow> endpoint set \<Rightarrow> consensus_net \<Rightarrow> net_event list \<Rightarrow> consensus_net option" where
  "net_run x A s [] = Some s"
| "net_run x A s (ev # evs) = (if net_enabled A s ev then net_run x A (net_apply x A s ev) evs else None)"

lemma net_run_reachable:
  "net_reachable x c delay A s \<Longrightarrow> net_run x A s evs = Some t \<Longrightarrow> net_reachable x c delay A t"
  by (induction evs arbitrary: s) (auto split: if_splits intro: net_next)

text \<open>Every execution of the network, and the ones the results are about: those without the two events.\<close>

definition net_exec :: "xxh64_fn \<Rightarrow> endpoint set \<Rightarrow> consensus_net \<Rightarrow> net_event list \<Rightarrow> consensus_net option" where
  "net_exec x A = exec (net_apply x A) (net_possible A)"

lemma net_run_exec:
  "net_run x A s evs = Some t \<longleftrightarrow> net_exec x A s evs = Some t \<and>
     never (net_apply x A) late_vote s evs \<and> never (net_apply x A) repeated_promise s evs"
proof -
  have "net_run x A s evs = exec (net_apply x A) (net_enabled A) s evs" by (induction evs arbitrary: s) simp_all
  then show ?thesis unfolding net_exec_def by (simp add: exec_guarded net_enabled_def)
qed

lemma net_exec_reachable:
  assumes "net_exec x A (net_init c delay A) evs = Some s"
    and "never (net_apply x A) late_vote (net_init c delay A) evs" "never (net_apply x A) repeated_promise (net_init c delay A) evs"
  shows "net_reachable x c delay A s"
  using net_run_reachable[OF net_start] net_run_exec assms by blast

section \<open>Messages and the abstraction\<close>

definition p1a_req :: "i64 \<Rightarrow> endpoint \<Rightarrow> rank \<Rightarrow> rapid_request" where
  "p1a_req c a r = RapidRequest (Some (Phase1aMessage
     \<lparr>p1a_sender = Some a, p1a_configuration_id = c, p1a_rank = Some r\<rparr>))"

definition p1b_msg :: "i64 \<Rightarrow> endpoint \<Rightarrow> rank \<Rightarrow> rank \<times> endpoint list \<Rightarrow> phase1b_message" where
  "p1b_msg c a r l = \<lparr>p1b_sender = Some a, p1b_configuration_id = c, p1b_rnd = Some r,
     p1b_vrnd = Some (fst l), p1b_vval = snd l\<rparr>"

definition p1b_req :: "i64 \<Rightarrow> endpoint \<Rightarrow> rank \<Rightarrow> rank \<times> endpoint list \<Rightarrow> rapid_request" where
  "p1b_req c a r l = RapidRequest (Some (Phase1bMessage (p1b_msg c a r l)))"

definition p2a_req :: "i64 \<Rightarrow> endpoint \<Rightarrow> rank \<Rightarrow> endpoint list \<Rightarrow> rapid_request" where
  "p2a_req c a r v = RapidRequest (Some (Phase2aMessage
     \<lparr>p2a_sender = Some a, p2a_configuration_id = c, p2a_rnd = Some r, p2a_vval = v\<rparr>))"

definition p2b_req :: "i64 \<Rightarrow> endpoint \<Rightarrow> rank \<Rightarrow> endpoint list \<Rightarrow> rapid_request" where
  "p2b_req c a r v = RapidRequest (Some (Phase2bMessage
     \<lparr>p2b_sender = Some a, p2b_configuration_id = c, p2b_rnd = Some r, p2b_endpoints = v\<rparr>))"

definition fast_req :: "i64 \<Rightarrow> endpoint \<Rightarrow> endpoint list \<Rightarrow> rapid_request" where
  "fast_req c a v = RapidRequest (Some (FastRoundPhase2bMessage
     \<lparr>fr_sender = Some a, fr_configuration_id = c, fr_endpoints = v\<rparr>))"

lemmas req_defs = p1a_req_def p1b_req_def p1b_msg_def p2a_req_def p2b_req_def fast_req_def

definition said :: "consensus_net \<Rightarrow> rapid_request set" where
  "said s = snd ` cn_sent s"

definition votes_in :: "i64 \<Rightarrow> rapid_request set \<Rightarrow> (endpoint \<times> rank \<times> endpoint list) set" where
  "votes_in c S = {(a, r, v). p2b_req c a r v \<in> S \<or> r = fast_rank \<and> fast_req c a v \<in> S}"

definition promises_in :: "i64 \<Rightarrow> rapid_request set \<Rightarrow> (endpoint \<times> rank \<times> rank \<times> endpoint list) set" where
  "promises_in c S = {(a, r, l). p1b_req c a r l \<in> S}"

definition proposals_in :: "i64 \<Rightarrow> rapid_request set \<Rightarrow> (rank \<times> endpoint list) set" where
  "proposals_in c S = {(r, v). \<exists>a. p2a_req c a r v \<in> S}"

definition abs_net :: "i64 \<Rightarrow> consensus_net \<Rightarrow> voting" where
  "abs_net c s = \<lparr>vt_rnd = (\<lambda>a. px_rnd (fp_paxos (cn_nodes s a))),
     vt_last = (\<lambda>a. (px_vrnd (fp_paxos (cn_nodes s a)), px_vval (fp_paxos (cn_nodes s a)))),
     vt_votes = votes_in c (said s), vt_promises = promises_in c (said s),
     vt_proposals = proposals_in c (said s)\<rparr>"

lemma abs_net_simps [simp]:
  "vt_rnd (abs_net c s) a = px_rnd (fp_paxos (cn_nodes s a))"
  "vt_last (abs_net c s) a = (px_vrnd (fp_paxos (cn_nodes s a)), px_vval (fp_paxos (cn_nodes s a)))"
  "vt_votes (abs_net c s) = votes_in c (said s)" "vt_promises (abs_net c s) = promises_in c (said s)"
  "vt_proposals (abs_net c s) = proposals_in c (said s)"
  by (simp_all add: abs_net_def)

lemma votes_in_insert [simp]:
  "votes_in c (insert (p1a_req c a r) S) = votes_in c S"
  "votes_in c (insert (p1b_req c a r l) S) = votes_in c S"
  "votes_in c (insert (p2a_req c a r v) S) = votes_in c S"
  "votes_in c (insert (p2b_req c a r v) S) = insert (a, r, v) (votes_in c S)"
  "votes_in c (insert (fast_req c a v) S) = insert (a, fast_rank, v) (votes_in c S)"
  by (auto simp: votes_in_def req_defs)

lemma promises_in_insert [simp]:
  "promises_in c (insert (p1a_req c a r) S) = promises_in c S"
  "promises_in c (insert (p1b_req c a r l) S) = insert (a, r, l) (promises_in c S)"
  "promises_in c (insert (p2a_req c a r v) S) = promises_in c S"
  "promises_in c (insert (p2b_req c a r v) S) = promises_in c S"
  "promises_in c (insert (fast_req c a v) S) = promises_in c S"
  by (auto simp: promises_in_def req_defs prod_eq_iff)

lemma proposals_in_insert [simp]:
  "proposals_in c (insert (p1a_req c a r) S) = proposals_in c S"
  "proposals_in c (insert (p1b_req c a r l) S) = proposals_in c S"
  "proposals_in c (insert (p2a_req c a r v) S) = insert (r, v) (proposals_in c S)"
  "proposals_in c (insert (p2b_req c a r v) S) = proposals_in c S"
  "proposals_in c (insert (fast_req c a v) S) = proposals_in c S"
  by (auto simp: proposals_in_def req_defs)

lemma said_absorb:
  assumes "A \<noteq> {}"
  shows "said (absorb A a r s) = said s \<union> set (sent_requests (snd r))"
proof -
  have "snd ` \<Union> (set (map (addressed A) outs)) = set (sent_requests outs)" for outs
    using assms by (induction outs rule: list.induct)
      (auto simp: sent_requests_def List.map_filter_def image_Un image_image split: fast_outgoing.splits)
  then show ?thesis by (simp add: said_def absorb_def image_Un)
qed

lemma absorb_simps [simp]:
  "cn_nodes (absorb A a r s) = (cn_nodes s)(a := fst r)"
  "cn_decisions (absorb A a r s) = cn_decisions s \<union> Pair a ` set (decided_values (snd r))"
  "cn_consumed (absorb A a r s) = cn_consumed s" "cn_proposed (absorb A a r s) = cn_proposed s"
  by (simp_all add: absorb_def)

lemma said_update [simp]:
  "said (s\<lparr>cn_consumed := C\<rparr>) = said s" "said (s\<lparr>cn_proposed := P\<rparr>) = said s"
  by (simp_all add: said_def)

section \<open>The invariant\<close>

definition wf_reqs :: "xxh64_fn \<Rightarrow> i64 \<Rightarrow> endpoint set \<Rightarrow> rapid_request set" where
  "wf_reqs x c A =
     {p1a_req c a (Rank 2 (stable_node_index x a)) |a. a \<in> A} \<union> {p1b_req c a r l |a r l. a \<in> A} \<union>
     {p2a_req c a r v |a r v. a \<in> A \<and> v \<noteq> []} \<union> {p2b_req c a r v |a r v. a \<in> A \<and> classic_rank r} \<union>
     {fast_req c a v |a v. a \<in> A \<and> v \<noteq> []}"

definition node_static :: "i64 \<Rightarrow> endpoint set \<Rightarrow> endpoint \<Rightarrow> fast_paxos \<Rightarrow> bool" where
  "node_static c A a fp \<longleftrightarrow> fp_my_addr fp = a \<and> fp_configuration_id fp = c \<and> fp_membership_size fp = card A \<and>
     px_my_addr (fp_paxos fp) = a \<and> px_configuration_id (fp_paxos fp) = c \<and> px_n (fp_paxos fp) = card A"

definition ranks_ok :: "xxh64_fn \<Rightarrow> endpoint set \<Rightarrow> endpoint \<Rightarrow> paxos \<Rightarrow> bool" where
  "ranks_ok x P a p \<longleftrightarrow>
     (px_rnd p = Rank 0 0 \<or> px_rnd p = fast_rank \<and> a \<in> P \<or> classic_rank (px_rnd p)) \<and>
     (px_crnd p = Rank 0 0 \<or> px_crnd p = Rank 2 (stable_node_index x a))"

definition collected_ok ::
  "rapid_request set \<Rightarrow> (endpoint \<times> rapid_request) set \<Rightarrow> endpoint \<Rightarrow> paxos \<Rightarrow> bool" where
  "collected_ok S C a p \<longleftrightarrow> distinct (map p1b_sender (px_phase1b_messages p)) \<and>
     (\<forall>m \<in> set (px_phase1b_messages p). p1b_rnd m = Some (px_crnd p) \<and>
        RapidRequest (Some (Phase1bMessage m)) \<in> S \<and> (a, RapidRequest (Some (Phase1bMessage m))) \<in> C)"

definition buckets_ok :: "i64 \<Rightarrow> rapid_request set \<Rightarrow> paxos \<Rightarrow> bool" where
  "buckets_ok c S p \<longleftrightarrow> (\<forall>r key m. fmlookup (bucket_of p r) key = Some m \<longrightarrow>
     (\<exists>b. key = endpoint_key_of b \<and> p2b_req c b r (p2b_endpoints m) \<in> S))"

definition tally_ok :: "rapid_request set \<Rightarrow> fast_paxos \<Rightarrow> bool" where
  "tally_ok S fp \<longleftrightarrow> (\<exists>past W. votes_by fp past W \<and>
     (\<forall>m \<in> set past. RapidRequest (Some (FastRoundPhase2bMessage m)) \<in> S))"

definition node_inv :: "xxh64_fn \<Rightarrow> i64 \<Rightarrow> endpoint set \<Rightarrow> rapid_request set \<Rightarrow>
    (endpoint \<times> rapid_request) set \<Rightarrow> endpoint set \<Rightarrow> endpoint \<Rightarrow> fast_paxos \<Rightarrow> bool" where
  "node_inv x c A S C P a fp \<longleftrightarrow> node_static c A a fp \<and> ranks_ok x P a (fp_paxos fp) \<and>
     collected_ok S C a (fp_paxos fp) \<and> buckets_ok c S (fp_paxos fp) \<and> tally_ok S fp"

definition proposer_ok :: "xxh64_fn \<Rightarrow> i64 \<Rightarrow> rapid_request set \<Rightarrow> endpoint \<Rightarrow> paxos \<Rightarrow> bool" where
  "proposer_ok x c S a p \<longleftrightarrow> (\<forall>r v. p2a_req c a r v \<in> S \<longrightarrow>
     r = Rank 2 (stable_node_index x a) \<and> px_crnd p = r \<and> px_cval p = v \<and> v \<noteq> [])"

definition net_inv :: "xxh64_fn \<Rightarrow> i64 \<Rightarrow> endpoint set \<Rightarrow> consensus_net \<Rightarrow> bool" where
  "net_inv x c A s \<longleftrightarrow>
     (\<forall>a \<in> A. node_inv x c A (said s) (cn_consumed s) (cn_proposed s) a (cn_nodes s a) \<and>
        proposer_ok x c (said s) a (fp_paxos (cn_nodes s a))) \<and>
     said s \<subseteq> wf_reqs x c A \<and> voting_reachable A (abs_net c s) \<and>
     (\<forall>a v. (a, v) \<in> cn_decisions s \<longrightarrow> (\<exists>r. chosen A (abs_net c s) r v))"

lemma node_inv_mono:
  assumes "node_inv x c A S C P a fp" "S \<subseteq> S'" "C \<subseteq> C'" "P \<subseteq> P'"
  shows "node_inv x c A S' C' P' a fp"
proof -
  have "ranks_ok x P' a (fp_paxos fp)" using assms unfolding node_inv_def ranks_ok_def by blast
  moreover have "collected_ok S' C' a (fp_paxos fp)" using assms unfolding node_inv_def collected_ok_def by blast
  moreover have "buckets_ok c S' (fp_paxos fp)" using assms unfolding node_inv_def buckets_ok_def by blast
  moreover have "tally_ok S' fp" using assms unfolding node_inv_def tally_ok_def by blast
  ultimately show ?thesis using assms(1) by (simp add: node_inv_def)
qed

lemma chosen_mono:
  assumes "votes_ok A t" "finite A" "vt_votes s \<subseteq> vt_votes t" "chosen A s r v"
  shows "chosen A t r v"
proof -
  have "voters_of t r v \<subseteq> A" using assms(1) unfolding votes_ok_def voters_of_def by blast
  then have "finite (voters_of t r v)" using assms(2) finite_subset by blast
  moreover have "voters_of s r v \<subseteq> voters_of t r v" using assms(3) by (auto simp: voters_of_def)
  ultimately show ?thesis using assms(4) card_mono unfolding chosen_def by (meson order.trans)
qed

lemma votes_in_mono: "S \<subseteq> S' \<Longrightarrow> votes_in c S \<subseteq> votes_in c S'"
  by (auto simp: votes_in_def)

text \<open>What a step at member \<open>a\<close> has to establish.\<close>

lemma net_inv_step:
  assumes inv: "net_inv x c A s" and fin: "finite A"
    and t: "cn_nodes t = (cn_nodes s)(a := q)" "said t = said s \<union> set (sent_requests outs)"
      "cn_decisions t = cn_decisions s \<union> Pair a ` set (decided_values outs)"
      "cn_consumed s \<subseteq> cn_consumed t" "cn_proposed s \<subseteq> cn_proposed t"
    and node: "node_inv x c A (said t) (cn_consumed t) (cn_proposed t) a q"
    and wf: "set (sent_requests outs) \<subseteq> wf_reqs x c A"
    and own: "\<And>b r v. p2a_req c b r v \<in> set (sent_requests outs) \<Longrightarrow> b = a"
    and pr: "proposer_ok x c (said t) a (fp_paxos q)"
    and abs: "voting_reachable A (abs_net c t)"
    and dec: "\<And>v. v \<in> set (decided_values outs) \<Longrightarrow> \<exists>r. chosen A (abs_net c t) r v"
  shows "net_inv x c A t"
proof -
  have vt: "votes_ok A (abs_net c t)" using voting_reachable_inv[OF abs fin] by (simp add: voting_inv_def)
  have "vt_votes (abs_net c s) \<subseteq> vt_votes (abs_net c t)" using t(2) votes_in_mono by simp
  then have old: "\<exists>r. chosen A (abs_net c t) r v" if "(b, v) \<in> cn_decisions s" for b v
    using inv that chosen_mono[OF vt fin, of "abs_net c s"] unfolding net_inv_def by blast
  have other: "node_inv x c A (said t) (cn_consumed t) (cn_proposed t) b (cn_nodes s b) \<and>
      proposer_ok x c (said t) b (fp_paxos (cn_nodes s b))" if "b \<in> A" "b \<noteq> a" for b
  proof
    have "node_inv x c A (said s) (cn_consumed s) (cn_proposed s) b (cn_nodes s b)"
      using inv that by (simp add: net_inv_def)
    then show "node_inv x c A (said t) (cn_consumed t) (cn_proposed t) b (cn_nodes s b)"
      by (rule node_inv_mono) (use t in auto)
    have "proposer_ok x c (said s) b (fp_paxos (cn_nodes s b))" using inv that by (simp add: net_inv_def)
    then show "proposer_ok x c (said t) b (fp_paxos (cn_nodes s b))"
      using own that(2) unfolding proposer_ok_def t(2) by blast
  qed
  show ?thesis unfolding net_inv_def
  proof (intro conjI)
    show "\<forall>b \<in> A. node_inv x c A (said t) (cn_consumed t) (cn_proposed t) b (cn_nodes t b) \<and>
        proposer_ok x c (said t) b (fp_paxos (cn_nodes t b))"
      using other node pr t(1) by simp
    show "said t \<subseteq> wf_reqs x c A" using inv wf t(2) by (simp add: net_inv_def)
    show "\<forall>b v. (b, v) \<in> cn_decisions t \<longrightarrow> (\<exists>r. chosen A (abs_net c t) r v)"
      using old dec t(3) by auto
  qed (rule abs)
qed

lemma net_inv_init: "A \<noteq> {} \<Longrightarrow> net_inv x c A (net_init c delay A)"
proof -
  have "abs_net c (net_init c delay A) = voting_init"
    by (simp add: abs_net_def net_init_def voting_init_def said_def votes_in_def promises_in_def
        proposals_in_def fast_paxos_new_def paxos_new_def Let_def)
  then have "voting_reachable A (abs_net c (net_init c delay A))" by (simp add: vr_init)
  moreover have "tally_ok {} (fast_paxos_new a c n delay)" for a n
    using votes_by_new by (fastforce simp: tally_ok_def)
  ultimately show ?thesis
    by (simp add: net_inv_def node_inv_def node_static_def ranks_ok_def collected_ok_def buckets_ok_def
        proposer_ok_def net_init_def said_def fast_paxos_new_def paxos_new_def Let_def bucket_of_def fm_get_or_def)
qed

section \<open>Steps of the network as steps of the voting machine\<close>

lemma abs_net_upd:
  assumes "cn_nodes t = (cn_nodes s)(a := q)"
  shows "abs_net c t = \<lparr>vt_rnd = (vt_rnd (abs_net c s))(a := px_rnd (fp_paxos q)),
     vt_last = (vt_last (abs_net c s))(a := (px_vrnd (fp_paxos q), px_vval (fp_paxos q))),
     vt_votes = votes_in c (said t), vt_promises = promises_in c (said t),
     vt_proposals = proposals_in c (said t)\<rparr>"
  by (auto simp: abs_net_def assms)

lemma abs_net_quiet:
  assumes "cn_nodes t = (cn_nodes s)(a := q)" and "px_rnd (fp_paxos q) = px_rnd (fp_paxos (cn_nodes s a))"
    "px_vrnd (fp_paxos q) = px_vrnd (fp_paxos (cn_nodes s a))"
    "px_vval (fp_paxos q) = px_vval (fp_paxos (cn_nodes s a))"
    and "votes_in c (said t) = votes_in c (said s)" "promises_in c (said t) = promises_in c (said s)"
    "proposals_in c (said t) = proposals_in c (said s)"
  shows "abs_net c t = abs_net c s"
  unfolding abs_net_upd[OF assms(1)] using assms by (auto simp: abs_net_def)

lemma tally_ok_cong:
  assumes "fp_votes_received q = fp_votes_received fp" "fp_votes_per_proposal q = fp_votes_per_proposal fp"
    "fp_configuration_id q = fp_configuration_id fp" "tally_ok S fp" "S \<subseteq> S'"
  shows "tally_ok S' q"
proof -
  obtain past W where W: "votes_by fp past W"
    "\<forall>m \<in> set past. RapidRequest (Some (FastRoundPhase2bMessage m)) \<in> S"
    using assms(4) unfolding tally_ok_def by blast
  have "votes_by q past W" using W(1) unfolding votes_by_def assms(1-3) .
  then show ?thesis using W(2) assms(5) unfolding tally_ok_def by blast
qed

lemma handle_paxos_simps [simp]:
  "fp_paxos (fst (handle_paxos fp r)) = fst r" "snd (handle_paxos fp r) = map wrap (snd r)"
  "fp_my_addr (fst (handle_paxos fp r)) = fp_my_addr fp"
  "fp_configuration_id (fst (handle_paxos fp r)) = fp_configuration_id fp"
  "fp_membership_size (fst (handle_paxos fp r)) = fp_membership_size fp"
  "fp_votes_received (fst (handle_paxos fp r)) = fp_votes_received fp"
  "fp_votes_per_proposal (fst (handle_paxos fp r)) = fp_votes_per_proposal fp"
  by (simp_all add: handle_paxos_def Let_def)

lemma sent_requests_simps [simp]:
  "sent_requests [] = []" "sent_requests (FastBroadcast req # outs) = req # sent_requests outs"
  "sent_requests (FastUnicast a req # outs) = req # sent_requests outs"
  "sent_requests (FastDecision v # outs) = sent_requests outs"
  "sent_requests (ScheduleClassicFallback d # outs) = sent_requests outs"
  "decided_values [] = []" "decided_values (FastBroadcast req # outs) = decided_values outs"
  "decided_values (FastUnicast a req # outs) = decided_values outs"
  "decided_values (FastDecision v # outs) = v # decided_values outs"
  "decided_values (ScheduleClassicFallback d # outs) = decided_values outs"
  by (simp_all add: sent_requests_def decided_values_def List.map_filter_def)

lemma net_invD:
  assumes "net_inv x c A s" "a \<in> A"
  shows "node_static c A a (cn_nodes s a)"
    "ranks_ok x (cn_proposed s) a (fp_paxos (cn_nodes s a))"
    "collected_ok (said s) (cn_consumed s) a (fp_paxos (cn_nodes s a))"
    "buckets_ok c (said s) (fp_paxos (cn_nodes s a))" "tally_ok (said s) (cn_nodes s a)"
    "proposer_ok x c (said s) a (fp_paxos (cn_nodes s a))"
    "voting_reachable A (abs_net c s)" "said s \<subseteq> wf_reqs x c A"
  using assms by (simp_all add: net_inv_def node_inv_def)

lemma collected_ok_mono: "collected_ok S C a p \<Longrightarrow> S \<subseteq> S' \<Longrightarrow> C \<subseteq> C' \<Longrightarrow> collected_ok S' C' a p"
  unfolding collected_ok_def by blast

lemma collected_ok_cong:
  "px_phase1b_messages q = px_phase1b_messages p \<Longrightarrow> px_crnd q = px_crnd p \<Longrightarrow>
   collected_ok S C a q \<longleftrightarrow> collected_ok S C a p"
  by (simp add: collected_ok_def)

lemma buckets_ok_mono: "buckets_ok c S p \<Longrightarrow> S \<subseteq> S' \<Longrightarrow> buckets_ok c S' p"
  unfolding buckets_ok_def by blast

lemma buckets_ok_cong:
  "px_accept_responses q = px_accept_responses p \<Longrightarrow> buckets_ok c S q \<longleftrightarrow> buckets_ok c S p"
  by (simp add: buckets_ok_def bucket_of_def)

lemma p2a_not [simp]:
  "p2a_req c b r v \<noteq> p1a_req c a k" "p2a_req c b r v \<noteq> p1b_req c a k l" "p2a_req c b r v \<noteq> p2b_req c a k u"
  "p2a_req c b r v \<noteq> fast_req c a u" "p2a_req c b r v = p2a_req c a k u \<longleftrightarrow> b = a \<and> r = k \<and> v = u"
  by (auto simp: req_defs)

lemma wf_reqsI [simp]:
  "a \<in> A \<Longrightarrow> p1a_req c a (Rank 2 (stable_node_index x a)) \<in> wf_reqs x c A" "a \<in> A \<Longrightarrow> p1b_req c a r l \<in> wf_reqs x c A"
  "a \<in> A \<Longrightarrow> v \<noteq> [] \<Longrightarrow> p2a_req c a r v \<in> wf_reqs x c A"
  "a \<in> A \<Longrightarrow> classic_rank r \<Longrightarrow> p2b_req c a r v \<in> wf_reqs x c A"
  "a \<in> A \<Longrightarrow> v \<noteq> [] \<Longrightarrow> fast_req c a v \<in> wf_reqs x c A"
  unfolding wf_reqs_def by blast+

lemma propose_step:
  assumes inv: "net_inv x c A s" and fin: "finite A" and en: "net_enabled A s (NetPropose a j v)"
  shows "net_inv x c A (net_apply x A s (NetPropose a j v))"
proof -
  let ?t = "net_apply x A s (NetPropose a j v)" and ?fp = "cn_nodes s a"
  let ?p = "(fp_paxos ?fp)\<lparr>px_rnd := fast_rank, px_vrnd := fast_rank, px_vval := v\<rparr>"
  have a: "a \<in> A" "a \<notin> cn_proposed s" "v \<noteq> []" "\<not> classic_rank (px_rnd (fp_paxos ?fp))" using en by simp_all
  then have ne: "A \<noteq> {}" by blast
  note I = net_invD[OF inv a(1)]
  have rnd: "px_rnd (fp_paxos ?fp) = Rank 0 0" using I(2) a(2,4) by (auto simp: ranks_ok_def)
  have fp: "fp_my_addr ?fp = a" "fp_configuration_id ?fp = c" using I(1) by (simp_all add: node_static_def)
  have pr: "propose j ?fp v = (?fp\<lparr>fp_paxos := ?p\<rparr>,
      [FastBroadcast (fast_req c a v), ScheduleClassicFallback (random_delay j (?fp\<lparr>fp_paxos := ?p\<rparr>))])"
    using rnd fp by (simp add: propose_def register_fast_round_vote_def Let_def fast_req_def)
  have nodes: "cn_nodes ?t = (cn_nodes s)(a := ?fp\<lparr>fp_paxos := ?p\<rparr>)" using pr by simp
  have said: "said ?t = insert (fast_req c a v) (said s)" using pr by (simp add: said_absorb[OF ne])
  have "vt_rnd (abs_net c s) a < fast_rank" using rnd by simp
  from voting_step.fast_vote[OF a(1) this, of v]
  have "voting_step A (abs_net c s) (abs_net c ?t)"
    unfolding abs_net_upd[OF nodes] said by (simp add: abs_net_def)
  then have abs: "voting_reachable A (abs_net c ?t)" using I(7) vr_step by blast
  show ?thesis
  proof (rule net_inv_step[OF inv fin nodes _ _ _ _ _ _ _ _ abs, where outs = "snd (propose j ?fp v)"])
    show "node_inv x c A (said ?t) (cn_consumed ?t) (cn_proposed ?t) a (?fp\<lparr>fp_paxos := ?p\<rparr>)"
      unfolding node_inv_def said
    proof (intro conjI)
      show "node_static c A a (?fp\<lparr>fp_paxos := ?p\<rparr>)" using I(1) by (simp add: node_static_def)
      show "ranks_ok x (cn_proposed ?t) a (fp_paxos (?fp\<lparr>fp_paxos := ?p\<rparr>))"
        using I(2) by (simp add: ranks_ok_def)
      show "collected_ok (insert (fast_req c a v) (said s)) (cn_consumed ?t) a (fp_paxos (?fp\<lparr>fp_paxos := ?p\<rparr>))"
        using collected_ok_mono[OF I(3), of "insert (fast_req c a v) (said s)"]
        by (auto simp: collected_ok_def)
      show "buckets_ok c (insert (fast_req c a v) (said s)) (fp_paxos (?fp\<lparr>fp_paxos := ?p\<rparr>))"
        using buckets_ok_mono[OF I(4), of "insert (fast_req c a v) (said s)"]
        by (auto simp: buckets_ok_def bucket_of_def)
      show "tally_ok (insert (fast_req c a v) (said s)) (?fp\<lparr>fp_paxos := ?p\<rparr>)"
        by (rule tally_ok_cong[OF _ _ _ I(5)]) auto
    qed
    show "proposer_ok x c (said ?t) a (fp_paxos (?fp\<lparr>fp_paxos := ?p\<rparr>))"
      using I(6) said by (simp add: proposer_ok_def)
  qed (use pr said a in auto)
qed

text \<open>A step that leaves the fast tally and the instance's parameters alone.\<close>

definition same_frame :: "fast_paxos \<Rightarrow> fast_paxos \<Rightarrow> bool" where
  "same_frame fp q \<longleftrightarrow> fp_my_addr q = fp_my_addr fp \<and> fp_configuration_id q = fp_configuration_id fp \<and>
     fp_membership_size q = fp_membership_size fp \<and> fp_votes_received q = fp_votes_received fp \<and>
     fp_votes_per_proposal q = fp_votes_per_proposal fp \<and>
     px_my_addr (fp_paxos q) = px_my_addr (fp_paxos fp) \<and>
     px_configuration_id (fp_paxos q) = px_configuration_id (fp_paxos fp) \<and>
     px_n (fp_paxos q) = px_n (fp_paxos fp)"

lemma classic_step:
  assumes inv: "net_inv x c A s" and fin: "finite A" and a: "a \<in> A"
    and t: "cn_nodes t = (cn_nodes s)(a := q)" "said t = said s \<union> set (sent_requests outs)"
      "cn_decisions t = cn_decisions s \<union> Pair a ` set (decided_values outs)"
      "cn_consumed s \<subseteq> cn_consumed t" "cn_proposed t = cn_proposed s"
    and frame: "same_frame (cn_nodes s a) q" and ranks: "ranks_ok x (cn_proposed s) a (fp_paxos q)"
    and coll: "collected_ok (said t) (cn_consumed t) a (fp_paxos q)"
    and buckets: "buckets_ok c (said t) (fp_paxos q)"
    and wf: "set (sent_requests outs) \<subseteq> wf_reqs x c A"
    and own: "\<And>b r v. p2a_req c b r v \<in> set (sent_requests outs) \<Longrightarrow> b = a"
    and pr: "proposer_ok x c (said t) a (fp_paxos q)"
    and abs: "abs_net c t = abs_net c s \<or> voting_step A (abs_net c s) (abs_net c t)"
    and dec: "\<And>v. voting_reachable A (abs_net c t) \<Longrightarrow> v \<in> set (decided_values outs) \<Longrightarrow>
      \<exists>r. chosen A (abs_net c t) r v"
  shows "net_inv x c A t"
proof -
  note I = net_invD[OF inv a]
  have r: "voting_reachable A (abs_net c t)" using abs I(7) vr_step by metis
  have st: "node_static c A a q" using I(1) frame by (simp add: node_static_def same_frame_def)
  have "tally_ok (said t) q"
    by (rule tally_ok_cong[OF _ _ _ I(5)]) (use frame t(2) in \<open>auto simp: same_frame_def\<close>)
  then have "node_inv x c A (said t) (cn_consumed t) (cn_proposed t) a q"
    unfolding node_inv_def using st ranks coll buckets t(5) by simp
  from net_inv_step[OF inv fin t(1-4) _ this wf own pr r dec[OF r]] t(5) show ?thesis by simp
qed

text \<open>A message whose handler does nothing.\<close>

lemma quiet_step:
  assumes inv: "net_inv x c A s" and fin: "finite A" and a: "a \<in> A"
    and h: "handle_consensus_message (cn_nodes s a) req = handle_paxos (cn_nodes s a) (fp_paxos (cn_nodes s a), [])"
  shows "net_inv x c A (net_apply x A s (NetDeliver a req))"
proof -
  let ?t = "net_apply x A s (NetDeliver a req)" and ?q = "fst (handle_paxos (cn_nodes s a) (fp_paxos (cn_nodes s a), []))"
  note I = net_invD[OF inv a]
  have ne: "A \<noteq> {}" using a by blast
  have t: "cn_nodes ?t = (cn_nodes s)(a := ?q)" "said ?t = said s \<union> set (sent_requests [])"
    "cn_decisions ?t = cn_decisions s \<union> Pair a ` set (decided_values [])"
    "cn_consumed s \<subseteq> cn_consumed ?t" "cn_proposed ?t = cn_proposed s"
    using h by (auto simp: said_absorb[OF ne])
  show ?thesis
  proof (rule classic_step[OF inv fin a t])
    show "abs_net c ?t = abs_net c s \<or> voting_step A (abs_net c s) (abs_net c ?t)"
      by (rule disjI1, rule abs_net_quiet[OF t(1)]) (use t(2) in simp_all)
    show "collected_ok (said ?t) (cn_consumed ?t) a (fp_paxos ?q)"
      using collected_ok_mono[OF I(3) _ t(4)] t(2) by simp
  qed (use I t(2) in \<open>auto simp: same_frame_def\<close>)
qed

lemma promise_req:
  assumes "net_inv x c A s" "finite A" "a \<in> A" "RapidRequest (Some (Phase1bMessage m)) \<in> said s"
  obtains b r l where "m = p1b_msg c b r l" "(b, r, l) \<in> vt_promises (abs_net c s)" "b \<in> A" "classic_rank r"
proof -
  note I = net_invD[OF assms(1,3)]
  obtain b r l where m: "m = p1b_msg c b r l" "b \<in> A"
    using I(8) assms(4) by (fastforce simp: wf_reqs_def req_defs)
  then have pr: "(b, r, l) \<in> vt_promises (abs_net c s)" using assms(4) by (simp add: promises_in_def p1b_req_def)
  then have "classic_rank r"
    using voting_reachable_inv[OF I(7) assms(2)] promises_okD(2) by (metis voting_inv_def)
  then show thesis using that m pr by blast
qed

lemma collected_promise:
  assumes inv: "net_inv x c A s" "finite A" and a: "a \<in> A"
    and m: "m \<in> set (px_phase1b_messages (fp_paxos (cn_nodes s a)))"
  shows "px_crnd (fp_paxos (cn_nodes s a)) = Rank 2 (stable_node_index x a) \<and>
    (\<exists>b l. m = p1b_msg c b (Rank 2 (stable_node_index x a)) l \<and> b \<in> A \<and>
      (b, Rank 2 (stable_node_index x a), l) \<in> vt_promises (abs_net c s))"
proof -
  note I = net_invD[OF inv(1) a]
  have m': "p1b_rnd m = Some (px_crnd (fp_paxos (cn_nodes s a)))" "RapidRequest (Some (Phase1bMessage m)) \<in> said s"
    using I(3) m unfolding collected_ok_def by blast+
  from inv a m'(2) obtain b r l where b: "m = p1b_msg c b r l" "(b, r, l) \<in> vt_promises (abs_net c s)" "b \<in> A"
    "classic_rank r" by (rule promise_req)
  have r: "r = px_crnd (fp_paxos (cn_nodes s a))" using m'(1) b(1) by (simp add: p1b_msg_def)
  then have "px_crnd (fp_paxos (cn_nodes s a)) = Rank 2 (stable_node_index x a)"
    using I(2) b(4) by (auto simp: ranks_ok_def classic_rank_def)
  then show ?thesis using b r by metis
qed

lemma start_step:
  assumes inv: "net_inv x c A s" and fin: "finite A" and a: "a \<in> A"
  shows "net_inv x c A (net_apply x A s (NetStart a))"
proof -
  let ?t = "net_apply x A s (NetStart a)" and ?fp = "cn_nodes s a" and ?r = "Rank 2 (stable_node_index x a)"
  note I = net_invD[OF inv a]
  have ne: "A \<noteq> {}" using a by blast
  have addr: "px_my_addr (fp_paxos ?fp) = a" "px_configuration_id (fp_paxos ?fp) = c"
    using I(1) by (simp_all add: node_static_def)
  have le: "\<not> 2 < sint (rank_round (px_crnd (fp_paxos ?fp)))" using I(2) by (auto simp: ranks_ok_def)
  show ?thesis
  proof (cases "fp_decided ?fp \<or> fp_classic_started ?fp")
    case True
    then have "start_classic_round x ?fp = (?fp, [])" by (simp add: start_classic_round_def)
    then have "?t = s" by (simp add: absorb_def)
    then show ?thesis using inv by simp
  next
    case False
    let ?q = "?fp\<lparr>fp_classic_started := True, fp_paxos := (fp_paxos ?fp)\<lparr>px_crnd := ?r\<rparr>\<rparr>"
    have h: "start_classic_round x ?fp = (?q, [FastBroadcast (p1a_req c a ?r)])"
      using False addr le by (simp add: start_classic_round_def start_phase1a_def Let_def p1a_req_def)
    have t: "cn_nodes ?t = (cn_nodes s)(a := ?q)" "said ?t = said s \<union> set (sent_requests [FastBroadcast (p1a_req c a ?r)])"
      "cn_decisions ?t = cn_decisions s \<union> Pair a ` set (decided_values [FastBroadcast (p1a_req c a ?r)])"
      "cn_consumed s \<subseteq> cn_consumed ?t" "cn_proposed ?t = cn_proposed s"
      using h by (auto simp: said_absorb[OF ne])
    have said: "said ?t = insert (p1a_req c a ?r) (said s)" using t(2) by simp
    have crnd: "px_crnd (fp_paxos ?fp) = ?r" if "m \<in> set (px_phase1b_messages (fp_paxos ?fp))" for m
      using collected_promise[OF inv fin a that] by blast
    show ?thesis
    proof (rule classic_step[OF inv fin a t])
      show "collected_ok (said ?t) (cn_consumed ?t) a (fp_paxos ?q)"
        using I(3) crnd t(4) unfolding collected_ok_def said by auto
      show "buckets_ok c (said ?t) (fp_paxos ?q)"
        using buckets_ok_mono[OF I(4), of "said ?t"] said by (auto simp: buckets_ok_def bucket_of_def)
      show "abs_net c ?t = abs_net c s \<or> voting_step A (abs_net c s) (abs_net c ?t)"
        by (rule disjI1, rule abs_net_quiet[OF t(1)]) (simp_all add: said del: net_apply.simps)
      show "proposer_ok x c (said ?t) a (fp_paxos ?q)" using I(6) said by (simp add: proposer_ok_def)
      show "ranks_ok x (cn_proposed s) a (fp_paxos ?q)" using I(2) by (simp add: ranks_ok_def)
    qed (use a in \<open>auto simp: same_frame_def\<close>)
  qed
qed

lemma phase1a_step:
  assumes inv: "net_inv x c A s" and fin: "finite A" and a: "a \<in> A" and k: "k \<in> A"
    and r: "r = Rank 2 (stable_node_index x k)"
  shows "net_inv x c A (net_apply x A s (NetDeliver a (p1a_req c k r)))"
proof -
  let ?req = "p1a_req c k r" let ?t = "net_apply x A s (NetDeliver a ?req)" and ?fp = "cn_nodes s a"
  let ?p = "fp_paxos ?fp"
  note I = net_invD[OF inv a]
  have ne: "A \<noteq> {}" using a by blast
  have cl: "classic_rank r" by (simp add: r classic_rank_def)
  have addr: "px_my_addr ?p = a" "px_configuration_id ?p = c" using I(1) by (simp_all add: node_static_def)
  show ?thesis
  proof (cases "px_rnd ?p < r")
    case False
    then have "handle_consensus_message ?fp ?req = handle_paxos ?fp (?p, [])"
      by (simp add: handle_consensus_message_def handle_phase1a_def p1a_req_def)
    then show ?thesis by (rule quiet_step[OF inv fin a])
  next
    case True
    let ?l = "(px_vrnd ?p, px_vval ?p)"
    let ?h = "(?p\<lparr>px_rnd := r\<rparr>, [PxUnicast k (p1b_req c a r ?l)])"
    let ?q = "fst (handle_paxos ?fp ?h)"
    have h: "handle_consensus_message ?fp ?req = handle_paxos ?fp ?h"
      using True addr
      by (simp add: handle_consensus_message_def handle_phase1a_def p1a_req_def p1b_req_def p1b_msg_def Let_def)
    have t: "cn_nodes ?t = (cn_nodes s)(a := ?q)"
      "said ?t = said s \<union> set (sent_requests [FastUnicast k (p1b_req c a r ?l)])"
      "cn_decisions ?t = cn_decisions s \<union> Pair a ` set (decided_values [FastUnicast k (p1b_req c a r ?l)])"
      "cn_consumed s \<subseteq> cn_consumed ?t" "cn_proposed ?t = cn_proposed s"
      using h by (auto simp: said_absorb[OF ne])
    have said: "said ?t = insert (p1b_req c a r ?l) (said s)" using t(2) by simp
    have "voting_step A (abs_net c s) (abs_net c ?t)"
      using voting_step.promise[OF a cl, of "abs_net c s"] True
      unfolding abs_net_upd[OF t(1)] said by (simp add: abs_net_def fun_upd_idem)
    then show ?thesis
    proof (intro classic_step[OF inv fin a t])
      show "collected_ok (said ?t) (cn_consumed ?t) a (fp_paxos ?q)"
        using collected_ok_mono[OF I(3) _ t(4), of "said ?t"] said by (auto simp: collected_ok_def)
      show "buckets_ok c (said ?t) (fp_paxos ?q)"
        using buckets_ok_mono[OF I(4), of "said ?t"] said by (auto simp: buckets_ok_def bucket_of_def)
      show "proposer_ok x c (said ?t) a (fp_paxos ?q)" using I(6) said by (simp add: proposer_ok_def)
      show "ranks_ok x (cn_proposed s) a (fp_paxos ?q)" using I(2) cl by (simp add: ranks_ok_def)
    qed (use a in \<open>auto simp: same_frame_def\<close>)
  qed
qed

lemma phase2a_step:
  assumes inv: "net_inv x c A s" and fin: "finite A" and a: "a \<in> A" and said_2a: "p2a_req c k r v \<in> said s"
  shows "net_inv x c A (net_apply x A s (NetDeliver a (p2a_req c k r v)))"
proof -
  let ?req = "p2a_req c k r v" let ?t = "net_apply x A s (NetDeliver a ?req)" and ?fp = "cn_nodes s a"
  let ?p = "fp_paxos ?fp"
  note I = net_invD[OF inv a]
  have ne: "A \<noteq> {}" using a by blast
  have rv: "(r, v) \<in> vt_proposals (abs_net c s)" using said_2a by (auto simp: proposals_in_def)
  then have cl: "classic_rank r"
    using voting_reachable_inv[OF I(7) fin] by (meson proposals_ok_def voting_inv_def)
  have addr: "px_my_addr ?p = a" "px_configuration_id ?p = c" using I(1) by (simp_all add: node_static_def)
  show ?thesis
  proof (cases "px_rnd ?p \<le> r \<and> px_vrnd ?p \<noteq> r")
    case False
    then have "handle_consensus_message ?fp ?req = handle_paxos ?fp (?p, [])"
      by (auto simp: handle_consensus_message_def handle_phase2a_def p2a_req_def)
    then show ?thesis by (rule quiet_step[OF inv fin a])
  next
    case True
    let ?h = "(?p\<lparr>px_rnd := r, px_vrnd := r, px_vval := v\<rparr>, [PxBroadcast (p2b_req c a r v)])"
    let ?q = "fst (handle_paxos ?fp ?h)"
    have h: "handle_consensus_message ?fp ?req = handle_paxos ?fp ?h"
      using True addr
      by (simp add: handle_consensus_message_def handle_phase2a_def p2a_req_def p2b_req_def Let_def)
    have t: "cn_nodes ?t = (cn_nodes s)(a := ?q)"
      "said ?t = said s \<union> set (sent_requests [FastBroadcast (p2b_req c a r v)])"
      "cn_decisions ?t = cn_decisions s \<union> Pair a ` set (decided_values [FastBroadcast (p2b_req c a r v)])"
      "cn_consumed s \<subseteq> cn_consumed ?t" "cn_proposed ?t = cn_proposed s"
      using h by (auto simp: said_absorb[OF ne])
    have said: "said ?t = insert (p2b_req c a r v) (said s)" using t(2) by simp
    have "voting_step A (abs_net c s) (abs_net c ?t)"
      using voting_step.accept[OF a rv] True
      unfolding abs_net_upd[OF t(1)] said by (simp add: abs_net_def)
    then show ?thesis
    proof (intro classic_step[OF inv fin a t])
      show "collected_ok (said ?t) (cn_consumed ?t) a (fp_paxos ?q)"
        using collected_ok_mono[OF I(3) _ t(4), of "said ?t"] said by (auto simp: collected_ok_def)
      show "buckets_ok c (said ?t) (fp_paxos ?q)"
        using buckets_ok_mono[OF I(4), of "said ?t"] said by (auto simp: buckets_ok_def bucket_of_def)
      show "proposer_ok x c (said ?t) a (fp_paxos ?q)" using I(6) said by (simp add: proposer_ok_def)
      show "ranks_ok x (cn_proposed s) a (fp_paxos ?q)" using I(2) cl by (simp add: ranks_ok_def)
    qed (use a cl in \<open>auto simp: same_frame_def\<close>)
  qed
qed

lemma bucket_chosen:
  assumes inv: "voting_inv A (abs_net c t)" and fin: "finite A" and wf: "said t \<subseteq> wf_reqs x c A"
    and b: "buckets_ok c (said t) p" and m: "p2b_req c k r v \<in> said t"
    and len: "card A div 2 < fm_len (bucket_of p r)"
  shows "chosen A (abs_net c t) r v"
proof -
  have ok: "votes_ok A (abs_net c t)" "proposals_ok (abs_net c t)" using inv by (simp_all add: voting_inv_def)
  have cl: "classic_rank r" using wf m by (fastforce simp: wf_reqs_def req_defs)
  have prop_of: "(r, w) \<in> vt_proposals (abs_net c t)" if "p2b_req c j r w \<in> said t" for j w
  proof -
    have "(j, r, w) \<in> vt_votes (abs_net c t)" using that by (simp add: votes_in_def)
    then show ?thesis using ok(1) cl unfolding votes_ok_def by (metis rank_facts(3))
  qed
  have "fset (fmdom (bucket_of p r)) \<subseteq> endpoint_key_of ` voters_of (abs_net c t) r v"
  proof
    fix key assume "key \<in> fset (fmdom (bucket_of p r))"
    then obtain m' where "fmlookup (bucket_of p r) key = Some m'" by (meson fmlookup_dom_iff)
    then obtain j where j: "key = endpoint_key_of j" "p2b_req c j r (p2b_endpoints m') \<in> said t"
      using b unfolding buckets_ok_def by blast
    then have "p2b_endpoints m' = v" using prop_of[OF j(2)] prop_of[OF m] ok(2) unfolding proposals_ok_def by blast
    then show "key \<in> endpoint_key_of ` voters_of (abs_net c t) r v" using j by (auto simp: voters_of_def votes_in_def)
  qed
  moreover have "finite (voters_of (abs_net c t) r v)"
  proof (rule finite_subset[OF _ fin])
    show "voters_of (abs_net c t) r v \<subseteq> A" using ok(1) unfolding votes_ok_def voters_of_def by blast
  qed
  ultimately have "card (fset (fmdom (bucket_of p r))) \<le> card (endpoint_key_of ` voters_of (abs_net c t) r v)"
    by (intro card_mono) auto
  also have "\<dots> = card (voters_of (abs_net c t) r v)" by (intro card_image) simp
  finally show ?thesis using len cl
    by (simp add: chosen_def quorum_size_def classic_quorum_def fm_len_def fcard.rep_eq)
qed

lemma phase2b_step:
  assumes inv: "net_inv x c A s" and fin: "finite A" and a: "a \<in> A" and said_2b: "p2b_req c k r v \<in> said s"
  shows "net_inv x c A (net_apply x A s (NetDeliver a (p2b_req c k r v)))"
proof -
  let ?req = "p2b_req c k r v" let ?t = "net_apply x A s (NetDeliver a ?req)" and ?fp = "cn_nodes s a"
  let ?p = "fp_paxos ?fp"
  let ?m = "\<lparr>p2b_sender = Some k, p2b_configuration_id = c, p2b_rnd = Some r, p2b_endpoints = v\<rparr>"
  note I = net_invD[OF inv a]
  have ne: "A \<noteq> {}" using a by blast
  have st: "px_configuration_id ?p = c" "px_n ?p = card A" using I(1) by (simp_all add: node_static_def)
  show ?thesis
  proof (cases "px_decided ?p")
    case True
    then have "handle_consensus_message ?fp ?req = handle_paxos ?fp (?p, [])"
      by (simp add: handle_consensus_message_def handle_phase2b_def p2b_req_def)
    then show ?thesis by (rule quiet_step[OF inv fin a])
  next
    case False
    let ?h = "handle_phase2b ?p ?m"
    let ?q = "fst (handle_paxos ?fp ?h)" and ?outs = "map wrap (snd ?h)"
    have h: "handle_consensus_message ?fp ?req = handle_paxos ?fp ?h"
      by (simp add: handle_consensus_message_def p2b_req_def)
    have b: "bucket_of (fst ?h) r' = (if r' = r then fmupd (endpoint_key_of k) ?m (bucket_of ?p r) else bucket_of ?p r')" for r'
      using False st by (simp add: handle_phase2b_def Let_def bucket_of_def fm_get_or_def)
    have keep: "px_rnd (fst ?h) = px_rnd ?p" "px_vrnd (fst ?h) = px_vrnd ?p" "px_vval (fst ?h) = px_vval ?p"
      "px_crnd (fst ?h) = px_crnd ?p" "px_cval (fst ?h) = px_cval ?p" "px_n (fst ?h) = px_n ?p"
      "px_phase1b_messages (fst ?h) = px_phase1b_messages ?p" "px_my_addr (fst ?h) = px_my_addr ?p"
      "px_configuration_id (fst ?h) = px_configuration_id ?p" "sent_requests ?outs = []"
      by (simp_all add: handle_phase2b_def Let_def)
    have dv: "w = v \<and> card A div 2 < fm_len (bucket_of (fst ?h) r)" if "w \<in> set (decided_values ?outs)" for w
      using that False st by (auto simp: handle_phase2b_def Let_def bucket_of_def fm_get_or_def split: if_splits)
    have t: "cn_nodes ?t = (cn_nodes s)(a := ?q)" "said ?t = said s \<union> set (sent_requests ?outs)"
      "cn_decisions ?t = cn_decisions s \<union> Pair a ` set (decided_values ?outs)"
      "cn_consumed s \<subseteq> cn_consumed ?t" "cn_proposed ?t = cn_proposed s"
      using h by (auto simp: said_absorb[OF ne])
    have said: "said ?t = said s" using t(2) keep by simp
    have bk: "buckets_ok c (said ?t) (fst ?h)"
      using I(4) said_2b unfolding buckets_ok_def b said by auto
    show ?thesis
    proof (intro classic_step[OF inv fin a t])
      show "abs_net c ?t = abs_net c s \<or> voting_step A (abs_net c s) (abs_net c ?t)"
        by (rule disjI1, rule abs_net_quiet[OF t(1)]) (simp_all add: said keep del: net_apply.simps)
      show "collected_ok (said ?t) (cn_consumed ?t) a (fp_paxos ?q)"
        using collected_ok_mono[OF I(3) _ t(4), of "said ?t"] said keep by (auto simp: collected_ok_def)
      show "buckets_ok c (said ?t) (fp_paxos ?q)" using bk by simp
      show "proposer_ok x c (said ?t) a (fp_paxos ?q)" using I(6) said keep by (simp add: proposer_ok_def)
      show "ranks_ok x (cn_proposed s) a (fp_paxos ?q)" using I(2) keep by (simp add: ranks_ok_def)
      show "same_frame ?fp ?q" using keep by (simp add: same_frame_def)
      fix w assume r: "voting_reachable A (abs_net c ?t)" "w \<in> set (decided_values ?outs)"
      have "said ?t \<subseteq> wf_reqs x c A" "?req \<in> said ?t" using I(8) said said_2b by simp_all
      from bucket_chosen[OF voting_reachable_inv[OF r(1) fin] fin this(1) bk this(2)] dv[OF r(2)]
      show "\<exists>r. chosen A (abs_net c ?t) r w" by blast
    qed (simp_all add: keep)
  qed
qed

lemma tally_chosen:
  assumes inv: "voting_inv A (abs_net c t)" and fin: "finite A"
    and past: "\<forall>m \<in> set past. RapidRequest (Some (FastRoundPhase2bMessage m)) \<in> said t"
    and q: "fast_quorum (card A) \<le> card (voters c past v)"
  shows "chosen A (abs_net c t) fast_rank v"
proof -
  have sub: "voters c past v \<subseteq> voters_of (abs_net c t) fast_rank v"
  proof
    fix b assume "b \<in> voters c past v"
    then obtain m where m: "m \<in> set past" "fr_configuration_id m = c" "fr_sender m = Some b" "fr_endpoints m = v"
      by (auto simp: voters_def)
    then have "RapidRequest (Some (FastRoundPhase2bMessage m)) = fast_req c b v"
      by (simp add: fast_req_def)
    then have "fast_req c b v \<in> said t" using past m(1) by metis
    then show "b \<in> voters_of (abs_net c t) fast_rank v" by (simp add: voters_of_def votes_in_def)
  qed
  have "voters_of (abs_net c t) fast_rank v \<subseteq> A"
    using inv unfolding voting_inv_def votes_ok_def voters_of_def by blast
  then have "finite (voters_of (abs_net c t) fast_rank v)" using fin finite_subset by blast
  from card_mono[OF this sub] show ?thesis using q by (simp add: chosen_def quorum_size_def)
qed

lemma fast_step:
  assumes inv: "net_inv x c A s" and fin: "finite A" and a: "a \<in> A" and said_f: "fast_req c k v \<in> said s"
  shows "net_inv x c A (net_apply x A s (NetDeliver a (fast_req c k v)))"
proof -
  let ?req = "fast_req c k v" let ?t = "net_apply x A s (NetDeliver a ?req)" and ?fp = "cn_nodes s a"
  let ?m = "\<lparr>fr_sender = Some k, fr_configuration_id = c, fr_endpoints = v\<rparr>"
  let ?q = "count_vote ?fp ?m" and ?outs = "snd (handle_fast_round_proposal ?fp ?m)"
  note I = net_invD[OF inv a]
  have ne: "A \<noteq> {}" using a by blast
  have h: "handle_consensus_message ?fp ?req = (?q, ?outs)"
    by (simp add: handle_consensus_message_def fast_req_def count_vote_def)
  have outs: "?outs = [] \<or> (?outs = [FastDecision v] \<and> v \<in> set (fast_decisions ?fp [?m]))"
    by (auto simp: handle_fast_round_proposal_def Let_def)
  then have none: "sent_requests ?outs = []" by auto
  have t: "cn_nodes ?t = (cn_nodes s)(a := ?q)" "said ?t = said s \<union> set (sent_requests ?outs)"
    "cn_decisions ?t = cn_decisions s \<union> Pair a ` set (decided_values ?outs)"
    "cn_consumed s \<subseteq> cn_consumed ?t" "cn_proposed s \<subseteq> cn_proposed ?t"
    using h by (auto simp: said_absorb[OF ne])
  have said: "said ?t = said s" using t(2) none by simp
  obtain past W where W: "votes_by ?fp past W"
    "\<forall>m \<in> set past. RapidRequest (Some (FastRoundPhase2bMessage m)) \<in> said s"
    using I(5) unfolding tally_ok_def by blast
  then have past: "\<forall>m \<in> set (past @ [?m]). RapidRequest (Some (FastRoundPhase2bMessage m)) \<in> said ?t"
    using said_f said by (auto simp: fast_req_def)
  have abs: "abs_net c ?t = abs_net c s"
    by (rule abs_net_quiet[OF t(1)]) (simp_all add: said del: net_apply.simps)
  show ?thesis
  proof (rule net_inv_step[OF inv fin t])
    have "tally_ok (said ?t) ?q" using votes_by_step[OF W(1), of ?m] past unfolding tally_ok_def by blast
    moreover have "collected_ok (said ?t) (cn_consumed ?t) a (fp_paxos ?q)"
      using collected_ok_mono[OF I(3) _ t(4), of "said ?t"] said by simp
    moreover have "cn_proposed ?t = cn_proposed s" by simp
    moreover have "node_static c A a ?q" using I(1) by (simp add: node_static_def)
    ultimately show "node_inv x c A (said ?t) (cn_consumed ?t) (cn_proposed ?t) a ?q"
      using I(2,4) said unfolding node_inv_def by simp
    show "voting_reachable A (abs_net c ?t)" using I(7) abs by simp
    fix w assume "w \<in> set (decided_values ?outs)"
    then have "w = v" "v \<in> set (fast_decisions ?fp [?m])" using outs by auto
    moreover have "fp_membership_size ?fp = card A" "fp_configuration_id ?fp = c"
      using I(1) by (simp_all add: node_static_def)
    ultimately have "fast_quorum (card A) \<le> card (voters c (past @ [?m]) v)"
      using fast_decision_step[OF W(1), of v "[?m]"] by simp
    then have "chosen A (abs_net c ?t) fast_rank v"
      using tally_chosen[OF _ fin past] voting_reachable_inv[OF I(7) fin] abs by metis
    then show "\<exists>r. chosen A (abs_net c ?t) r w" using \<open>w = v\<close> by blast
  qed (use none I(6) said in \<open>simp_all\<close>)
qed

section \<open>The coordinator's proposal is selectable\<close>

lemma select_unanimous:
  assumes max: "max_vrnd msgs = Some r" and m: "m \<in> set msgs" "p1b_vrnd m = Some r" and u: "u \<noteq> []"
    and all: "\<And>m. m \<in> set msgs \<Longrightarrow> p1b_vrnd m = Some r \<Longrightarrow> p1b_vval m = u"
  shows "select_proposal_from_messages msgs n = u"
proof -
  let ?c = "collected_vvals msgs r"
  have set: "set ?c = {u}" using m u all unfolding collected_vvals_def by auto
  then have "card (set (map value_key ?c)) = 1" by simp
  then have "length (remdups (map value_key ?c)) = 1" by (simp add: length_remdups_card_conv)
  moreover obtain w ws where "?c = w # ws" using set by (cases ?c) auto
  moreover from this have "w = u" using set by auto
  moreover have "msgs \<noteq> []" using m(1) by auto
  ultimately show ?thesis using max by (simp add: select_proposal_from_messages_def Let_def)
qed

lemma scan_counters_in: "scan_counters q counters vs = Some v \<Longrightarrow> v \<in> set vs"
  by (induction q counters vs rule: scan_counters.induct) (auto simp: Let_def split: if_splits)

lemma select_proposal_reported:
  assumes "select_proposal_from_messages msgs n \<noteq> []"
  shows "select_proposal_from_messages msgs n \<in> p1b_vval ` set msgs"
proof -
  have coll: "set (collected_vvals msgs r) \<subseteq> p1b_vval ` set msgs" for r by (auto simp: collected_vvals_def)
  have first: "first_nonempty_vval msgs \<noteq> [] \<Longrightarrow> first_nonempty_vval msgs \<in> p1b_vval ` set msgs"
  proof (cases "filter (\<lambda>v. v \<noteq> []) (map p1b_vval msgs)")
    case (Cons w ws)
    then have "w \<in> set (filter (\<lambda>v. v \<noteq> []) (map p1b_vval msgs))" by (metis list.set_intros(1))
    then have "w \<in> p1b_vval ` set msgs" by auto
    then show ?thesis using Cons by (simp add: first_nonempty_vval_def)
  qed (simp add: first_nonempty_vval_def)
  have "msgs \<noteq> []" using assms by (auto simp: select_proposal_from_messages_def)
  moreover from this obtain r where r: "max_vrnd msgs = Some r"
    using assms by (cases "max_vrnd msgs") (auto simp: select_proposal_from_messages_def)
  ultimately have "select_proposal_from_messages msgs n \<in>
      insert [] (insert (first_nonempty_vval msgs) (set (collected_vvals msgs r)))"
    using scan_counters_in[of "n div 4" fmempty "collected_vvals msgs r"]
    by (cases "collected_vvals msgs r") (auto simp: select_proposal_from_messages_def Let_def split: option.split)
  then show ?thesis using assms coll[of r] first by auto
qed

definition held_promises :: "i64 \<Rightarrow> endpoint set \<Rightarrow> voting \<Rightarrow> rank \<Rightarrow> phase1b_message list \<Rightarrow> bool" where
  "held_promises c A s r msgs \<longleftrightarrow> distinct (map p1b_sender msgs) \<and>
     (\<forall>m \<in> set msgs. \<exists>b l. m = p1b_msg c b r l \<and> b \<in> A \<and> (b, r, l) \<in> vt_promises s)"

lemma held_reports:
  assumes ok: "promises_ok A s" and held: "held_promises c A s r msgs"
  shows "l \<in> reports s (p1b_senders msgs) r \<longleftrightarrow> (\<exists>b. p1b_msg c b r l \<in> set msgs)"
    "p1b_msg c b r l \<in> set msgs \<Longrightarrow> b \<in> p1b_senders msgs \<and> b \<in> A \<and> (b, r, l) \<in> vt_promises s"
    "b \<in> p1b_senders msgs \<Longrightarrow> (b, r, l') \<in> vt_promises s \<Longrightarrow> p1b_msg c b r l' \<in> set msgs"
    "p1b_senders msgs \<subseteq> A" "card (p1b_senders msgs) = length msgs"
    "p1b_senders msgs \<subseteq> {b. \<exists>l. (b, r, l) \<in> vt_promises s}"
proof -
  have inj: "p1b_msg c b r l = p1b_msg c' b' r' l' \<longleftrightarrow> c = c' \<and> b = b' \<and> r = r' \<and> l = l'" for b r l c' b' r' l'
    by (auto simp: p1b_msg_def prod_eq_iff)
  have own: "b \<in> p1b_senders msgs \<and> b \<in> A \<and> (b, r, l) \<in> vt_promises s" if "p1b_msg c b r l \<in> set msgs" for b l
  proof -
    have "p1b_sender (p1b_msg c b r l) = Some b" by (simp add: p1b_msg_def)
    then have "b \<in> p1b_senders msgs" using that unfolding p1b_senders_def by force
    then show ?thesis using held that unfolding held_promises_def by (metis inj)
  qed
  have again: "p1b_msg c b r l' \<in> set msgs" if "b \<in> p1b_senders msgs" "(b, r, l') \<in> vt_promises s" for b l'
  proof -
    obtain m where m: "m \<in> set msgs" "p1b_sender m = Some b" using \<open>b \<in> p1b_senders msgs\<close> by (auto simp: p1b_senders_def)
    then obtain l where l: "m = p1b_msg c b r l" "(b, r, l) \<in> vt_promises s"
      using held unfolding held_promises_def by (fastforce simp: p1b_msg_def)
    then show ?thesis using m(1) promises_okD(7)[OF ok l(2)] \<open>(b, r, l') \<in> vt_promises s\<close> by metis
  qed
  show "p1b_msg c b r l \<in> set msgs \<Longrightarrow> b \<in> p1b_senders msgs \<and> b \<in> A \<and> (b, r, l) \<in> vt_promises s" by (rule own)
  show "b \<in> p1b_senders msgs \<Longrightarrow> (b, r, l') \<in> vt_promises s \<Longrightarrow> p1b_msg c b r l' \<in> set msgs" by (rule again)
  show "l \<in> reports s (p1b_senders msgs) r \<longleftrightarrow> (\<exists>b. p1b_msg c b r l \<in> set msgs)"
    using own again unfolding reports_def by blast
  have some: "p1b_sender m \<in> Some ` A" if "m \<in> set msgs" for m
    using held that unfolding held_promises_def by (fastforce simp: p1b_msg_def)
  then show "p1b_senders msgs \<subseteq> A" by (fastforce simp: p1b_senders_def)
  show "p1b_senders msgs \<subseteq> {b. \<exists>l. (b, r, l) \<in> vt_promises s}"
  proof
    fix j assume "j \<in> p1b_senders msgs"
    then obtain m where m: "m \<in> set msgs" "p1b_sender m = Some j" unfolding p1b_senders_def by force
    then show "j \<in> {b. \<exists>l. (b, r, l) \<in> vt_promises s}"
      using held unfolding held_promises_def by (fastforce simp: p1b_msg_def)
  qed
  have "None \<notin> set (map p1b_sender msgs)" using some by fastforce
  then show "card (p1b_senders msgs) = length msgs"
    using filter_sender_card(1)[of msgs UNIV] held by (simp add: held_promises_def)
qed

lemma coordinator_selects:
  assumes fin: "finite A" and inv: "voting_inv A s" and held: "held_promises c A s r msgs"
    and len: "card A div 2 < length msgs" and ne: "\<And>a k u. (a, k, u) \<in> vt_votes s \<Longrightarrow> u \<noteq> []"
    and some: "select_proposal_from_messages msgs (card A) \<noteq> []"
  shows "selectable A s (p1b_senders msgs) r (select_proposal_from_messages msgs (card A))"
proof -
  let ?Q = "p1b_senders msgs" and ?sel = "select_proposal_from_messages msgs (card A)"
  let ?R = "reports s (p1b_senders msgs) r"
  have ok: "votes_ok A s" "promises_ok A s" "proposals_ok s" using inv by (simp_all add: voting_inv_def)
  note H = held_reports[OF ok(2) held]
  have msg: "\<exists>b l. m = p1b_msg c b r l \<and> l \<in> ?R" if "m \<in> set msgs" for m
    using held that H(1) unfolding held_promises_def by metis
  have "?R = (\<lambda>m. (the (p1b_vrnd m), p1b_vval m)) ` set msgs"
    using H(1) msg by (force simp: p1b_msg_def image_iff)
  moreover have "msgs \<noteq> []" using len by auto
  ultimately have R: "finite (fst ` ?R)" "fst ` ?R \<noteq> {}" by simp_all
  define k where "k = Max (fst ` ?R)"
  have top: "fst l \<le> k" if "l \<in> ?R" for l using Max_ge[OF R(1), of "fst l"] that by (simp add: k_def)
  obtain u where u: "(k, u) \<in> ?R" using Max_in[OF R] unfolding k_def by force
  then obtain b where b: "p1b_msg c b r (k, u) \<in> set msgs" using H(1) by blast
  have voted: "fst l = Rank 0 0 \<or> fst l = fast_rank \<or> l \<in> vt_proposals s" if lR: "l \<in> ?R" for l
  proof -
    obtain j where "p1b_msg c j r l \<in> set msgs" using lR H(1) by blast
    from promises_okD(5)[OF ok(2)] H(2)[OF this]
    have "l = (Rank 0 0, []) \<or> (j, fst l, snd l) \<in> vt_votes s" by (metis prod.collapse)
    then show ?thesis using ok(1) unfolding votes_ok_def by (metis fst_conv prod.collapse)
  qed
  have rep: "\<exists>k. fast_rank \<le> k \<and> (k, ?sel) \<in> ?R"
  proof -
    obtain m where m: "m \<in> set msgs" "p1b_vval m = ?sel" using select_proposal_reported[OF some] by auto
    then obtain j l where l: "m = p1b_msg c j r l" "l \<in> ?R" using msg by blast
    then have sel: "l = (fst l, ?sel)" using m(2) by (simp add: p1b_msg_def prod_eq_iff)
    have "(j, r, l) \<in> vt_promises s" using H(2)[of j l] m(1) l(1) by simp
    then have "(j, fst l, ?sel) \<in> vt_votes s" using promises_okD(5)[OF ok(2)] some sel by (metis prod.inject)
    then have "fast_rank \<le> fst l" using ok(1) unfolding votes_ok_def by blast
    then show ?thesis using l(2) sel by metis
  qed
  show ?thesis
  proof (cases "classic_rank k")
    case True
    then have k: "k \<noteq> Rank 0 0" "k \<noteq> fast_rank" using rank_facts(2,1) order.asym by blast+
    have same: "p1b_vval m = u" if m: "m \<in> set msgs" "p1b_vrnd m = Some k" for m
    proof -
      obtain j l where l: "m = p1b_msg c j r l" "l \<in> ?R" using msg[OF m(1)] by blast
      then have "l = (k, p1b_vval m)" using m(2) by (simp add: p1b_msg_def prod_eq_iff)
      then show ?thesis using voted[OF u] voted[OF l(2)] k ok(3) unfolding proposals_ok_def by auto
    qed
    have "(b, k, u) \<in> vt_votes s" using promises_okD(5)[OF ok(2)] H(2)[OF b] k(1) by blast
    then have "u \<noteq> []" by (rule ne)
    have "max_vrnd msgs = Some k"
    proof (rule max_vrnd_eq[OF b])
      fix m' r' assume m': "m' \<in> set msgs" "p1b_vrnd m' = Some r'"
      obtain j l where "m' = p1b_msg c j r l" "l \<in> ?R" using msg[OF m'(1)] by blast
      then show "r' \<le> k" using top[of l] m'(2) by (simp add: p1b_msg_def)
    qed (simp add: p1b_msg_def)
    from select_unanimous[OF this b _ \<open>u \<noteq> []\<close>] have "?sel = u" using same by (simp add: p1b_msg_def)
    then show ?thesis using True u top rep unfolding selectable_def by blast
  next
    case False
    have "k \<le> fast_rank" using voted[OF u] False ok(3) unfolding proposals_ok_def by auto
    then have low: "\<forall>l \<in> ?R. fst l \<le> fast_rank" using top by (meson order.trans)
    have "?sel = w" if possible: "fast_possible A s ?Q r w" for w
    proof -
      obtain V where V: "V \<subseteq> A" "fast_quorum (card A) \<le> card V" "\<forall>a \<in> ?Q \<inter> V. (a, r, fast_rank, w) \<in> vt_promises s"
        using possible unfolding fast_possible_def by blast
      have cq: "classic_quorum (card A) \<le> card ?Q" using H(5) len by (simp add: classic_quorum_def)
      then have "A \<noteq> {}" using H(4) fin by (auto simp: classic_quorum_def)
      from quorums_meet[OF fin this H(4) cq V(1), of fast_rank] V(2)
      obtain a where "a \<in> ?Q \<inter> V" by (auto simp: quorum_size_def)
      then have "(a, fast_rank, w) \<in> vt_votes s" using V(3) promises_okD(5)[OF ok(2)] by fastforce
      then have "w \<noteq> []" by (rule ne)
      show ?thesis
      proof (rule coordinator_rule_safe[OF fin refl \<open>w \<noteq> []\<close> V(1,2) _ _ len])
        show "distinct (map p1b_sender msgs)" using held by (simp add: held_promises_def)
        show "set (map p1b_sender msgs) \<subseteq> Some ` A"
          using held unfolding held_promises_def by (fastforce simp: p1b_msg_def)
        fix m assume m: "m \<in> set msgs"
        then obtain j l where l: "m = p1b_msg c j r l" "l \<in> ?R" using msg by blast
        show "p1b_vrnd m = Some fast_rank \<and> p1b_vval m = w" if "the (p1b_sender m) \<in> V"
        proof -
          have "p1b_msg c j r l \<in> set msgs" using l m by simp
          from H(2)[OF this] have "j \<in> ?Q" "(j, r, l) \<in> vt_promises s" by blast+
          moreover have "j \<in> V" using that l(1) by (simp add: p1b_msg_def)
          ultimately have "l = (fast_rank, w)" using V(3) promises_okD(7)[OF ok(2)] by blast
          then show ?thesis using l(1) by (simp add: p1b_msg_def)
        qed
        show "r' \<le> fast_rank" if "p1b_vrnd m = Some r'" for r'
          using low l that by (auto simp: p1b_msg_def)
      qed
    qed
    then show ?thesis using low rep unfolding selectable_def by blast
  qed
qed

lemma votes_nonempty:
  assumes "net_inv x c A s" "finite A" "(b, k, u) \<in> vt_votes (abs_net c s)"
  shows "u \<noteq> []"
proof -
  have wf: "said s \<subseteq> wf_reqs x c A" and inv: "voting_inv A (abs_net c s)"
    using assms voting_reachable_inv unfolding net_inv_def by blast+
  consider "fast_req c b u \<in> said s" | "p2b_req c b k u \<in> said s" using assms(3) by (auto simp: votes_in_def)
  then show ?thesis
  proof cases
    case 1
    then show ?thesis using wf by (fastforce simp: wf_reqs_def req_defs)
  next
    case 2
    then have "classic_rank k" using wf by (fastforce simp: wf_reqs_def req_defs)
    then have "(k, u) \<in> vt_proposals (abs_net c s)"
      using inv assms(3) unfolding voting_inv_def votes_ok_def by (metis rank_facts(3))
    then obtain j where "p2a_req c j k u \<in> said s" by (auto simp: proposals_in_def)
    then show ?thesis using wf by (fastforce simp: wf_reqs_def req_defs)
  qed
qed

lemma phase1b_held:
  assumes inv: "net_inv x c A s" and fin: "finite A" and a: "a \<in> A"
    and said_1b: "p1b_req c b r l \<in> said s" and fresh: "(a, p1b_req c b r l) \<notin> cn_consumed s"
    and r: "px_crnd (fp_paxos (cn_nodes s a)) = r"
  shows "held_promises c A (abs_net c s) r (px_phase1b_messages (fp_paxos (cn_nodes s a)) @ [p1b_msg c b r l])"
    "r = Rank 2 (stable_node_index x a)"
proof -
  let ?msgs = "px_phase1b_messages (fp_paxos (cn_nodes s a))"
  note I = net_invD[OF inv a]
  have inj: "p1b_msg c b r l = p1b_msg c' b' r' l' \<longleftrightarrow> c = c' \<and> b = b' \<and> r = r' \<and> l = l'" for b r l c' b' r' l'
    by (auto simp: p1b_msg_def prod_eq_iff)
  have "RapidRequest (Some (Phase1bMessage (p1b_msg c b r l))) \<in> said s" using said_1b by (simp add: p1b_req_def)
  from promise_req[OF inv fin a this]
  have b: "(b, r, l) \<in> vt_promises (abs_net c s)" "b \<in> A" "classic_rank r" by (metis inj)+
  then show rr: "r = Rank 2 (stable_node_index x a)" using I(2) r by (auto simp: ranks_ok_def classic_rank_def)
  have ok: "promises_ok A (abs_net c s)" using voting_reachable_inv[OF I(7) fin] by (simp add: voting_inv_def)
  have old: "\<exists>j k. m = p1b_msg c j r k \<and> j \<in> A \<and> (j, r, k) \<in> vt_promises (abs_net c s)" if "m \<in> set ?msgs" for m
    using collected_promise[OF inv fin a that] rr by blast
  have "Some b \<notin> set (map p1b_sender ?msgs)"
  proof
    assume "Some b \<in> set (map p1b_sender ?msgs)"
    then obtain m where m: "m \<in> set ?msgs" "p1b_sender m = Some b" by auto
    then obtain k where k: "m = p1b_msg c b r k" "(b, r, k) \<in> vt_promises (abs_net c s)"
      using old[OF m(1)] by (auto simp: p1b_msg_def)
    then have "m = p1b_msg c b r l" using promises_okD(7)[OF ok b(1)] by blast
    then show False using I(3) m(1) fresh unfolding collected_ok_def p1b_req_def by blast
  qed
  then show "held_promises c A (abs_net c s) r (?msgs @ [p1b_msg c b r l])"
    using I(3) old b by (auto simp: held_promises_def collected_ok_def p1b_msg_def)
qed

lemma rank_unproposed:
  assumes inv: "net_inv x c A s" and a: "a \<in> A" and inj: "inj_on (stable_node_index x) A"
    and "px_cval (fp_paxos (cn_nodes s a)) = []" and r: "r = Rank 2 (stable_node_index x a)"
  shows "r \<notin> fst ` vt_proposals (abs_net c s)"
proof
  note I = net_invD[OF inv a]
  assume "r \<in> fst ` vt_proposals (abs_net c s)"
  then obtain j w where j: "p2a_req c j r w \<in> said s" by (auto simp: proposals_in_def)
  then have "j \<in> A" using I(8) by (fastforce simp: wf_reqs_def req_defs)
  moreover from this have "r = Rank 2 (stable_node_index x j)"
    using net_invD(6)[OF inv \<open>j \<in> A\<close>] j unfolding proposer_ok_def by blast
  ultimately have "j = a" using r inj a by (simp add: inj_on_def)
  then show False using I(6) j assms(4) unfolding proposer_ok_def by blast
qed

lemma coordinator_suggests:
  assumes inv: "net_inv x c A s" and fin: "finite A" and a: "a \<in> A" and inj: "inj_on (stable_node_index x) A"
    and held: "held_promises c A (abs_net c s) r msgs" and r: "r = Rank 2 (stable_node_index x a)"
    and len: "card A div 2 < length msgs" and cval: "px_cval (fp_paxos (cn_nodes s a)) = []"
    and some: "select_proposal_from_messages msgs (card A) \<noteq> []"
  shows "voting_step A (abs_net c s) (abs_net c s\<lparr>vt_proposals :=
    insert (r, select_proposal_from_messages msgs (card A)) (vt_proposals (abs_net c s))\<rparr>)"
proof -
  have vi: "voting_inv A (abs_net c s)" using voting_reachable_inv[OF net_invD(7)[OF inv a] fin] .
  then have ok: "promises_ok A (abs_net c s)" by (simp add: voting_inv_def)
  note H = held_reports[OF ok held]
  show ?thesis
  proof (rule voting_step.suggest[OF _ rank_unproposed[OF inv a inj cval r] H(4) _ H(6)])
    show "classic_rank r" using r by (simp add: classic_rank_def)
    show "classic_quorum (card A) \<le> card (p1b_senders msgs)" using H(5) len by (simp add: classic_quorum_def)
    show "selectable A (abs_net c s) (p1b_senders msgs) r (select_proposal_from_messages msgs (card A))"
      using coordinator_selects[OF fin vi held len _ some] votes_nonempty[OF inv fin] by blast
  qed
qed

lemma collected_extend:
  assumes "collected_ok S C a p" "held_promises c A v r (px_phase1b_messages p @ [p1b_msg c b r l])"
    and "px_crnd p = r" "p1b_req c b r l \<in> S" "S \<subseteq> S'" "insert (a, p1b_req c b r l) C \<subseteq> C'"
    and "px_phase1b_messages q = px_phase1b_messages p @ [p1b_msg c b r l]" "px_crnd q = r"
  shows "collected_ok S' C' a q"
proof -
  have "p1b_rnd (p1b_msg c b r l) = Some r" by (simp add: p1b_msg_def)
  moreover have "distinct (map p1b_sender (px_phase1b_messages p @ [p1b_msg c b r l]))"
    using assms(2) by (simp add: held_promises_def)
  ultimately show ?thesis using assms(1,3-8) unfolding collected_ok_def p1b_req_def by auto
qed

lemma phase1b_step:
  assumes inv: "net_inv x c A s" and fin: "finite A" and a: "a \<in> A" and inj: "inj_on (stable_node_index x) A"
    and said_1b: "p1b_req c b r l \<in> said s" and fresh: "(a, p1b_req c b r l) \<notin> cn_consumed s"
  shows "net_inv x c A (net_apply x A s (NetDeliver a (p1b_req c b r l)))"
proof -
  let ?req = "p1b_req c b r l" let ?t = "net_apply x A s (NetDeliver a ?req)" and ?fp = "cn_nodes s a"
  let ?p = "fp_paxos ?fp" let ?msgs = "px_phase1b_messages ?p @ [p1b_msg c b r l]"
  let ?p' = "?p\<lparr>px_phase1b_messages := ?msgs\<rparr>" and ?v = "select_proposal_from_messages ?msgs (card A)"
  let ?send = "card A div 2 < length ?msgs \<and> px_cval ?p = [] \<and> ?v \<noteq> []"
  note I = net_invD[OF inv a]
  have ne: "A \<noteq> {}" using a by blast
  have st: "px_my_addr ?p = a" "px_configuration_id ?p = c" "px_n ?p = card A" using I(1) by (simp_all add: node_static_def)
  note h_defs = handle_consensus_message_def handle_phase1b_def p1b_req_def p1b_msg_def p2a_req_def
    select_proposal_using_coordinator_rule_def Let_def
  consider "px_crnd ?p \<noteq> r" | "px_crnd ?p = r" "\<not> ?send" | "px_crnd ?p = r" ?send by blast
  then show ?thesis
  proof cases
    case 1
    then have "handle_consensus_message ?fp ?req = handle_paxos ?fp (?p, [])" by (simp add: h_defs)
    then show ?thesis by (rule quiet_step[OF inv fin a])
  next
    case 2
    note held = phase1b_held[OF inv fin a said_1b fresh 2(1)]
    let ?q = "fst (handle_paxos ?fp (?p', []))"
    have h: "handle_consensus_message ?fp ?req = handle_paxos ?fp (?p', [])" using 2 st by (auto simp: h_defs)
    have t: "cn_nodes ?t = (cn_nodes s)(a := ?q)" "said ?t = said s \<union> set (sent_requests [])"
      "cn_decisions ?t = cn_decisions s \<union> Pair a ` set (decided_values [])"
      "cn_consumed s \<subseteq> cn_consumed ?t" "cn_proposed ?t = cn_proposed s"
      using h by (auto simp: said_absorb[OF ne])
    show ?thesis
    proof (intro classic_step[OF inv fin a t])
      show "abs_net c ?t = abs_net c s \<or> voting_step A (abs_net c s) (abs_net c ?t)"
        by (rule disjI1, rule abs_net_quiet[OF t(1)]) (use t(2) in simp_all)
      show "collected_ok (said ?t) (cn_consumed ?t) a (fp_paxos ?q)"
        by (rule collected_extend[OF I(3) held(1) 2(1) said_1b]) (use t(2) 2(1) in auto)
    qed (use I t(2) in \<open>auto simp: same_frame_def ranks_ok_def proposer_ok_def buckets_ok_def bucket_of_def\<close>)
  next
    case 3
    note held = phase1b_held[OF inv fin a said_1b fresh 3(1)]
    let ?outs = "[FastBroadcast (p2a_req c a r ?v)]"
    let ?q = "fst (handle_paxos ?fp (?p'\<lparr>px_cval := ?v\<rparr>, [PxBroadcast (p2a_req c a r ?v)]))"
    have h: "handle_consensus_message ?fp ?req =
        handle_paxos ?fp (?p'\<lparr>px_cval := ?v\<rparr>, [PxBroadcast (p2a_req c a r ?v)])"
      using 3 st by (auto simp: h_defs)
    have t: "cn_nodes ?t = (cn_nodes s)(a := ?q)" "said ?t = said s \<union> set (sent_requests ?outs)"
      "cn_decisions ?t = cn_decisions s \<union> Pair a ` set (decided_values ?outs)"
      "cn_consumed s \<subseteq> cn_consumed ?t" "cn_proposed ?t = cn_proposed s"
      using h by (auto simp: said_absorb[OF ne])
    have said: "said ?t = insert (p2a_req c a r ?v) (said s)" using t(2) by simp
    have "abs_net c ?t = abs_net c s\<lparr>vt_proposals := insert (r, ?v) (vt_proposals (abs_net c s))\<rparr>"
      unfolding abs_net_upd[OF t(1)] said by (simp add: abs_net_def fun_upd_idem)
    then have step: "voting_step A (abs_net c s) (abs_net c ?t)"
      using coordinator_suggests[OF inv fin a inj held] 3 by simp
    show ?thesis
    proof (intro classic_step[OF inv fin a t])
      show "collected_ok (said ?t) (cn_consumed ?t) a (fp_paxos ?q)"
        by (rule collected_extend[OF I(3) held(1) 3(1) said_1b]) (use said 3(1) in auto)
      show "buckets_ok c (said ?t) (fp_paxos ?q)"
        using buckets_ok_mono[OF I(4), of "said ?t"] said by (auto simp: buckets_ok_def bucket_of_def)
      show "proposer_ok x c (said ?t) a (fp_paxos ?q)"
        using I(6) held(2) 3 unfolding proposer_ok_def said by auto
      show "ranks_ok x (cn_proposed s) a (fp_paxos ?q)" using I(2) by (simp add: ranks_ok_def)
      show "abs_net c ?t = abs_net c s \<or> voting_step A (abs_net c s) (abs_net c ?t)" using step ..
    qed (use a 3 in \<open>auto simp: same_frame_def\<close>)
  qed
qed

section \<open>Agreement\<close>

lemma net_inv_next:
  assumes inv: "net_inv x c A s" and fin: "finite A" and inj: "inj_on (stable_node_index x) A"
    and en: "net_enabled A s ev"
  shows "net_inv x c A (net_apply x A s ev)"
proof (cases ev)
  case (NetPropose a j v)
  then show ?thesis using propose_step[OF inv fin] en by blast
next
  case (NetStart a)
  then show ?thesis using start_step[OF inv fin] en by simp
next
  case (NetDeliver a req)
  then have a: "a \<in> A" and req: "req \<in> said s" and once: "is_phase1b req \<Longrightarrow> (a, req) \<notin> cn_consumed s"
    using en by (force simp: said_def)+
  have "req \<in> wf_reqs x c A" using req inv unfolding net_inv_def by blast
  then consider k where "k \<in> A" "req = p1a_req c k (Rank 2 (stable_node_index x k))"
    | b r l where "req = p1b_req c b r l" | k r v where "req = p2a_req c k r v"
    | b r v where "req = p2b_req c b r v" | b v where "req = fast_req c b v"
    unfolding wf_reqs_def by blast
  then show ?thesis
  proof cases
    case 1
    then show ?thesis using phase1a_step[OF inv fin a] NetDeliver by blast
  next
    case 2
    then have "(a, req) \<notin> cn_consumed s" using once by (simp add: is_phase1b_def p1b_req_def)
    then show ?thesis using phase1b_step[OF inv fin a inj] req NetDeliver 2 by blast
  next
    case 3
    then show ?thesis using phase2a_step[OF inv fin a] req NetDeliver by blast
  next
    case 4
    then show ?thesis using phase2b_step[OF inv fin a] req NetDeliver by blast
  next
    case 5
    then show ?thesis using fast_step[OF inv fin a] req NetDeliver by blast
  qed
qed

lemma net_reachable_inv:
  assumes "net_reachable x c delay A s" "finite A" "A \<noteq> {}" "inj_on (stable_node_index x) A"
  shows "net_inv x c A s"
  using assms by (induction rule: net_reachable.induct) (blast intro: net_inv_init net_inv_next)+

text \<open>
  An execution of three members: all propose the same value, member 1 starts the fallback, member 3
  decides in the classic round and member 2, later, in the fast round.
\<close>

definition demo_members :: "endpoint set" where
  "demo_members = set (map demo_ep [1, 2, 3])"

definition demo_rank :: rank where
  "demo_rank = Rank 2 (stable_node_index demo_hash (demo_ep 1))"

definition demo_schedule :: "net_event list" where
  "demo_schedule =
     map (\<lambda>i. NetPropose (demo_ep i) 0 [demo_ep 4]) [1, 2, 3] @
     NetStart (demo_ep 1) # map (\<lambda>i. NetDeliver (demo_ep i) (p1a_req 0 (demo_ep 1) demo_rank)) [2, 3] @
     map (\<lambda>i. NetDeliver (demo_ep 1) (p1b_req 0 (demo_ep i) demo_rank (fast_rank, [demo_ep 4]))) [2, 3] @
     map (\<lambda>i. NetDeliver (demo_ep i) (p2a_req 0 (demo_ep 1) demo_rank [demo_ep 4])) [3, 2] @
     map (\<lambda>i. NetDeliver (demo_ep 3) (p2b_req 0 (demo_ep i) demo_rank [demo_ep 4])) [2, 3] @
     map (\<lambda>i. NetDeliver (demo_ep 2) (fast_req 0 (demo_ep i) [demo_ep 4])) [1, 1, 3, 2]"

lemma demo_net_decides:
  "map_option (\<lambda>s. (demo_ep 2, [demo_ep 4]) \<in> cn_decisions s \<and> (demo_ep 3, [demo_ep 4]) \<in> cn_decisions s)
     (net_run demo_hash demo_members (net_init 0 100 demo_members) demo_schedule) = Some True"
  by code_simp

lemma demo_net:
  obtains s where "net_reachable demo_hash 0 100 demo_members s"
    "(demo_ep 2, [demo_ep 4]) \<in> cn_decisions s" "(demo_ep 3, [demo_ep 4]) \<in> cn_decisions s"
    "net_exec demo_hash demo_members (net_init 0 100 demo_members) demo_schedule = Some s"
    "never (net_apply demo_hash demo_members) late_vote (net_init 0 100 demo_members) demo_schedule"
    "never (net_apply demo_hash demo_members) repeated_promise (net_init 0 100 demo_members) demo_schedule"
proof -
  obtain s where s: "net_run demo_hash demo_members (net_init 0 100 demo_members) demo_schedule = Some s"
    "(demo_ep 2, [demo_ep 4]) \<in> cn_decisions s" "(demo_ep 3, [demo_ep 4]) \<in> cn_decisions s"
    using demo_net_decides by auto
  then show thesis using that[OF net_run_reachable[OF net_start s(1)] s(2,3)] net_run_exec by blast
qed

lemma demo_members_facts:
  "finite demo_members" "demo_members \<noteq> {}" "inj_on (stable_node_index demo_hash) demo_members"
proof -
  have "distinct (map (stable_node_index demo_hash) (map demo_ep [1, 2, 3]))" by code_simp
  then show "inj_on (stable_node_index demo_hash) demo_members"
    unfolding demo_members_def by (metis distinct_map)
qed (simp_all add: demo_members_def)

text \<open>
  C8. The consensus network refines the voting machine. Take any execution of the fast Paxos instances of a
  configuration's members, over a network that delays, reorders, loses and repeats messages, in which no member proposes
  after it has promised a classic round and no phase 1b message arrives twice (the code ensures neither), with distinct
  node indices. Its last state, seen through the promised ranks, the last votes and the messages sent, is a
  reachable state of the abstract machine: what the handlers do is to promise, to vote at most once
  per rank, and to propose in a classic rank only a value that every quorum still open in a lower
  rank could have chosen.
\<close>

theorem consensus_refines_voting:
  assumes "net_exec x A (net_init c delay A) evs = Some s"
    and "never (net_apply x A) late_vote (net_init c delay A) evs"
    and "never (net_apply x A) repeated_promise (net_init c delay A) evs"
    and "finite A" and "A \<noteq> {}" and "inj_on (stable_node_index x) A"
  shows "voting_reachable A (abs_net c s)"
  using net_reachable_inv[OF net_exec_reachable[OF assms(1-3)] assms(4-6)] unfolding net_inv_def by blast

theorem consensus_refines_voting_witness:
  "\<exists>s. net_exec demo_hash demo_members (net_init 0 100 demo_members) demo_schedule = Some s \<and>
     (demo_ep 3, [demo_ep 4]) \<in> cn_decisions s \<and> voting_reachable demo_members (abs_net 0 s)"
  by (rule demo_net) (use consensus_refines_voting[OF _ _ _ demo_members_facts] in blast)

lemma network_agreement:
  assumes "net_reachable x c delay A s" and "finite A" and "inj_on (stable_node_index x) A"
    and "(a, v) \<in> cn_decisions s" and "(b, w) \<in> cn_decisions s"
  shows "v = w"
proof (cases "A = {}")
  case True
  from assms(1) have "cn_decisions s = {}"
    by (induction rule: net_reachable.induct) (use True in \<open>auto simp: net_init_def simp: net_enabled_def elim: net_possible.elims\<close>)
  then show ?thesis using assms(4) by simp
next
  case False
  from net_reachable_inv[OF assms(1,2) False assms(3)] have inv: "net_inv x c A s" .
  then obtain r r' where "chosen A (abs_net c s) r v" "chosen A (abs_net c s) r' w"
    using assms(4,5) unfolding net_inv_def by blast
  moreover have "voting_inv A (abs_net c s)" using inv voting_reachable_inv assms(2) unfolding net_inv_def by blast
  ultimately show ?thesis using voting_agreement[OF assms(2) False] by blast
qed

text \<open>
  C2. Consensus. Let the members \<open>A\<close> of a configuration run their fast Paxos instances over a network
  that delays, reorders, loses and repeats messages, each member proposing at most once and any
  member starting the classic fallback at any moment. If the node indices of the members are
  distinct, no member proposes after it has promised a classic round and no phase 1b message arrives
  twice (the code ensures neither of the last two), then any two decisions, of the same or of
  different members, in the fast or in a classic round, are the same value.
\<close>

theorem consensus_agreement:
  assumes "net_exec x A (net_init c delay A) evs = Some s"
    and "never (net_apply x A) late_vote (net_init c delay A) evs"
    and "never (net_apply x A) repeated_promise (net_init c delay A) evs"
    and "finite A" and "inj_on (stable_node_index x) A"
    and "(a, v) \<in> cn_decisions s" and "(b, w) \<in> cn_decisions s"
  shows "v = w"
  by (rule network_agreement[OF net_exec_reachable[OF assms(1-3)] assms(4-7)])

theorem consensus_agreement_witness:
  "\<exists>s v w. net_exec demo_hash demo_members (net_init 0 100 demo_members) demo_schedule = Some s \<and>
     (demo_ep 2, v) \<in> cn_decisions s \<and> (demo_ep 3, w) \<in> cn_decisions s \<and> v = w"
proof (rule demo_net)
  fix s
  assume s: "(demo_ep 2, [demo_ep 4]) \<in> cn_decisions s" "(demo_ep 3, [demo_ep 4]) \<in> cn_decisions s"
    and e: "net_exec demo_hash demo_members (net_init 0 100 demo_members) demo_schedule = Some s"
      "never (net_apply demo_hash demo_members) late_vote (net_init 0 100 demo_members) demo_schedule"
      "never (net_apply demo_hash demo_members) repeated_promise (net_init 0 100 demo_members) demo_schedule"
  from consensus_agreement[OF e demo_members_facts(1,3) s] s e(1) show ?thesis by blast
qed

lemma network_validity:
  assumes "net_reachable x c delay A s" and "finite A" and "A \<noteq> {}" and "inj_on (stable_node_index x) A"
    and "(a, v) \<in> cn_decisions s"
  shows "\<exists>b \<in> A. fast_req c b v \<in> said s"
proof -
  note inv = net_reachable_inv[OF assms(1-4)]
  then have vr: "voting_reachable A (abs_net c s)" and wf: "said s \<subseteq> wf_reqs x c A"
    unfolding net_inv_def by blast+
  obtain r where "chosen A (abs_net c s) r v" using inv assms(5) unfolding net_inv_def by blast
  moreover have ok: "votes_ok A (abs_net c s)" using voting_reachable_inv[OF vr assms(2)] by (simp add: voting_inv_def)
  ultimately obtain b where "(b, r, v) \<in> vt_votes (abs_net c s)" using chosen_voter[OF assms(2,3)] by blast
  then obtain b where b: "(b, fast_rank, v) \<in> vt_votes (abs_net c s)"
    using voting_reachable_valid[OF vr assms(2)] unfolding votes_valid_def by force
  have "p2b_req c b fast_rank v \<notin> said s" using wf by (fastforce simp: wf_reqs_def req_defs classic_rank_def)
  then have "fast_req c b v \<in> said s" using b by (simp add: votes_in_def)
  moreover have "b \<in> A" using ok b unfolding votes_ok_def by blast
  ultimately show ?thesis by blast
qed

text \<open>
  C15. Validity. A decided value is one that some member of the configuration proposed: its fast-round
  vote for exactly that value is among the messages sent.
\<close>

theorem consensus_validity:
  assumes "net_reachable x c delay A s" and "finite A" and "A \<noteq> {}" and "inj_on (stable_node_index x) A"
    and "(a, v) \<in> cn_decisions s"
  shows "\<exists>b \<in> A. fast_req c b v \<in> said s"
  using assms by (rule network_validity)

theorem consensus_validity_witness:
  "\<exists>s. net_reachable demo_hash 0 100 demo_members s \<and> (\<exists>b \<in> demo_members. fast_req 0 b [demo_ep 4] \<in> said s)"
proof -
  obtain s where s: "net_reachable demo_hash 0 100 demo_members s" "(demo_ep 3, [demo_ep 4]) \<in> cn_decisions s"
    by (rule demo_net)
  from consensus_validity[OF s(1) demo_members_facts s(2)] s(1) show ?thesis by blast
qed

end
