(* ===== verification/Ring.thy ===== *)
theory Ring
  imports View_Hash
begin

text \<open>
  \<^verbatim>\<open>crates/rapid/src/ring.rs\<close>: one monitoring ring, a \<^verbatim>\<open>BTreeMap<i64, Endpoint>\<close> keyed by
  the address hash read as a signed 64-bit integer (the \<^verbatim>\<open>as i64\<close> cast is \<open>sint\<close>). Two
  endpoints with the same hash are the same element for every operation here.

  The locale \<open>navigable_ring\<close> is what \<^verbatim>\<open>MembershipView\<close> relies on; its lemmas show that
  successor and predecessor are inverse permutations of the ring. It is interpreted on the
  operations of this file.
\<close>

section \<open>Operations\<close>

record ring =
  rg_seed :: u64
  rg_by_hash :: "(int, endpoint) fmap"

definition ring_new :: "u64 \<Rightarrow> ring" where
  "ring_new seed = \<lparr>rg_seed = seed, rg_by_hash = fmempty\<rparr>"

definition ring_key :: "xxh64_fn \<Rightarrow> ring \<Rightarrow> endpoint \<Rightarrow> int" where
  "ring_key x r endpoint = sint (address_hash x (rg_seed r) endpoint)"

definition ring_insert :: "xxh64_fn \<Rightarrow> ring \<Rightarrow> endpoint \<Rightarrow> ring \<times> bool" where
  "ring_insert x r endpoint =
     (let key = ring_key x r endpoint in
      if fmlookup (rg_by_hash r) key \<noteq> None then (r, False)
      else (r\<lparr>rg_by_hash := fmupd key endpoint (rg_by_hash r)\<rparr>, True))"

definition ring_remove :: "xxh64_fn \<Rightarrow> ring \<Rightarrow> endpoint \<Rightarrow> ring \<times> bool" where
  "ring_remove x r endpoint =
     (let key = ring_key x r endpoint in
      (r\<lparr>rg_by_hash := fmdrop key (rg_by_hash r)\<rparr>, fmlookup (rg_by_hash r) key \<noteq> None))"

definition ring_contains :: "xxh64_fn \<Rightarrow> ring \<Rightarrow> endpoint \<Rightarrow> bool" where
  "ring_contains x r endpoint \<longleftrightarrow> fmlookup (rg_by_hash r) (ring_key x r endpoint) \<noteq> None"

definition ring_lower :: "xxh64_fn \<Rightarrow> ring \<Rightarrow> endpoint \<Rightarrow> endpoint option" where
  "ring_lower x r endpoint =
     (let below = Set.filter (\<lambda>k. k < ring_key x r endpoint) (fmdom' (rg_by_hash r)) in
      if below = {} then None else fmlookup (rg_by_hash r) (Max below))"

definition ring_higher :: "xxh64_fn \<Rightarrow> ring \<Rightarrow> endpoint \<Rightarrow> endpoint option" where
  "ring_higher x r endpoint =
     (let above = Set.filter (\<lambda>k. ring_key x r endpoint < k) (fmdom' (rg_by_hash r)) in
      if above = {} then None else fmlookup (rg_by_hash r) (Min above))"

definition ring_ordered :: "ring \<Rightarrow> endpoint list" where
  "ring_ordered r =
     map (\<lambda>k. the (fmlookup (rg_by_hash r) k)) (sorted_list_of_set (fmdom' (rg_by_hash r)))"

definition ring_first :: "ring \<Rightarrow> endpoint option" where
  "ring_first r = (case ring_ordered r of [] \<Rightarrow> None | e # _ \<Rightarrow> Some e)"

definition ring_last :: "ring \<Rightarrow> endpoint option" where
  "ring_last r = (case rev (ring_ordered r) of [] \<Rightarrow> None | e # _ \<Rightarrow> Some e)"

definition ring_len :: "ring \<Rightarrow> nat" where
  "ring_len r = fm_len (rg_by_hash r)"

text \<open>The members of a ring, and the two invariants: every entry is filed under its own key.\<close>

definition ring_elems :: "ring \<Rightarrow> endpoint set" where
  "ring_elems r = fmran' (rg_by_hash r)"

definition ring_wf :: "xxh64_fn \<Rightarrow> ring \<Rightarrow> bool" where
  "ring_wf x r \<longleftrightarrow> (\<forall>k e. fmlookup (rg_by_hash r) k = Some e \<longrightarrow> ring_key x r e = k)"

text \<open>No other member of the ring has the hash of \<open>e\<close>.\<close>

definition ring_collision_free :: "xxh64_fn \<Rightarrow> ring \<Rightarrow> endpoint \<Rightarrow> bool" where
  "ring_collision_free x r e \<longleftrightarrow>
     (case fmlookup (rg_by_hash r) (ring_key x r e) of None \<Rightarrow> True | Some f \<Rightarrow> f = e)"

section \<open>The interface of a ring\<close>

locale navigable_ring =
  fixes key :: "'r \<Rightarrow> 'e \<Rightarrow> int"
    and elems :: "'r \<Rightarrow> 'e set"
    and wf :: "'r \<Rightarrow> bool"
    and lower :: "'r \<Rightarrow> 'e \<Rightarrow> 'e option"
    and higher :: "'r \<Rightarrow> 'e \<Rightarrow> 'e option"
    and first_el :: "'r \<Rightarrow> 'e option"
    and last_el :: "'r \<Rightarrow> 'e option"
  assumes finite_elems: "finite (elems r)"
    and key_inj: "wf r \<Longrightarrow> inj_on (key r) (elems r)"
    and lower_key: "wf r \<Longrightarrow> lower r e =
      (let L = Set.filter (\<lambda>k. k < key r e) (key r ` elems r) in
       if L = {} then None else Some (the_inv_into (elems r) (key r) (Max L)))"
    and higher_key: "wf r \<Longrightarrow> higher r e =
      (let U = Set.filter (\<lambda>k. key r e < k) (key r ` elems r) in
       if U = {} then None else Some (the_inv_into (elems r) (key r) (Min U)))"
    and first_key: "wf r \<Longrightarrow> first_el r =
      (if elems r = {} then None else Some (the_inv_into (elems r) (key r) (Min (key r ` elems r))))"
    and last_key: "wf r \<Longrightarrow> last_el r =
      (if elems r = {} then None else Some (the_inv_into (elems r) (key r) (Max (key r ` elems r))))"
begin

definition succ :: "'r \<Rightarrow> 'e \<Rightarrow> 'e option" where
  "succ r e = (case higher r e of Some f \<Rightarrow> Some f | None \<Rightarrow> first_el r)"

definition pred :: "'r \<Rightarrow> 'e \<Rightarrow> 'e option" where
  "pred r e = (case lower r e of Some f \<Rightarrow> Some f | None \<Rightarrow> last_el r)"

lemma succ_cyc:
  assumes "wf r" "elems r \<noteq> {}"
  shows "succ r e = Some (the_inv_into (elems r) (key r) (cyc_next (key r ` elems r) (key r e)))"
  using assms by (auto simp: succ_def higher_key first_key cyc_next_def Let_def)

lemma pred_cyc:
  assumes "wf r" "elems r \<noteq> {}"
  shows "pred r e = Some (the_inv_into (elems r) (key r) (cyc_prev (key r ` elems r) (key r e)))"
  using assms by (auto simp: pred_def lower_key last_key cyc_prev_def Let_def)

lemma inv_key: "wf r \<Longrightarrow> e \<in> elems r \<Longrightarrow> the_inv_into (elems r) (key r) (key r e) = e"
  by (simp add: key_inj the_inv_into_f_f)

lemma key_inv:
  "wf r \<Longrightarrow> k \<in> key r ` elems r \<Longrightarrow> key r (the_inv_into (elems r) (key r) k) = k"
  by (simp add: key_inj f_the_inv_into_f)

lemma inv_in: "wf r \<Longrightarrow> k \<in> key r ` elems r \<Longrightarrow> the_inv_into (elems r) (key r) k \<in> elems r"
  by (auto simp: key_inj intro!: the_inv_into_into)

lemma succ_pred_exist:
  assumes "wf r" "elems r \<noteq> {}"
  obtains f g where "succ r e = Some f" "f \<in> elems r" "pred r e = Some g" "g \<in> elems r"
  using assms succ_cyc pred_cyc inv_in cyc_next_in cyc_prev_in finite_elems
  by (metis finite_imageI image_is_empty)

lemma succ_iff_pred:
  assumes wf: "wf r" and a: "a \<in> elems r" and b: "b \<in> elems r"
  shows "succ r a = Some b \<longleftrightarrow> pred r b = Some a"
proof -
  let ?S = "key r ` elems r" and ?i = "the_inv_into (elems r) (key r)"
  have fin: "finite ?S" and ne: "elems r \<noteq> {}" and S: "?S \<noteq> {}"
    using finite_elems a by auto
  have ka: "key r a \<in> ?S" and kb: "key r b \<in> ?S" using a b by auto
  have "succ r a = Some b \<longleftrightarrow> ?i (cyc_next ?S (key r a)) = b"
    using succ_cyc[OF wf ne] by simp
  also have "\<dots> \<longleftrightarrow> cyc_next ?S (key r a) = key r b"
    using key_inv[OF wf cyc_next_in[OF fin S]] inv_key[OF wf b] by metis
  also have "\<dots> \<longleftrightarrow> cyc_prev ?S (key r b) = key r a"
    by (rule cyc_next_eq_iff[OF fin ka kb])
  also have "\<dots> \<longleftrightarrow> ?i (cyc_prev ?S (key r b)) = a"
    using key_inv[OF wf cyc_prev_in[OF fin S]] inv_key[OF wf a] by metis
  also have "\<dots> \<longleftrightarrow> pred r b = Some a"
    using pred_cyc[OF wf ne] by simp
  finally show ?thesis .
qed

lemma succ_iff:
  assumes wf: "wf r" and ne: "elems r \<noteq> {}"
  shows "succ r e = Some g \<longleftrightarrow> g \<in> elems r \<and> key r g = cyc_next (key r ` elems r) (key r e)"
proof -
  have "cyc_next (key r ` elems r) (key r e) \<in> key r ` elems r"
    using finite_elems ne by (intro cyc_next_in) auto
  then show ?thesis
    using succ_cyc[OF wf ne, of e] inv_in[OF wf] key_inv[OF wf] inv_key[OF wf]
    by (metis option.inject)
qed

text \<open>A new element changes the successor of nothing but its own predecessor.\<close>

lemma succ_insert:
  assumes wf: "wf r" "wf r'" and key: "key r' = key r" and el: "elems r' = insert e (elems r)"
    and e: "e \<notin> elems r" and f: "f \<in> elems r" and np: "pred r' e \<noteq> Some f"
  shows "succ r' f = succ r f"
proof -
  let ?S = "key r ` elems r"
  have fe: "key r e \<noteq> key r f" using key_inj[OF wf(2)] e f el key by (auto simp: inj_on_def)
  have ne: "elems r \<noteq> {}" "elems r' \<noteq> {}" using f el by auto
  have "succ r' f \<noteq> Some e" using succ_iff_pred[OF wf(2), of f e] np f el by auto
  then have "cyc_next (insert (key r e) ?S) (key r f) \<noteq> key r e"
    using succ_iff[OF wf(2) ne(2), of f e] key el by auto
  then have nx: "cyc_next (insert (key r e) ?S) (key r f) = cyc_next ?S (key r f)"
    using finite_elems ne fe by (intro cyc_next_insert) auto
  obtain g where g: "succ r f = Some g" using succ_cyc[OF wf(1) ne(1)] by blast
  then have "g \<in> elems r" "key r g = cyc_next ?S (key r f)"
    using succ_iff[OF wf(1) ne(1)] by auto
  then have "succ r' f = Some g" using succ_iff[OF wf(2) ne(2), of f g] nx key el by simp
  with g show ?thesis by simp
qed

lemma succ_neq:
  assumes wf: "wf r" and a: "a \<in> elems r" and b: "b \<in> elems r" "b \<noteq> a"
  shows "succ r a \<noteq> Some a"
proof -
  let ?S = "key r ` elems r"
  have "key r b \<noteq> key r a" using key_inj[OF wf] a b by (auto simp: inj_on_def)
  then have "cyc_next ?S (key r a) \<noteq> key r a"
    using finite_elems a b by (intro cyc_next_neq[where y = "key r b"]) auto
  moreover have "cyc_next ?S (key r a) \<in> ?S"
    using finite_elems a by (intro cyc_next_in) auto
  ultimately show ?thesis using succ_cyc[OF wf, of a] key_inv[OF wf] a by force
qed

lemma pred_neq:
  assumes wf: "wf r" and a: "a \<in> elems r" and b: "b \<in> elems r" "b \<noteq> a"
  shows "pred r a \<noteq> Some a"
  using succ_iff_pred[OF wf a a] succ_neq[OF assms] by simp

end

section \<open>The operations implement the interface\<close>

lemma ring_insert_seed [simp]: "rg_seed (fst (ring_insert x r e)) = rg_seed r"
  by (simp add: ring_insert_def Let_def)

lemma ring_remove_seed [simp]: "rg_seed (fst (ring_remove x r e)) = rg_seed r"
  by (simp add: ring_remove_def Let_def)

lemma ring_key_seed: "rg_seed r = rg_seed r' \<Longrightarrow> ring_key x r e = ring_key x r' e"
  by (simp add: ring_key_def)

lemma ring_new_seed [simp]: "rg_seed (ring_new s) = s"
  by (simp add: ring_new_def)

lemma ring_wf_new [simp]: "ring_wf x (ring_new s)"
  by (simp add: ring_wf_def ring_new_def)

lemma ring_elems_new [simp]: "ring_elems (ring_new s) = {}"
  by (auto simp: ring_elems_def ring_new_def fmlookup_ran'_iff)

lemma ring_wf_insert [simp]: "ring_wf x r \<Longrightarrow> ring_wf x (fst (ring_insert x r e))"
  by (auto simp: ring_wf_def ring_insert_def Let_def ring_key_def)

lemma ring_wf_remove [simp]: "ring_wf x r \<Longrightarrow> ring_wf x (fst (ring_remove x r e))"
  by (auto simp: ring_wf_def ring_remove_def Let_def ring_key_def split: if_splits)

lemma finite_ring_elems [simp]: "finite (ring_elems r)"
  by (simp add: ring_elems_def fmran'_alt_def)

lemma ring_elems_lookup:
  "ring_wf x r \<Longrightarrow> e \<in> ring_elems r \<longleftrightarrow> fmlookup (rg_by_hash r) (ring_key x r e) = Some e"
  by (auto simp: ring_elems_def ring_wf_def fmlookup_ran'_iff)

lemma ring_dom_keys: "ring_wf x r \<Longrightarrow> fmdom' (rg_by_hash r) = ring_key x r ` ring_elems r"
  by (force simp: ring_elems_def ring_wf_def fmlookup_ran'_iff fmlookup_dom'_iff)

lemma ring_key_inj: "ring_wf x r \<Longrightarrow> inj_on (ring_key x r) (ring_elems r)"
  by (auto simp: inj_on_def ring_elems_lookup)

lemma ring_lookup_inv:
  assumes "ring_wf x r" "k \<in> fmdom' (rg_by_hash r)"
  shows "fmlookup (rg_by_hash r) k = Some (the_inv_into (ring_elems r) (ring_key x r) k)"
proof -
  obtain e where e: "e \<in> ring_elems r" "k = ring_key x r e"
    using assms ring_dom_keys by auto
  then show ?thesis
    using assms(1) by (simp add: ring_elems_lookup the_inv_into_f_f ring_key_inj)
qed

lemma ring_contains_iff:
  assumes "ring_wf x r" "ring_collision_free x r e"
  shows "ring_contains x r e \<longleftrightarrow> e \<in> ring_elems r"
  using assms by (auto simp: ring_contains_def ring_elems_lookup ring_collision_free_def
      split: option.splits)

lemma ring_elems_insert:
  assumes "ring_wf x r" "ring_collision_free x r e"
  shows "ring_elems (fst (ring_insert x r e)) = insert e (ring_elems r)"
proof -
  have wf': "ring_wf x (fst (ring_insert x r e))" using assms(1) by simp
  show ?thesis
    using assms(2) ring_elems_lookup[OF assms(1)] ring_elems_lookup[OF wf']
    by (fastforce simp: ring_insert_def Let_def ring_collision_free_def ring_key_def
        split: option.splits if_splits)
qed

lemma ring_elems_insert_subset: "ring_elems (fst (ring_insert x r e)) \<subseteq> insert e (ring_elems r)"
  by (auto simp: ring_insert_def Let_def ring_elems_def fmlookup_ran'_iff split: if_splits)

lemma ring_elems_remove:
  assumes "ring_wf x r" "ring_collision_free x r e"
  shows "ring_elems (fst (ring_remove x r e)) = ring_elems r - {e}"
proof -
  have wf': "ring_wf x (fst (ring_remove x r e))" using assms(1) by simp
  show ?thesis
    using assms(2) ring_elems_lookup[OF assms(1)] ring_elems_lookup[OF wf']
    by (fastforce simp: ring_remove_def Let_def ring_collision_free_def ring_key_def
        split: option.splits if_splits)
qed

lemma ring_collision_free_elem [simp]:
  "ring_wf x r \<Longrightarrow> e \<in> ring_elems r \<Longrightarrow> ring_collision_free x r e"
  by (simp add: ring_collision_free_def ring_elems_lookup)

lemma ring_len_card: "ring_wf x r \<Longrightarrow> ring_len r = card (ring_elems r)"
  by (metis card_image fcard.rep_eq fm_len_def fmdom'_alt_def ring_dom_keys ring_key_inj ring_len_def)

lemma set_ring_ordered [simp]: "set (ring_ordered r) = ring_elems r"
  by (force simp: ring_ordered_def ring_elems_def fmlookup_ran'_iff fmlookup_dom'_iff)

lemma ring_ordered_keys:
  assumes "ring_wf x r"
  shows "map (ring_key x r) (ring_ordered r) = sorted_list_of_set (ring_key x r ` ring_elems r)"
proof -
  have "map (ring_key x r) (ring_ordered r)
    = map (\<lambda>k. ring_key x r (the (fmlookup (rg_by_hash r) k))) (sorted_list_of_set (fmdom' (rg_by_hash r)))"
    by (simp add: ring_ordered_def)
  also have "\<dots> = map id (sorted_list_of_set (fmdom' (rg_by_hash r)))"
    using assms by (intro map_cong) (auto simp: ring_wf_def fmlookup_dom'_iff)
  finally show ?thesis using assms by (simp add: ring_dom_keys)
qed

lemma distinct_ring_ordered: "ring_wf x r \<Longrightarrow> distinct (ring_ordered r)"
  by (metis distinct_map distinct_sorted_list_of_set ring_ordered_keys)

text \<open>The order of a ring is determined by its members: it does not depend on the history.\<close>

lemma ring_ordered_canonical:
  assumes "ring_wf x r" "ring_wf x r'" "rg_seed r = rg_seed r'" "ring_elems r = ring_elems r'"
  shows "ring_ordered r = ring_ordered r'"
proof (rule map_inj_on)
  have k: "ring_key x r = ring_key x r'" using assms(3) by (simp add: fun_eq_iff ring_key_def)
  show "map (ring_key x r) (ring_ordered r) = map (ring_key x r) (ring_ordered r')"
    using ring_ordered_keys[OF assms(1)] ring_ordered_keys[OF assms(2)] assms(4) by (simp add: k)
  show "inj_on (ring_key x r) (set (ring_ordered r) \<union> set (ring_ordered r'))"
    using ring_key_inj[OF assms(1)] assms(4) by simp
qed

lemma ring_first_key:
  assumes "ring_wf x r"
  shows "ring_first r = (if ring_elems r = {} then None
    else Some (the_inv_into (ring_elems r) (ring_key x r) (Min (ring_key x r ` ring_elems r))))"
proof (cases "ring_elems r = {}")
  case True
  then have "ring_ordered r = []" by (metis set_empty set_ring_ordered)
  then show ?thesis using True by (simp add: ring_first_def)
next
  case False
  let ?K = "ring_key x r ` ring_elems r"
  have fin: "finite ?K" "?K \<noteq> {}" using False by auto
  then have "sorted_list_of_set ?K = Min ?K # sorted_list_of_set (?K - {Min ?K})"
    by (rule sorted_list_of_set_nonempty)
  then show ?thesis
    using False fin assms ring_lookup_inv[OF assms, of "Min ?K"]
    by (simp add: ring_first_def ring_ordered_def ring_dom_keys)
qed

lemma ring_last_key:
  assumes "ring_wf x r"
  shows "ring_last r = (if ring_elems r = {} then None
    else Some (the_inv_into (ring_elems r) (ring_key x r) (Max (ring_key x r ` ring_elems r))))"
proof (cases "ring_elems r = {}")
  case True
  then have "ring_ordered r = []" by (metis set_empty set_ring_ordered)
  then show ?thesis using True by (simp add: ring_last_def)
next
  case False
  let ?K = "ring_key x r ` ring_elems r" and ?f = "\<lambda>k. the (fmlookup (rg_by_hash r) k)"
  let ?l = "sorted_list_of_set ?K"
  have fin: "finite ?K" "?K \<noteq> {}" using False by auto
  then have ne: "?l \<noteq> []" by simp
  have "last ?l = Max ?K"
  proof (rule Max_eqI[symmetric])
    show "finite ?K" by (rule fin)
    have "set ?l = ?K" using fin(1) by (rule set_sorted_list_of_set)
    with last_in_set[OF ne] show "last ?l \<in> ?K" by simp
    show "y \<le> last ?l" if "y \<in> ?K" for y
    proof -
      have "sorted (butlast ?l @ [last ?l])" using ne by simp
      moreover have "y \<in> set (butlast ?l @ [last ?l])" using ne that fin by simp
      ultimately show ?thesis unfolding sorted_append by auto
    qed
  qed
  with rev_nonempty[OF ne] have rl: "rev ?l = Max ?K # rev (butlast ?l)" by (simp only:)
  have "rev (ring_ordered r) = map ?f (rev ?l)"
    using assms by (simp add: ring_ordered_def ring_dom_keys rev_map)
  also have "\<dots> = ?f (Max ?K) # map ?f (rev (butlast ?l))" by (simp only: rl list.map)
  finally have "rev (ring_ordered r) = ?f (Max ?K) # map ?f (rev (butlast ?l))" .
  then show ?thesis
    using False fin assms ring_lookup_inv[OF assms, of "Max ?K"]
    by (simp add: ring_last_def ring_dom_keys)
qed

lemma ring_lower_key:
  assumes "ring_wf x r"
  shows "ring_lower x r e = (let L = Set.filter (\<lambda>k. k < ring_key x r e) (ring_key x r ` ring_elems r)
    in if L = {} then None else Some (the_inv_into (ring_elems r) (ring_key x r) (Max L)))"
proof -
  let ?L = "Set.filter (\<lambda>k. k < ring_key x r e) (ring_key x r ` ring_elems r)"
  have "Max ?L \<in> ring_key x r ` ring_elems r" if "?L \<noteq> {}"
    using Max_in[OF _ that] by auto
  then show ?thesis
    using assms ring_lookup_inv[OF assms, of "Max ?L"]
    by (auto simp: ring_lower_def Let_def ring_dom_keys)
qed

lemma ring_higher_key:
  assumes "ring_wf x r"
  shows "ring_higher x r e = (let U = Set.filter (\<lambda>k. ring_key x r e < k) (ring_key x r ` ring_elems r)
    in if U = {} then None else Some (the_inv_into (ring_elems r) (ring_key x r) (Min U)))"
proof -
  let ?U = "Set.filter (\<lambda>k. ring_key x r e < k) (ring_key x r ` ring_elems r)"
  have "Min ?U \<in> ring_key x r ` ring_elems r" if "?U \<noteq> {}"
    using Min_in[OF _ that] by auto
  then show ?thesis
    using assms ring_lookup_inv[OF assms, of "Min ?U"]
    by (auto simp: ring_higher_def Let_def ring_dom_keys)
qed

interpretation rg: navigable_ring "ring_key x" ring_elems "ring_wf x" "ring_lower x"
  "ring_higher x" ring_first ring_last
  for x
  by unfold_locales
    (simp_all only: finite_ring_elems ring_key_inj ring_lower_key ring_higher_key ring_first_key
      ring_last_key)

end
