(* ===== verification/View.thy ===== *)
theory View
  imports Ring
begin

text \<open>
  \<^verbatim>\<open>crates/rapid/src/view.rs\<close>: \<^verbatim>\<open>MembershipView\<close>, the K monitoring rings with the set of
  identifiers ever seen, the member set, the observer cache and the lazily computed
  configuration identifier. A method with \<^verbatim>\<open>&mut self\<close> returns the updated view; on an error
  the view is unchanged, so a fallible mutator returns \<open>error + membership_view\<close>.
  \<^verbatim>\<open>self.rings[0]\<close> and \<^verbatim>\<open>self.identifier_objs[k]\<close> cannot fail in a view built by
  \<^verbatim>\<open>new\<close> or \<^verbatim>\<open>bootstrap\<close> (\<open>view_wf\<close>).

  \<open>view_wf\<close> holds of every view the operations build; \<open>view_inv\<close> adds that all rings hold
  exactly the members, which the operations keep as long as no two members collide on a ring.
  The properties: K observers and K subjects per member with the two relations inverse to each
  other, a configuration identifier that depends on the member and identifier sets only, the
  outcome of joins and removals, and what the observer cache does and does not guarantee.
\<close>

section \<open>State and operations\<close>

record membership_view =
  mv_k :: u8
  mv_rings :: "ring list"
  mv_identifiers :: "node_id_key fset"
  mv_identifier_objs :: "(node_id_key, node_id) fmap"
  mv_all_nodes :: "endpoint_key fset"
  mv_cached_observers :: "(endpoint_key, endpoint list) fmap"
  mv_configuration_id :: configuration_id
  mv_configuration_dirty :: bool

datatype join_disposition = HostnameAlreadyInRing | UuidAlreadyInRing | SafeToJoin

definition view_new :: "u8 \<Rightarrow> membership_view result" where
  "view_new k =
     (if k = 0 then Inl Internal
      else Inr \<lparr>mv_k = k, mv_rings = map (\<lambda>i. ring_new (of_nat i)) [0..<unat k],
        mv_identifiers = {||}, mv_identifier_objs = fmempty, mv_all_nodes = {||},
        mv_cached_observers = fmempty, mv_configuration_id = SENTINEL,
        mv_configuration_dirty = True\<rparr>)"

definition bootstrap_identifier :: "node_id \<Rightarrow> membership_view \<Rightarrow> membership_view" where
  "bootstrap_identifier nid v =
     v\<lparr>mv_identifiers := finsert (node_id_key_of nid) (mv_identifiers v),
       mv_identifier_objs := fmupd (node_id_key_of nid) nid (mv_identifier_objs v)\<rparr>"

definition bootstrap_endpoint :: "xxh64_fn \<Rightarrow> endpoint \<Rightarrow> membership_view \<Rightarrow> membership_view" where
  "bootstrap_endpoint x endpoint v =
     v\<lparr>mv_all_nodes := finsert (endpoint_key_of endpoint) (mv_all_nodes v),
       mv_rings := map (\<lambda>ring. fst (ring_insert x ring endpoint)) (mv_rings v)\<rparr>"

definition view_bootstrap ::
  "xxh64_fn \<Rightarrow> u8 \<Rightarrow> node_id list \<Rightarrow> endpoint list \<Rightarrow> membership_view result" where
  "view_bootstrap x k identifiers endpoints =
     (case view_new k of
        Inl e \<Rightarrow> Inl e
      | Inr v \<Rightarrow>
          Inr ((fold (bootstrap_endpoint x) endpoints (fold bootstrap_identifier identifiers v))
            \<lparr>mv_configuration_dirty := True\<rparr>))"

definition membership_size :: "membership_view \<Rightarrow> nat" where
  "membership_size v = ring_len (mv_rings v ! 0)"

definition is_host_present :: "membership_view \<Rightarrow> endpoint \<Rightarrow> bool" where
  "is_host_present v endpoint \<longleftrightarrow> endpoint_key_of endpoint |\<in>| mv_all_nodes v"

definition is_identifier_present :: "membership_view \<Rightarrow> node_id \<Rightarrow> bool" where
  "is_identifier_present v nid \<longleftrightarrow> node_id_key_of nid |\<in>| mv_identifiers v"

definition is_safe_to_join :: "membership_view \<Rightarrow> endpoint \<Rightarrow> node_id \<Rightarrow> join_disposition" where
  "is_safe_to_join v endpoint nid =
     (if is_host_present v endpoint then HostnameAlreadyInRing
      else if is_identifier_present v nid then UuidAlreadyInRing
      else SafeToJoin)"

text \<open>\<^verbatim>\<open>ring.lower(endpoint)\<close> on every ring: the subjects whose cached observers are dropped.\<close>

definition affected_subjects :: "xxh64_fn \<Rightarrow> ring list \<Rightarrow> endpoint \<Rightarrow> endpoint_key fset" where
  "affected_subjects x rings endpoint =
     fset_of_list (List.map_filter (\<lambda>ring. map_option endpoint_key_of (ring_lower x ring endpoint)) rings)"

definition ring_add ::
  "xxh64_fn \<Rightarrow> membership_view \<Rightarrow> endpoint \<Rightarrow> node_id \<Rightarrow> membership_view result" where
  "ring_add x v endpoint nid =
     (if is_identifier_present v nid then Inl ProtocolRejected
      else if ring_contains x (mv_rings v ! 0) endpoint then Inl ProtocolRejected
      else
        (let rings = map (\<lambda>ring. fst (ring_insert x ring endpoint)) (mv_rings v);
             affected = affected_subjects x rings endpoint
         in Inr (v\<lparr>mv_rings := rings,
              mv_all_nodes := finsert (endpoint_key_of endpoint) (mv_all_nodes v),
              mv_cached_observers := fmdrop_fset affected (mv_cached_observers v),
              mv_identifiers := finsert (node_id_key_of nid) (mv_identifiers v),
              mv_identifier_objs := fmupd (node_id_key_of nid) nid (mv_identifier_objs v),
              mv_configuration_dirty := True\<rparr>)))"

definition ring_delete :: "xxh64_fn \<Rightarrow> membership_view \<Rightarrow> endpoint \<Rightarrow> membership_view result" where
  "ring_delete x v endpoint =
     (if \<not> ring_contains x (mv_rings v ! 0) endpoint then Inl ProtocolRejected
      else
        (let affected = affected_subjects x (mv_rings v) endpoint;
             endpoint_key = endpoint_key_of endpoint
         in Inr (v\<lparr>mv_rings := map (\<lambda>ring. fst (ring_remove x ring endpoint)) (mv_rings v),
              mv_all_nodes := mv_all_nodes v |-| {|endpoint_key|},
              mv_cached_observers :=
                fmdrop_fset affected (fmdrop endpoint_key (mv_cached_observers v)),
              mv_configuration_dirty := True\<rparr>)))"

definition successor :: "xxh64_fn \<Rightarrow> ring \<Rightarrow> endpoint \<Rightarrow> endpoint option" where
  "successor x ring node =
     (case ring_higher x ring node of Some e \<Rightarrow> Some e | None \<Rightarrow> ring_first ring)"

definition predecessor :: "xxh64_fn \<Rightarrow> ring \<Rightarrow> endpoint \<Rightarrow> endpoint option" where
  "predecessor x ring node =
     (case ring_lower x ring node of Some e \<Rightarrow> Some e | None \<Rightarrow> ring_last ring)"

definition compute_observers_of :: "xxh64_fn \<Rightarrow> membership_view \<Rightarrow> endpoint \<Rightarrow> endpoint list" where
  "compute_observers_of x v node =
     (if ring_len (mv_rings v ! 0) \<le> 1 then []
      else List.map_filter (\<lambda>ring. successor x ring node) (mv_rings v))"

definition get_observers_of ::
  "xxh64_fn \<Rightarrow> membership_view \<Rightarrow> endpoint \<Rightarrow> membership_view \<times> endpoint list result" where
  "get_observers_of x v node =
     (if \<not> is_host_present v node then (v, Inl ProtocolRejected)
      else
        (let key = endpoint_key_of node in
         case fmlookup (mv_cached_observers v) key of
           Some cached \<Rightarrow> (v, Inr cached)
         | None \<Rightarrow>
             (let observers = compute_observers_of x v node in
              (v\<lparr>mv_cached_observers := fmupd key observers (mv_cached_observers v)\<rparr>,
               Inr observers))))"

definition predecessors_of :: "xxh64_fn \<Rightarrow> membership_view \<Rightarrow> endpoint \<Rightarrow> endpoint list" where
  "predecessors_of x v node = List.map_filter (\<lambda>ring. predecessor x ring node) (mv_rings v)"

definition get_subjects_of ::
  "xxh64_fn \<Rightarrow> membership_view \<Rightarrow> endpoint \<Rightarrow> endpoint list result" where
  "get_subjects_of x v node =
     (if \<not> is_host_present v node then Inl ProtocolRejected
      else if ring_len (mv_rings v ! 0) \<le> 1 then Inr []
      else Inr (predecessors_of x v node))"

definition get_expected_observers_of ::
  "xxh64_fn \<Rightarrow> membership_view \<Rightarrow> endpoint \<Rightarrow> endpoint list" where
  "get_expected_observers_of x v node =
     (if ring_len (mv_rings v ! 0) = 0 then [] else predecessors_of x v node)"

definition current_identifiers :: "membership_view \<Rightarrow> node_id list" where
  "current_identifiers v =
     map (\<lambda>k. the (fmlookup (mv_identifier_objs v) k)) (sorted_list_of_fset (mv_identifiers v))"

definition get_ring :: "membership_view \<Rightarrow> u8 \<Rightarrow> endpoint list result" where
  "get_ring v k =
     (if k \<ge> mv_k v then Inl Internal else Inr (ring_ordered (mv_rings v ! unat k)))"

fun matching_indices :: "endpoint \<Rightarrow> nat \<Rightarrow> endpoint list \<Rightarrow> u8 list" where
  "matching_indices subject k [] = []"
| "matching_indices subject k (s # ss) =
     (if s = subject then of_nat k # matching_indices subject (Suc k) ss
      else matching_indices subject (Suc k) ss)"

definition get_ring_numbers ::
  "xxh64_fn \<Rightarrow> membership_view \<Rightarrow> endpoint \<Rightarrow> endpoint \<Rightarrow> u8 list result" where
  "get_ring_numbers x v observer subject =
     (case get_subjects_of x v observer of
        Inl e \<Rightarrow> Inl e
      | Inr subjects \<Rightarrow>
          if subjects = [] then Inr [] else Inr (matching_indices subject 0 subjects))"

definition refresh_configuration_id :: "xxh64_fn \<Rightarrow> membership_view \<Rightarrow> membership_view" where
  "refresh_configuration_id x v =
     (let identifiers = map (\<lambda>k. the (fmlookup (mv_identifier_objs v) k))
            (sorted_list_of_fset (mv_identifiers v));
          endpoints = ring_ordered (mv_rings v ! 0)
      in v\<lparr>mv_configuration_id := configuration_id_for x identifiers endpoints\<rparr>)"

definition current_configuration_id ::
  "xxh64_fn \<Rightarrow> membership_view \<Rightarrow> membership_view \<times> configuration_id" where
  "current_configuration_id x v =
     (let v' = (if mv_configuration_dirty v
                then (refresh_configuration_id x v)\<lparr>mv_configuration_dirty := False\<rparr>
                else v)
      in (v', mv_configuration_id v'))"

section \<open>Invariants and the abstract view\<close>

text \<open>What the configuration identifier is computed from, whatever the dirty flag says.\<close>

definition true_configuration_id :: "xxh64_fn \<Rightarrow> membership_view \<Rightarrow> configuration_id" where
  "true_configuration_id x v =
     configuration_id_for x (current_identifiers v) (ring_ordered (mv_rings v ! 0))"

definition view_wf :: "xxh64_fn \<Rightarrow> membership_view \<Rightarrow> bool" where
  "view_wf x v \<longleftrightarrow>
     mv_k v \<noteq> 0 \<and> length (mv_rings v) = unat (mv_k v) \<and>
     (\<forall>i < unat (mv_k v). rg_seed (mv_rings v ! i) = of_nat i) \<and>
     (\<forall>r \<in> set (mv_rings v). ring_wf x r) \<and>
     fmdom (mv_identifier_objs v) = mv_identifiers v \<and>
     (\<forall>k nid. fmlookup (mv_identifier_objs v) k = Some nid \<longrightarrow> node_id_key_of nid = k) \<and>
     (\<not> mv_configuration_dirty v \<longrightarrow> mv_configuration_id v = true_configuration_id x v)"

definition members :: "membership_view \<Rightarrow> endpoint set" where
  "members v = {e. is_host_present v e}"

definition identifiers_seen :: "membership_view \<Rightarrow> node_id set" where
  "identifiers_seen v = {nid. is_identifier_present v nid}"

definition view_inv :: "xxh64_fn \<Rightarrow> membership_view \<Rightarrow> bool" where
  "view_inv x v \<longleftrightarrow> view_wf x v \<and> (\<forall>r \<in> set (mv_rings v). ring_elems r = members v)"

text \<open>No member of the view has the hash of \<open>e\<close> on any ring, unless it is \<open>e\<close>.\<close>

definition collision_free :: "xxh64_fn \<Rightarrow> membership_view \<Rightarrow> endpoint \<Rightarrow> bool" where
  "collision_free x v e \<longleftrightarrow> list_all (\<lambda>r. ring_collision_free x r e) (mv_rings v)"

text \<open>The cached observer lists are the ones that would be computed now.\<close>

definition cache_coherent :: "xxh64_fn \<Rightarrow> membership_view \<Rightarrow> bool" where
  "cache_coherent x v \<longleftrightarrow>
     (\<forall>e obs. fmlookup (mv_cached_observers v) (endpoint_key_of e) = Some obs \<longrightarrow>
        is_host_present v e \<longrightarrow> obs = compute_observers_of x v e)"

section \<open>Well-formedness is kept by every operation\<close>

lemma map_filter_Some:
  "(\<And>a. a \<in> set xs \<Longrightarrow> f a \<noteq> None) \<Longrightarrow> List.map_filter f xs = map (\<lambda>a. the (f a)) xs"
proof (induction xs)
  case (Cons a xs)
  then obtain b where "f a = Some b" by fastforce
  with Cons show ?case by (simp add: List.map_filter_simps)
qed (simp add: List.map_filter_simps)

lemma view_wf_rings:
  assumes "view_wf x v"
  shows "mv_rings v \<noteq> []" "mv_rings v ! 0 \<in> set (mv_rings v)" "ring_wf x (mv_rings v ! 0)"
proof -
  have "0 < length (mv_rings v)" using assms by (simp add: view_wf_def unat_gt_0)
  then show "mv_rings v \<noteq> []" "mv_rings v ! 0 \<in> set (mv_rings v)" by auto
  with assms show "ring_wf x (mv_rings v ! 0)" by (simp add: view_wf_def)
qed

lemma view_new_wf [view_inv_intros]:
  assumes "view_new k = Inr v"
  shows "view_inv x v"
  using assms
  by (auto simp: view_new_def view_inv_def view_wf_def members_def is_host_present_def split: if_splits)

lemma bootstrap_identifier_inv [view_inv_intros]:
  "view_inv x v \<Longrightarrow> mv_configuration_dirty v \<Longrightarrow> view_inv x (bootstrap_identifier nid v)"
  by (auto simp: view_inv_def view_wf_def bootstrap_identifier_def members_def is_host_present_def)

lemma bootstrap_identifier_frame [simp]:
  "mv_configuration_dirty (bootstrap_identifier nid v) = mv_configuration_dirty v"
  "mv_rings (bootstrap_identifier nid v) = mv_rings v"
  "mv_all_nodes (bootstrap_identifier nid v) = mv_all_nodes v"
  "mv_k (bootstrap_identifier nid v) = mv_k v"
  "is_identifier_present (bootstrap_identifier nid v) m \<longleftrightarrow> m = nid \<or> is_identifier_present v m"
  by (auto simp: bootstrap_identifier_def is_identifier_present_def)

lemma bootstrap_endpoint_frame [simp]:
  "mv_configuration_dirty (bootstrap_endpoint x e v) = mv_configuration_dirty v"
  "mv_identifiers (bootstrap_endpoint x e v) = mv_identifiers v"
  "mv_identifier_objs (bootstrap_endpoint x e v) = mv_identifier_objs v"
  "mv_k (bootstrap_endpoint x e v) = mv_k v"
  "is_host_present (bootstrap_endpoint x e v) f \<longleftrightarrow> f = e \<or> is_host_present v f"
  by (auto simp: bootstrap_endpoint_def is_host_present_def)

lemma members_finite [simp]: "finite (members v)"
proof -
  have "endpoint_key_of ` members v \<subseteq> fset (mv_all_nodes v)"
    by (auto simp: members_def is_host_present_def)
  then show ?thesis by (metis finite_fset finite_imageD finite_subset inj_endpoint_key_of(2))
qed

lemma bootstrap_endpoint_inv [view_inv_intros]:
  assumes "view_inv x v" "mv_configuration_dirty v" "collision_free x v e"
  shows "view_inv x (bootstrap_endpoint x e v)"
proof -
  have "ring_elems (fst (ring_insert x r e)) = insert e (members v)" if "r \<in> set (mv_rings v)" for r
    using that assms by (simp add: ring_elems_insert view_inv_def view_wf_def collision_free_def list_all_iff)
  moreover have "members (bootstrap_endpoint x e v) = insert e (members v)"
    by (auto simp: members_def)
  ultimately show ?thesis
    using assms by (auto simp: view_inv_def view_wf_def bootstrap_endpoint_def)
qed

lemma ring_add_result:
  "ring_add x v e nid = Inr v' \<longleftrightarrow>
     \<not> is_identifier_present v nid \<and> \<not> ring_contains x (mv_rings v ! 0) e \<and>
     v' = v\<lparr>mv_rings := map (\<lambda>ring. fst (ring_insert x ring e)) (mv_rings v),
            mv_all_nodes := finsert (endpoint_key_of e) (mv_all_nodes v),
            mv_cached_observers := fmdrop_fset (affected_subjects x
              (map (\<lambda>ring. fst (ring_insert x ring e)) (mv_rings v)) e) (mv_cached_observers v),
            mv_identifiers := finsert (node_id_key_of nid) (mv_identifiers v),
            mv_identifier_objs := fmupd (node_id_key_of nid) nid (mv_identifier_objs v),
            mv_configuration_dirty := True\<rparr>"
  by (auto simp: ring_add_def Let_def)

lemma ring_delete_result:
  "ring_delete x v e = Inr v' \<longleftrightarrow>
     ring_contains x (mv_rings v ! 0) e \<and>
     v' = v\<lparr>mv_rings := map (\<lambda>ring. fst (ring_remove x ring e)) (mv_rings v),
            mv_all_nodes := mv_all_nodes v |-| {|endpoint_key_of e|},
            mv_cached_observers := fmdrop_fset (affected_subjects x (mv_rings v) e)
              (fmdrop (endpoint_key_of e) (mv_cached_observers v)),
            mv_configuration_dirty := True\<rparr>"
  by (auto simp: ring_delete_def Let_def)

lemma ring_add_wf: "view_wf x v \<Longrightarrow> ring_add x v e nid = Inr v' \<Longrightarrow> view_wf x v'"
  by (auto simp: ring_add_result view_wf_def)

lemma ring_delete_wf: "view_wf x v \<Longrightarrow> ring_delete x v e = Inr v' \<Longrightarrow> view_wf x v'"
  by (auto simp: ring_delete_result view_wf_def)

lemma ring_add_members:
  "ring_add x v e nid = Inr v' \<Longrightarrow> members v' = insert e (members v)"
  by (auto simp: ring_add_result members_def is_host_present_def)

lemma ring_delete_members: "ring_delete x v e = Inr v' \<Longrightarrow> members v' = members v - {e}"
  by (auto simp: ring_delete_result members_def is_host_present_def)

lemma ring_add_identifiers:
  "ring_add x v e nid = Inr v' \<Longrightarrow> identifiers_seen v' = insert nid (identifiers_seen v)"
  by (auto simp: ring_add_result identifiers_seen_def is_identifier_present_def)

lemma ring_delete_identifiers:
  "ring_delete x v e = Inr v' \<Longrightarrow> identifiers_seen v' = identifiers_seen v"
  by (auto simp: ring_delete_result identifiers_seen_def is_identifier_present_def)

lemma ring_add_inv [view_inv_intros]:
  assumes inv: "view_inv x v" and add: "ring_add x v e nid = Inr v'" and cf: "collision_free x v e"
  shows "view_inv x v'"
proof -
  have "ring_elems (fst (ring_insert x r e)) = insert e (members v)" if "r \<in> set (mv_rings v)" for r
    using that inv cf by (simp add: ring_elems_insert view_inv_def view_wf_def collision_free_def list_all_iff)
  then show ?thesis
    using inv ring_add_wf[OF _ add] ring_add_members[OF add] add
    by (auto simp: view_inv_def ring_add_result)
qed

lemma view_inv_collision_free [simp]:
  "view_inv x v \<Longrightarrow> is_host_present v e \<Longrightarrow> collision_free x v e"
  by (auto simp: view_inv_def view_wf_def collision_free_def list_all_iff members_def)

lemma view_inv_contains:
  assumes "view_inv x v" "collision_free x v e" "r \<in> set (mv_rings v)"
  shows "ring_contains x r e \<longleftrightarrow> is_host_present v e"
  using assms by (auto simp: ring_contains_iff view_inv_def view_wf_def collision_free_def
      list_all_iff members_def)

lemma ring_delete_inv [view_inv_intros]:
  assumes inv: "view_inv x v" and del: "ring_delete x v e = Inr v'" and cf: "collision_free x v e"
  shows "view_inv x v'"
proof -
  have "ring_elems (fst (ring_remove x r e)) = members v - {e}" if "r \<in> set (mv_rings v)" for r
    using that inv cf by (simp add: ring_elems_remove view_inv_def view_wf_def collision_free_def list_all_iff)
  then show ?thesis
    using inv ring_delete_wf[OF _ del] ring_delete_members[OF del] del
    by (auto simp: view_inv_def ring_delete_result)
qed

text \<open>Queries that update the cache or the configuration identifier leave the membership alone.\<close>

lemma get_observers_of_frame [simp]:
  "mv_k (fst (get_observers_of x v e)) = mv_k v"
  "mv_rings (fst (get_observers_of x v e)) = mv_rings v"
  "mv_all_nodes (fst (get_observers_of x v e)) = mv_all_nodes v"
  "mv_identifiers (fst (get_observers_of x v e)) = mv_identifiers v"
  "mv_identifier_objs (fst (get_observers_of x v e)) = mv_identifier_objs v"
  "mv_configuration_id (fst (get_observers_of x v e)) = mv_configuration_id v"
  "mv_configuration_dirty (fst (get_observers_of x v e)) = mv_configuration_dirty v"
  by (auto simp: get_observers_of_def Let_def split: option.split)

lemma current_configuration_id_frame [simp]:
  "mv_k (fst (current_configuration_id x v)) = mv_k v"
  "mv_rings (fst (current_configuration_id x v)) = mv_rings v"
  "mv_all_nodes (fst (current_configuration_id x v)) = mv_all_nodes v"
  "mv_identifiers (fst (current_configuration_id x v)) = mv_identifiers v"
  "mv_identifier_objs (fst (current_configuration_id x v)) = mv_identifier_objs v"
  "mv_cached_observers (fst (current_configuration_id x v)) = mv_cached_observers v"
  "\<not> mv_configuration_dirty (fst (current_configuration_id x v))"
  by (auto simp: current_configuration_id_def refresh_configuration_id_def Let_def)

lemma is_host_present_frame [simp]:
  "is_host_present (fst (get_observers_of x v f)) e = is_host_present v e"
  "is_host_present (fst (current_configuration_id x v)) e = is_host_present v e"
  by (simp_all add: is_host_present_def)

lemma members_frame [simp]:
  "members (fst (get_observers_of x v f)) = members v"
  "members (fst (current_configuration_id x v)) = members v"
  by (simp_all add: members_def)

lemma true_configuration_id_frame [simp]:
  "true_configuration_id x (fst (get_observers_of x v e)) = true_configuration_id x v"
  "true_configuration_id x (fst (current_configuration_id x v)) = true_configuration_id x v"
  by (simp_all add: true_configuration_id_def current_identifiers_def)

lemma current_configuration_id_true:
  assumes "view_wf x v"
  shows "snd (current_configuration_id x v) = true_configuration_id x v"
    and "mv_configuration_id (fst (current_configuration_id x v)) = true_configuration_id x v"
  using assms by (auto simp: current_configuration_id_def refresh_configuration_id_def Let_def
      view_wf_def true_configuration_id_def current_identifiers_def)

lemma get_observers_of_inv [view_inv_intros]:
  "view_inv x v \<Longrightarrow> view_inv x (fst (get_observers_of x v e))"
  by (auto simp: view_inv_def view_wf_def)

lemma get_observers_of_wf: "view_wf x v \<Longrightarrow> view_wf x (fst (get_observers_of x v e))"
  by (auto simp: view_wf_def)

lemma current_configuration_id_wf:
  "view_wf x v \<Longrightarrow> view_wf x (fst (current_configuration_id x v))"
  using current_configuration_id_true[of x v] by (auto simp: view_wf_def)

lemma current_configuration_id_inv [view_inv_intros]:
  "view_inv x v \<Longrightarrow> view_inv x (fst (current_configuration_id x v))"
  using current_configuration_id_wf[of x v] by (auto simp: view_inv_def)

section \<open>Observers and subjects\<close>

lemma successor_succ: "successor x = rg.succ x"
  by (auto simp: fun_eq_iff successor_def rg.succ_def)

lemma predecessor_pred: "predecessor x = rg.pred x"
  by (auto simp: fun_eq_iff predecessor_def rg.pred_def)

lemma membership_size_card: "view_inv x v \<Longrightarrow> membership_size v = card (members v)"
  using view_wf_rings[of x v] by (auto simp: membership_size_def view_inv_def ring_len_card)

lemma view_ring_ex:
  assumes "view_inv x v" "members v \<noteq> {}" "r \<in> set (mv_rings v)"
  shows "successor x r e \<noteq> None" "predecessor x r e \<noteq> None"
    "the (successor x r e) \<in> members v" "the (predecessor x r e) \<in> members v"
proof -
  have wf: "ring_wf x r" and el: "ring_elems r = members v"
    using assms by (auto simp: view_inv_def view_wf_def)
  obtain f g where "rg.succ x r e = Some f" "f \<in> members v" "rg.pred x r e = Some g" "g \<in> members v"
    using rg.succ_pred_exist[OF wf, of e thesis] el assms(2) by auto
  then show "successor x r e \<noteq> None" "predecessor x r e \<noteq> None"
    "the (successor x r e) \<in> members v" "the (predecessor x r e) \<in> members v"
    by (auto simp: successor_succ predecessor_pred)
qed

lemma compute_observers_map:
  assumes "view_inv x v" "2 \<le> card (members v)"
  shows "compute_observers_of x v e = map (\<lambda>r. the (successor x r e)) (mv_rings v)"
proof -
  have "members v \<noteq> {}" using assms(2) by auto
  moreover have "\<not> ring_len (mv_rings v ! 0) \<le> 1"
    using assms membership_size_card[of x v] by (simp add: membership_size_def)
  ultimately show ?thesis
    using assms(1) view_ring_ex by (simp add: compute_observers_of_def map_filter_Some)
qed

lemma predecessors_map:
  assumes "view_inv x v" "members v \<noteq> {}"
  shows "predecessors_of x v e = map (\<lambda>r. the (predecessor x r e)) (mv_rings v)"
  using assms view_ring_ex by (simp add: predecessors_of_def map_filter_Some)

lemma get_subjects_map:
  assumes "view_inv x v" "2 \<le> card (members v)" "e \<in> members v"
  shows "get_subjects_of x v e = Inr (map (\<lambda>r. the (predecessor x r e)) (mv_rings v))"
proof -
  have "\<not> ring_len (mv_rings v ! 0) \<le> 1"
    using assms membership_size_card[of x v] by (simp add: membership_size_def)
  then show ?thesis
    using assms predecessors_map by (auto simp: get_subjects_of_def members_def)
qed

lemma neighbours_distinct:
  assumes inv: "view_inv x v" and e: "e \<in> members v" and f: "f \<in> members v" "f \<noteq> e"
    and r: "r \<in> set (mv_rings v)"
  shows "the (successor x r e) \<noteq> e" "the (predecessor x r e) \<noteq> e"
proof -
  have wf: "ring_wf x r" and el: "ring_elems r = members v"
    using inv r by (auto simp: view_inv_def view_wf_def)
  have ne: "members v \<noteq> {}" using e by auto
  show "the (successor x r e) \<noteq> e" "the (predecessor x r e) \<noteq> e"
    using rg.succ_neq[OF wf, of e f] rg.pred_neq[OF wf, of e f] view_ring_ex[OF inv ne r, of e] e f el
    by (auto simp: successor_succ predecessor_pred)
qed

lemma successor_iff_predecessor:
  assumes inv: "view_inv x v" and a: "a \<in> members v" and b: "b \<in> members v"
    and r: "r \<in> set (mv_rings v)"
  shows "the (successor x r a) = b \<longleftrightarrow> the (predecessor x r b) = a"
proof -
  have wf: "ring_wf x r" and el: "ring_elems r = members v"
    using inv r by (auto simp: view_inv_def view_wf_def)
  have ne: "members v \<noteq> {}" using a by auto
  obtain f g where "successor x r a = Some f" "predecessor x r b = Some g"
    using view_ring_ex(1)[OF inv ne r, of a] view_ring_ex(2)[OF inv ne r, of b] by auto
  then show ?thesis
    using rg.succ_iff_pred[OF wf, of a b] a b el by (simp add: successor_succ predecessor_pred)
qed

lemma card2_other:
  assumes "2 \<le> card A" "a \<in> A"
  shows "\<exists>b\<in>A. b \<noteq> a"
proof (rule ccontr)
  assume "\<not> ?thesis"
  with assms(2) have "A = {a}" by blast
  with assms(1) show False by simp
qed

section \<open>The view as an event machine\<close>

text \<open>
  The calls the membership service makes on its view. A rejected call leaves the view as it
  was. \<open>no_collisions\<close> says that the endpoints of a universe \<open>es\<close> have pairwise different
  hashes on each of the \<open>k\<close> rings.
\<close>

datatype view_op =
    AddOp endpoint node_id
  | DeleteOp endpoint
  | ObserversOp endpoint
  | ConfigurationIdOp

definition view_step :: "xxh64_fn \<Rightarrow> membership_view \<Rightarrow> view_op \<Rightarrow> membership_view" where
  "view_step x v op = (case op of
       AddOp e nid \<Rightarrow> (case ring_add x v e nid of Inl _ \<Rightarrow> v | Inr v' \<Rightarrow> v')
     | DeleteOp e \<Rightarrow> (case ring_delete x v e of Inl _ \<Rightarrow> v | Inr v' \<Rightarrow> v')
     | ObserversOp e \<Rightarrow> fst (get_observers_of x v e)
     | ConfigurationIdOp \<Rightarrow> fst (current_configuration_id x v))"

definition no_collisions :: "xxh64_fn \<Rightarrow> u8 \<Rightarrow> endpoint list \<Rightarrow> bool" where
  "no_collisions x k es \<longleftrightarrow>
     list_all (\<lambda>i. distinct (map (address_hash x (of_nat i)) es)) [0..<unat k]"

definition view_op_over :: "endpoint list \<Rightarrow> view_op \<Rightarrow> bool" where
  "view_op_over es op = (case op of AddOp e _ \<Rightarrow> e \<in> set es | DeleteOp e \<Rightarrow> e \<in> set es | _ \<Rightarrow> True)"

definition view_inv_over :: "xxh64_fn \<Rightarrow> endpoint list \<Rightarrow> membership_view \<Rightarrow> bool" where
  "view_inv_over x es v \<longleftrightarrow>
     view_inv x v \<and> no_collisions x (mv_k v) es \<and> members v \<subseteq> set es"

lemma ring_mem_seed:
  assumes "view_wf x v" "r \<in> set (mv_rings v)"
  obtains i where "i < unat (mv_k v)" "r = mv_rings v ! i" "rg_seed r = of_nat i"
  using assms by (auto simp: view_wf_def in_set_conv_nth)

lemma no_collisions_key:
  assumes "no_collisions x k es" "i < unat k" "rg_seed r = of_nat i"
    "a \<in> set es" "b \<in> set es" "ring_key x r a = ring_key x r b"
  shows "a = b"
  using assms by (auto simp: no_collisions_def list_all_iff ring_key_def distinct_map inj_on_def)

lemma view_inv_over_collision_free:
  assumes "view_inv_over x es v" "e \<in> set es"
  shows "collision_free x v e"
  unfolding collision_free_def list_all_iff
proof
  fix r assume r: "r \<in> set (mv_rings v)"
  have inv: "view_inv x v" "no_collisions x (mv_k v) es" "members v \<subseteq> set es"
    using assms(1) by (auto simp: view_inv_over_def)
  then have wf: "view_wf x v" "ring_wf x r" "ring_elems r = members v"
    using r by (auto simp: view_inv_def view_wf_def)
  obtain i where i: "i < unat (mv_k v)" "rg_seed r = of_nat i" using ring_mem_seed[OF wf(1) r] .
  show "ring_collision_free x r e"
  proof (cases "fmlookup (rg_by_hash r) (ring_key x r e)")
    case (Some f)
    then have "ring_key x r f = ring_key x r e" "f \<in> members v"
      using wf by (auto simp: ring_wf_def ring_elems_lookup[OF wf(2)] simp flip: wf(3))
    then show ?thesis
      using no_collisions_key[OF inv(2) i, of f e] inv(3) assms(2) Some
      by (auto simp: ring_collision_free_def)
  qed (simp add: ring_collision_free_def)
qed

lemma view_step_k [simp]: "mv_k (view_step x v op) = mv_k v"
  by (auto simp: view_step_def ring_add_def ring_delete_def Let_def split: view_op.split sum.split)

lemma view_step_inv:
  assumes inv: "view_inv_over x es v" and op: "view_op_over es op"
  shows "view_inv_over x es (view_step x v op)"
proof (cases op)
  case (AddOp e nid)
  show ?thesis
  proof (cases "ring_add x v e nid")
    case (Inr v')
    then have "view_inv x v'" "members v' = insert e (members v)"
      using inv op AddOp ring_add_inv[of x v e nid v'] view_inv_over_collision_free[OF inv, of e]
        ring_add_members by (auto simp: view_inv_over_def view_op_over_def)
    moreover have "mv_k v' = mv_k v" using Inr by (auto simp: ring_add_result)
    ultimately show ?thesis
      using inv op AddOp Inr by (auto simp: view_inv_over_def view_step_def view_op_over_def)
  qed (use inv AddOp in \<open>simp add: view_step_def\<close>)
next
  case (DeleteOp e)
  show ?thesis
  proof (cases "ring_delete x v e")
    case (Inr v')
    then have "view_inv x v'" "members v' = members v - {e}"
      using inv op DeleteOp ring_delete_inv[of x v e v'] view_inv_over_collision_free[OF inv, of e]
        ring_delete_members by (auto simp: view_inv_over_def view_op_over_def)
    moreover have "mv_k v' = mv_k v" using Inr by (auto simp: ring_delete_result)
    ultimately show ?thesis using inv DeleteOp Inr by (auto simp: view_inv_over_def view_step_def)
  qed (use inv DeleteOp in \<open>simp add: view_step_def\<close>)
qed (use inv in \<open>auto simp: view_inv_over_def view_step_def intro: view_inv_intros\<close>)

interpretation vm: event_machine "view_step x" "view_inv_over x es" "view_op_over es" for x es
  by unfold_locales (rule view_step_inv)

lemma view_step_identifiers: "identifiers_seen v \<subseteq> identifiers_seen (view_step x v op)"
proof (cases op)
  case (AddOp e nid)
  then show ?thesis
    using ring_add_identifiers by (auto simp: view_step_def split: sum.split)
next
  case (DeleteOp e)
  then show ?thesis
    using ring_delete_identifiers by (auto simp: view_step_def split: sum.split)
qed (auto simp: view_step_def identifiers_seen_def is_identifier_present_def)

lemma bootstrap_identifier_sets [simp]:
  "members (bootstrap_identifier nid v) = members v"
  "identifiers_seen (bootstrap_identifier nid v) = insert nid (identifiers_seen v)"
  by (auto simp: members_def is_host_present_def identifiers_seen_def)

lemma bootstrap_endpoint_sets [simp]:
  "members (bootstrap_endpoint x e v) = insert e (members v)"
  "identifiers_seen (bootstrap_endpoint x e v) = identifiers_seen v"
  by (auto simp: members_def identifiers_seen_def is_identifier_present_def)

lemma fold_bootstrap_identifier:
  assumes "view_inv x v" "mv_configuration_dirty v"
  shows "view_inv x (fold bootstrap_identifier ids v) \<and>
    mv_configuration_dirty (fold bootstrap_identifier ids v) \<and>
    mv_k (fold bootstrap_identifier ids v) = mv_k v \<and>
    members (fold bootstrap_identifier ids v) = members v \<and>
    identifiers_seen (fold bootstrap_identifier ids v) = set ids \<union> identifiers_seen v"
  using assms by (induction ids arbitrary: v) (simp_all add: bootstrap_identifier_inv)

lemma bootstrap_endpoint_inv_over:
  assumes "view_inv_over x es v" "mv_configuration_dirty v" "e \<in> set es"
  shows "view_inv_over x es (bootstrap_endpoint x e v)"
  using assms bootstrap_endpoint_inv[of x v e] view_inv_over_collision_free[OF assms(1,3)]
  by (auto simp: view_inv_over_def)

lemma fold_bootstrap_endpoint:
  assumes "view_inv_over x es v" "mv_configuration_dirty v" "set endpoints \<subseteq> set es"
  shows "view_inv_over x es (fold (bootstrap_endpoint x) endpoints v) \<and>
    mv_k (fold (bootstrap_endpoint x) endpoints v) = mv_k v \<and>
    members (fold (bootstrap_endpoint x) endpoints v) = set endpoints \<union> members v \<and>
    identifiers_seen (fold (bootstrap_endpoint x) endpoints v) = identifiers_seen v"
  using assms by (induction endpoints arbitrary: v) (simp_all add: bootstrap_endpoint_inv_over)

lemma view_inv_dirty [simp]:
  "view_inv x v \<Longrightarrow> view_inv x (v\<lparr>mv_configuration_dirty := True\<rparr>)"
  by (simp add: view_inv_def view_wf_def members_def is_host_present_def)

lemma view_bootstrap_inv:
  assumes boot: "view_bootstrap x k ids eps = Inr v" and nc: "no_collisions x k es"
    and sub: "set eps \<subseteq> set es"
  shows "view_inv_over x es v" "members v = set eps" "identifiers_seen v = set ids" "mv_k v = k"
proof -
  obtain v0 where v0: "view_new k = Inr v0" using boot by (auto simp: view_bootstrap_def split: sum.splits)
  then have k0: "mv_k v0 = k" "mv_configuration_dirty v0" "members v0 = {}" "identifiers_seen v0 = {}"
    by (auto simp: view_new_def members_def is_host_present_def identifiers_seen_def
        is_identifier_present_def split: if_splits)
  let ?v1 = "fold bootstrap_identifier ids v0"
  have i0: "view_inv x v0" using v0 by (rule view_new_wf)
  note v1 = fold_bootstrap_identifier[OF i0 k0(2), of ids]
  have "view_inv_over x es ?v1" using v1 k0 nc by (simp add: view_inv_over_def)
  note v2 = fold_bootstrap_endpoint[OF this _ sub]
  have v: "v = fold (bootstrap_endpoint x) eps ?v1\<lparr>mv_configuration_dirty := True\<rparr>"
    using boot v0 by (simp add: view_bootstrap_def)
  show "view_inv_over x es v" "members v = set eps" "identifiers_seen v = set ids" "mv_k v = k"
    using v1 v2 k0 unfolding v
    by (auto simp: view_inv_over_def members_def is_host_present_def identifiers_seen_def
        is_identifier_present_def)
qed

section \<open>Properties\<close>

text \<open>A three-member view of three rings, used by the witnesses.\<close>

definition demo_view :: membership_view where
  "demo_view = (case view_bootstrap demo_hash 3 (map demo_nid [1, 2, 3]) (map demo_ep [1, 2, 3]) of
     Inr v \<Rightarrow> v)"

lemma demo_view_bootstrap:
  "view_bootstrap demo_hash 3 (map demo_nid [1, 2, 3]) (map demo_ep [1, 2, 3]) = Inr demo_view"
  by (simp add: demo_view_def view_bootstrap_def view_new_def)

lemma demo_no_collisions: "no_collisions demo_hash 3 (map demo_ep [1, 2, 3, 4, 5])"
  by code_simp

lemma demo_view_inv:
  "view_inv_over demo_hash (map demo_ep [1, 2, 3, 4, 5]) demo_view"
  "members demo_view = set (map demo_ep [1, 2, 3])"
  "identifiers_seen demo_view = set (map demo_nid [1, 2, 3])"
  "mv_k demo_view = 3"
  using view_bootstrap_inv[OF demo_view_bootstrap demo_no_collisions] by auto

lemma demo_view_size: "membership_size demo_view = 3"
  by code_simp

lemma demo_view_wf: "view_inv demo_hash demo_view"
  using demo_view_inv(1) by (simp add: view_inv_over_def)

text \<open>
  C13. K-ring topology. In a view with at least two members whose observer cache is up to date,
  every member has exactly K observers and K subjects, all of them other members; and the two
  relations are inverse ring by ring: \<open>b\<close> is the observer of \<open>a\<close> on ring \<open>i\<close> if and only if
  \<open>a\<close> is the subject of \<open>b\<close> on ring \<open>i\<close>.
\<close>

theorem observers_subjects_dual:
  assumes "view_inv x v" and "cache_coherent x v" and "2 \<le> membership_size v"
    and "is_host_present v a" and "is_host_present v b"
  shows "\<exists>obs subj. snd (get_observers_of x v a) = Inr obs \<and> get_subjects_of x v b = Inr subj \<and>
    length obs = unat (mv_k v) \<and> length subj = unat (mv_k v) \<and>
    set obs \<subseteq> members v - {a} \<and> set subj \<subseteq> members v - {b} \<and>
    (\<forall>i < unat (mv_k v). obs ! i = b \<longleftrightarrow> subj ! i = a)"
proof -
  have ab: "a \<in> members v" "b \<in> members v" using assms by (auto simp: members_def)
  then have ne: "members v \<noteq> {}" by auto
  have c: "2 \<le> card (members v)" using assms membership_size_card by metis
  let ?obs = "map (\<lambda>r. the (successor x r a)) (mv_rings v)"
  let ?subj = "map (\<lambda>r. the (predecessor x r b)) (mv_rings v)"
  have len: "length (mv_rings v) = unat (mv_k v)"
    using assms(1) by (simp add: view_inv_def view_wf_def)
  have "snd (get_observers_of x v a) = Inr ?obs"
    using assms(2,4) compute_observers_map[OF assms(1) c]
    by (auto simp: get_observers_of_def cache_coherent_def Let_def split: option.split)
  moreover have "get_subjects_of x v b = Inr ?subj"
    by (rule get_subjects_map[OF assms(1) c ab(2)])
  moreover have "set ?obs \<subseteq> members v - {a}"
    using view_ring_ex(3)[OF assms(1) ne] neighbours_distinct(1)[OF assms(1) ab(1)]
      card2_other[OF c ab(1)] by auto
  moreover have "set ?subj \<subseteq> members v - {b}"
    using view_ring_ex(4)[OF assms(1) ne] neighbours_distinct(2)[OF assms(1) ab(2)]
      card2_other[OF c ab(2)] by auto
  moreover have "\<forall>i < unat (mv_k v). ?obs ! i = b \<longleftrightarrow> ?subj ! i = a"
    using successor_iff_predecessor[OF assms(1) ab] len by simp
  ultimately show ?thesis using len by (intro exI[of _ ?obs] exI[of _ ?subj]) simp
qed

lemma demo_cache: "cache_coherent demo_hash demo_view"
proof -
  have "mv_cached_observers demo_view = fmempty" by code_simp
  then show ?thesis by (simp add: cache_coherent_def)
qed

lemma demo_present: "is_host_present demo_view (demo_ep 1)" "is_host_present demo_view (demo_ep 2)"
  by code_simp+

theorem observers_subjects_dual_witness:
  "\<exists>obs subj. snd (get_observers_of demo_hash demo_view (demo_ep 1)) = Inr obs \<and>
    get_subjects_of demo_hash demo_view (demo_ep 2) = Inr subj \<and>
    length obs = unat (mv_k demo_view) \<and> length subj = unat (mv_k demo_view) \<and>
    set obs \<subseteq> members demo_view - {demo_ep 1} \<and> set subj \<subseteq> members demo_view - {demo_ep 2} \<and>
    (\<forall>i < unat (mv_k demo_view). obs ! i = demo_ep 2 \<longleftrightarrow> subj ! i = demo_ep 1)"
  by (rule observers_subjects_dual[OF demo_view_wf demo_cache _ demo_present])
    (simp add: demo_view_size)

lemma true_configuration_id_canonical:
  assumes "view_inv x v" "view_inv x w" "members v = members w"
    and "identifiers_seen v = identifiers_seen w"
  shows "true_configuration_id x v = true_configuration_id x w"
proof -
  have wf: "view_wf x v" "view_wf x w" using assms by (auto simp: view_inv_def)
  have z: "0 < unat (mv_k v)" "0 < unat (mv_k w)" using wf by (auto simp: view_wf_def unat_gt_0)
  have "ring_ordered (mv_rings v ! 0) = ring_ordered (mv_rings w ! 0)"
    using assms(1-3) wf z view_wf_rings[OF wf(1)] view_wf_rings[OF wf(2)]
    by (intro ring_ordered_canonical) (auto simp: view_inv_def view_wf_def)
  moreover have ids: "mv_identifiers v = mv_identifiers w"
  proof (rule fset_eqI)
    fix k
    have "k = node_id_key_of (NodeId (nik_high k) (nik_low k))" by (simp add: node_id_key_of_def)
    then show "k |\<in>| mv_identifiers v \<longleftrightarrow> k |\<in>| mv_identifiers w"
      using assms(4) unfolding identifiers_seen_def is_identifier_present_def
      by (metis mem_Collect_eq)
  qed
  moreover have "fmlookup (mv_identifier_objs v) k = fmlookup (mv_identifier_objs w) k"
    if k: "k |\<in>| mv_identifiers v" for k
  proof -
    have "k |\<in>| fmdom (mv_identifier_objs v)" "k |\<in>| fmdom (mv_identifier_objs w)"
      using k ids wf by (auto simp: view_wf_def)
    then obtain m n where mn: "fmlookup (mv_identifier_objs v) k = Some m"
      "fmlookup (mv_identifier_objs w) k = Some n" by (metis fmlookup_dom_iff)
    then have "node_id_key_of m = k" "node_id_key_of n = k" using wf by (auto simp: view_wf_def)
    then show ?thesis using mn by (cases m; cases n) (auto simp: node_id_key_of_def)
  qed
  ultimately show ?thesis
    by (auto simp: true_configuration_id_def current_identifiers_def
        intro!: arg_cong2[where f = "configuration_id_for x"] map_cong)
qed

text \<open>
  C14. The configuration identifier is a function of the member set and of the identifiers ever
  seen: two views that agree on both report the same identifier, whatever order the joins and
  removals came in, however many rings they keep, and whether or not the value was cached.
\<close>

theorem configuration_id_canonical:
  assumes "view_inv x v" and "view_inv x w" and "members v = members w"
    and "identifiers_seen v = identifiers_seen w"
  shows "snd (current_configuration_id x v) = snd (current_configuration_id x w)"
  using true_configuration_id_canonical[OF assms] current_configuration_id_true(1) assms
  by (metis view_inv_def)

definition demo_view' :: membership_view where
  "demo_view' = fst (current_configuration_id demo_hash
     (case view_bootstrap demo_hash 3 (map demo_nid [3, 1, 2]) (map demo_ep [2, 3, 1]) of Inr v \<Rightarrow> v))"

theorem configuration_id_canonical_witness:
  "snd (current_configuration_id demo_hash demo_view)
    = snd (current_configuration_id demo_hash demo_view')"
proof (rule configuration_id_canonical[OF demo_view_wf])
  let ?b = "view_bootstrap demo_hash 3 (map demo_nid [3, 1, 2]) (map demo_ep [2, 3, 1])"
  have b: "?b = Inr (case ?b of Inr v \<Rightarrow> v)" by (simp add: view_bootstrap_def view_new_def)
  note v = view_bootstrap_inv[OF b demo_no_collisions]
  show "view_inv demo_hash demo_view'"
    unfolding demo_view'_def using v(1)
    by (intro current_configuration_id_inv) (auto simp: view_inv_over_def)
  show "members demo_view = members demo_view'"
    unfolding demo_view'_def members_frame using v(2) demo_view_inv(2) by auto
  show "identifiers_seen demo_view = identifiers_seen demo_view'"
    unfolding demo_view'_def using v(3) demo_view_inv(3)
    by (auto simp: identifiers_seen_def is_identifier_present_def)
qed

text \<open>
  C16. Every history of calls keeps the rings consistent. Start from a bootstrapped view and
  apply any sequence of joins, removals, observer queries and configuration queries over a
  universe of endpoints whose hashes do not collide: all K rings hold exactly the members, every
  ring entry sits under its own key, and a configuration identifier that is not marked dirty is
  the one recomputation would give.
\<close>

theorem view_history_inv:
  assumes "view_bootstrap x k ids eps = Inr v" and "no_collisions x k es" and "set eps \<subseteq> set es"
    and "list_all (view_op_over es) ops"
  shows "view_inv x (run (view_step x) v ops) \<and> members (run (view_step x) v ops) \<subseteq> set es \<and>
    snd (current_configuration_id x (run (view_step x) v ops))
      = true_configuration_id x (run (view_step x) v ops)"
proof -
  have "view_inv_over x es (run (view_step x) v ops)"
    using vm.run_inv[OF view_bootstrap_inv(1)[OF assms(1-3)] assms(4)] .
  then show ?thesis
    using current_configuration_id_true(1)[of x "run (view_step x) v ops"]
    by (auto simp: view_inv_over_def view_inv_def)
qed

definition demo_ops :: "view_op list" where
  "demo_ops = [ObserversOp (demo_ep 1), AddOp (demo_ep 4) (demo_nid 4), ConfigurationIdOp,
     DeleteOp (demo_ep 2), AddOp (demo_ep 2) (demo_nid 2), DeleteOp (demo_ep 5)]"

lemma demo_ops_over: "list_all (view_op_over (map demo_ep [1, 2, 3, 4, 5])) demo_ops"
  by code_simp

theorem view_history_inv_witness:
  "view_inv demo_hash (run (view_step demo_hash) demo_view demo_ops) \<and>
    members (run (view_step demo_hash) demo_view demo_ops) \<subseteq> set (map demo_ep [1, 2, 3, 4, 5]) \<and>
    snd (current_configuration_id demo_hash (run (view_step demo_hash) demo_view demo_ops))
      = true_configuration_id demo_hash (run (view_step demo_hash) demo_view demo_ops)"
  by (rule view_history_inv[OF demo_view_bootstrap demo_no_collisions _ demo_ops_over]) auto

lemma run_view_identifiers:
  "identifiers_seen v \<subseteq> identifiers_seen (run (view_step x) v ops)"
proof (induction ops arbitrary: v)
  case (Cons op ops)
  have "identifiers_seen v \<subseteq> identifiers_seen (view_step x v op)" by (rule view_step_identifiers)
  also have "\<dots> \<subseteq> identifiers_seen (run (view_step x) v (op # ops))" using Cons.IH by simp
  finally show ?case .
qed simp

text \<open>
  A node identifier is used once. After a join with identifier \<open>nid\<close> has been accepted, no
  later join with \<open>nid\<close> is accepted for any endpoint, whatever happens in between: removing the
  node does not release its identifier.
\<close>

theorem identifier_used_once:
  assumes "ring_add x v e nid = Inr v'"
  shows "ring_add x (run (view_step x) v' ops) e' nid = Inl ProtocolRejected \<and>
    is_safe_to_join (run (view_step x) v' ops) e' nid \<noteq> SafeToJoin"
proof -
  have "nid \<in> identifiers_seen v'" using ring_add_identifiers[OF assms] by simp
  then have "nid \<in> identifiers_seen (run (view_step x) v' ops)"
    using run_view_identifiers by blast
  then show ?thesis by (simp add: identifiers_seen_def ring_add_def is_safe_to_join_def)
qed

definition demo_joined :: membership_view where
  "demo_joined = (case ring_add demo_hash demo_view (demo_ep 4) (demo_nid 4) of Inr v \<Rightarrow> v)"

lemma demo_joined: "ring_add demo_hash demo_view (demo_ep 4) (demo_nid 4) = Inr demo_joined"
proof -
  have "case ring_add demo_hash demo_view (demo_ep 4) (demo_nid 4) of Inl _ \<Rightarrow> False | Inr _ \<Rightarrow> True"
    by code_simp
  then show ?thesis by (auto simp: demo_joined_def split: sum.splits)
qed

theorem identifier_used_once_witness:
  "ring_add demo_hash (run (view_step demo_hash) demo_joined [DeleteOp (demo_ep 4)])
      (demo_ep 5) (demo_nid 4) = Inl ProtocolRejected \<and>
    is_safe_to_join (run (view_step demo_hash) demo_joined [DeleteOp (demo_ep 4)])
      (demo_ep 5) (demo_nid 4) \<noteq> SafeToJoin"
  by (rule identifier_used_once[OF demo_joined])

lemma ring_remove_insert:
  assumes "\<not> ring_contains x r e"
  shows "fst (ring_remove x (fst (ring_insert x r e)) e) = r"
proof -
  have n: "fmlookup (rg_by_hash r) (ring_key x r e) = None" using assms by (simp add: ring_contains_def)
  then have "fmdrop (ring_key x r e) (fmupd (ring_key x r e) e (rg_by_hash r)) = rg_by_hash r"
    by (intro fmap_ext) auto
  with n show ?thesis by (simp add: ring_insert_def ring_remove_def Let_def ring_key_def)
qed

text \<open>
  C24. The outcome of \<^verbatim>\<open>ring_add\<close> on every branch. With no hash collision it succeeds exactly
  when \<^verbatim>\<open>is_safe_to_join\<close> says so; then the endpoint and the identifier are added, everything
  else stays, and a following \<^verbatim>\<open>ring_delete\<close> of the endpoint restores the rings and the
  members but not the identifier set.
\<close>

theorem ring_add_outcome:
  assumes "view_inv x v" and "collision_free x v e"
  shows "case ring_add x v e nid of
      Inl err \<Rightarrow> err = ProtocolRejected \<and> is_safe_to_join v e nid \<noteq> SafeToJoin
    | Inr v' \<Rightarrow> is_safe_to_join v e nid = SafeToJoin \<and> view_inv x v' \<and>
        members v' = insert e (members v) \<and> membership_size v' = Suc (membership_size v) \<and>
        identifiers_seen v' = insert nid (identifiers_seen v) \<and>
        (\<exists>v''. ring_delete x v' e = Inr v'' \<and> mv_rings v'' = mv_rings v \<and>
           mv_all_nodes v'' = mv_all_nodes v \<and>
           identifiers_seen v'' = insert nid (identifiers_seen v))"
proof -
  have z: "mv_rings v \<noteq> []" "mv_rings v ! 0 \<in> set (mv_rings v)"
    using view_wf_rings[of x v] assms(1) by (auto simp: view_inv_def)
  have c0: "ring_contains x r e \<longleftrightarrow> is_host_present v e" if "r \<in> set (mv_rings v)" for r
    using view_inv_contains[OF assms that] .
  show ?thesis
  proof (cases "ring_add x v e nid")
    case (Inl err)
    then show ?thesis using c0[OF z(2)] by (auto simp: ring_add_def is_safe_to_join_def Let_def split: if_splits)
  next
    case (Inr v')
    have safe: "\<not> is_host_present v e" "\<not> is_identifier_present v nid"
      using Inr c0[OF z(2)] by (auto simp: ring_add_result)
    have inv': "view_inv x v'" using ring_add_inv[OF assms(1) Inr assms(2)] .
    have m: "members v' = insert e (members v)" by (rule ring_add_members[OF Inr])
    have "e \<notin> members v" using safe(1) by (simp add: members_def)
    then have sz: "membership_size v' = Suc (membership_size v)"
      using membership_size_card[OF inv'] membership_size_card[OF assms(1)] m by simp
    have p': "is_host_present v' e" using m by (auto simp: members_def)
    have z': "mv_rings v' ! 0 \<in> set (mv_rings v')"
      using view_wf_rings[of x v'] inv' by (auto simp: view_inv_def)
    have "ring_contains x (mv_rings v' ! 0) e"
      using view_inv_contains[OF inv' view_inv_collision_free[OF inv' p'] z'] p' by simp
    then obtain v'' where del: "ring_delete x v' e = Inr v''"
      by (auto simp: ring_delete_def Let_def)
    have "fst (ring_remove x (fst (ring_insert x r e)) e) = r" if "r \<in> set (mv_rings v)" for r
      using c0[OF that] safe by (simp add: ring_remove_insert)
    then have "mv_rings v'' = mv_rings v"
      using Inr del by (auto simp: ring_add_result ring_delete_result intro: map_idI)
    moreover have "mv_all_nodes v'' = mv_all_nodes v"
      using Inr del safe by (auto simp: ring_add_result ring_delete_result is_host_present_def)
    ultimately show ?thesis
      using Inr del safe inv' m sz ring_add_identifiers[OF Inr] ring_delete_identifiers[OF del]
      by (auto simp: is_safe_to_join_def)
  qed
qed

theorem ring_add_outcome_witness:
  "case ring_add demo_hash demo_view (demo_ep 4) (demo_nid 4) of
      Inl err \<Rightarrow> err = ProtocolRejected \<and>
        is_safe_to_join demo_view (demo_ep 4) (demo_nid 4) \<noteq> SafeToJoin
    | Inr v' \<Rightarrow> is_safe_to_join demo_view (demo_ep 4) (demo_nid 4) = SafeToJoin \<and>
        view_inv demo_hash v' \<and> members v' = insert (demo_ep 4) (members demo_view) \<and>
        membership_size v' = Suc (membership_size demo_view) \<and>
        identifiers_seen v' = insert (demo_nid 4) (identifiers_seen demo_view) \<and>
        (\<exists>v''. ring_delete demo_hash v' (demo_ep 4) = Inr v'' \<and> mv_rings v'' = mv_rings demo_view \<and>
           mv_all_nodes v'' = mv_all_nodes demo_view \<and>
           identifiers_seen v'' = insert (demo_nid 4) (identifiers_seen demo_view))"
  by (rule ring_add_outcome[OF demo_view_wf view_inv_over_collision_free[OF demo_view_inv(1)]]) simp

lemma matching_indices_filter:
  "matching_indices s n xs = map of_nat (filter (\<lambda>i. xs ! (i - n) = s) [n..<n + length xs])"
proof (induction xs arbitrary: n)
  case (Cons a xs)
  have "filter (\<lambda>i. (a # xs) ! (i - n) = s) [Suc n..<Suc n + length xs]
    = filter (\<lambda>i. xs ! (i - Suc n) = s) [Suc n..<Suc n + length xs]"
    by (intro filter_cong) (auto simp: nth_Cons')
  then show ?case using Cons.IH[of "Suc n"]
    by (cases "a = s") (simp_all add: upt_conv_Cons del: upt_Suc)
qed simp

lemma ring_numbers_map:
  assumes "view_inv x v" and "2 \<le> membership_size v"
    and "is_host_present v observer" and "is_host_present v subject"
  shows "get_ring_numbers x v observer subject =
    Inr (map of_nat (filter (\<lambda>i. compute_observers_of x v subject ! i = observer) [0..<unat (mv_k v)]))"
proof -
  have m: "observer \<in> members v" "subject \<in> members v" using assms by (auto simp: members_def)
  have c: "2 \<le> card (members v)" using assms(1,2) by (simp add: membership_size_card)
  have len: "length (mv_rings v) = unat (mv_k v)" "mv_rings v \<noteq> []"
    using assms(1) view_wf_rings[of x v] by (auto simp: view_inv_def view_wf_def)
  let ?subj = "map (\<lambda>r. the (predecessor x r observer)) (mv_rings v)"
  have "filter (\<lambda>i. ?subj ! i = subject) [0..<unat (mv_k v)]
    = filter (\<lambda>i. compute_observers_of x v subject ! i = observer) [0..<unat (mv_k v)]"
    using len successor_iff_predecessor[OF assms(1) m(2,1)]
    by (intro filter_cong) (auto simp: compute_observers_map[OF assms(1) c])
  then show ?thesis
    using get_subjects_map[OF assms(1) c m(1)] len
    by (simp add: get_ring_numbers_def matching_indices_filter)
qed

text \<open>
  Ring numbers. For two members of a view with at least two members,
  \<^verbatim>\<open>get_ring_numbers(observer, subject)\<close> lists, in ascending order and without repetition,
  exactly the ring indices on which \<open>observer\<close> is the observer of \<open>subject\<close>, so an observer
  reports an edge on precisely the rings the cut detector attributes to it.
\<close>

theorem ring_numbers_exact:
  assumes "view_inv x v" and "2 \<le> membership_size v"
    and "is_host_present v observer" and "is_host_present v subject"
  shows "get_ring_numbers x v observer subject =
    Inr (map of_nat (filter (\<lambda>i. compute_observers_of x v subject ! i = observer) [0..<unat (mv_k v)]))"
  by (rule ring_numbers_map[OF assms])

theorem ring_numbers_exact_witness:
  "get_ring_numbers demo_hash demo_view (demo_ep 1) (demo_ep 2) =
    Inr (map of_nat (filter (\<lambda>i. compute_observers_of demo_hash demo_view (demo_ep 2) ! i = demo_ep 1)
      [0..<unat (mv_k demo_view)]))"
  by (rule ring_numbers_exact[OF demo_view_wf _ demo_present]) (simp add: demo_view_size)

text \<open>
  The observer cache. Dropping \<^verbatim>\<open>ring.lower(endpoint)\<close> on every ring is enough when the
  endpoint has a lower neighbour on each of them: the only member whose successor changes is the
  predecessor. On a ring where the endpoint is the smallest entry the predecessor is the ring's
  last entry, which \<^verbatim>\<open>lower\<close> does not return.
\<close>

definition has_lower_everywhere :: "xxh64_fn \<Rightarrow> membership_view \<Rightarrow> endpoint \<Rightarrow> bool" where
  "has_lower_everywhere x v e \<longleftrightarrow> list_all (\<lambda>r. ring_lower x r e \<noteq> None) (mv_rings v)"

lemma affected_predecessors:
  assumes "\<forall>r \<in> set rings. ring_lower x r e \<noteq> None"
    and "\<not> endpoint_key_of f |\<in>| affected_subjects x rings e" and "r \<in> set rings"
  shows "rg.pred x r e \<noteq> Some f"
proof -
  obtain g where g: "ring_lower x r e = Some g" using assms(1,3) by auto
  then have "endpoint_key_of g |\<in>| affected_subjects x rings e"
    using assms(3) by (force simp: affected_subjects_def fset_of_list_elem List.map_filter_def)
  then show ?thesis using g assms(2) by (auto simp: rg.pred_def)
qed

text \<open>Two views that differ by one member \<open>e\<close> compute the same observers for any member that
  is not a predecessor of \<open>e\<close> in the larger one.\<close>

lemma compute_observers_insert:
  assumes inv: "view_inv x v" "view_inv x w" and k: "mv_k w = mv_k v"
    and m: "members w = insert e (members v)" "e \<notin> members v" and f: "f \<in> members v"
    and np: "\<And>r. r \<in> set (mv_rings w) \<Longrightarrow> rg.pred x r e \<noteq> Some f"
  shows "compute_observers_of x w f = compute_observers_of x v f"
proof -
  have len: "length (mv_rings v) = unat (mv_k v)" "length (mv_rings w) = unat (mv_k v)"
    using inv k by (auto simp: view_inv_def view_wf_def)
  have s: "successor x (mv_rings w ! i) f = successor x (mv_rings v ! i) f" if i: "i < unat (mv_k v)" for i
  proof -
    have mem: "mv_rings w ! i \<in> set (mv_rings w)" "mv_rings v ! i \<in> set (mv_rings v)"
      using i len by auto
    have wf: "ring_wf x (mv_rings v ! i)" "ring_wf x (mv_rings w ! i)"
      "rg_seed (mv_rings w ! i) = rg_seed (mv_rings v ! i)"
      "ring_elems (mv_rings w ! i) = insert e (ring_elems (mv_rings v ! i))"
      "e \<notin> ring_elems (mv_rings v ! i)" "f \<in> ring_elems (mv_rings v ! i)"
      using inv mem i k m f by (auto simp: view_inv_def view_wf_def)
    then have "ring_key x (mv_rings w ! i) = ring_key x (mv_rings v ! i)"
      by (auto simp: fun_eq_iff ring_key_def)
    then show ?thesis
      using rg.succ_insert[OF wf(1,2) _ wf(4-6) np[OF mem(1)]] by (simp add: successor_succ)
  qed
  obtain r0 where r0: "r0 \<in> set (mv_rings w)" "ring_wf x r0" "ring_elems r0 = members w"
    using view_wf_rings[of x w] inv(2) that[of "mv_rings w ! 0"] by (auto simp: view_inv_def)
  have "members v \<noteq> {f}"
  proof
    assume vf: "members v = {f}"
    have "ring_elems r0 \<noteq> {}" using r0(3) m by simp
    then obtain g where "rg.pred x r0 e = Some g" "g \<in> {e, f}"
      using rg.succ_pred_exist[OF r0(2)] r0(3) m vf by (metis insertCI)
    moreover have "rg.pred x r0 e \<noteq> Some e" using rg.pred_neq[OF r0(2), of e f] r0(3) m f by auto
    ultimately show False using np[OF r0(1)] by auto
  qed
  then have "\<not> card (members v) \<le> Suc 0"
    using f by (auto simp: card_le_Suc0_iff_eq)
  then have "2 \<le> card (members v)" by simp
  moreover have "card (members w) = Suc (card (members v))" using m by simp
  ultimately show ?thesis
    using s len compute_observers_map[OF inv(1)] compute_observers_map[OF inv(2)]
    by (auto intro!: nth_equalityI)
qed

lemma cache_coherentI:
  assumes "\<And>e obs. is_host_present v e \<Longrightarrow>
    fmlookup (mv_cached_observers v) (endpoint_key_of e) = Some obs \<Longrightarrow> obs = compute_observers_of x v e"
  shows "cache_coherent x v"
  using assms by (auto simp: cache_coherent_def)

text \<open>A view never caches observers for an endpoint that is not a member.\<close>

definition cache_members :: "membership_view \<Rightarrow> bool" where
  "cache_members v \<longleftrightarrow> fmdom (mv_cached_observers v) |\<subseteq>| mv_all_nodes v"

lemma cache_members_run:
  "cache_members v \<Longrightarrow> cache_members (view_step x v op)"
  by (cases op)
    (fastforce simp: cache_members_def view_step_def ring_add_def ring_delete_def Let_def
      get_observers_of_def is_host_present_def split: if_splits option.splits)+

lemma get_observers_of_cache:
  assumes "cache_coherent x v"
  shows "cache_coherent x (fst (get_observers_of x v e))"
proof -
  have "compute_observers_of x (fst (get_observers_of x v e)) = compute_observers_of x v"
    by (simp add: fun_eq_iff compute_observers_of_def)
  then show ?thesis
    using assms by (auto simp: cache_coherent_def get_observers_of_def Let_def is_host_present_def
        split: option.split if_splits)
qed

lemma lower_insert [simp]: "ring_lower x (fst (ring_insert x r e)) e = ring_lower x r e"
proof (cases "fmlookup (rg_by_hash r) (ring_key x r e)")
  case None
  define B where "B = {k \<in> fmdom' (rg_by_hash r). k < ring_key x r e}"
  have "{k \<in> fmdom' (fmupd (ring_key x r e) e (rg_by_hash r)). k < ring_key x r e} = B"
    by (auto simp: B_def)
  moreover have "ring_key x r e \<noteq> Max B" if "B \<noteq> {}" using Max_in[OF _ that] by (auto simp: B_def)
  moreover have "ring_key x (r\<lparr>rg_by_hash := m\<rparr>) e = ring_key x r e"
    "rg_by_hash (r\<lparr>rg_by_hash := m\<rparr>) = m" for m by (simp_all add: ring_key_def)
  ultimately show ?thesis
    using None unfolding ring_lower_def ring_insert_def Let_def Set.filter_eq B_def[symmetric]
    by (cases "B = {}") (simp_all only: fst_conv ring.simps fmupd_lookup if_True if_False refl simp_thms)
qed (simp add: ring_insert_def Let_def)

lemma ring_delete_cache:
  assumes inv: "view_inv x v" and cf: "collision_free x v e" and coh: "cache_coherent x v"
    and low: "has_lower_everywhere x v e" and del: "ring_delete x v e = Inr v'"
  shows "cache_coherent x v'"
proof (rule cache_coherentI)
  fix f obs assume f: "is_host_present v' f"
    and c: "fmlookup (mv_cached_observers v') (endpoint_key_of f) = Some obs"
  have inv': "view_inv x v'" by (rule ring_delete_inv[OF inv del cf])
  have z: "mv_rings v ! 0 \<in> set (mv_rings v)" using view_wf_rings[of x v] inv by (simp add: view_inv_def)
  have "e \<in> members v"
    using del view_inv_contains[OF inv cf z] by (auto simp: ring_delete_result members_def)
  then have m: "members v = insert e (members v')" "e \<notin> members v'"
    using ring_delete_members[OF del] by auto
  have k: "mv_k v = mv_k v'" using del by (auto simp: ring_delete_result)
  have f': "f \<in> members v'" "is_host_present v f" using f m by (auto simp: members_def)
  have "\<not> endpoint_key_of f |\<in>| affected_subjects x (mv_rings v) e"
    "fmlookup (mv_cached_observers v) (endpoint_key_of f) = Some obs"
    using c del by (auto simp: ring_delete_result split: if_splits)
  moreover have "rg.pred x r e \<noteq> Some f" if "r \<in> set (mv_rings v)" for r
    using affected_predecessors[OF _ calculation(1) that] low
    by (simp add: has_lower_everywhere_def list_all_iff)
  ultimately show "obs = compute_observers_of x v' f"
    using compute_observers_insert[OF inv' inv k m f'(1)] coh f'(2) by (auto simp: cache_coherent_def)
qed

lemma ring_add_cache:
  assumes inv: "view_inv x v" and cf: "collision_free x v e" and coh: "cache_coherent x v"
    and mem: "cache_members v" and low: "has_lower_everywhere x v e"
    and add: "ring_add x v e nid = Inr v'"
  shows "cache_coherent x v'"
proof (rule cache_coherentI)
  fix f obs assume f: "is_host_present v' f"
    and c: "fmlookup (mv_cached_observers v') (endpoint_key_of f) = Some obs"
  have inv': "view_inv x v'" by (rule ring_add_inv[OF inv add cf])
  have z: "mv_rings v ! 0 \<in> set (mv_rings v)" using view_wf_rings[of x v] inv by (simp add: view_inv_def)
  have m: "members v' = insert e (members v)" "e \<notin> members v"
    using add view_inv_contains[OF inv cf z] ring_add_members[OF add]
    by (auto simp: ring_add_result members_def)
  have k: "mv_k v' = mv_k v" using add by (auto simp: ring_add_result)
  have c': "\<not> endpoint_key_of f |\<in>| affected_subjects x (mv_rings v') e"
    "fmlookup (mv_cached_observers v) (endpoint_key_of f) = Some obs"
    using c add by (auto simp: ring_add_result split: if_splits)
  then have f': "f \<in> members v"
    using mem fmdomI[OF c'(2)] by (auto simp: cache_members_def members_def is_host_present_def)
  moreover have "rg.pred x r e \<noteq> Some f" if "r \<in> set (mv_rings v')" for r
    using affected_predecessors[OF _ c'(1) that] low add
    by (auto simp: has_lower_everywhere_def list_all_iff ring_add_result)
  ultimately show "obs = compute_observers_of x v' f"
    using compute_observers_insert[OF inv inv' k m] coh c' by (auto simp: cache_coherent_def members_def)
qed

text \<open>
  C31. When the observer cache is right. Joins and removals of an endpoint that has a lower
  neighbour on every ring keep every cached observer list equal to the one that would be
  recomputed, so the following observer queries answer from an up-to-date cache.
\<close>

theorem cache_coherent_kept:
  assumes "view_inv x v" and "collision_free x v e" and "cache_coherent x v" and "cache_members v"
    and "has_lower_everywhere x v e"
  shows "(case ring_add x v e nid of Inl _ \<Rightarrow> True | Inr v' \<Rightarrow> cache_coherent x v') \<and>
    (case ring_delete x v e of Inl _ \<Rightarrow> True | Inr v' \<Rightarrow> cache_coherent x v')"
  using ring_add_cache[OF assms] ring_delete_cache[OF assms(1-3,5)] by (simp split: sum.split)

definition demo_cached :: membership_view where
  "demo_cached = fst (get_observers_of demo_hash demo_view (demo_ep 1))"

lemma demo_cached_facts:
  "view_inv demo_hash demo_cached" "cache_coherent demo_hash demo_cached"
  using get_observers_of_inv[OF demo_view_wf] get_observers_of_cache[OF demo_cache]
  by (simp_all add: demo_cached_def)

lemma demo_cached_eval:
  "collision_free demo_hash demo_cached (demo_ep 6)" "cache_members demo_cached"
  "has_lower_everywhere demo_hash demo_cached (demo_ep 6)"
  by code_simp+

theorem cache_coherent_kept_witness:
  "(case ring_add demo_hash demo_cached (demo_ep 6) (demo_nid 6) of
      Inl _ \<Rightarrow> True | Inr v' \<Rightarrow> cache_coherent demo_hash v') \<and>
   (case ring_delete demo_hash demo_cached (demo_ep 6) of
      Inl _ \<Rightarrow> True | Inr v' \<Rightarrow> cache_coherent demo_hash v')"
  by (rule cache_coherent_kept[OF demo_cached_facts(1) demo_cached_eval(1) demo_cached_facts(2)
        demo_cached_eval(2,3)])

definition demo_stale :: membership_view where
  "demo_stale = run (view_step demo_hash) demo_view [ObserversOp (demo_ep 3), DeleteOp (demo_ep 2)]"

lemma demo_stale_facts:
  "no_collisions demo_hash 3 (map demo_ep [1, 2, 3])"
  "snd (get_observers_of demo_hash demo_stale (demo_ep 3)) = Inr [demo_ep 1, demo_ep 1, demo_ep 2]"
  "\<not> is_host_present demo_stale (demo_ep 2)"
  "compute_observers_of demo_hash demo_stale (demo_ep 3) = [demo_ep 1, demo_ep 1, demo_ep 1]"
  by code_simp+

text \<open>
  When it is not. Three members on three rings without any hash collision: the observers of
  node 3 are queried, then node 2 is removed. Node 2 is the smallest entry of the third ring, so
  the cached list of node 3 is kept, and \<^verbatim>\<open>get_observers_of\<close> still names the removed node
  although recomputation would not.
\<close>

theorem stale_observer_after_delete:
  "no_collisions demo_hash 3 (map demo_ep [1, 2, 3]) \<and>
   snd (get_observers_of demo_hash demo_stale (demo_ep 3)) = Inr [demo_ep 1, demo_ep 1, demo_ep 2] \<and>
   \<not> is_host_present demo_stale (demo_ep 2) \<and>
   compute_observers_of demo_hash demo_stale (demo_ep 3) = [demo_ep 1, demo_ep 1, demo_ep 1]"
  by (intro conjI demo_stale_facts)

end
