(* ===== verification/Cut_Detector.thy ===== *)
theory Cut_Detector
  imports View
begin

text \<open>
  \<^verbatim>\<open>crates/rapid/src/cut_detector.rs\<close>: \<^verbatim>\<open>MultiNodeCutDetector\<close>, the H/L watermark
  detector. \<^verbatim>\<open>aggregate_one\<close> counts, per subject, the distinct rings that reported it; a
  subject with at least L and fewer than H reports is in flux (\<^verbatim>\<open>pre_proposal\<close>), one with H
  is stable (\<^verbatim>\<open>proposal\<close>), and the stable ones are emitted together as soon as none is in flux.

  The per-subject count is cast to \<^verbatim>\<open>u8\<close> as in the code; \<open>tally_le_256\<close> shows why the cast is
  harmless. \<^verbatim>\<open>updates_in_progress\<close> is an \<open>int\<close>: the invariant shows that it is the number of
  subjects in flux, so the \<^verbatim>\<open>i32\<close> counter is exact up to that many subjects. The
  \<^verbatim>\<open>debug_assert!\<close> on the ring number is absent from a release build and not modelled. The order
  in which a \<^verbatim>\<open>HashSet\<close> is iterated is the argument \<open>it\<close>.

  Properties: the exact emission rule, an invariant over every history of alerts, the
  equivalence of the incremental detector with a specification computed from the set of reports
  alone (so order and duplication do not matter), and the implicit-detection step.
\<close>

section \<open>State and operations\<close>

type_synonym hash_order = "endpoint_key fset \<Rightarrow> endpoint_key list"

definition K_MIN :: u8 where
  "K_MIN = 3"

record cut_detector =
  cd_k :: u8
  cd_h :: u8
  cd_l :: u8
  cd_proposal_count :: u32
  cd_updates_in_progress :: int
  cd_reports_per_host :: "(endpoint_key, (u8, endpoint) fmap) fmap"
  cd_proposal :: "endpoint_key fset"
  cd_pre_proposal :: "endpoint_key fset"
  cd_seen_link_down_events :: bool
  cd_endpoint_objs :: "(endpoint_key, endpoint) fmap"

definition cut_new :: "u8 \<Rightarrow> u8 \<Rightarrow> u8 \<Rightarrow> cut_detector result" where
  "cut_new k h l =
     (if h > k \<or> l > h \<or> k < K_MIN \<or> l = 0 \<or> h = 0 then Inl Internal
      else Inr \<lparr>cd_k = k, cd_h = h, cd_l = l, cd_proposal_count = 0, cd_updates_in_progress = 0,
        cd_reports_per_host = fmempty, cd_proposal = {||}, cd_pre_proposal = {||},
        cd_seen_link_down_events = False, cd_endpoint_objs = fmempty\<rparr>)"

definition num_proposals :: "cut_detector \<Rightarrow> u32" where
  "num_proposals cd = cd_proposal_count cd"

text \<open>\<^verbatim>\<open>self.endpoint_objs[k]\<close>; the invariant shows that the key is there.\<close>

definition endpoint_obj :: "cut_detector \<Rightarrow> endpoint_key \<Rightarrow> endpoint" where
  "endpoint_obj cd k = the (fmlookup (cd_endpoint_objs cd) k)"

text \<open>\<^verbatim>\<open>self.reports_per_host.entry(k).or_default()\<close>, read.\<close>

definition reports_of :: "cut_detector \<Rightarrow> endpoint_key \<Rightarrow> (u8, endpoint) fmap" where
  "reports_of cd k = fm_get_or fmempty (cd_reports_per_host cd) k"

text \<open>\<^verbatim>\<open>aggregate_one\<close> up to the insertion of the report; a report for a ring already there is
  not inserted.\<close>

definition file_report ::
  "cut_detector \<Rightarrow> endpoint \<Rightarrow> endpoint \<Rightarrow> edge_status \<Rightarrow> u8 \<Rightarrow> cut_detector" where
  "file_report cd link_src link_dst edge_status ring_number =
     (let dst_key = endpoint_key_of link_dst;
          reports = reports_of cd dst_key
      in cd\<lparr>cd_seen_link_down_events := (if edge_status = Down then True else cd_seen_link_down_events cd),
            cd_endpoint_objs :=
              fmupd dst_key (fm_get_or link_dst (cd_endpoint_objs cd) dst_key) (cd_endpoint_objs cd),
            cd_reports_per_host :=
              fmupd dst_key
                (if fmlookup reports ring_number \<noteq> None then reports
                 else fmupd ring_number link_src reports)
                (cd_reports_per_host cd)\<rparr>)"

text \<open>The rest of \<^verbatim>\<open>aggregate_one\<close>, with the report count as the \<^verbatim>\<open>u8\<close> it is cast to.\<close>

definition apply_watermarks ::
  "hash_order \<Rightarrow> cut_detector \<Rightarrow> endpoint_key \<Rightarrow> u8 \<Rightarrow> cut_detector \<times> endpoint list" where
  "apply_watermarks it cd dst_key num =
     (let cd = (if num = cd_l cd
                then cd\<lparr>cd_updates_in_progress := cd_updates_in_progress cd + 1,
                        cd_pre_proposal := finsert dst_key (cd_pre_proposal cd)\<rparr>
                else cd)
      in if num = cd_h cd
         then (let cd = cd\<lparr>cd_pre_proposal := cd_pre_proposal cd |-| {|dst_key|},
                           cd_proposal := finsert dst_key (cd_proposal cd),
                           cd_updates_in_progress := cd_updates_in_progress cd - 1\<rparr>
               in if cd_updates_in_progress cd = 0
                  then (let ret = map (endpoint_obj cd) (it (cd_proposal cd))
                        in (cd\<lparr>cd_proposal_count := cd_proposal_count cd + 1,
                               cd_proposal := {||}\<rparr>, ret))
                  else (cd, []))
         else (cd, []))"

definition aggregate_one ::
  "hash_order \<Rightarrow> cut_detector \<Rightarrow> endpoint \<Rightarrow> endpoint \<Rightarrow> edge_status \<Rightarrow> u8 \<Rightarrow>
   cut_detector \<times> endpoint list" where
  "aggregate_one it cd link_src link_dst edge_status ring_number =
     (let dst_key = endpoint_key_of link_dst;
          cd' = file_report cd link_src link_dst edge_status ring_number
      in if fmlookup (reports_of cd dst_key) ring_number \<noteq> None then (cd', [])
         else apply_watermarks it cd' dst_key (of_nat (fm_len (reports_of cd' dst_key))))"

fun aggregate_rings ::
  "hash_order \<Rightarrow> endpoint \<Rightarrow> endpoint \<Rightarrow> edge_status \<Rightarrow> cut_detector \<Rightarrow> i32 list \<Rightarrow>
   cut_detector \<times> endpoint list" where
  "aggregate_rings it src dst status cd [] = (cd, [])"
| "aggregate_rings it src dst status cd (ring_number # rings) =
     (let (cd, out) = aggregate_one it cd src dst status (ucast ring_number);
          (cd, out') = aggregate_rings it src dst status cd rings
      in (cd, out @ out'))"

definition aggregate ::
  "hash_order \<Rightarrow> cut_detector \<Rightarrow> alert_message \<Rightarrow> cut_detector \<times> endpoint list" where
  "aggregate it cd msg =
     (case al_edge_src msg of
        None \<Rightarrow> (cd, [])
      | Some src \<Rightarrow>
          (case al_edge_dst msg of
             None \<Rightarrow> (cd, [])
           | Some dst \<Rightarrow>
               aggregate_rings it src dst (edge_status_or_up (al_edge_status msg)) cd
                 (al_ring_number msg)))"

text \<open>The inner loop of \<^verbatim>\<open>invalidate_failing_edges\<close>: the observers of one node in flux.\<close>

fun invalidate_observers ::
  "hash_order \<Rightarrow> endpoint \<Rightarrow> edge_status \<Rightarrow> nat \<Rightarrow> endpoint list \<Rightarrow> cut_detector \<Rightarrow>
   cut_detector \<times> endpoint list" where
  "invalidate_observers it node_in_flux edge_status ring_number [] cd = (cd, [])"
| "invalidate_observers it node_in_flux edge_status ring_number (observer # observers) cd =
     (let observer_key = endpoint_key_of observer;
          (cd, out) =
            (if observer_key |\<in>| cd_proposal cd \<or> observer_key |\<in>| cd_pre_proposal cd
             then aggregate_one it cd observer node_in_flux edge_status (of_nat ring_number)
             else (cd, []));
          (cd, out') = invalidate_observers it node_in_flux edge_status (Suc ring_number) observers cd
      in (cd, out @ out'))"

fun invalidate_nodes ::
  "xxh64_fn \<Rightarrow> hash_order \<Rightarrow> endpoint list \<Rightarrow> cut_detector \<Rightarrow> membership_view \<Rightarrow>
   cut_detector \<times> membership_view \<times> endpoint list" where
  "invalidate_nodes x it [] cd view = (cd, view, [])"
| "invalidate_nodes x it (node_in_flux # nodes) cd view =
     (let (view, observers) =
            (if is_host_present view node_in_flux
             then (let (view, r) = get_observers_of x view node_in_flux
                   in (view, case r of Inl _ \<Rightarrow> [] | Inr observers \<Rightarrow> observers))
             else (view, get_expected_observers_of x view node_in_flux));
          edge_status = (if is_host_present view node_in_flux then Down else Up);
          (cd, out) = invalidate_observers it node_in_flux edge_status 0 observers cd;
          (cd, view, out') = invalidate_nodes x it nodes cd view
      in (cd, view, out @ out'))"

definition invalidate_failing_edges ::
  "xxh64_fn \<Rightarrow> hash_order \<Rightarrow> cut_detector \<Rightarrow> membership_view \<Rightarrow>
   cut_detector \<times> membership_view \<times> endpoint list" where
  "invalidate_failing_edges x it cd view =
     (if \<not> cd_seen_link_down_events cd then (cd, view, [])
      else
        (let pre_proposal_copy = map (endpoint_obj cd) (it (cd_pre_proposal cd))
         in invalidate_nodes x it pre_proposal_copy cd view))"

definition cut_clear :: "cut_detector \<Rightarrow> cut_detector" where
  "cut_clear cd = cd\<lparr>cd_reports_per_host := fmempty, cd_proposal := {||}, cd_pre_proposal := {||},
     cd_endpoint_objs := fmempty, cd_updates_in_progress := 0, cd_proposal_count := 0,
     cd_seen_link_down_events := False\<rparr>"

section \<open>Invariant\<close>

text \<open>\<open>tally cd k\<close> is the number of distinct rings that have reported \<open>k\<close>.\<close>

definition tally :: "cut_detector \<Rightarrow> endpoint_key \<Rightarrow> nat" where
  "tally cd k = fm_len (reports_of cd k)"

definition cut_params :: "cut_detector \<Rightarrow> bool" where
  "cut_params cd \<longleftrightarrow> K_MIN \<le> cd_k cd \<and> 0 < cd_l cd \<and> cd_l cd \<le> cd_h cd \<and> cd_h cd \<le> cd_k cd"

definition in_flux :: "cut_detector \<Rightarrow> endpoint_key set" where
  "in_flux cd = {k. unat (cd_l cd) \<le> tally cd k \<and> tally cd k < unat (cd_h cd)}"

definition stable :: "cut_detector \<Rightarrow> endpoint_key set" where
  "stable cd = {k. unat (cd_h cd) \<le> tally cd k}"

definition objs_ok :: "cut_detector \<Rightarrow> bool" where
  "objs_ok cd \<longleftrightarrow>
     fmdom (cd_reports_per_host cd) |\<subseteq>| fmdom (cd_endpoint_objs cd) \<and>
     (\<forall>k e. fmlookup (cd_endpoint_objs cd) k = Some e \<longrightarrow> endpoint_key_of e = k)"

definition cut_inv :: "cut_detector \<Rightarrow> bool" where
  "cut_inv cd \<longleftrightarrow>
     cut_params cd \<and> objs_ok cd \<and>
     fset (cd_pre_proposal cd) = in_flux cd \<and>
     cd_updates_in_progress cd = int (fcard (cd_pre_proposal cd)) \<and>
     fset (cd_proposal cd) \<subseteq> stable cd \<and>
     (cd_pre_proposal cd = {||} \<longrightarrow> cd_proposal cd = {||})"

lemma fm_len_u8: "fm_len (m :: (u8, 'v) fmap) \<le> 256"
proof -
  have "card (fset (fmdom m)) \<le> card (UNIV :: u8 set)" by (intro card_mono) auto
  then show ?thesis by (simp add: fm_len_def fcard.rep_eq card_word)
qed

lemma tally_le_256: "tally cd k \<le> 256"
  by (simp add: tally_def fm_len_u8)

text \<open>The cast of the report count to \<^verbatim>\<open>u8\<close> never matches a watermark by wrap-around.\<close>

lemma report_count_cast:
  assumes "n \<le> 256" "0 < (w :: u8)"
  shows "(of_nat n = w) = (n = unat w)"
proof
  assume e: "of_nat n = w"
  then have u: "unat w = n mod 256" by (auto simp: unat_of_nat)
  have "n \<noteq> 256"
  proof
    assume "n = 256"
    with u have "unat w = 0" by simp
    with assms(2) show False by (simp add: unat_eq_0)
  qed
  with assms(1) u show "n = unat w" by simp
qed simp

section \<open>One report\<close>

definition reported :: "cut_detector \<Rightarrow> endpoint_key \<Rightarrow> u8 \<Rightarrow> bool" where
  "reported cd k rn \<longleftrightarrow> fmlookup (reports_of cd k) rn \<noteq> None"

lemma file_report_frame [simp]:
  "cd_k (file_report cd src dst st rn) = cd_k cd" "cd_h (file_report cd src dst st rn) = cd_h cd"
  "cd_l (file_report cd src dst st rn) = cd_l cd"
  "cd_proposal (file_report cd src dst st rn) = cd_proposal cd"
  "cd_pre_proposal (file_report cd src dst st rn) = cd_pre_proposal cd"
  "cd_updates_in_progress (file_report cd src dst st rn) = cd_updates_in_progress cd"
  "cd_proposal_count (file_report cd src dst st rn) = cd_proposal_count cd"
  by (simp_all add: file_report_def Let_def)

lemma file_report_reports:
  "reports_of (file_report cd src dst st rn) k =
     (if k = endpoint_key_of dst \<and> \<not> reported cd k rn then fmupd rn src (reports_of cd k)
      else reports_of cd k)"
  by (auto simp: file_report_def Let_def reports_of_def fm_get_or_def reported_def)

lemma file_report_tally:
  "tally (file_report cd src dst st rn) k =
     (if k = endpoint_key_of dst \<and> \<not> reported cd k rn then Suc (tally cd k) else tally cd k)"
  by (auto simp: tally_def file_report_reports reported_def)

lemma objs_okD: "objs_ok cd \<Longrightarrow> fmlookup (cd_endpoint_objs cd) k = Some e \<Longrightarrow> endpoint_key_of e = k"
  by (simp add: objs_ok_def)

lemma file_report_objs:
  assumes "objs_ok cd"
  shows "objs_ok (file_report cd src dst st rn)"
proof -
  let ?k = "endpoint_key_of dst"
  have "endpoint_key_of (fm_get_or dst (cd_endpoint_objs cd) ?k) = ?k"
    using objs_okD[OF assms, of ?k] by (auto simp del: endpoint_key_of_eq simp: fm_get_or_def split: option.split)
  then show ?thesis
    using assms by (auto simp del: endpoint_key_of_eq simp: objs_ok_def file_report_def Let_def)
qed

lemma apply_watermarks_frame [simp]:
  "cd_k (fst (apply_watermarks it cd k n)) = cd_k cd"
  "cd_h (fst (apply_watermarks it cd k n)) = cd_h cd"
  "cd_l (fst (apply_watermarks it cd k n)) = cd_l cd"
  "cd_reports_per_host (fst (apply_watermarks it cd k n)) = cd_reports_per_host cd"
  "cd_endpoint_objs (fst (apply_watermarks it cd k n)) = cd_endpoint_objs cd"
  "cd_seen_link_down_events (fst (apply_watermarks it cd k n)) = cd_seen_link_down_events cd"
  by (simp_all add: apply_watermarks_def Let_def)

lemma apply_watermarks_tally [simp]:
  "reports_of (fst (apply_watermarks it cd k n)) = reports_of cd"
  "tally (fst (apply_watermarks it cd k n)) = tally cd"
  by (simp_all add: fun_eq_iff tally_def reports_of_def)

lemma aggregate_one_eq:
  "aggregate_one it cd src dst st rn =
    (if reported cd (endpoint_key_of dst) rn then (file_report cd src dst st rn, [])
     else apply_watermarks it (file_report cd src dst st rn) (endpoint_key_of dst)
       (of_nat (Suc (tally cd (endpoint_key_of dst)))))"
  using file_report_tally[of cd src dst st rn "endpoint_key_of dst"]
  by (simp add: aggregate_one_def Let_def reported_def tally_def)

lemma aggregate_one_frame [simp]:
  "cd_k (fst (aggregate_one it cd src dst st rn)) = cd_k cd"
  "cd_h (fst (aggregate_one it cd src dst st rn)) = cd_h cd"
  "cd_l (fst (aggregate_one it cd src dst st rn)) = cd_l cd"
  "cut_params (fst (aggregate_one it cd src dst st rn)) = cut_params cd"
  by (simp_all add: aggregate_one_eq cut_params_def)

lemma aggregate_one_reported:
  "reported (fst (aggregate_one it cd src dst st rn)) k r \<longleftrightarrow>
     k = endpoint_key_of dst \<and> r = rn \<or> reported cd k r"
  by (auto simp: reported_def aggregate_one_eq file_report_reports)

lemma aggregate_one_tally:
  "tally (fst (aggregate_one it cd src dst st rn)) k =
     (if k = endpoint_key_of dst \<and> \<not> reported cd k rn then Suc (tally cd k) else tally cd k)"
  by (auto simp: aggregate_one_eq file_report_tally)

lemma aggregate_one_objs: "objs_ok cd \<Longrightarrow> objs_ok (fst (aggregate_one it cd src dst st rn))"
  using file_report_objs[of cd src dst st rn]
  by (simp add: aggregate_one_eq objs_ok_def)

text \<open>A report on a ring that has already reported the subject changes no count and emits nothing.\<close>

lemma aggregate_one_dup:
  assumes "reported cd (endpoint_key_of dst) rn"
  shows "snd (aggregate_one it cd src dst st rn) = []"
    "cd_pre_proposal (fst (aggregate_one it cd src dst st rn)) = cd_pre_proposal cd"
    "cd_proposal (fst (aggregate_one it cd src dst st rn)) = cd_proposal cd"
    "cd_updates_in_progress (fst (aggregate_one it cd src dst st rn)) = cd_updates_in_progress cd"
    "tally (fst (aggregate_one it cd src dst st rn)) = tally cd"
  using assms by (auto simp: aggregate_one_eq file_report_tally fun_eq_iff)

lemma cut_params_bounds:
  assumes "cut_params cd"
  shows "0 < cd_l cd" "0 < cd_h cd" "0 < unat (cd_l cd)" "unat (cd_l cd) \<le> unat (cd_h cd)"
proof -
  have "0 < cd_l cd" "cd_l cd \<le> cd_h cd" using assms by (auto simp: cut_params_def)
  then show "0 < cd_l cd" "0 < cd_h cd" "0 < unat (cd_l cd)" "unat (cd_l cd) \<le> unat (cd_h cd)"
    by (auto simp: unat_gt_0 word_le_nat_alt intro: order.strict_trans2)
qed

text \<open>What a fresh report does, by the subject's new count.\<close>

lemma aggregate_one_fresh:
  assumes par: "cut_params cd" and fresh: "\<not> reported cd (endpoint_key_of dst) rn"
  defines "k \<equiv> endpoint_key_of dst" and "n \<equiv> Suc (tally cd (endpoint_key_of dst))"
  shows "cd_pre_proposal (fst (aggregate_one it cd src dst st rn)) =
      (let P = (if n = unat (cd_l cd) then finsert k (cd_pre_proposal cd) else cd_pre_proposal cd)
       in if n = unat (cd_h cd) then P |-| {|k|} else P)"
    and "cd_updates_in_progress (fst (aggregate_one it cd src dst st rn)) =
      cd_updates_in_progress cd + (if n = unat (cd_l cd) then 1 else 0) - (if n = unat (cd_h cd) then 1 else 0)"
    and "cd_proposal (fst (aggregate_one it cd src dst st rn)) =
      (if n = unat (cd_h cd)
       then if cd_updates_in_progress cd + (if n = unat (cd_l cd) then 1 else 0) = 1 then {||}
            else finsert k (cd_proposal cd)
       else cd_proposal cd)"
    and "snd (aggregate_one it cd src dst st rn) =
      (if n = unat (cd_h cd) \<and> cd_updates_in_progress cd + (if n = unat (cd_l cd) then 1 else 0) = 1
       then map (endpoint_obj (file_report cd src dst st rn)) (it (finsert k (cd_proposal cd)))
       else [])"
    and "cd_proposal_count (fst (aggregate_one it cd src dst st rn)) =
      (if n = unat (cd_h cd) \<and> cd_updates_in_progress cd + (if n = unat (cd_l cd) then 1 else 0) = 1
       then cd_proposal_count cd + 1 else cd_proposal_count cd)"
proof -
  have "n \<le> 256"
    using tally_le_256[of "file_report cd src dst st rn" k] fresh by (simp add: file_report_tally n_def k_def)
  note c = report_count_cast[OF this, simplified]
  have cl: "((of_nat n :: u8) = cd_l cd) = (n = unat (cd_l cd))"
    and ch: "((of_nat n :: u8) = cd_h cd) = (n = unat (cd_h cd))"
    using c[OF cut_params_bounds(1)[OF par]] c[OF cut_params_bounds(2)[OF par]] by auto
  have e: "aggregate_one it cd src dst st rn = apply_watermarks it (file_report cd src dst st rn) k (of_nat n)"
    using fresh by (simp add: aggregate_one_eq n_def k_def)
  show "cd_pre_proposal (fst (aggregate_one it cd src dst st rn)) =
      (let P = (if n = unat (cd_l cd) then finsert k (cd_pre_proposal cd) else cd_pre_proposal cd)
       in if n = unat (cd_h cd) then P |-| {|k|} else P)"
    by (simp add: e apply_watermarks_def Let_def cl ch)
  show "cd_updates_in_progress (fst (aggregate_one it cd src dst st rn)) =
      cd_updates_in_progress cd + (if n = unat (cd_l cd) then 1 else 0) - (if n = unat (cd_h cd) then 1 else 0)"
    by (simp add: e apply_watermarks_def Let_def cl ch)
  show "cd_proposal (fst (aggregate_one it cd src dst st rn)) =
      (if n = unat (cd_h cd)
       then if cd_updates_in_progress cd + (if n = unat (cd_l cd) then 1 else 0) = 1 then {||}
            else finsert k (cd_proposal cd)
       else cd_proposal cd)"
    by (simp add: e apply_watermarks_def Let_def cl ch)
  show "snd (aggregate_one it cd src dst st rn) =
      (if n = unat (cd_h cd) \<and> cd_updates_in_progress cd + (if n = unat (cd_l cd) then 1 else 0) = 1
       then map (endpoint_obj (file_report cd src dst st rn)) (it (finsert k (cd_proposal cd)))
       else [])"
    by (simp add: e apply_watermarks_def Let_def cl ch endpoint_obj_def fun_eq_iff)
  show "cd_proposal_count (fst (aggregate_one it cd src dst st rn)) =
      (if n = unat (cd_h cd) \<and> cd_updates_in_progress cd + (if n = unat (cd_l cd) then 1 else 0) = 1
       then cd_proposal_count cd + 1 else cd_proposal_count cd)"
    by (simp add: e apply_watermarks_def Let_def cl ch)
qed

section \<open>The invariant is kept\<close>

lemma in_flux_step:
  assumes "cut_params cd"
  shows "in_flux (fst (aggregate_one it cd src dst st rn)) =
    (let k = endpoint_key_of dst; n = Suc (tally cd k) in
     if reported cd k rn then in_flux cd
     else if n = unat (cd_h cd) then in_flux cd - {k}
     else if n = unat (cd_l cd) then insert k (in_flux cd)
     else in_flux cd)"
  using cut_params_bounds[OF assms]
  by (auto simp: in_flux_def aggregate_one_tally Let_def)

lemma cut_inv_aggregate_one [cut_inv_intros]:
  assumes inv: "cut_inv cd"
  shows "cut_inv (fst (aggregate_one it cd src dst st rn))"
proof -
  let ?cd = "fst (aggregate_one it cd src dst st rn)" and ?k = "endpoint_key_of dst"
  let ?n = "Suc (tally cd ?k)"
  have par: "cut_params cd" and objs: "objs_ok cd"
    and pre: "fset (cd_pre_proposal cd) = in_flux cd"
    and upd: "cd_updates_in_progress cd = int (fcard (cd_pre_proposal cd))"
    and sub: "fset (cd_proposal cd) \<subseteq> stable cd"
    and emp: "cd_pre_proposal cd = {||} \<longrightarrow> cd_proposal cd = {||}"
    using inv by (auto simp: cut_inv_def)
  note b = cut_params_bounds[OF par]
  show ?thesis
  proof (cases "reported cd ?k rn")
    case True
    note d = aggregate_one_dup[OF True, of it src st]
    have "in_flux ?cd = in_flux cd" "stable ?cd = stable cd"
      by (simp_all add: in_flux_def stable_def d)
    then show ?thesis
      using inv d aggregate_one_objs[OF objs] by (simp add: cut_inv_def)
  next
    case False
    note f = aggregate_one_fresh[OF par False, of it src st]
    have kin: "?k |\<in>| cd_pre_proposal cd \<longleftrightarrow> unat (cd_l cd) \<le> tally cd ?k \<and> tally cd ?k < unat (cd_h cd)"
      using pre by (auto simp: in_flux_def)
    have P: "cd_pre_proposal ?cd =
      (if ?n = unat (cd_h cd) then cd_pre_proposal cd |-| {|?k|}
       else if ?n = unat (cd_l cd) then finsert ?k (cd_pre_proposal cd) else cd_pre_proposal cd)"
      using f(1) b kin by (auto simp: Let_def)
    have "fset (cd_pre_proposal ?cd) = in_flux ?cd"
      using P pre False by (simp add: in_flux_step[OF par] Let_def)
    moreover have U: "cd_updates_in_progress ?cd = int (fcard (cd_pre_proposal ?cd))"
      using f(2) P upd kin b fcard_Suc_fminus1[of ?k "cd_pre_proposal cd"]
      by (auto simp: fcard_finsert_if)
    moreover have "stable cd \<subseteq> stable ?cd" by (auto simp: stable_def aggregate_one_tally)
    moreover have "fset (cd_proposal ?cd) \<subseteq> stable ?cd"
      using f(3) sub \<open>stable cd \<subseteq> stable ?cd\<close> False
      by (auto simp: stable_def aggregate_one_tally split: if_splits)
    moreover have "cd_proposal ?cd = {||}" if e: "cd_pre_proposal ?cd = {||}"
    proof (cases "?n = unat (cd_h cd)")
      case True
      moreover have "cd_updates_in_progress ?cd = 0" using U e by simp
      ultimately show ?thesis using f(2,3) by simp
    next
      case n: False
      with P e have "cd_pre_proposal cd = {||}" by (auto split: if_splits)
      then show ?thesis using emp f(3) n by simp
    qed
    ultimately show ?thesis
      using par aggregate_one_objs[OF objs] by (simp add: cut_inv_def)
  qed
qed

section \<open>Emission\<close>

lemma endpoint_obj_key:
  assumes "objs_ok cd" "0 < tally cd k"
  shows "endpoint_key_of (endpoint_obj cd k) = k"
proof -
  have "k |\<in>| fmdom (cd_reports_per_host cd)"
    using assms(2) by (auto simp: tally_def reports_of_def fm_get_or_def fmdomI split: option.splits)
  then have "k |\<in>| fmdom (cd_endpoint_objs cd)" using assms(1) by (auto simp: objs_ok_def)
  then obtain e where "fmlookup (cd_endpoint_objs cd) k = Some e" by (metis fmlookup_dom_iff)
  then show ?thesis using objs_okD[OF assms(1)] by (simp add: endpoint_obj_def)
qed

lemma cut_invD:
  assumes "cut_inv cd"
  shows "cut_params cd" "objs_ok cd" "fset (cd_pre_proposal cd) = in_flux cd"
    "cd_updates_in_progress cd = int (fcard (cd_pre_proposal cd))"
    "fset (cd_proposal cd) \<subseteq> stable cd" "in_flux cd = {} \<Longrightarrow> cd_proposal cd = {||}"
  using assms by (auto simp: cut_inv_def simp flip: bot_fset.rep_eq fset_inject)

lemma emits_iff:
  assumes inv: "cut_inv cd" and fresh: "\<not> reported cd (endpoint_key_of dst) rn"
    and h: "Suc (tally cd (endpoint_key_of dst)) = unat (cd_h cd)"
  shows "cd_updates_in_progress cd + (if unat (cd_h cd) = unat (cd_l cd) then 1 else 0) = 1
    \<longleftrightarrow> in_flux cd \<subseteq> {endpoint_key_of dst}"
proof -
  let ?k = "endpoint_key_of dst"
  note i = cut_invD[OF inv] and b = cut_params_bounds[OF cut_invD(1)[OF inv]]
  have fin: "finite (in_flux cd)" using i(3) by (metis finite_fset)
  have u: "cd_updates_in_progress cd = int (card (in_flux cd))" using i(3,4) by (simp add: fcard.rep_eq)
  show ?thesis
  proof (cases "unat (cd_h cd) = unat (cd_l cd)")
    case True
    then have "in_flux cd = {}" by (auto simp: in_flux_def)
    then show ?thesis using True u by simp
  next
    case False
    then have "?k \<in> in_flux cd" using h b by (auto simp: in_flux_def)
    then have "in_flux cd \<subseteq> {?k} \<longleftrightarrow> card (in_flux cd) = 1"
      using fin by (auto simp: card_1_singleton_iff)
    then show ?thesis using False u by simp
  qed
qed

lemma aggregate_one_keys:
  assumes inv: "cut_inv cd" and it: "iter_order it"
  shows "map endpoint_key_of (snd (aggregate_one it cd src dst st rn)) =
      (if \<not> reported cd (endpoint_key_of dst) rn \<and> Suc (tally cd (endpoint_key_of dst)) = unat (cd_h cd) \<and>
          in_flux cd \<subseteq> {endpoint_key_of dst}
       then it (finsert (endpoint_key_of dst) (cd_proposal cd)) else [])"
proof (cases "reported cd (endpoint_key_of dst) rn")
  case True
  then show ?thesis using aggregate_one_dup(1)[of cd dst rn] by simp
next
  case False
  note i = cut_invD[OF inv]
  let ?cd = "file_report cd src dst st rn" and ?k = "endpoint_key_of dst"
  have ks: "endpoint_key_of (endpoint_obj ?cd j) = j" if "j \<in> insert ?k (fset (cd_proposal cd))" for j
  proof (rule endpoint_obj_key)
    show "objs_ok ?cd" by (rule file_report_objs[OF i(2)])
    have "0 < tally cd j" if "j \<in> fset (cd_proposal cd)"
      using that i(5) cut_params_bounds[OF i(1)] by (auto simp: stable_def)
    then show "0 < tally ?cd j" using that False by (auto simp: file_report_tally)
  qed
  then have "map endpoint_key_of (map (endpoint_obj ?cd) (it (finsert ?k (cd_proposal cd)))) = it (finsert ?k (cd_proposal cd))"
    using iter_orderD(2)[OF it, of "finsert ?k (cd_proposal cd)"] by (auto intro: map_idI)
  then show ?thesis
    using aggregate_one_fresh(4)[OF i(1) False, of it src st] emits_iff[OF inv False] False by auto
qed

lemma aggregate_one_out:
  fixes dst :: endpoint
  assumes inv: "cut_inv cd" and it: "iter_order it"
  defines "k \<equiv> endpoint_key_of dst"
  shows "endpoint_key_of ` set (snd (aggregate_one it cd src dst st rn)) =
      (if \<not> reported cd k rn \<and> Suc (tally cd k) = unat (cd_h cd) \<and> in_flux cd \<subseteq> {k}
       then insert k (fset (cd_proposal cd)) else {})"
    and "distinct (map endpoint_key_of (snd (aggregate_one it cd src dst st rn)))"
    and "cd_proposal (fst (aggregate_one it cd src dst st rn)) =
      (if \<not> reported cd k rn \<and> Suc (tally cd k) = unat (cd_h cd)
       then if in_flux cd \<subseteq> {k} then {||} else finsert k (cd_proposal cd)
       else cd_proposal cd)"
proof -
  note out = aggregate_one_keys[OF inv it, of src dst st rn, folded k_def]
  show "distinct (map endpoint_key_of (snd (aggregate_one it cd src dst st rn)))"
    unfolding out using iter_orderD(1)[OF it] by auto
  have "endpoint_key_of ` set (snd (aggregate_one it cd src dst st rn))
    = set (map endpoint_key_of (snd (aggregate_one it cd src dst st rn)))" by simp
  then show "endpoint_key_of ` set (snd (aggregate_one it cd src dst st rn)) =
      (if \<not> reported cd k rn \<and> Suc (tally cd k) = unat (cd_h cd) \<and> in_flux cd \<subseteq> {k}
       then insert k (fset (cd_proposal cd)) else {})"
    unfolding out using iter_orderD(2)[OF it] by auto
  show "cd_proposal (fst (aggregate_one it cd src dst st rn)) =
      (if \<not> reported cd k rn \<and> Suc (tally cd k) = unat (cd_h cd)
       then if in_flux cd \<subseteq> {k} then {||} else finsert k (cd_proposal cd)
       else cd_proposal cd)"
    using aggregate_one_dup(3)[of cd dst rn it src st] aggregate_one_fresh(3)[OF cut_invD(1)[OF inv], of dst rn it src st]
      emits_iff[OF inv, of dst rn]
    by (cases "reported cd k rn"; cases "Suc (tally cd k) = unat (cd_h cd)") (simp_all add: k_def)
qed

section \<open>Histories of reports\<close>

text \<open>
  A report is (source, subject, status, ring). Every call of the detector between two
  \<^verbatim>\<open>clear\<close>s feeds it a list of reports; \<open>emitted\<close> relates what came out to the state.
\<close>

type_synonym report = "endpoint \<times> endpoint \<times> edge_status \<times> u8"

fun feed :: "hash_order \<Rightarrow> cut_detector \<Rightarrow> report list \<Rightarrow> cut_detector \<times> endpoint list" where
  "feed it cd [] = (cd, [])"
| "feed it cd ((src, dst, st, rn) # rs) =
     (let (cd, out) = aggregate_one it cd src dst st rn; (cd, out') = feed it cd rs in (cd, out @ out'))"

definition emitted :: "cut_detector \<Rightarrow> endpoint list \<Rightarrow> bool" where
  "emitted cd outs \<longleftrightarrow> distinct outs \<and>
     endpoint_key_of ` set outs \<inter> fset (cd_proposal cd) = {} \<and>
     endpoint_key_of ` set outs \<union> fset (cd_proposal cd) = stable cd"

definition rings_reporting :: "report list \<Rightarrow> endpoint_key \<Rightarrow> u8 set" where
  "rings_reporting rs k = {rn. \<exists>src dst st. (src, dst, st, rn) \<in> set rs \<and> endpoint_key_of dst = k}"

lemma feed_append:
  "feed it cd (rs @ rs') =
     (let (cd, out) = feed it cd rs; (cd, out') = feed it cd rs' in (cd, out @ out'))"
  by (induction rs arbitrary: cd) (auto simp: Let_def split: prod.split)

lemma emitted_step:
  assumes inv: "cut_inv cd" and it: "iter_order it" and em: "emitted cd outs"
  shows "emitted (fst (aggregate_one it cd src dst st rn))
    (outs @ snd (aggregate_one it cd src dst st rn))"
proof -
  let ?k = "endpoint_key_of dst"
  let ?cd = "fst (aggregate_one it cd src dst st rn)" and ?o = "snd (aggregate_one it cd src dst st rn)"
  note a = aggregate_one_out[OF inv it, where src = src and dst = dst and st = st and rn = rn]
  have st': "stable ?cd = (if \<not> reported cd ?k rn \<and> Suc (tally cd ?k) = unat (cd_h cd)
    then insert ?k (stable cd) else stable cd)"
    by (auto simp: stable_def aggregate_one_tally)
  have new: "?k \<notin> stable cd" if "Suc (tally cd ?k) = unat (cd_h cd)" using that by (simp add: stable_def)
  have "endpoint_key_of ` set outs \<inter> endpoint_key_of ` set ?o = {}"
    using em new a(1) by (auto simp: emitted_def split: if_splits)
  then have "set outs \<inter> set ?o = {}" by auto
  moreover have "distinct ?o" using a(2) by (simp add: distinct_map)
  moreover have "endpoint_key_of ` (set outs \<union> set ?o) \<inter> fset (cd_proposal ?cd) = {}"
    using em new a(1,3) by (auto simp: emitted_def split: if_splits)
  moreover have "endpoint_key_of ` (set outs \<union> set ?o) \<union> fset (cd_proposal ?cd) = stable ?cd"
    using em a(1,3) st' by (auto simp: emitted_def image_Un split: if_splits)
  ultimately show ?thesis using em by (simp add: emitted_def)
qed

lemma feed_Cons:
  "fst (feed it cd ((src, dst, st, rn) # rs)) = fst (feed it (fst (aggregate_one it cd src dst st rn)) rs)"
  "snd (feed it cd ((src, dst, st, rn) # rs)) =
     snd (aggregate_one it cd src dst st rn) @ snd (feed it (fst (aggregate_one it cd src dst st rn)) rs)"
  by (simp_all add: Let_def split: prod.split)

lemma feed_inv [cut_inv_intros]: "cut_inv cd \<Longrightarrow> cut_inv (fst (feed it cd rs))"
proof (induction rs arbitrary: cd)
  case (Cons r rs)
  obtain src dst st rn where r: "r = (src, dst, st, rn)" by (cases r) auto
  show ?case unfolding r feed_Cons by (intro Cons.IH cut_inv_aggregate_one Cons.prems)
qed simp

lemma feed_frame:
  "cd_k (fst (feed it cd rs)) = cd_k cd" "cd_h (fst (feed it cd rs)) = cd_h cd"
  "cd_l (fst (feed it cd rs)) = cd_l cd"
  by (induction rs arbitrary: cd) (auto simp: feed_Cons simp del: feed.simps(2))

lemma feed_emitted:
  assumes "cut_inv cd" "iter_order it" "emitted cd outs"
  shows "emitted (fst (feed it cd rs)) (outs @ snd (feed it cd rs))"
  using assms
proof (induction rs arbitrary: cd outs)
  case (Cons r rs)
  obtain src dst st rn where r: "r = (src, dst, st, rn)" by (cases r) auto
  show ?case
    unfolding r feed_Cons append_assoc[symmetric]
    by (intro Cons.IH cut_inv_aggregate_one emitted_step Cons.prems)
qed simp

text \<open>The rings that have reported a subject are the ones in the list, and the count is theirs.\<close>

lemma rings_reporting_simps [simp]:
  "rings_reporting [] k = {}"
  "rings_reporting ((src, dst, st, rn) # rs) k =
     (if endpoint_key_of dst = k then insert rn (rings_reporting rs k) else rings_reporting rs k)"
  by (auto simp: rings_reporting_def)

lemma feed_reported:
  "reported (fst (feed it cd rs)) k rn \<longleftrightarrow> rn \<in> rings_reporting rs k \<or> reported cd k rn"
  by (induction rs arbitrary: cd)
    (auto simp: feed_Cons aggregate_one_reported simp del: feed.simps(2) split: if_splits)

lemma tally_card: "tally cd k = card {rn. reported cd k rn}"
proof -
  have "{rn. reported cd k rn} = fset (fmdom (reports_of cd k))"
    by (auto simp: reported_def fmlookup_dom_iff)
  then show ?thesis by (simp add: tally_def fm_len_def fcard.rep_eq)
qed

lemma cut_new_fresh:
  assumes "cut_new k h l = Inr cd"
  shows "cut_inv cd" "emitted cd []" "\<not> reported cd j rn" "cd_k cd = k" "cd_h cd = h" "cd_l cd = l"
proof -
  have cd: "cd = \<lparr>cd_k = k, cd_h = h, cd_l = l, cd_proposal_count = 0, cd_updates_in_progress = 0,
        cd_reports_per_host = fmempty, cd_proposal = {||}, cd_pre_proposal = {||},
        cd_seen_link_down_events = False, cd_endpoint_objs = fmempty\<rparr>"
    and p: "cut_params cd"
    using assms by (auto simp: cut_new_def cut_params_def word_neq_0_conv not_less split: if_splits)
  have t: "tally cd j = 0" for j by (simp add: cd tally_def reports_of_def fm_get_or_def)
  have "in_flux cd = {}" "stable cd = {}"
    using cut_params_bounds[OF p] t by (auto simp: in_flux_def stable_def)
  then show "cut_inv cd" "emitted cd []"
    using p unfolding cut_inv_def emitted_def by (auto simp: cd objs_ok_def)
  show "\<not> reported cd j rn" by (simp add: cd reported_def reports_of_def fm_get_or_def)
  show "cd_k cd = k" "cd_h cd = h" "cd_l cd = l" by (simp_all add: cd)
qed

section \<open>The calls are lists of reports\<close>

definition alert_reports :: "alert_message \<Rightarrow> report list" where
  "alert_reports msg = (case (al_edge_src msg, al_edge_dst msg) of
       (Some src, Some dst) \<Rightarrow>
         map (\<lambda>rn. (src, dst, edge_status_or_up (al_edge_status msg), ucast rn)) (al_ring_number msg)
     | _ \<Rightarrow> [])"

lemma aggregate_rings_feed:
  "aggregate_rings it src dst st cd rns = feed it cd (map (\<lambda>rn. (src, dst, st, ucast rn)) rns)"
  by (induction rns arbitrary: cd) auto

lemma aggregate_feed: "aggregate it cd msg = feed it cd (alert_reports msg)"
  by (simp add: aggregate_def alert_reports_def aggregate_rings_feed split: option.split)

lemma get_observers_of_repeat:
  "snd (get_observers_of x (fst (get_observers_of x v e)) f) = snd (get_observers_of x v f)"
proof -
  have c: "compute_observers_of x (fst (get_observers_of x v e)) f = compute_observers_of x v f"
    by (simp add: compute_observers_of_def)
  show ?thesis
  proof (cases "f = e")
    case True
    then show ?thesis by (auto simp: get_observers_of_def Let_def is_host_present_def split: option.split)
  next
    case False
    then have "fmlookup (mv_cached_observers (fst (get_observers_of x v e))) (endpoint_key_of f)
      = fmlookup (mv_cached_observers v) (endpoint_key_of f)"
      by (auto simp: get_observers_of_def Let_def split: option.split)
    then show ?thesis
      by (auto simp: get_observers_of_def[of x _ f] Let_def c split: option.split)
  qed
qed

definition flux_observers :: "xxh64_fn \<Rightarrow> membership_view \<Rightarrow> endpoint \<Rightarrow> endpoint list" where
  "flux_observers x view node =
     (if is_host_present view node
      then (case snd (get_observers_of x view node) of Inl _ \<Rightarrow> [] | Inr observers \<Rightarrow> observers)
      else get_expected_observers_of x view node)"

text \<open>An implicit report of \<open>invalidate_failing_edges\<close> on \<open>view\<close>: an observer of a node in flux,
  on the ring on which it observes.\<close>

definition implicit_report :: "xxh64_fn \<Rightarrow> membership_view \<Rightarrow> endpoint list \<Rightarrow> report \<Rightarrow> bool" where
  "implicit_report x view nodes r = (case r of (src, dst, st, rn) \<Rightarrow>
     dst \<in> set nodes \<and> st = (if is_host_present view dst then Down else Up) \<and>
     list_ex (\<lambda>i. src = flux_observers x view dst ! i \<and> rn = of_nat i)
       [0..<length (flux_observers x view dst)])"

lemma invalidate_observers_feed:
  "\<exists>rs. invalidate_observers it node st n obs cd = feed it cd rs \<and>
     (\<forall>r \<in> set rs. \<exists>i < length obs. r = (obs ! i, node, st, of_nat (n + i)))"
proof (induction obs arbitrary: n cd)
  case Nil
  then show ?case by (intro exI[of _ "[]"]) simp
next
  case (Cons ob obs)
  let ?hit = "endpoint_key_of ob |\<in>| cd_proposal cd \<or> endpoint_key_of ob |\<in>| cd_pre_proposal cd"
  let ?cd = "if ?hit then fst (aggregate_one it cd ob node st (of_nat n)) else cd"
  obtain rs where rs: "invalidate_observers it node st (Suc n) obs ?cd = feed it ?cd rs"
    "\<forall>r \<in> set rs. \<exists>i < length obs. r = (obs ! i, node, st, of_nat (Suc n + i))"
    using Cons.IH by blast
  have "\<forall>r \<in> set rs. \<exists>i < length (ob # obs). r = ((ob # obs) ! i, node, st, of_nat (n + i))"
    using rs(2) by (metis Suc_less_eq add_Suc add_Suc_right length_Cons nth_Cons_Suc)
  moreover have "\<exists>i < length (ob # obs). (ob, node, st, of_nat n) = ((ob # obs) ! i, node, st, of_nat (n + i))"
    by (intro exI[of _ 0]) simp
  ultimately show ?case
    using rs(1) by (intro exI[of _ "if ?hit then (ob, node, st, of_nat n) # rs else rs"])
      (auto split: prod.split)
qed

lemma flux_observers_frame [simp]:
  "flux_observers x (fst (get_observers_of x v e)) f = flux_observers x v f"
  by (simp add: flux_observers_def get_observers_of_repeat get_expected_observers_of_def predecessors_of_def)

lemma implicit_report_mono:
  "implicit_report x v nodes r \<Longrightarrow> set nodes \<subseteq> set nodes' \<Longrightarrow> implicit_report x v nodes' r"
  by (auto simp: implicit_report_def)

lemma implicit_report_frame [simp]:
  "implicit_report x (fst (get_observers_of x v e)) nodes r = implicit_report x v nodes r"
  by (simp add: implicit_report_def split: prod.split)

lemma invalidate_nodes_Cons:
  "invalidate_nodes x it (node # nodes) cd view =
     (let view' = (if is_host_present view node then fst (get_observers_of x view node) else view);
          st = (if is_host_present view node then Down else Up);
          r = invalidate_observers it node st 0 (flux_observers x view node) cd;
          r' = invalidate_nodes x it nodes (fst r) view'
      in (fst r', fst (snd r'), snd r @ snd (snd r')))"
  by (simp add: flux_observers_def Let_def split_beta)

lemma invalidate_nodes_feed:
  "\<exists>rs. (fst (invalidate_nodes x it nodes cd view), snd (snd (invalidate_nodes x it nodes cd view)))
       = feed it cd rs \<and> list_all (implicit_report x view nodes) rs"
proof (induction nodes arbitrary: cd view)
  case Nil
  then show ?case by (intro exI[of _ "[]"]) simp
next
  case (Cons node nodes)
  let ?st = "if is_host_present view node then Down else Up"
  let ?view = "if is_host_present view node then fst (get_observers_of x view node) else view"
  let ?r = "invalidate_observers it node ?st 0 (flux_observers x view node) cd"
  obtain rs where rs: "?r = feed it cd rs"
    "\<forall>r \<in> set rs. \<exists>i < length (flux_observers x view node).
       r = (flux_observers x view node ! i, node, ?st, of_nat (0 + i))"
    using invalidate_observers_feed by blast
  obtain rs' where rs': "(fst (invalidate_nodes x it nodes (fst ?r) ?view),
      snd (snd (invalidate_nodes x it nodes (fst ?r) ?view))) = feed it (fst ?r) rs'"
    "list_all (implicit_report x ?view nodes) rs'"
    using Cons.IH by blast
  have "list_all (implicit_report x view (node # nodes)) rs"
    using rs(2) by (fastforce simp: list_all_iff list_ex_iff implicit_report_def)
  moreover have "list_all (implicit_report x view (node # nodes)) rs'"
  proof -
    have "list_all (implicit_report x view nodes) rs'"
      using rs'(2) by (simp add: list_all_iff split: if_splits)
    then show ?thesis by (metis (no_types) list_all_iff implicit_report_mono set_subset_Cons)
  qed
  moreover have "(fst (invalidate_nodes x it (node # nodes) cd view),
      snd (snd (invalidate_nodes x it (node # nodes) cd view))) = feed it cd (rs @ rs')"
    unfolding invalidate_nodes_Cons feed_append rs(1)[symmetric] Let_def split_beta
      rs'(1)[symmetric] by (simp only: fst_conv snd_conv)
  ultimately show ?case by (intro exI[of _ "rs @ rs'"]) simp
qed

lemma invalidate_nodes_view:
  assumes "\<And>v e. P v \<Longrightarrow> P (fst (get_observers_of x v e))"
  shows "P view \<Longrightarrow> P (fst (snd (invalidate_nodes x it nodes cd view)))"
proof (induction nodes arbitrary: cd view)
  case (Cons node nodes)
  then show ?case unfolding invalidate_nodes_Cons by (simp add: Let_def assms)
qed simp

lemma invalidate_view:
  assumes "\<And>v e. P v \<Longrightarrow> P (fst (get_observers_of x v e))" and "P view"
  shows "P (fst (snd (invalidate_failing_edges x it cd view)))"
  using assms invalidate_nodes_view[of P x view it _ cd]
  by (simp add: invalidate_failing_edges_def Let_def)

lemma invalidate_view_frame [simp]:
  "members (fst (snd (invalidate_failing_edges x it cd view))) = members view"
  "view_inv x view \<Longrightarrow> view_inv x (fst (snd (invalidate_failing_edges x it cd view)))"
  "view_wf x view \<Longrightarrow> view_wf x (fst (snd (invalidate_failing_edges x it cd view)))"
  using invalidate_view[of "\<lambda>v. members v = members view" x view it cd]
    invalidate_view[of "view_inv x" x view it cd] invalidate_view[of "view_wf x" x view it cd]
  by (auto intro: get_observers_of_inv get_observers_of_wf)

lemma invalidate_feed:
  "\<exists>rs. (fst (invalidate_failing_edges x it cd view), snd (snd (invalidate_failing_edges x it cd view)))
       = feed it cd rs \<and>
     list_all (implicit_report x view (map (endpoint_obj cd) (it (cd_pre_proposal cd)))) rs"
proof (cases "cd_seen_link_down_events cd")
  case True
  then show ?thesis
    using invalidate_nodes_feed[of x it "map (endpoint_obj cd) (it (cd_pre_proposal cd))" cd view]
    by (simp add: invalidate_failing_edges_def Let_def)
next
  case False
  then show ?thesis by (intro exI[of _ "[]"]) (simp add: invalidate_failing_edges_def)
qed

section \<open>The detector as an event machine\<close>

datatype cut_event = AlertEvent alert_message | InvalidateEvent | ClearEvent

fun cut_step ::
  "xxh64_fn \<Rightarrow> hash_order \<Rightarrow> cut_detector \<times> membership_view \<Rightarrow> cut_event \<Rightarrow> cut_detector \<times> membership_view" where
  "cut_step x it (cd, view) (AlertEvent msg) = (fst (aggregate it cd msg), view)"
| "cut_step x it (cd, view) InvalidateEvent =
     (fst (invalidate_failing_edges x it cd view), fst (snd (invalidate_failing_edges x it cd view)))"
| "cut_step x it (cd, view) ClearEvent = (cut_clear cd, view)"

lemma cut_clear_inv [cut_inv_intros]:
  assumes "cut_inv cd"
  shows "cut_inv (cut_clear cd)"
proof -
  have p: "cut_params (cut_clear cd)" using assms by (simp add: cut_inv_def cut_params_def cut_clear_def)
  moreover have "in_flux (cut_clear cd) = {}"
    using cut_params_bounds[OF p]
    by (simp add: in_flux_def tally_def reports_of_def fm_get_or_def cut_clear_def)
  ultimately show ?thesis by (simp add: cut_inv_def) (simp add: cut_clear_def objs_ok_def)
qed

lemma aggregate_inv [cut_inv_intros]: "cut_inv cd \<Longrightarrow> cut_inv (fst (aggregate it cd msg))"
  by (simp add: aggregate_feed feed_inv)

lemma invalidate_inv [cut_inv_intros]:
  assumes "cut_inv cd"
  shows "cut_inv (fst (invalidate_failing_edges x it cd view))"
proof -
  obtain rs where "(fst (invalidate_failing_edges x it cd view),
      snd (snd (invalidate_failing_edges x it cd view))) = feed it cd rs"
    using invalidate_feed by blast
  then show ?thesis using feed_inv[OF assms, of it rs] by (metis fst_conv)
qed

interpretation cm: event_machine "cut_step x it" "\<lambda>s. cut_inv (fst s)" "\<lambda>_. True" for x it
proof
  fix s :: "cut_detector \<times> membership_view" and ev assume "cut_inv (fst s)"
  then show "cut_inv (fst (cut_step x it s ev))"
    by (cases s; cases ev) (auto intro: cut_inv_intros)
qed

section \<open>Properties\<close>

fun aggregate_all :: "hash_order \<Rightarrow> cut_detector \<Rightarrow> alert_message list \<Rightarrow> cut_detector \<times> endpoint list" where
  "aggregate_all it cd [] = (cd, [])"
| "aggregate_all it cd (msg # msgs) =
     (let (cd, out) = aggregate it cd msg; (cd, out') = aggregate_all it cd msgs in (cd, out @ out'))"

definition all_reports :: "alert_message list \<Rightarrow> report list" where
  "all_reports msgs = concat (map alert_reports msgs)"

lemma aggregate_all_feed: "aggregate_all it cd msgs = feed it cd (all_reports msgs)"
  by (induction msgs arbitrary: cd)
    (auto simp: all_reports_def aggregate_feed feed_append Let_def split: prod.split)

definition demo_alert :: "nat \<Rightarrow> nat \<Rightarrow> edge_status \<Rightarrow> i32 list \<Rightarrow> alert_message" where
  "demo_alert src dst st rings = \<lparr>al_edge_src = Some (demo_ep src), al_edge_dst = Some (demo_ep dst),
     al_edge_status = edge_status_num st, al_configuration_id = 0, al_ring_number = rings,
     al_node_id = None, al_metadata = None\<rparr>"

definition demo_cut :: cut_detector where
  "demo_cut = (case cut_new 3 2 1 of Inr cd \<Rightarrow> cd)"

lemma demo_cut_new: "cut_new 3 2 1 = Inr demo_cut"
  unfolding demo_cut_def by (simp add: cut_new_def K_MIN_def)

text \<open>
  The watermarks \<^verbatim>\<open>new\<close> accepts: exactly those with \<open>3 \<le> K\<close> and \<open>1 \<le> L \<le> H \<le> K\<close>; every
  other choice is an internal error.
\<close>

theorem cut_new_accepts:
  "cut_new k h l = (if 3 \<le> unat k \<and> 1 \<le> unat l \<and> unat l \<le> unat h \<and> unat h \<le> unat k
     then Inr \<lparr>cd_k = k, cd_h = h, cd_l = l, cd_proposal_count = 0, cd_updates_in_progress = 0,
        cd_reports_per_host = fmempty, cd_proposal = {||}, cd_pre_proposal = {||},
        cd_seen_link_down_events = False, cd_endpoint_objs = fmempty\<rparr>
     else Inl Internal)"
proof -
  have "(1 \<le> unat l) = (l \<noteq> 0)" by (metis less_one not_le unat_eq_zero)
  moreover have "h \<noteq> 0" if "l \<le> h" "l \<noteq> 0" using that by auto
  ultimately show ?thesis
    unfolding cut_new_def K_MIN_def by (auto simp: word_le_nat_alt word_less_nat_alt)
qed

text \<open>
  C37. The emission rule of one report. Under the invariant, a report makes the detector emit if
  and only if it is the first from its ring, it brings its subject to exactly H reports, and no
  other subject is in flux; it then emits, once each, the subject together with all stable
  subjects that were held back, and nothing is pending afterwards.
\<close>

theorem emission_rule:
  assumes "cut_inv cd" and "iter_order it"
  shows "let k = endpoint_key_of dst; (cd', out) = aggregate_one it cd src dst st rn in
    (out \<noteq> []) = (\<not> reported cd k rn \<and> Suc (tally cd k) = unat (cd_h cd) \<and> in_flux cd \<subseteq> {k}) \<and>
    distinct out \<and>
    endpoint_key_of ` set out = (if out = [] then {} else insert k (fset (cd_proposal cd))) \<and>
    (out = [] \<or> cd_proposal cd' = {||} \<and> cd_pre_proposal cd' = {||})"
proof -
  let ?k = "endpoint_key_of dst"
  obtain cd' out where r: "aggregate_one it cd src dst st rn = (cd', out)" by (cases "aggregate_one it cd src dst st rn")
  note a = aggregate_one_out[OF assms, where src = src and dst = dst and st = st and rn = rn,
      unfolded r fst_conv snd_conv]
  let ?e = "\<not> reported cd ?k rn \<and> Suc (tally cd ?k) = unat (cd_h cd) \<and> in_flux cd \<subseteq> {?k}"
  have out: "out \<noteq> [] \<longleftrightarrow> ?e" using a(1) by (auto split: if_splits)
  have "cd_pre_proposal cd' = {||}" if e: ?e
  proof -
    have "cut_inv cd'" using cut_inv_aggregate_one[OF assms(1), of it src dst st rn] r by simp
    then have "fset (cd_pre_proposal cd') = in_flux cd'" by (rule cut_invD(3))
    also have "\<dots> = {}"
      using in_flux_step[OF cut_invD(1)[OF assms(1)], of it src dst st rn] r e by (auto simp: Let_def)
    finally show ?thesis by (simp flip: bot_fset.rep_eq add: fset_inject)
  qed
  moreover have "distinct out" using a(2) by (simp add: distinct_map)
  ultimately show ?thesis using out a(1,3) by (auto simp: r Let_def)
qed

lemma tally_feed_new:
  assumes "cut_new k h l = Inr cd"
  shows "tally (fst (feed it cd rs)) s = card (rings_reporting rs s)"
  using cut_new_fresh(3)[OF assms] by (simp add: tally_card feed_reported)

lemma feed_new_exact:
  assumes "cut_new k h l = Inr cd" "iter_order it"
  shows "fset (cd_pre_proposal (fst (feed it cd rs))) =
      {s. unat l \<le> card (rings_reporting rs s) \<and> card (rings_reporting rs s) < unat h}"
    and "distinct (snd (feed it cd rs))"
    and "endpoint_key_of ` set (snd (feed it cd rs)) \<inter> fset (cd_proposal (fst (feed it cd rs))) = {}"
    and "endpoint_key_of ` set (snd (feed it cd rs)) \<union> fset (cd_proposal (fst (feed it cd rs))) =
      {s. unat h \<le> card (rings_reporting rs s)}"
    and "cd_pre_proposal (fst (feed it cd rs)) = {||} \<Longrightarrow> cd_proposal (fst (feed it cd rs)) = {||}"
proof -
  note n = cut_new_fresh[OF assms(1)]
  have inv: "cut_inv (fst (feed it cd rs))" by (rule feed_inv[OF n(1)])
  have em: "emitted (fst (feed it cd rs)) (snd (feed it cd rs))"
    using feed_emitted[OF n(1) assms(2) n(2), of rs] by simp
  show "fset (cd_pre_proposal (fst (feed it cd rs))) =
      {s. unat l \<le> card (rings_reporting rs s) \<and> card (rings_reporting rs s) < unat h}"
    using cut_invD(3)[OF inv] n by (simp add: in_flux_def feed_frame tally_feed_new[OF assms(1)])
  show "distinct (snd (feed it cd rs))"
    and "endpoint_key_of ` set (snd (feed it cd rs)) \<inter> fset (cd_proposal (fst (feed it cd rs))) = {}"
    using em by (simp_all add: emitted_def)
  show "endpoint_key_of ` set (snd (feed it cd rs)) \<union> fset (cd_proposal (fst (feed it cd rs))) =
      {s. unat h \<le> card (rings_reporting rs s)}"
    using em n by (simp add: emitted_def stable_def feed_frame tally_feed_new[OF assms(1)])
  show "cd_proposal (fst (feed it cd rs)) = {||}" if "cd_pre_proposal (fst (feed it cd rs)) = {||}"
    using inv that by (simp add: cut_inv_def)
qed

text \<open>
  C7. The incremental detector computes its specification. After any sequence of alerts, let
  \<open>R s\<close> be the set of rings that reported subject \<open>s\<close>: the subjects in flux are those with
  between L and H - 1 rings, and the subjects emitted so far, each exactly once, together with
  those still held back are exactly the ones with at least H rings.
\<close>

theorem cut_reports_exact:
  assumes "cut_new k h l = Inr cd0" and "iter_order it" and "aggregate_all it cd0 msgs = (cd, outs)"
  shows "fset (cd_pre_proposal cd) = {s. unat l \<le> card (rings_reporting (all_reports msgs) s) \<and>
      card (rings_reporting (all_reports msgs) s) < unat h} \<and>
    distinct outs \<and> endpoint_key_of ` set outs \<inter> fset (cd_proposal cd) = {} \<and>
    endpoint_key_of ` set outs \<union> fset (cd_proposal cd) =
      {s. unat h \<le> card (rings_reporting (all_reports msgs) s)}"
  using feed_new_exact[OF assms(1,2), of "all_reports msgs"] assms(3)
  by (simp add: aggregate_all_feed)

definition demo_alerts :: "alert_message list" where
  "demo_alerts = [demo_alert 1 4 Up [0, 1], demo_alert 1 4 Up [1], demo_alert 2 5 Down [2]]"

lemma demo_aggregate: "aggregate_all sorted_iter demo_cut demo_alerts =
  (fst (aggregate_all sorted_iter demo_cut demo_alerts), [demo_ep 4])"
proof -
  have "snd (aggregate_all sorted_iter demo_cut demo_alerts) = [demo_ep 4]" by code_simp
  then show ?thesis by (metis prod.collapse)
qed

theorem cut_reports_exact_witness:
  "fset (cd_pre_proposal (fst (aggregate_all sorted_iter demo_cut demo_alerts))) =
      {s. unat (1 :: u8) \<le> card (rings_reporting (all_reports demo_alerts) s) \<and>
        card (rings_reporting (all_reports demo_alerts) s) < unat (2 :: u8)} \<and>
    distinct [demo_ep 4] \<and>
    endpoint_key_of ` set [demo_ep 4] \<inter>
      fset (cd_proposal (fst (aggregate_all sorted_iter demo_cut demo_alerts))) = {} \<and>
    endpoint_key_of ` set [demo_ep 4] \<union>
      fset (cd_proposal (fst (aggregate_all sorted_iter demo_cut demo_alerts))) =
      {s. unat (2 :: u8) \<le> card (rings_reporting (all_reports demo_alerts) s)}"
  by (rule cut_reports_exact[OF demo_cut_new sorted_iter_order demo_aggregate])

text \<open>
  C17. Almost-everywhere agreement, the deterministic part. Two nodes that receive the same set of
  reports, in any order, with any duplication and with any hash iteration order, have the same
  subjects in flux; and once no subject is in flux they have emitted exactly the same subjects.
\<close>

theorem cut_order_independent:
  assumes "cut_new k h l = Inr cd0" and "iter_order it" and "iter_order it'"
    and "set (all_reports msgs) = set (all_reports msgs')"
    and "aggregate_all it cd0 msgs = (cd, outs)" and "aggregate_all it' cd0 msgs' = (cd', outs')"
  shows "cd_pre_proposal cd = cd_pre_proposal cd' \<and> (cd_pre_proposal cd = {||} \<longrightarrow> set outs = set outs')"
proof -
  have R: "rings_reporting (all_reports msgs) = rings_reporting (all_reports msgs')"
    using assms(4) by (auto simp: rings_reporting_def)
  note a = feed_new_exact[OF assms(1,2), of "all_reports msgs"]
    and b = feed_new_exact[OF assms(1,3), of "all_reports msgs'"]
  have cd: "feed it cd0 (all_reports msgs) = (cd, outs)" "feed it' cd0 (all_reports msgs') = (cd', outs')"
    using assms(5,6) by (simp_all add: aggregate_all_feed)
  have pre: "cd_pre_proposal cd = cd_pre_proposal cd'" using a(1) b(1) cd R by (simp flip: fset_inject)
  have "set outs = set outs'" if "cd_pre_proposal cd = {||}"
  proof -
    have "endpoint_key_of ` set outs = endpoint_key_of ` set outs'" using a(4,5) b(4,5) that pre cd R by simp
    then show ?thesis by (simp add: inj_image_eq_iff)
  qed
  then show ?thesis using pre by blast
qed

definition demo_alerts_a :: "alert_message list" where
  "demo_alerts_a = [demo_alert 1 4 Up [0, 1], demo_alert 2 5 Up [2], demo_alert 3 5 Up [0, 0]]"

definition demo_alerts_b :: "alert_message list" where
  "demo_alerts_b = [demo_alert 3 5 Up [0], demo_alert 1 4 Up [1], demo_alert 2 5 Up [2, 2], demo_alert 1 4 Up [0]]"

theorem cut_order_independent_witness:
  "cd_pre_proposal (fst (aggregate_all sorted_iter demo_cut demo_alerts_a)) = {||} \<and>
   cd_pre_proposal (fst (aggregate_all (rev \<circ> sorted_iter) demo_cut demo_alerts_b)) = {||} \<and>
   set (snd (aggregate_all sorted_iter demo_cut demo_alerts_a)) =
   set (snd (aggregate_all (rev \<circ> sorted_iter) demo_cut demo_alerts_b))"
proof -
  have "iter_order (rev \<circ> sorted_iter :: hash_order)"
    using sorted_iter_order[where 'a = endpoint_key] by (simp add: iter_order_def)
  moreover have "set (all_reports demo_alerts_a) = set (all_reports demo_alerts_b)" by code_simp
  moreover have "cd_pre_proposal (fst (aggregate_all sorted_iter demo_cut demo_alerts_a)) = {||}" by code_simp
  ultimately show ?thesis
    using cut_order_independent[OF demo_cut_new sorted_iter_order _ _ prod.collapse[symmetric] prod.collapse[symmetric]] by metis
qed

text \<open>
  Every history of alerts, implicit detections and resets keeps the detector's bookkeeping
  exact: \<^verbatim>\<open>pre_proposal\<close> is the set of subjects between the watermarks,
  \<^verbatim>\<open>updates_in_progress\<close> its size, the subjects held back are stable, and none is held back
  when nothing is in flux.
\<close>

theorem cut_history_inv:
  assumes "cut_new k h l = Inr cd"
  shows "cut_inv (fst (run (cut_step x it) (cd, view) events))"
  using cm.run_inv[of "(cd, view)" events x it] cut_new_fresh(1)[OF assms] by (simp add: list_all_iff)

theorem cut_history_inv_witness:
  "cut_inv (fst (run (cut_step demo_hash sorted_iter) (demo_cut, demo_view)
     [AlertEvent (demo_alert 1 2 Down [0]), InvalidateEvent, ClearEvent, AlertEvent (demo_alert 3 2 Up [1])]))"
  by (rule cut_history_inv[OF demo_cut_new])

text \<open>
  The specification of implicit detection: the nodes that are suspected are those in flux or held back; each
  suspected observer of a node in flux reports it on the rings on which it observes it, and the reports are processed
  until something is emitted.
\<close>

definition suspected :: "cut_detector \<Rightarrow> endpoint_key fset" where
  "suspected cd = cd_proposal cd |\<union>| cd_pre_proposal cd"

definition observer_reports :: "endpoint_key fset \<Rightarrow> endpoint \<Rightarrow> edge_status \<Rightarrow> nat \<Rightarrow> endpoint list \<Rightarrow> report list" where
  "observer_reports W node st n obs = map (\<lambda>(i, ob). (ob, node, st, of_nat i))
     (filter (\<lambda>(i, ob). endpoint_key_of ob |\<in>| W) (List.enumerate n obs))"

definition implicit_reports :: "xxh64_fn \<Rightarrow> membership_view \<Rightarrow> endpoint_key fset \<Rightarrow> endpoint list \<Rightarrow> report list" where
  "implicit_reports x view W nodes = concat (map (\<lambda>node. observer_reports W node
     (if is_host_present view node then Down else Up) 0 (flux_observers x view node)) nodes)"

fun feed_until :: "hash_order \<Rightarrow> cut_detector \<Rightarrow> report list \<Rightarrow> cut_detector \<times> endpoint list" where
  "feed_until it cd [] = (cd, [])"
| "feed_until it cd ((src, dst, st, rn) # rs) =
     (let (cd, out) = aggregate_one it cd src dst st rn in if out = [] then feed_until it cd rs else (cd, out))"

lemma feed_until_append:
  "feed_until it cd (rs @ rs') = (if snd (feed_until it cd rs) = [] then feed_until it (fst (feed_until it cd rs)) rs'
     else feed_until it cd rs)"
  by (induction rs arbitrary: cd) (auto simp: Let_def split: prod.split)

lemma idle_observers: "suspected cd = {||} \<Longrightarrow> invalidate_observers it node st n obs cd = (cd, [])"
  by (induction obs arbitrary: n) (auto simp: suspected_def)

lemma idle_nodes:
  "suspected cd = {||} \<Longrightarrow> fst (invalidate_nodes x it nodes cd view) = cd \<and> snd (snd (invalidate_nodes x it nodes cd view)) = []"
  by (induction nodes arbitrary: view) (simp_all add: invalidate_nodes_Cons idle_observers Let_def del: invalidate_nodes.simps(2))

text \<open>A further report on a suspected subject leaves the suspected set as it is, or empties it by emitting.\<close>

definition pending :: "cut_detector \<Rightarrow> endpoint_key \<Rightarrow> bool" where
  "pending cd k \<longleftrightarrow> k |\<in>| suspected cd \<and> unat (cd_l cd) \<le> tally cd k"

lemma suspected_step:
  assumes "cut_inv cd" "iter_order it" "pending cd (endpoint_key_of dst)"
  shows "suspected (fst (aggregate_one it cd src dst st rn)) =
    (if snd (aggregate_one it cd src dst st rn) = [] then suspected cd else {||})"
proof (cases "reported cd (endpoint_key_of dst) rn")
  case True
  then show ?thesis using aggregate_one_dup[OF True] by (simp add: suspected_def)
next
  case False
  let ?k = "endpoint_key_of dst"
  note o = aggregate_one_out[OF assms(1,2), of src dst st rn]
  note f = aggregate_one_fresh[OF cut_invD(1)[OF assms(1)] False, of it src st]
  have l: "Suc (tally cd ?k) \<noteq> unat (cd_l cd)" using assms(3) by (simp add: pending_def)
  have e: "(snd (aggregate_one it cd src dst st rn) = []) = (\<not> (Suc (tally cd ?k) = unat (cd_h cd) \<and> in_flux cd \<subseteq> {?k}))"
    using o(1) False by (auto split: if_splits)
  have k: "?k |\<in>| cd_proposal cd |\<union>| cd_pre_proposal cd" using assms(3) by (simp add: pending_def suspected_def)
  have "fset (cd_pre_proposal cd) = in_flux cd" by (rule cut_invD(3)[OF assms(1)])
  then have flux: "cd_pre_proposal cd |-| {|?k|} = {||}" if "in_flux cd \<subseteq> {?k}" using that by auto
  show ?thesis using f(1) o(3) l e k flux False by (auto simp: suspected_def Let_def)
qed

lemma pending_step:
  assumes "cut_inv cd" "iter_order it" "pending cd (endpoint_key_of dst)" "snd (aggregate_one it cd src dst st rn) = []" "pending cd k"
  shows "pending (fst (aggregate_one it cd src dst st rn)) k"
  using assms(5) suspected_step[OF assms(1-3), of src st rn] assms(4) by (auto simp: pending_def aggregate_one_tally)

lemma invalidate_observers_exact:
  assumes "cut_inv cd" "iter_order it" "pending cd (endpoint_key_of node)" "W = suspected cd"
    and "invalidate_observers it node st n obs cd = (cd', out)"
  shows "feed_until it cd (observer_reports W node st n obs) = (cd', out) \<and> cut_inv cd' \<and>
    (if out = [] then suspected cd' = W \<and> (\<forall>k. pending cd k \<longrightarrow> pending cd' k) else suspected cd' = {||})"
  using assms
proof (induction obs arbitrary: n cd)
  case Nil
  then show ?case by (simp add: observer_reports_def)
next
  case (Cons ob obs)
  let ?r = "aggregate_one it cd ob node st (of_nat n)"
  have W: "observer_reports W node st n (ob # obs) =
    (if endpoint_key_of ob |\<in>| W then [(ob, node, st, of_nat n)] else []) @ observer_reports W node st (Suc n) obs"
    by (simp add: observer_reports_def)
  have hit: "(endpoint_key_of ob |\<in>| cd_proposal cd \<or> endpoint_key_of ob |\<in>| cd_pre_proposal cd) = (endpoint_key_of ob |\<in>| W)"
    by (simp add: Cons.prems(4) suspected_def)
  show ?case
  proof (cases "endpoint_key_of ob |\<in>| W")
    case False
    then show ?thesis using Cons.IH[OF Cons.prems(1-4), of "Suc n"] Cons.prems(5) hit unfolding W
      by (simp add: split_beta)
  next
    case True
    note s = suspected_step[OF Cons.prems(1-3), of ob st "of_nat n"] and p = pending_step[OF Cons.prems(1-3), of ob st "of_nat n"]
    have inv: "cut_inv (fst ?r)" by (rule cut_inv_aggregate_one[OF Cons.prems(1)])
    show ?thesis
    proof (cases "snd ?r = []")
      case em: True
      have "invalidate_observers it node st (Suc n) obs (fst ?r) = (cd', out)"
        using Cons.prems(5) True hit em by (simp add: split_beta)
      from Cons.IH[OF inv assms(2) p[OF em Cons.prems(3)] _ this] show ?thesis
        using s p[OF em] em True Cons.prems(4) unfolding W by (auto simp: split_beta)
    next
      case em: False
      then have "suspected (fst ?r) = {||}" using s by simp
      then have "?r = (cd', out)" using Cons.prems(5) True hit idle_observers[of "fst ?r"] by (simp add: split_beta)
      then show ?thesis using em True inv s unfolding W by (auto simp: split_beta)
    qed
  qed
qed

lemma invalidate_nodes_exact:
  assumes "cut_inv cd" "iter_order it" "\<forall>node \<in> set nodes. pending cd (endpoint_key_of node)" "W = suspected cd"
  shows "(fst (invalidate_nodes x it nodes cd view), snd (snd (invalidate_nodes x it nodes cd view))) =
    feed_until it cd (implicit_reports x view W nodes)"
  using assms
proof (induction nodes arbitrary: cd view)
  case Nil
  then show ?case by (simp add: implicit_reports_def)
next
  case (Cons node nodes)
  let ?st = "if is_host_present view node then Down else Up"
  let ?view = "if is_host_present view node then fst (get_observers_of x view node) else view"
  obtain cd' out where r: "invalidate_observers it node ?st 0 (flux_observers x view node) cd = (cd', out)" by fastforce
  note o = invalidate_observers_exact[OF Cons.prems(1,2) _ Cons.prems(4) r]
  have rest: "implicit_reports x ?view W nodes = implicit_reports x view W nodes" by (simp add: implicit_reports_def)
  have i: "implicit_reports x view W (node # nodes) =
    observer_reports W node ?st 0 (flux_observers x view node) @ implicit_reports x view W nodes"
    by (simp add: implicit_reports_def)
  show ?case
  proof (cases "out = []")
    case True
    then have "\<forall>n \<in> set nodes. pending cd' (endpoint_key_of n)" "W = suspected cd'" "cut_inv cd'" using o Cons.prems(3) by auto
    from Cons.IH[OF this(3) assms(2) this(1,2), of ?view] show ?thesis
      using True o Cons.prems(3) r unfolding i invalidate_nodes_Cons rest by (simp add: Let_def feed_until_append)
  next
    case False
    then show ?thesis using o Cons.prems(3) r idle_nodes[of cd' x it nodes ?view] unfolding i invalidate_nodes_Cons
      by (simp add: Let_def feed_until_append)
  qed
qed

lemma flux_pending:
  assumes "cut_inv cd" "iter_order it" "node \<in> set (map (endpoint_obj cd) (it (cd_pre_proposal cd)))"
  shows "pending cd (endpoint_key_of node)" "endpoint_key_of node |\<in>| cd_pre_proposal cd"
proof -
  obtain k where k: "k |\<in>| cd_pre_proposal cd" "node = endpoint_obj cd k" using assms(3) iter_orderD(2)[OF assms(2)] by auto
  then have "k \<in> in_flux cd" using cut_invD(3)[OF assms(1)] by blast
  then have t: "unat (cd_l cd) \<le> tally cd k" "0 < tally cd k"
    using cut_params_bounds[OF cut_invD(1)[OF assms(1)]] by (auto simp: in_flux_def)
  then have "endpoint_key_of node = k" using k endpoint_obj_key[OF cut_invD(2)[OF assms(1)]] by simp
  then show "pending cd (endpoint_key_of node)" "endpoint_key_of node |\<in>| cd_pre_proposal cd"
    using t k by (simp_all add: pending_def suspected_def)
qed

lemma invalidate_spec:
  assumes "cut_inv cd" and "iter_order it"
  shows "(fst (invalidate_failing_edges x it cd view), snd (snd (invalidate_failing_edges x it cd view))) =
    (if cd_seen_link_down_events cd
     then feed_until it cd (implicit_reports x view (suspected cd) (map (endpoint_obj cd) (it (cd_pre_proposal cd))))
     else (cd, []))"
proof (cases "cd_seen_link_down_events cd")
  case True
  have "\<forall>node \<in> set (map (endpoint_obj cd) (it (cd_pre_proposal cd))). pending cd (endpoint_key_of node)"
    using flux_pending(1)[OF assms] by blast
  from invalidate_nodes_exact[OF assms this refl, of x view]
  show ?thesis using True by (simp only: invalidate_failing_edges_def Let_def not_True_eq_False if_False if_True)
next
  case False
  then show ?thesis by (simp add: invalidate_failing_edges_def)
qed

text \<open>
  C26. Implicit detection is exact. Without a DOWN alert since the last reset, \<^verbatim>\<open>invalidate_failing_edges\<close>
  changes nothing and emits nothing. Otherwise it processes, node by node in flux and ring by ring, one report for every
  observer of the node that is itself in flux or held back, DOWN for members and UP for joiners, and no other
  report, up to the first emission, and returns what that emits; the view's members are untouched.
\<close>

theorem invalidate_exact:
  assumes "cut_inv cd" and "iter_order it"
  shows "(fst (invalidate_failing_edges x it cd view), snd (snd (invalidate_failing_edges x it cd view))) =
      (if cd_seen_link_down_events cd
       then feed_until it cd (implicit_reports x view (suspected cd) (map (endpoint_obj cd) (it (cd_pre_proposal cd))))
       else (cd, [])) \<and>
    members (fst (snd (invalidate_failing_edges x it cd view))) = members view"
  using invalidate_spec[OF assms, of x view] by simp

definition demo_flux :: cut_detector where
  "demo_flux = fst (aggregate_all sorted_iter demo_cut [demo_alert 1 2 Down [0], demo_alert 2 1 Down [0]])"

theorem invalidate_exact_witness:
  "(fst (invalidate_failing_edges demo_hash sorted_iter demo_flux demo_view),
      snd (snd (invalidate_failing_edges demo_hash sorted_iter demo_flux demo_view))) =
      (if cd_seen_link_down_events demo_flux
       then feed_until sorted_iter demo_flux (implicit_reports demo_hash demo_view (suspected demo_flux)
         (map (endpoint_obj demo_flux) (sorted_iter (cd_pre_proposal demo_flux))))
       else (demo_flux, [])) \<and>
    members (fst (snd (invalidate_failing_edges demo_hash sorted_iter demo_flux demo_view))) = members demo_view"
  by (rule invalidate_exact[OF _ sorted_iter_order])
    (simp add: demo_flux_def aggregate_all_feed feed_inv cut_new_fresh(1)[OF demo_cut_new])

theorem emission_rule_witness:
  "let (cd', out) = aggregate_one sorted_iter demo_flux (demo_ep 3) (demo_ep 2) Down 1 in
    (out \<noteq> []) = (\<not> reported demo_flux (endpoint_key_of (demo_ep 2)) 1 \<and>
      Suc (tally demo_flux (endpoint_key_of (demo_ep 2))) = unat (cd_h demo_flux) \<and>
      in_flux demo_flux \<subseteq> {endpoint_key_of (demo_ep 2)}) \<and> distinct out"
proof -
  have "cut_inv demo_flux" by (simp add: demo_flux_def aggregate_all_feed feed_inv cut_new_fresh(1)[OF demo_cut_new])
  from emission_rule[OF this sorted_iter_order, where src = "demo_ep 3" and dst = "demo_ep 2" and st = Down and rn = 1]
  show ?thesis by (auto simp: Let_def split: prod.splits)
qed

end
