(* ===== verification/Metadata.thy ===== *)
theory Metadata
  imports View_Hash
begin

text \<open>
  \<^verbatim>\<open>crates/rapid/src/metadata.rs\<close>, \<^verbatim>\<open>settings.rs\<close> and \<^verbatim>\<open>events.rs\<close>: the per-node application
  tags (\<^verbatim>\<open>putIfAbsent\<close> semantics), the protocol parameters and the events subscribers receive.
  Durations are milliseconds. The order in which \<^verbatim>\<open>all\<close> lists the hash map is an argument.

  Properties: lookup after insertion and removal, and the snapshot \<^verbatim>\<open>all\<close>.
\<close>

section \<open>Metadata\<close>

record metadata_manager =
  mm_role_map :: "(endpoint_key, metadata) fmap"
  mm_endpoint_objs :: "(endpoint_key, endpoint) fmap"

definition metadata_new :: metadata_manager where
  "metadata_new = \<lparr>mm_role_map = fmempty, mm_endpoint_objs = fmempty\<rparr>"

definition metadata_get :: "metadata_manager \<Rightarrow> endpoint \<Rightarrow> metadata" where
  "metadata_get mm node = fm_get_or fmempty (mm_role_map mm) (endpoint_key_of node)"

text \<open>\<^verbatim>\<open>entry(k).or_insert(v)\<close>\<close>

definition fm_or_insert :: "'k \<Rightarrow> 'v \<Rightarrow> ('k, 'v) fmap \<Rightarrow> ('k, 'v) fmap" where
  "fm_or_insert k v m = (case fmlookup m k of Some _ \<Rightarrow> m | None \<Rightarrow> fmupd k v m)"

definition metadata_add_one :: "endpoint \<times> metadata \<Rightarrow> metadata_manager \<Rightarrow> metadata_manager" where
  "metadata_add_one entry mm =
     (case entry of (endpoint, meta) \<Rightarrow>
        (let key = endpoint_key_of endpoint in
         mm\<lparr>mm_role_map := fm_or_insert key meta (mm_role_map mm),
            mm_endpoint_objs := fm_or_insert key endpoint (mm_endpoint_objs mm)\<rparr>))"

definition metadata_add :: "metadata_manager \<Rightarrow> (endpoint \<times> metadata) list \<Rightarrow> metadata_manager" where
  "metadata_add mm entries = fold metadata_add_one entries mm"

definition metadata_remove :: "metadata_manager \<Rightarrow> endpoint \<Rightarrow> metadata_manager" where
  "metadata_remove mm node =
     (let key = endpoint_key_of node in
      mm\<lparr>mm_role_map := fmdrop key (mm_role_map mm),
         mm_endpoint_objs := fmdrop key (mm_endpoint_objs mm)\<rparr>)"

definition metadata_all ::
  "(endpoint_key fset \<Rightarrow> endpoint_key list) \<Rightarrow> metadata_manager \<Rightarrow> (endpoint \<times> metadata) list" where
  "metadata_all it mm =
     map (\<lambda>k. (fm_get_or default_endpoint (mm_endpoint_objs mm) k, the (fmlookup (mm_role_map mm) k)))
       (it (fmdom (mm_role_map mm)))"

definition metadata_inv :: "metadata_manager \<Rightarrow> bool" where
  "metadata_inv mm \<longleftrightarrow> fmdom (mm_role_map mm) = fmdom (mm_endpoint_objs mm) \<and>
     (\<forall>k e. fmlookup (mm_endpoint_objs mm) k = Some e \<longrightarrow> endpoint_key_of e = k)"

section \<open>Settings and events\<close>

record settings =
  se_k :: u8
  se_h :: u8
  se_l :: u8
  se_join_phase1_retries :: u8
  se_join_phase1_retry_interval :: nat
  se_batching_window :: nat
  se_failure_detector_interval :: nat
  se_leave_message_timeout :: nat
  se_paxos_fallback_base_delay :: nat
  se_failure_threshold :: u32
  se_bootstrap_count_threshold :: u32
  se_grpc_default_timeout :: nat
  se_grpc_default_retries :: u32
  se_grpc_join_timeout :: nat
  se_grpc_probe_timeout :: nat
  se_use_in_process_transport :: bool

definition default_settings :: settings where
  "default_settings = \<lparr>se_k = 10, se_h = 9, se_l = 4, se_join_phase1_retries = 5,
     se_join_phase1_retry_interval = 500, se_batching_window = 100,
     se_failure_detector_interval = 1000, se_leave_message_timeout = 1500,
     se_paxos_fallback_base_delay = 1000, se_failure_threshold = 10,
     se_bootstrap_count_threshold = 30, se_grpc_default_timeout = 1000,
     se_grpc_default_retries = 5, se_grpc_join_timeout = 5000, se_grpc_probe_timeout = 1000,
     se_use_in_process_transport = False\<rparr>"

definition settings_for_tests :: settings where
  "settings_for_tests = default_settings\<lparr>se_failure_detector_interval := 200,
     se_batching_window := 30, se_join_phase1_retry_interval := 100,
     se_paxos_fallback_base_delay := 300\<rparr>"

datatype cluster_event = ViewChangeProposal | ViewChange | ViewChangeOneStepFailed | Kicked

record node_status_change =
  nsc_endpoint :: endpoint
  nsc_status :: edge_status
  nsc_metadata :: metadata

record cluster_status_change =
  csc_configuration_id :: configuration_id
  csc_membership :: "endpoint list"
  csc_delta :: "node_status_change list"

section \<open>Lemmas\<close>

lemma fm_or_insert_lookup [simp]:
  "fmlookup (fm_or_insert k v m) k' =
     (if k' = k then Some (case fmlookup m k of Some w \<Rightarrow> w | None \<Rightarrow> v) else fmlookup m k')"
  by (auto simp: fm_or_insert_def split: option.split)

lemma fm_or_insert_dom [simp]: "fmdom (fm_or_insert k v m) = finsert k (fmdom m)"
  by (auto simp: fm_or_insert_def fmdomI split: option.split)

lemma metadata_new_inv [simp]: "metadata_inv metadata_new"
  by (simp add: metadata_inv_def metadata_new_def)

lemma metadata_add_one_inv: "metadata_inv mm \<Longrightarrow> metadata_inv (metadata_add_one entry mm)"
  by (cases entry)
    (auto simp: metadata_inv_def metadata_add_one_def Let_def simp del: endpoint_key_of_eq
      split: option.splits if_splits)

lemma metadata_add_inv: "metadata_inv mm \<Longrightarrow> metadata_inv (metadata_add mm entries)"
  unfolding metadata_add_def by (induction entries arbitrary: mm) (auto simp: metadata_add_one_inv)

lemma metadata_remove_inv: "metadata_inv mm \<Longrightarrow> metadata_inv (metadata_remove mm node)"
  by (auto simp: metadata_inv_def metadata_remove_def Let_def split: if_splits)

lemma metadata_add_one_lookup:
  "fmlookup (mm_role_map (metadata_add_one (e, m) mm)) (endpoint_key_of f) =
     (if f = e then Some (case fmlookup (mm_role_map mm) (endpoint_key_of e) of Some w \<Rightarrow> w | None \<Rightarrow> m)
      else fmlookup (mm_role_map mm) (endpoint_key_of f))"
  by (simp add: metadata_add_one_def Let_def)

lemma metadata_add_lookup:
  "fmlookup (mm_role_map (metadata_add mm entries)) (endpoint_key_of e) =
     (case fmlookup (mm_role_map mm) (endpoint_key_of e) of Some w \<Rightarrow> Some w | None \<Rightarrow> map_of entries e)"
  unfolding metadata_add_def
proof (induction entries arbitrary: mm)
  case (Cons entry entries)
  obtain f m where e: "entry = (f, m)" by (cases entry)
  show ?case using Cons[of "metadata_add_one entry mm"]
    by (auto simp: e metadata_add_one_lookup split: option.split)
qed (simp split: option.split)

section \<open>Properties\<close>

text \<open>
  Metadata lookup. After adding a list of entries a node's metadata is what it was, or else the
  first entry the list has for it; after removing a node its metadata is empty and every other
  node's is unchanged.
\<close>

theorem metadata_lookup:
  "metadata_get (metadata_add mm entries) e =
     (case fmlookup (mm_role_map mm) (endpoint_key_of e) of
        Some w \<Rightarrow> w
      | None \<Rightarrow> (case map_of entries e of Some m \<Rightarrow> m | None \<Rightarrow> fmempty)) \<and>
   metadata_get (metadata_remove mm f) e = (if e = f then fmempty else metadata_get mm e)"
  by (auto simp: metadata_get_def fm_get_or_def metadata_add_lookup metadata_remove_def Let_def
      split: option.split)

text \<open>
  The snapshot. A manager built by adding and removing lists every node it holds metadata for
  exactly once, with the endpoint it was added under and the metadata \<^verbatim>\<open>get\<close> returns, in
  some order.
\<close>

theorem metadata_all_exact:
  assumes "metadata_inv mm" and "iter_order it"
  shows "distinct (map fst (metadata_all it mm)) \<and>
    set (metadata_all it mm) =
      {(e, metadata_get mm e) | e. endpoint_key_of e |\<in>| fmdom (mm_role_map mm)}"
proof -
  let ?D = "fmdom (mm_role_map mm)"
  have obj: "endpoint_key_of (fm_get_or default_endpoint (mm_endpoint_objs mm) k) = k" if "k |\<in>| ?D" for k
  proof -
    have "k |\<in>| fmdom (mm_endpoint_objs mm)" using that assms(1) by (simp add: metadata_inv_def)
    then obtain e where "fmlookup (mm_endpoint_objs mm) k = Some e" by (metis fmlookup_dom_iff)
    then show ?thesis using assms(1) by (auto simp: metadata_inv_def fm_get_or_def)
  qed
  have it: "set (it ?D) = fset ?D" "distinct (it ?D)" using assms(2) by auto
  have "map endpoint_key_of (map fst (metadata_all it mm)) = it ?D"
    using obj it by (auto simp: metadata_all_def comp_def intro!: map_idI)
  then have "distinct (map fst (metadata_all it mm))" using it(2) by (metis distinct_map)
  moreover have "set (metadata_all it mm) = {(e, metadata_get mm e) | e. endpoint_key_of e |\<in>| ?D}"
  proof -
    have "metadata_get mm e = the (fmlookup (mm_role_map mm) (endpoint_key_of e))"
      if "endpoint_key_of e |\<in>| ?D" for e
      using that by (auto simp: metadata_get_def fm_get_or_def fmlookup_dom_iff)
    moreover have "fm_get_or default_endpoint (mm_endpoint_objs mm) (endpoint_key_of e) = e"
      if "endpoint_key_of e |\<in>| ?D" for e using obj[OF that] by simp
    ultimately have "(\<lambda>k. (fm_get_or default_endpoint (mm_endpoint_objs mm) k, the (fmlookup (mm_role_map mm) k)))
        ` endpoint_key_of ` {e. endpoint_key_of e |\<in>| ?D}
      = (\<lambda>e. (e, metadata_get mm e)) ` {e. endpoint_key_of e |\<in>| ?D}"
      unfolding image_image by (intro image_cong) simp_all
    moreover have "endpoint_key_of ` {e. endpoint_key_of e |\<in>| ?D} = fset ?D"
      using obj by (metis (mono_tags, lifting) image_Collect_subsetI imageI mem_Collect_eq subsetI subset_antisym)
    ultimately show ?thesis
      unfolding metadata_all_def set_map it(1) by auto
  qed
  ultimately show ?thesis by blast
qed

theorem metadata_all_exact_witness:
  "distinct (map fst (metadata_all sorted_iter (metadata_add metadata_new [(demo_ep 1, fmempty), (demo_ep 2, fmempty)]))) \<and>
   set (metadata_all sorted_iter (metadata_add metadata_new [(demo_ep 1, fmempty), (demo_ep 2, fmempty)])) =
     {(e, metadata_get (metadata_add metadata_new [(demo_ep 1, fmempty), (demo_ep 2, fmempty)]) e) | e.
       endpoint_key_of e |\<in>| fmdom (mm_role_map (metadata_add metadata_new [(demo_ep 1, fmempty), (demo_ep 2, fmempty)]))}"
  by (rule metadata_all_exact[OF metadata_add_inv[OF metadata_new_inv] sorted_iter_order])

end
