(* ===== verification/Service.thy ===== *)
theory Service
  imports Cut_Detector Fast_Paxos Metadata
begin

text \<open>
  The membership-service actor, \<^verbatim>\<open>crates/rapid/src/service/\<close>: the state (\<^verbatim>\<open>state.rs\<close>), the
  join handlers (\<^verbatim>\<open>handlers.rs\<close>), the alert pipeline (\<^verbatim>\<open>alert_handler.rs\<close>,
  \<^verbatim>\<open>alert_batcher.rs\<close>), the failure-detector schedule (\<^verbatim>\<open>fd_scheduler.rs\<close>), the view change
  (\<^verbatim>\<open>view_change.rs\<close>), the consensus glue (\<^verbatim>\<open>consensus_dispatch.rs\<close>) and the command loop
  (\<^verbatim>\<open>task.rs\<close>, \<^verbatim>\<open>command.rs\<close>).

  A handler takes the state and returns the new state with the list of its effects in the order
  the code causes them: replies on oneshot channels (a channel is a number), broadcasts,
  unicasts, published events, tasks spawned and aborted. Attached objects behind \<^verbatim>\<open>Option<Arc>\<close>
  (broadcaster, client, factory, channels) are booleans. What the environment supplies is the
  record \<open>env\<close> (the hash function, the iteration orders of the hash containers, the parser of
  socket addresses) and, per command, the clock and the random jitter.
\<close>

section \<open>State\<close>

type_synonym reply_id = nat

datatype lifecycle_state = Running | AnnouncedProposal | ShuttingDown

datatype fd_task = FdTask (fd_subject: endpoint) (fd_configuration_id: configuration_id)

datatype edge_failure = EdgeFailure (ef_subject: endpoint) (ef_configuration_id: configuration_id)

record service_state =
  st_settings :: settings
  st_my_addr :: endpoint
  st_view :: membership_view
  st_cut_detector :: cut_detector
  st_metadata :: metadata_manager
  st_joiners_to_respond_to :: "(endpoint_key, reply_id list) fmap"
  st_joiner_uuid :: "(endpoint_key, node_id) fmap"
  st_joiner_metadata :: "(endpoint_key, metadata) fmap"
  st_lifecycle :: lifecycle_state
  st_send_queue :: "alert_message list"
  st_last_enqueue_at :: "nat option"
  st_broadcaster :: bool
  st_proposal_tx :: bool
  st_failure_detector_tasks :: "fd_task list"
  st_fd_factory :: bool
  st_fd_notifier_tx :: bool
  st_fast_paxos :: "fast_paxos option"
  st_consensus_client :: bool
  st_pending_fallback :: "nat option"

datatype service_effect =
    Reply reply_id "rapid_response result"
  | ReplyEndpoints reply_id "endpoint list"
  | ReplyNat reply_id nat
  | ReplyMetadata reply_id "(endpoint \<times> metadata) list"
  | ReplyConfigurationId reply_id configuration_id
  | ReplyUnit reply_id
  | BroadcastEffect rapid_request
  | UnicastEffect socket_addr rapid_request
  | SetMembership "socket_addr list"
  | Publish cluster_event cluster_status_change
  | ProposalEmitted "endpoint list"
  | SpawnDetector fd_task
  | AbortDetector fd_task
  | SpawnFallback nat
  | AbortFallback nat

record env =
  en_xxh64 :: xxh64_fn
  en_cut_order :: hash_order
  en_proposal_order :: hash_order
  en_metadata_order :: hash_order
  en_parse_addr :: "bytes \<Rightarrow> u16 \<Rightarrow> socket_addr option"

definition service_state_new ::
  "endpoint \<Rightarrow> membership_view \<Rightarrow> cut_detector \<Rightarrow> metadata_manager \<Rightarrow> settings \<Rightarrow> service_state" where
  "service_state_new my_addr view cut_detector metadata settings =
     \<lparr>st_settings = settings, st_my_addr = my_addr, st_view = view,
      st_cut_detector = cut_detector, st_metadata = metadata,
      st_joiners_to_respond_to = fmempty, st_joiner_uuid = fmempty,
      st_joiner_metadata = fmempty, st_lifecycle = Running, st_send_queue = [],
      st_last_enqueue_at = None, st_broadcaster = False, st_proposal_tx = False,
      st_failure_detector_tasks = [], st_fd_factory = False, st_fd_notifier_tx = False,
      st_fast_paxos = None, st_consensus_client = False, st_pending_fallback = None\<rparr>"

definition with_consensus_client :: "service_state \<Rightarrow> service_state" where
  "with_consensus_client st = st\<lparr>st_consensus_client := True\<rparr>"

definition with_broadcaster :: "service_state \<Rightarrow> service_state" where
  "with_broadcaster st = st\<lparr>st_broadcaster := True\<rparr>"

definition with_proposal_sink :: "service_state \<Rightarrow> service_state" where
  "with_proposal_sink st = st\<lparr>st_proposal_tx := True\<rparr>"

definition with_fd_factory :: "service_state \<Rightarrow> service_state" where
  "with_fd_factory st = st\<lparr>st_fd_factory := True, st_fd_notifier_tx := True\<rparr>"

definition ring_zero :: "membership_view \<Rightarrow> endpoint list" where
  "ring_zero view = (case get_ring view 0 of Inl _ \<Rightarrow> [] | Inr es \<Rightarrow> es)"

definition memberlist :: "service_state \<Rightarrow> endpoint list" where
  "memberlist st = ring_zero (st_view st)"

definition service_membership_size :: "service_state \<Rightarrow> nat" where
  "service_membership_size st = membership_size (st_view st)"

definition metadata_snapshot :: "env \<Rightarrow> service_state \<Rightarrow> (endpoint \<times> metadata) list" where
  "metadata_snapshot en st = metadata_all (en_metadata_order en) (st_metadata st)"

definition configuration_id :: "env \<Rightarrow> service_state \<Rightarrow> service_state \<times> configuration_id" where
  "configuration_id en st =
     (let (view, c) = current_configuration_id (en_xxh64 en) (st_view st)
      in (st\<lparr>st_view := view\<rparr>, c))"

section \<open>Join handlers\<close>

definition java_status_code :: "join_disposition \<Rightarrow> i32" where
  "java_status_code d = (case d of
      HostnameAlreadyInRing \<Rightarrow> join_status_num HostnameAlreadyInRingCode
    | UuidAlreadyInRing \<Rightarrow> join_status_num UuidAlreadyInRingCode
    | SafeToJoin \<Rightarrow> join_status_num SafeToJoinCode)"

definition handle_pre_join ::
  "env \<Rightarrow> service_state \<Rightarrow> pre_join_message \<Rightarrow> service_state \<times> join_response" where
  "handle_pre_join en st msg =
     (let joiner = (case pj_sender msg of None \<Rightarrow> default_endpoint | Some e \<Rightarrow> e);
          nid = (case pj_node_id msg of None \<Rightarrow> default_node_id | Some i \<Rightarrow> i);
          status = is_safe_to_join (st_view st) joiner nid;
          (st, c) = configuration_id en st;
          response = \<lparr>jr_sender = Some (st_my_addr st), jr_status_code = java_status_code status,
            jr_configuration_id = c, jr_endpoints = [], jr_identifiers = [],
            jr_metadata_keys = [], jr_metadata_values = []\<rparr>
      in if status = SafeToJoin \<or> status = HostnameAlreadyInRing
         then (st, response\<lparr>jr_endpoints :=
                get_expected_observers_of (en_xxh64 en) (st_view st) joiner\<rparr>)
         else (st, response))"

definition enqueue_alert :: "nat \<Rightarrow> service_state \<Rightarrow> alert_message \<Rightarrow> service_state" where
  "enqueue_alert now st alert =
     st\<lparr>st_last_enqueue_at := Some now, st_send_queue := st_send_queue st @ [alert]\<rparr>"

definition collect_metadata :: "env \<Rightarrow> service_state \<Rightarrow> endpoint list \<times> metadata list" where
  "collect_metadata en st =
     (let all = metadata_snapshot en st in (map fst all, map snd all))"

definition build_config_mismatch_response ::
  "env \<Rightarrow> service_state \<Rightarrow> endpoint \<Rightarrow> node_id \<Rightarrow> service_state \<times> join_response" where
  "build_config_mismatch_response en st sender nid =
     (let (st, config_id) = configuration_id en st
      in if is_host_present (st_view st) sender \<and> is_identifier_present (st_view st) nid
         then
           (let endpoints = ring_zero (st_view st);
                (metadata_keys, metadata_values) = collect_metadata en st
            in (st, \<lparr>jr_sender = Some (st_my_addr st),
                     jr_status_code = join_status_num SafeToJoinCode,
                     jr_configuration_id = config_id, jr_endpoints = endpoints,
                     jr_identifiers = [], jr_metadata_keys = metadata_keys,
                     jr_metadata_values = metadata_values\<rparr>))
         else (st, \<lparr>jr_sender = Some (st_my_addr st),
                    jr_status_code = join_status_num ConfigChangedCode,
                    jr_configuration_id = config_id, jr_endpoints = [], jr_identifiers = [],
                    jr_metadata_keys = [], jr_metadata_values = []\<rparr>))"

definition handle_join ::
  "env \<Rightarrow> nat \<Rightarrow> service_state \<Rightarrow> join_message \<Rightarrow> reply_id \<Rightarrow> service_state \<times> service_effect list" where
  "handle_join en now st msg reply =
     (let sender = (case jm_sender msg of None \<Rightarrow> default_endpoint | Some e \<Rightarrow> e);
          nid = (case jm_node_id msg of None \<Rightarrow> default_node_id | Some i \<Rightarrow> i);
          (st, current_config) = configuration_id en st;
          key = endpoint_key_of sender
      in if current_config = jm_configuration_id msg
         then
           (let st = st\<lparr>st_joiners_to_respond_to :=
                  fmupd key (fm_get_or [] (st_joiners_to_respond_to st) key @ [reply])
                    (st_joiners_to_respond_to st),
                  st_joiner_uuid := fmupd key nid (st_joiner_uuid st),
                  st_joiner_metadata := (case jm_metadata msg of
                      None \<Rightarrow> st_joiner_metadata st
                    | Some meta \<Rightarrow> fmupd key meta (st_joiner_metadata st))\<rparr>;
                alert = \<lparr>al_edge_src = Some (st_my_addr st), al_edge_dst = Some sender,
                  al_edge_status = edge_status_num Up, al_configuration_id = current_config,
                  al_ring_number = jm_ring_number msg, al_node_id = Some nid,
                  al_metadata = jm_metadata msg\<rparr>
            in (enqueue_alert now st alert, []))
         else
           (let (st, response) = build_config_mismatch_response en st sender nid
            in (st, [Reply reply (Inr (RapidResponse (Some (JoinResponse response))))])))"

section \<open>Alerts\<close>

definition is_valid_alert :: "service_state \<Rightarrow> alert_message \<Rightarrow> i64 \<Rightarrow> bool" where
  "is_valid_alert st alert current_config =
     (if al_configuration_id alert \<noteq> current_config then False
      else case al_edge_dst alert of
        None \<Rightarrow> False
      | Some dst \<Rightarrow>
          (let is_present = is_host_present (st_view st) dst
           in case edge_status_or_up (al_edge_status alert) of
                Up \<Rightarrow> \<not> is_present
              | Down \<Rightarrow> is_present))"

definition extract_joiner :: "service_state \<Rightarrow> alert_message \<Rightarrow> service_state" where
  "extract_joiner st alert =
     (if edge_status_or_up (al_edge_status alert) \<noteq> Up then st
      else case al_edge_dst alert of
        None \<Rightarrow> st
      | Some dst \<Rightarrow>
          (let key = endpoint_key_of dst;
               st = (case al_node_id alert of
                   None \<Rightarrow> st
                 | Some nid \<Rightarrow> st\<lparr>st_joiner_uuid := fmupd key nid (st_joiner_uuid st)\<rparr>)
           in case al_metadata alert of
                None \<Rightarrow> st
              | Some meta \<Rightarrow> st\<lparr>st_joiner_metadata := fmupd key meta (st_joiner_metadata st)\<rparr>))"

text \<open>The first pass: filter, learn about joiners, collect the valid alerts.\<close>

fun filter_alerts ::
  "i64 \<Rightarrow> service_state \<Rightarrow> alert_message list \<Rightarrow> service_state \<times> alert_message list" where
  "filter_alerts current_config st [] = (st, [])"
| "filter_alerts current_config st (alert # alerts) =
     (if \<not> is_valid_alert st alert current_config then filter_alerts current_config st alerts
      else
        (let st = extract_joiner st alert;
             (st, valid) = filter_alerts current_config st alerts
         in (st, alert # valid)))"

text \<open>The second pass: aggregate every valid alert, then the implicit detection.\<close>

definition detect_cut ::
  "env \<Rightarrow> service_state \<Rightarrow> alert_message list \<Rightarrow> service_state \<times> endpoint list" where
  "detect_cut en st valid =
     (let (cd, cuts) = aggregate_all (en_cut_order en) (st_cut_detector st) valid;
          (cd, view, implicit) =
            invalidate_failing_edges (en_xxh64 en) (en_cut_order en) cd (st_view st)
      in (st\<lparr>st_cut_detector := cd, st_view := view\<rparr>, cuts @ implicit))"

text \<open>The proposal as a set, listed in hash order and sorted by the address hash of seed 0.\<close>

definition order_proposal :: "env \<Rightarrow> endpoint list \<Rightarrow> endpoint list" where
  "order_proposal en cuts =
     (let endpoint_objs = fold (\<lambda>e m. fmupd (endpoint_key_of e) e m) cuts fmempty;
          proposal = fset_of_list (map endpoint_key_of cuts);
          listed = map (\<lambda>k. fm_get_or default_endpoint endpoint_objs k) (en_proposal_order en proposal)
      in sort_key (address_hash_seed_zero (en_xxh64 en)) listed)"

definition handle_batched_alerts ::
  "env \<Rightarrow> service_state \<Rightarrow> batched_alert_message \<Rightarrow>
   service_state \<times> endpoint list \<times> service_effect list" where
  "handle_batched_alerts en st batch =
     (let (st, current_config) = configuration_id en st
      in if st_lifecycle st = AnnouncedProposal then (st, [], [])
         else
           (let (st, valid) = filter_alerts current_config st (ba_messages batch);
                (st, cuts) = detect_cut en st valid
            in if cuts = [] then (st, [], [])
               else
                 (let st = st\<lparr>st_lifecycle := AnnouncedProposal\<rparr>;
                      ordered = order_proposal en cuts
                  in (st, ordered, if st_proposal_tx st then [ProposalEmitted ordered] else []))))"

definition handle_tick :: "nat \<Rightarrow> service_state \<Rightarrow> service_state \<times> service_effect list" where
  "handle_tick now st =
     (if st_send_queue st = [] then (st, [])
      else case st_last_enqueue_at st of
        None \<Rightarrow> (st, [])
      | Some last_enqueue \<Rightarrow>
          if now - last_enqueue \<le> se_batching_window (st_settings st) then (st, [])
          else
            (let batch = \<lparr>ba_sender = Some (st_my_addr st), ba_messages = st_send_queue st\<rparr>;
                 st = st\<lparr>st_send_queue := [], st_last_enqueue_at := None\<rparr>
             in (st, if st_broadcaster st
                     then [BroadcastEffect (RapidRequest (Some (BatchedAlertMessage batch)))]
                     else [])))"

section \<open>Failure detectors\<close>

text \<open>\<^verbatim>\<open>drain(..)\<close> and \<^verbatim>\<open>abort\<close> of the running detector tasks.\<close>

definition cancel_failure_detectors :: "service_state \<Rightarrow> service_state \<times> service_effect list" where
  "cancel_failure_detectors st =
     (st\<lparr>st_failure_detector_tasks := []\<rparr>, map AbortDetector (st_failure_detector_tasks st))"

definition rebuild :: "env \<Rightarrow> service_state \<Rightarrow> service_state \<times> service_effect list" where
  "rebuild en st =
     (let (st, aborts) = cancel_failure_detectors st
      in if \<not> st_fd_factory st \<or> \<not> st_fd_notifier_tx st then (st, aborts)
         else
           (let (st, c) = configuration_id en st
            in case get_subjects_of (en_xxh64 en) (st_view st) (st_my_addr st) of
                 Inl _ \<Rightarrow> (st, aborts)
               | Inr subjects \<Rightarrow>
                   (let tasks = map (\<lambda>subject. FdTask subject c) subjects
                    in (st\<lparr>st_failure_detector_tasks := tasks\<rparr>, aborts @ map SpawnDetector tasks))))"

definition handle_edge_failure :: "env \<Rightarrow> nat \<Rightarrow> service_state \<Rightarrow> edge_failure \<Rightarrow> service_state" where
  "handle_edge_failure en now st ev =
     (let (st, current) = configuration_id en st
      in if ef_configuration_id ev \<noteq> current then st
         else
           (let ring_numbers =
                  (case get_ring_numbers (en_xxh64 en) (st_view st) (st_my_addr st) (ef_subject ev) of
                     Inl _ \<Rightarrow> [] | Inr ns \<Rightarrow> ns);
                alert = \<lparr>al_edge_src = Some (st_my_addr st), al_edge_dst = Some (ef_subject ev),
                  al_edge_status = edge_status_num Down, al_configuration_id = current,
                  al_ring_number = map ucast ring_numbers, al_node_id = None, al_metadata = None\<rparr>
            in enqueue_alert now st alert))"

section \<open>View change\<close>

definition endpoint_to_socket_addr :: "env \<Rightarrow> endpoint \<Rightarrow> socket_addr option" where
  "endpoint_to_socket_addr en endpoint =
     (let port = sint (ep_port endpoint)
      in if 0 \<le> port \<and> port < 65536
         then en_parse_addr en (ep_hostname endpoint) (ucast (ep_port endpoint))
         else None)"

definition endpoints_as_socket_addrs :: "env \<Rightarrow> endpoint list \<Rightarrow> socket_addr list" where
  "endpoints_as_socket_addrs en endpoints = List.map_filter (endpoint_to_socket_addr en) endpoints"

definition reinstate_fast_paxos :: "env \<Rightarrow> service_state \<Rightarrow> service_state \<times> service_effect list" where
  "reinstate_fast_paxos en st =
     (let aborts = (case st_pending_fallback st of None \<Rightarrow> [] | Some d \<Rightarrow> [AbortFallback d]);
          st = st\<lparr>st_pending_fallback := None\<rparr>;
          (st, c) = configuration_id en st;
          fp = fast_paxos_new (st_my_addr st) c (membership_size (st_view st))
                 (se_paxos_fallback_base_delay (st_settings st))
      in (st\<lparr>st_fast_paxos := Some fp\<rparr>, aborts))"

definition install_fast_paxos :: "env \<Rightarrow> service_state \<Rightarrow> service_state \<times> service_effect list" where
  "install_fast_paxos en st = reinstate_fast_paxos en st"

text \<open>One endpoint of a decided proposal: a member leaves, a known joiner enters.\<close>

definition apply_node ::
  "env \<Rightarrow> service_state \<Rightarrow> endpoint \<Rightarrow> service_state \<times> node_status_change list" where
  "apply_node en st node =
     (if is_host_present (st_view st) node
      then
        (let meta = metadata_get (st_metadata st) node;
             view = (case ring_delete (en_xxh64 en) (st_view st) node of
                 Inl _ \<Rightarrow> st_view st | Inr view \<Rightarrow> view)
         in (st\<lparr>st_view := view, st_metadata := metadata_remove (st_metadata st) node\<rparr>,
             [\<lparr>nsc_endpoint = node, nsc_status = Down, nsc_metadata = meta\<rparr>]))
      else
        (let key = endpoint_key_of node
         in case fmlookup (st_joiner_uuid st) key of
              None \<Rightarrow> (st, [])
            | Some nid \<Rightarrow>
                (let meta = fm_get_or fmempty (st_joiner_metadata st) key;
                     st = st\<lparr>st_joiner_uuid := fmdrop key (st_joiner_uuid st),
                             st_joiner_metadata := fmdrop key (st_joiner_metadata st)\<rparr>
                 in case ring_add (en_xxh64 en) (st_view st) node nid of
                      Inl _ \<Rightarrow> (st, [])
                    | Inr view \<Rightarrow>
                        (let mm = (if meta \<noteq> fmempty then metadata_add (st_metadata st) [(node, meta)]
                                   else st_metadata st)
                         in (st\<lparr>st_view := view, st_metadata := mm\<rparr>,
                             [\<lparr>nsc_endpoint = node, nsc_status = Up, nsc_metadata = meta\<rparr>])))))"

fun apply_nodes ::
  "env \<Rightarrow> service_state \<Rightarrow> endpoint list \<Rightarrow> service_state \<times> node_status_change list" where
  "apply_nodes en st [] = (st, [])"
| "apply_nodes en st (node # nodes) =
     (let (st, change) = apply_node en st node; (st, changes) = apply_nodes en st nodes
      in (st, change @ changes))"

fun respond_parked ::
  "rapid_response \<Rightarrow> service_state \<Rightarrow> endpoint list \<Rightarrow> service_state \<times> service_effect list" where
  "respond_parked wrapped st [] = (st, [])"
| "respond_parked wrapped st (node # nodes) =
     (let key = endpoint_key_of node
      in case fmlookup (st_joiners_to_respond_to st) key of
           None \<Rightarrow> respond_parked wrapped st nodes
         | Some parked \<Rightarrow>
             (let st = st\<lparr>st_joiners_to_respond_to := fmdrop key (st_joiners_to_respond_to st)\<rparr>;
                  (st, effects) = respond_parked wrapped st nodes
              in (st, map (\<lambda>r. Reply r (Inr wrapped)) parked @ effects)))"

definition respond_to_joiners ::
  "env \<Rightarrow> service_state \<Rightarrow> endpoint list \<Rightarrow> endpoint list \<Rightarrow> service_state \<times> service_effect list" where
  "respond_to_joiners en st proposal new_membership =
     (let (st, c) = configuration_id en st;
          all_metadata = metadata_snapshot en st;
          response = \<lparr>jr_sender = Some (st_my_addr st),
            jr_status_code = join_status_num SafeToJoinCode, jr_configuration_id = c,
            jr_endpoints = new_membership, jr_identifiers = current_identifiers (st_view st),
            jr_metadata_keys = map fst all_metadata, jr_metadata_values = map snd all_metadata\<rparr>
      in respond_parked (RapidResponse (Some (JoinResponse response))) st proposal)"

definition decide_view_change ::
  "env \<Rightarrow> service_state \<Rightarrow> endpoint list \<Rightarrow> service_state \<times> service_effect list" where
  "decide_view_change en st proposal =
     (let (st, aborts) = cancel_failure_detectors st;
          (st, status_changes) = apply_nodes en st proposal;
          (st, new_configuration_id) = configuration_id en st;
          new_membership = ring_zero (st_view st);
          event = \<lparr>csc_configuration_id = new_configuration_id, csc_membership = new_membership,
            csc_delta = status_changes\<rparr>;
          st = st\<lparr>st_cut_detector := cut_clear (st_cut_detector st), st_lifecycle := Running\<rparr>;
          (st, fallback) = reinstate_fast_paxos en st;
          recipients = (if st_broadcaster st
            then [SetMembership (endpoints_as_socket_addrs en new_membership)] else []);
          (st, detectors) =
            (if is_host_present (st_view st) (st_my_addr st) then rebuild en st
             else (st, [Publish Kicked event]));
          (st, replies) = respond_to_joiners en st proposal new_membership
      in (st, aborts @ [Publish ViewChange event] @ fallback @ recipients @ detectors @ replies))"

section \<open>Consensus glue\<close>

definition spawn_broadcast :: "service_state \<Rightarrow> rapid_request \<Rightarrow> service_effect list" where
  "spawn_broadcast st req = (if st_broadcaster st then [BroadcastEffect req] else [])"

definition spawn_unicast :: "env \<Rightarrow> service_state \<Rightarrow> endpoint \<Rightarrow> rapid_request \<Rightarrow> service_effect list" where
  "spawn_unicast en st target req =
     (if \<not> st_consensus_client st then []
      else case endpoint_to_socket_addr en target of None \<Rightarrow> [] | Some addr \<Rightarrow> [UnicastEffect addr req])"

definition spawn_fallback :: "service_state \<Rightarrow> nat \<Rightarrow> service_state \<times> service_effect list" where
  "spawn_fallback st delay =
     (let aborts = (case st_pending_fallback st of None \<Rightarrow> [] | Some d \<Rightarrow> [AbortFallback d])
      in (st\<lparr>st_pending_fallback := Some delay\<rparr>, aborts @ [SpawnFallback delay]))"

definition dispatch_one ::
  "env \<Rightarrow> service_state \<Rightarrow> fast_outgoing \<Rightarrow> service_state \<times> service_effect list" where
  "dispatch_one en st out = (case out of
       FastBroadcast req \<Rightarrow> (st, spawn_broadcast st req)
     | FastUnicast target request \<Rightarrow> (st, spawn_unicast en st target request)
     | ScheduleClassicFallback delay \<Rightarrow> spawn_fallback st delay
     | FastDecision proposal \<Rightarrow>
         (let (st, effects) = decide_view_change en st proposal;
              (st, effects') = reinstate_fast_paxos en st
          in (st, effects @ effects')))"

fun dispatch ::
  "env \<Rightarrow> service_state \<Rightarrow> fast_outgoing list \<Rightarrow> service_state \<times> service_effect list" where
  "dispatch en st [] = (st, [])"
| "dispatch en st (out # outs) =
     (let (st, effects) = dispatch_one en st out; (st, effects') = dispatch en st outs
      in (st, effects @ effects'))"

definition service_propose ::
  "env \<Rightarrow> nat \<Rightarrow> service_state \<Rightarrow> endpoint list \<Rightarrow> service_state \<times> service_effect list" where
  "service_propose en jitter st proposal =
     (case st_fast_paxos st of
        None \<Rightarrow> (st, [])
      | Some fp \<Rightarrow>
          (let (fp, outs) = propose jitter fp proposal
           in dispatch en (st\<lparr>st_fast_paxos := Some fp\<rparr>) outs))"

definition start_classic :: "env \<Rightarrow> service_state \<Rightarrow> service_state \<times> service_effect list" where
  "start_classic en st =
     (case st_fast_paxos st of
        None \<Rightarrow> (st, [])
      | Some fp \<Rightarrow>
          (let (fp, outs) = start_classic_round (en_xxh64 en) fp
           in dispatch en (st\<lparr>st_fast_paxos := Some fp\<rparr>) outs))"

definition handle_consensus_request ::
  "env \<Rightarrow> service_state \<Rightarrow> rapid_request \<Rightarrow> service_state \<times> service_effect list" where
  "handle_consensus_request en st request =
     (case st_fast_paxos st of
        None \<Rightarrow> (st, [])
      | Some fp \<Rightarrow>
          (let (fp, outs) = handle_consensus_message fp request
           in dispatch en (st\<lparr>st_fast_paxos := Some fp\<rparr>) outs))"

section \<open>The command loop\<close>

datatype service_command =
    Request rapid_request reply_id
  | Memberlist reply_id
  | MembershipSize reply_id
  | MetadataQuery reply_id
  | ConfigurationIdQuery reply_id
  | ShutdownCommand
  | TickAlertBatcher
  | EdgeFailureCommand edge_failure
  | RebuildFailureDetectors reply_id
  | AlertQueueLen reply_id
  | ApplyProposal "endpoint list" reply_id
  | StartClassicRound
  | PublishInitialView reply_id

definition publish_initial_view :: "env \<Rightarrow> service_state \<Rightarrow> service_state \<times> service_effect list" where
  "publish_initial_view en st =
     (let (st, c) = configuration_id en st;
          membership = ring_zero (st_view st);
          metadata_lookup = map_of (rev (map (\<lambda>(k, v). ((ep_hostname k, ep_port k), v)) (metadata_snapshot en st)));
          delta = map (\<lambda>e. \<lparr>nsc_endpoint = e, nsc_status = Up,
            nsc_metadata = (case metadata_lookup (ep_hostname e, ep_port e) of
                None \<Rightarrow> fmempty | Some m \<Rightarrow> m)\<rparr>) membership
      in (st, [Publish ViewChange \<lparr>csc_configuration_id = c, csc_membership = membership,
                 csc_delta = delta\<rparr>]))"

definition handle_request ::
  "env \<Rightarrow> nat \<Rightarrow> nat \<Rightarrow> service_state \<Rightarrow> rapid_request \<Rightarrow> reply_id \<Rightarrow> service_state \<times> service_effect list" where
  "handle_request en now jitter st request reply =
     (if st_lifecycle st = ShuttingDown then (st, [Reply reply (Inl Shutdown)])
      else case req_content request of
        None \<Rightarrow> (st, [Reply reply (Inl Decode)])
      | Some content \<Rightarrow>
          (case content of
             PreJoinMessage msg \<Rightarrow>
               (let (st, resp) = handle_pre_join en st msg
                in (st, [Reply reply (Inr (RapidResponse (Some (JoinResponse resp))))]))
           | JoinMessage msg \<Rightarrow> handle_join en now st msg reply
           | BatchedAlertMessage msg \<Rightarrow>
               (let (st, proposal, effects) = handle_batched_alerts en st msg;
                    (st, effects') =
                      (if proposal \<noteq> [] then service_propose en jitter st proposal else (st, []))
                in (st, effects @ effects' @ [Reply reply (Inr default_response)]))
           | ProbeMessage _ \<Rightarrow>
               (st, [Reply reply (Inr (probe_response \<lparr>pr_status = node_status_num OkStatus\<rparr>))])
           | LeaveMessage msg \<Rightarrow>
               (let st = (case lv_sender msg of
                     None \<Rightarrow> st
                   | Some sender \<Rightarrow>
                       (let (st, c) = configuration_id en st
                        in handle_edge_failure en now st (EdgeFailure sender c)))
                in (st, [Reply reply (Inr default_response)]))
           | _ \<Rightarrow>
               (let (st, effects) = handle_consensus_request en st (RapidRequest (Some content))
                in (st, effects @ [Reply reply (Inr default_response)]))))"

definition handle_command ::
  "env \<Rightarrow> nat \<Rightarrow> nat \<Rightarrow> service_state \<Rightarrow> service_command \<Rightarrow>
   service_state \<times> service_effect list \<times> bool" where
  "handle_command en now jitter st cmd = (case cmd of
       ShutdownCommand \<Rightarrow> (st\<lparr>st_lifecycle := ShuttingDown\<rparr>, [], True)
     | Memberlist reply \<Rightarrow> (st, [ReplyEndpoints reply (memberlist st)], False)
     | MembershipSize reply \<Rightarrow> (st, [ReplyNat reply (service_membership_size st)], False)
     | MetadataQuery reply \<Rightarrow> (st, [ReplyMetadata reply (metadata_snapshot en st)], False)
     | ConfigurationIdQuery reply \<Rightarrow>
         (let (st, c) = configuration_id en st in (st, [ReplyConfigurationId reply c], False))
     | Request request reply \<Rightarrow>
         (let (st, effects) = handle_request en now jitter st request reply in (st, effects, False))
     | TickAlertBatcher \<Rightarrow> (let (st, effects) = handle_tick now st in (st, effects, False))
     | EdgeFailureCommand ev \<Rightarrow> (handle_edge_failure en now st ev, [], False)
     | RebuildFailureDetectors reply \<Rightarrow>
         (let (st, effects) = rebuild en st
          in (st, effects @ [ReplyNat reply (length (st_failure_detector_tasks st))], False))
     | AlertQueueLen reply \<Rightarrow> (st, [ReplyNat reply (length (st_send_queue st))], False)
     | ApplyProposal proposal reply \<Rightarrow>
         (let (st, effects) = decide_view_change en st proposal;
              (st, effects') = reinstate_fast_paxos en st
          in (st, effects @ effects' @ [ReplyUnit reply], False))
     | StartClassicRound \<Rightarrow> (let (st, effects) = start_classic en st in (st, effects, False))
     | PublishInitialView reply \<Rightarrow>
         (let (st, effects) = publish_initial_view en st in (st, effects @ [ReplyUnit reply], False)))"

text \<open>\<^verbatim>\<open>task::run\<close>: each command comes with the clock reading and the jitter drawn for it.\<close>

fun command_loop ::
  "env \<Rightarrow> service_state \<Rightarrow> (nat \<times> nat \<times> service_command) list \<Rightarrow> service_state \<times> service_effect list" where
  "command_loop en st [] = (st, [])"
| "command_loop en st ((now, jitter, cmd) # cmds) =
     (let (st, effects, stop) = handle_command en now jitter st cmd
      in if stop then (st, effects)
         else (let (st, effects') = command_loop en st cmds in (st, effects @ effects')))"

definition service_run ::
  "env \<Rightarrow> service_state \<Rightarrow> (nat \<times> nat \<times> service_command) list \<Rightarrow> service_state \<times> service_effect list" where
  "service_run en st cmds =
     (let (st, effects) = rebuild en st;
          (st, effects') = command_loop en st cmds;
          (st, aborts) = cancel_failure_detectors st
      in (st, effects @ effects' @ aborts))"

section \<open>Frame rules\<close>

lemma configuration_id_eq [svc_simps]:
  "configuration_id en st = (st\<lparr>st_view := fst (current_configuration_id (en_xxh64 en) (st_view st))\<rparr>,
     snd (current_configuration_id (en_xxh64 en) (st_view st)))"
  by (simp add: configuration_id_def split_beta)

lemma configuration_id_frame [simp]:
  "st_settings (fst (configuration_id en st)) = st_settings st"
  "st_my_addr (fst (configuration_id en st)) = st_my_addr st"
  "st_cut_detector (fst (configuration_id en st)) = st_cut_detector st"
  "st_metadata (fst (configuration_id en st)) = st_metadata st"
  "st_joiners_to_respond_to (fst (configuration_id en st)) = st_joiners_to_respond_to st"
  "st_joiner_uuid (fst (configuration_id en st)) = st_joiner_uuid st"
  "st_joiner_metadata (fst (configuration_id en st)) = st_joiner_metadata st"
  "st_lifecycle (fst (configuration_id en st)) = st_lifecycle st"
  "st_send_queue (fst (configuration_id en st)) = st_send_queue st"
  "st_last_enqueue_at (fst (configuration_id en st)) = st_last_enqueue_at st"
  "st_broadcaster (fst (configuration_id en st)) = st_broadcaster st"
  "st_proposal_tx (fst (configuration_id en st)) = st_proposal_tx st"
  "st_failure_detector_tasks (fst (configuration_id en st)) = st_failure_detector_tasks st"
  "st_fd_factory (fst (configuration_id en st)) = st_fd_factory st"
  "st_fd_notifier_tx (fst (configuration_id en st)) = st_fd_notifier_tx st"
  "st_fast_paxos (fst (configuration_id en st)) = st_fast_paxos st"
  "st_consensus_client (fst (configuration_id en st)) = st_consensus_client st"
  "st_pending_fallback (fst (configuration_id en st)) = st_pending_fallback st"
  by (simp_all add: configuration_id_eq)

lemma fm_dom_eq [simp]: "is_host_present (fst (current_configuration_id x v)) = is_host_present v"
  "is_identifier_present (fst (current_configuration_id x v)) = is_identifier_present v"
  "membership_size (fst (current_configuration_id x v)) = membership_size v"
  by (auto simp: fun_eq_iff is_identifier_present_def membership_size_def)

text \<open>
  Several operations only refresh what the view caches. Two views agree up to caches when their
  rings, members and identifiers are the same.
\<close>

definition same_view :: "membership_view \<Rightarrow> membership_view \<Rightarrow> bool" where
  "same_view v w \<longleftrightarrow> mv_k v = mv_k w \<and> mv_rings v = mv_rings w \<and> mv_all_nodes v = mv_all_nodes w \<and>
     mv_identifiers v = mv_identifiers w \<and> mv_identifier_objs v = mv_identifier_objs w"

lemma same_view_refl [simp]: "same_view v v"
  by (simp add: same_view_def)

lemma same_view_trans [trans]: "same_view u v \<Longrightarrow> same_view v w \<Longrightarrow> same_view u w"
  by (simp add: same_view_def)

lemma same_view_config [simp]: "same_view (fst (current_configuration_id x v)) v"
  by (simp add: same_view_def)

lemma same_view_observers [simp]: "same_view (fst (get_observers_of x v e)) v"
  by (simp add: same_view_def)

lemma same_view_invalidate [simp]:
  "same_view (fst (snd (invalidate_failing_edges x it cd v))) v"
  by (rule invalidate_view) (auto intro: same_view_trans[OF same_view_observers])

lemma same_view_facts:
  assumes "same_view v w"
  shows "members v = members w" "identifiers_seen v = identifiers_seen w"
    "membership_size v = membership_size w" "ring_zero v = ring_zero w"
    "true_configuration_id x v = true_configuration_id x w"
    "is_host_present v = is_host_present w" "is_identifier_present v = is_identifier_present w"
  using assms
  by (auto simp: same_view_def members_def is_host_present_def identifiers_seen_def is_identifier_present_def
      membership_size_def ring_zero_def get_ring_def true_configuration_id_def current_identifiers_def fun_eq_iff)

lemma invalidate_inv_over:
  assumes "view_inv_over x es v"
  shows "view_inv_over x es (fst (snd (invalidate_failing_edges x it cd v)))"
  using assms same_view_invalidate[of x it cd v] by (auto simp: view_inv_over_def same_view_def)

lemma configuration_inv_over:
  "view_inv_over x es v \<Longrightarrow> view_inv_over x es (fst (current_configuration_id x v))"
  by (auto simp: view_inv_over_def intro: view_inv_intros)

section \<open>The invariant of the actor\<close>

text \<open>
  The parts are each in their own invariant, and the consensus instance belongs to the current
  configuration: its configuration identifier is the view's, its quorum size the membership size.
\<close>

definition paxos_current :: "env \<Rightarrow> service_state \<Rightarrow> bool" where
  "paxos_current en st = (case st_fast_paxos st of
       None \<Rightarrow> True
     | Some fp \<Rightarrow> fp_configuration_id fp = true_configuration_id (en_xxh64 en) (st_view st) \<and>
         fp_membership_size fp = membership_size (st_view st) \<and> fp_my_addr fp = st_my_addr st)"

definition parts_inv :: "env \<Rightarrow> endpoint list \<Rightarrow> service_state \<Rightarrow> bool" where
  "parts_inv en es st \<longleftrightarrow> view_inv_over (en_xxh64 en) es (st_view st) \<and>
     cut_inv (st_cut_detector st) \<and> metadata_inv (st_metadata st)"

definition service_inv :: "env \<Rightarrow> endpoint list \<Rightarrow> service_state \<Rightarrow> bool" where
  "service_inv en es st \<longleftrightarrow> parts_inv en es st \<and> paxos_current en st"

lemma configuration_id_parts: "parts_inv en es st \<Longrightarrow> parts_inv en es (fst (configuration_id en st))"
  by (simp add: parts_inv_def configuration_id_eq configuration_inv_over)

lemma configuration_id_paxos [simp]:
  "paxos_current en (fst (configuration_id en st)) = paxos_current en st"
  by (simp add: paxos_current_def configuration_id_eq split: option.split)

lemma configuration_id_true:
  "parts_inv en es st \<Longrightarrow> snd (configuration_id en st) = true_configuration_id (en_xxh64 en) (st_view st)"
  using current_configuration_id_true(1)
  by (auto simp: parts_inv_def configuration_id_eq view_inv_over_def view_inv_def)

lemma configuration_id_inv [svc_simps]:
  "service_inv en es st \<Longrightarrow> service_inv en es (fst (configuration_id en st))"
  by (simp add: service_inv_def configuration_id_parts)

lemma inv_frame:
  assumes "st_view st' = st_view st" "st_cut_detector st' = st_cut_detector st"
    "st_metadata st' = st_metadata st" "st_my_addr st' = st_my_addr st"
    "st_fast_paxos st' = st_fast_paxos st"
  shows "service_inv en es st' = service_inv en es st" "parts_inv en es st' = parts_inv en es st"
    "paxos_current en st' = paxos_current en st"
  unfolding service_inv_def parts_inv_def paxos_current_def assms by (rule refl)+

lemma inv_updates [simp]:
  "service_inv en es (st\<lparr>st_joiners_to_respond_to := a0\<rparr>) = service_inv en es st"
  "service_inv en es (st\<lparr>st_joiner_uuid := a1\<rparr>) = service_inv en es st"
  "service_inv en es (st\<lparr>st_joiner_metadata := a2\<rparr>) = service_inv en es st"
  "service_inv en es (st\<lparr>st_lifecycle := a3\<rparr>) = service_inv en es st"
  "service_inv en es (st\<lparr>st_send_queue := a4\<rparr>) = service_inv en es st"
  "service_inv en es (st\<lparr>st_last_enqueue_at := a5\<rparr>) = service_inv en es st"
  "service_inv en es (st\<lparr>st_failure_detector_tasks := a6\<rparr>) = service_inv en es st"
  "service_inv en es (st\<lparr>st_pending_fallback := a7\<rparr>) = service_inv en es st"
  "parts_inv en es (st\<lparr>st_joiners_to_respond_to := a0\<rparr>) = parts_inv en es st"
  "parts_inv en es (st\<lparr>st_joiner_uuid := a1\<rparr>) = parts_inv en es st"
  "parts_inv en es (st\<lparr>st_joiner_metadata := a2\<rparr>) = parts_inv en es st"
  "parts_inv en es (st\<lparr>st_lifecycle := a3\<rparr>) = parts_inv en es st"
  "parts_inv en es (st\<lparr>st_send_queue := a4\<rparr>) = parts_inv en es st"
  "parts_inv en es (st\<lparr>st_last_enqueue_at := a5\<rparr>) = parts_inv en es st"
  "parts_inv en es (st\<lparr>st_failure_detector_tasks := a6\<rparr>) = parts_inv en es st"
  "parts_inv en es (st\<lparr>st_pending_fallback := a7\<rparr>) = parts_inv en es st"
  "paxos_current en (st\<lparr>st_joiners_to_respond_to := a0\<rparr>) = paxos_current en st"
  "paxos_current en (st\<lparr>st_joiner_uuid := a1\<rparr>) = paxos_current en st"
  "paxos_current en (st\<lparr>st_joiner_metadata := a2\<rparr>) = paxos_current en st"
  "paxos_current en (st\<lparr>st_lifecycle := a3\<rparr>) = paxos_current en st"
  "paxos_current en (st\<lparr>st_send_queue := a4\<rparr>) = paxos_current en st"
  "paxos_current en (st\<lparr>st_last_enqueue_at := a5\<rparr>) = paxos_current en st"
  "paxos_current en (st\<lparr>st_failure_detector_tasks := a6\<rparr>) = paxos_current en st"
  "paxos_current en (st\<lparr>st_pending_fallback := a7\<rparr>) = paxos_current en st"
  by (rule inv_frame; simp)+

lemma enqueue_alert_inv [svc_simps]: "service_inv en es (enqueue_alert now st a) = service_inv en es st"
  by (simp add: enqueue_alert_def)

lemma handle_pre_join_inv: "service_inv en es st \<Longrightarrow> service_inv en es (fst (handle_pre_join en st m))"
  using configuration_id_inv[of en es st]
  by (simp add: handle_pre_join_def Let_def split_beta)

lemma build_config_mismatch_inv:
  "service_inv en es st \<Longrightarrow> service_inv en es (fst (build_config_mismatch_response en st e i))"
  using configuration_id_inv[of en es st]
  by (simp add: build_config_mismatch_response_def Let_def split_beta)

lemma handle_join_inv:
  assumes "service_inv en es st"
  shows "service_inv en es (fst (handle_join en now st m r))"
proof -
  have c: "service_inv en es (fst (configuration_id en st))" by (rule configuration_id_inv[OF assms])
  show ?thesis
    unfolding handle_join_def Let_def split_beta
    using build_config_mismatch_inv[OF c]
    by (simp add: enqueue_alert_inv c)
qed

lemma extract_joiner_frame [simp]:
  "st_view (extract_joiner st a) = st_view st" "st_cut_detector (extract_joiner st a) = st_cut_detector st"
  "st_metadata (extract_joiner st a) = st_metadata st" "st_my_addr (extract_joiner st a) = st_my_addr st"
  "st_fast_paxos (extract_joiner st a) = st_fast_paxos st" "st_lifecycle (extract_joiner st a) = st_lifecycle st"
  "st_joiners_to_respond_to (extract_joiner st a) = st_joiners_to_respond_to st"
  "st_broadcaster (extract_joiner st a) = st_broadcaster st" "st_settings (extract_joiner st a) = st_settings st"
  by (auto simp: extract_joiner_def Let_def split: option.split)

lemma filter_alerts_frame [simp]:
  "st_view (fst (filter_alerts c st as)) = st_view st \<and>
   st_cut_detector (fst (filter_alerts c st as)) = st_cut_detector st \<and>
   st_metadata (fst (filter_alerts c st as)) = st_metadata st \<and>
   st_my_addr (fst (filter_alerts c st as)) = st_my_addr st \<and>
   st_fast_paxos (fst (filter_alerts c st as)) = st_fast_paxos st \<and>
   st_lifecycle (fst (filter_alerts c st as)) = st_lifecycle st \<and>
   st_joiners_to_respond_to (fst (filter_alerts c st as)) = st_joiners_to_respond_to st \<and>
   st_broadcaster (fst (filter_alerts c st as)) = st_broadcaster st"
  by (induction as arbitrary: st) (auto simp: Let_def split_beta)

lemma filter_alerts_inv: "service_inv en es (fst (filter_alerts c st as)) = service_inv en es st"
  by (rule inv_frame) simp_all

lemma detect_cut_inv:
  assumes "service_inv en es st"
  shows "service_inv en es (fst (detect_cut en st valid))"
proof -
  let ?x = "en_xxh64 en" and ?it = "en_cut_order en"
  let ?cd = "fst (aggregate_all ?it (st_cut_detector st) valid)"
  have "cut_inv ?cd" using assms by (simp add: aggregate_all_feed feed_inv service_inv_def parts_inv_def)
  then have "cut_inv (fst (invalidate_failing_edges ?x ?it ?cd (st_view st)))" by (rule invalidate_inv)
  moreover have "view_inv_over ?x es (fst (snd (invalidate_failing_edges ?x ?it ?cd (st_view st))))"
    using assms by (simp add: invalidate_inv_over service_inv_def parts_inv_def)
  moreover note same_view_facts[OF same_view_invalidate[of ?x ?it ?cd "st_view st"]]
  ultimately show ?thesis
    using assms
    by (auto simp: detect_cut_def Let_def split_beta service_inv_def parts_inv_def paxos_current_def
        split: option.split)
qed

lemma handle_batched_alerts_inv:
  assumes "service_inv en es st"
  shows "service_inv en es (fst (handle_batched_alerts en st b))"
proof -
  let ?st = "fst (configuration_id en st)" and ?c = "snd (configuration_id en st)"
  have c: "service_inv en es ?st" by (rule configuration_id_inv[OF assms])
  let ?f = "filter_alerts ?c ?st (ba_messages b)"
  have d: "service_inv en es (fst (detect_cut en (fst ?f) (snd ?f)))"
    using c by (intro detect_cut_inv) (simp add: filter_alerts_inv)
  show ?thesis
    unfolding handle_batched_alerts_def Let_def split_beta
    using c d by simp
qed

lemma handle_tick_inv: "service_inv en es (fst (handle_tick now st)) = service_inv en es st"
  by (simp add: handle_tick_def Let_def split: option.split)

lemma cancel_failure_detectors_inv [simp]:
  "service_inv en es (fst (cancel_failure_detectors st)) = service_inv en es st"
  "parts_inv en es (fst (cancel_failure_detectors st)) = parts_inv en es st"
  by (simp_all add: cancel_failure_detectors_def)

lemma rebuild_inv: "service_inv en es st \<Longrightarrow> service_inv en es (fst (rebuild en st))"
  using configuration_id_inv[of en es "fst (cancel_failure_detectors st)"]
  by (simp add: rebuild_def Let_def split_beta split: sum.split)

lemma handle_edge_failure_inv:
  "service_inv en es st \<Longrightarrow> service_inv en es (handle_edge_failure en now st ev)"
  using configuration_id_inv[of en es st]
  by (simp add: handle_edge_failure_def Let_def split_beta enqueue_alert_inv)

lemma publish_initial_view_inv:
  "service_inv en es st \<Longrightarrow> service_inv en es (fst (publish_initial_view en st))"
  using configuration_id_inv[of en es st] by (simp add: publish_initial_view_def Let_def split_beta)

lemma apply_node_frame [simp]:
  "st_my_addr (fst (apply_node en st n)) = st_my_addr st"
  "st_settings (fst (apply_node en st n)) = st_settings st"
  "st_cut_detector (fst (apply_node en st n)) = st_cut_detector st"
  "st_broadcaster (fst (apply_node en st n)) = st_broadcaster st"
  "st_lifecycle (fst (apply_node en st n)) = st_lifecycle st"
  "st_joiners_to_respond_to (fst (apply_node en st n)) = st_joiners_to_respond_to st"
  by (auto simp: apply_node_def Let_def split: option.split sum.split)

lemma apply_node_view:
  "st_view (fst (apply_node en st n)) =
     (if is_host_present (st_view st) n then view_step (en_xxh64 en) (st_view st) (DeleteOp n)
      else case fmlookup (st_joiner_uuid st) (endpoint_key_of n) of
             None \<Rightarrow> st_view st
           | Some nid \<Rightarrow> view_step (en_xxh64 en) (st_view st) (AddOp n nid))"
  by (auto simp: apply_node_def Let_def view_step_def split: option.split sum.split)

lemma apply_node_metadata:
  "metadata_inv (st_metadata st) \<Longrightarrow> metadata_inv (st_metadata (fst (apply_node en st n)))"
  by (auto simp: apply_node_def Let_def metadata_add_inv metadata_remove_inv split: option.split sum.split)

lemma apply_node_parts:
  assumes "parts_inv en es st" "n \<in> set es"
  shows "parts_inv en es (fst (apply_node en st n))"
proof -
  have "view_inv_over (en_xxh64 en) es (st_view (fst (apply_node en st n)))"
    using assms view_step_inv[of "en_xxh64 en" es "st_view st"]
    by (auto simp: apply_node_view parts_inv_def view_op_over_def split: option.split)
  then show ?thesis using assms by (simp add: parts_inv_def apply_node_metadata)
qed

lemma apply_nodes_frame [simp]:
  "st_my_addr (fst (apply_nodes en st ns)) = st_my_addr st"
  "st_settings (fst (apply_nodes en st ns)) = st_settings st"
  "st_cut_detector (fst (apply_nodes en st ns)) = st_cut_detector st"
  "st_broadcaster (fst (apply_nodes en st ns)) = st_broadcaster st"
  "st_lifecycle (fst (apply_nodes en st ns)) = st_lifecycle st"
  "st_joiners_to_respond_to (fst (apply_nodes en st ns)) = st_joiners_to_respond_to st"
  by (induction ns arbitrary: st) (simp_all add: Let_def split_beta)

lemma apply_nodes_parts:
  "parts_inv en es st \<Longrightarrow> set ns \<subseteq> set es \<Longrightarrow> parts_inv en es (fst (apply_nodes en st ns))"
  by (induction ns arbitrary: st) (simp_all add: Let_def split_beta apply_node_parts)

lemma reinstate_fast_paxos_inv:
  assumes "parts_inv en es st"
  shows "service_inv en es (fst (reinstate_fast_paxos en st))"
proof -
  let ?st = "st\<lparr>st_pending_fallback := None\<rparr>"
  let ?st' = "fst (configuration_id en ?st)"
  have p: "parts_inv en es ?st" using assms by simp
  have "parts_inv en es ?st'" using configuration_id_parts[OF p] .
  moreover have "snd (configuration_id en ?st) = true_configuration_id (en_xxh64 en) (st_view ?st')"
    using configuration_id_true[OF p] by (simp add: configuration_id_eq)
  ultimately show ?thesis
    unfolding service_inv_def parts_inv_def paxos_current_def reinstate_fast_paxos_def Let_def split_beta
    by (simp add: fast_paxos_new_def)
qed

lemma respond_parked_frame [simp]:
  "st_view (fst (respond_parked w st ns)) = st_view st"
  "service_inv en es (fst (respond_parked w st ns)) = service_inv en es st"
  "st_lifecycle (fst (respond_parked w st ns)) = st_lifecycle st"
  by (induction ns arbitrary: st) (simp_all add: Let_def split_beta split: option.split)

lemma respond_to_joiners_inv:
  "service_inv en es st \<Longrightarrow> service_inv en es (fst (respond_to_joiners en st p m))"
  by (simp add: respond_to_joiners_def Let_def split_beta configuration_id_inv)

lemma cut_clear_parts:
  "parts_inv en es st \<Longrightarrow> parts_inv en es (st\<lparr>st_cut_detector := cut_clear (st_cut_detector st), st_lifecycle := l\<rparr>)"
  by (simp add: parts_inv_def cut_clear_inv)

text \<open>\<open>decide_view_change\<close> in stages, so that each can be reasoned about by itself.\<close>

definition vc_applied :: "env \<Rightarrow> service_state \<Rightarrow> endpoint list \<Rightarrow> service_state" where
  "vc_applied en st proposal = fst (apply_nodes en (fst (cancel_failure_detectors st)) proposal)"

definition vc_event :: "env \<Rightarrow> service_state \<Rightarrow> endpoint list \<Rightarrow> cluster_status_change" where
  "vc_event en st proposal =
     (let st' = vc_applied en st proposal in
      \<lparr>csc_configuration_id = snd (configuration_id en st'),
       csc_membership = ring_zero (st_view (fst (configuration_id en st'))),
       csc_delta = snd (apply_nodes en (fst (cancel_failure_detectors st)) proposal)\<rparr>)"

definition vc_reset :: "env \<Rightarrow> service_state \<Rightarrow> endpoint list \<Rightarrow> service_state" where
  "vc_reset en st proposal =
     (let st' = fst (configuration_id en (vc_applied en st proposal)) in
      st'\<lparr>st_cut_detector := cut_clear (st_cut_detector st'), st_lifecycle := Running\<rparr>)"

definition vc_detectors :: "env \<Rightarrow> service_state \<Rightarrow> endpoint list \<Rightarrow> service_state \<times> service_effect list" where
  "vc_detectors en st proposal =
     (let st' = fst (reinstate_fast_paxos en (vc_reset en st proposal)) in
      if is_host_present (st_view st') (st_my_addr st') then rebuild en st'
      else (st', [Publish Kicked (vc_event en st proposal)]))"

lemma decide_view_change_stages:
  "decide_view_change en st proposal =
     (let (st', replies) = respond_to_joiners en (fst (vc_detectors en st proposal)) proposal
            (csc_membership (vc_event en st proposal))
      in (st', snd (cancel_failure_detectors st) @ [Publish ViewChange (vc_event en st proposal)] @
            snd (reinstate_fast_paxos en (vc_reset en st proposal)) @
            (if st_broadcaster (fst (reinstate_fast_paxos en (vc_reset en st proposal)))
             then [SetMembership (endpoints_as_socket_addrs en (csc_membership (vc_event en st proposal)))]
             else []) @
            snd (vc_detectors en st proposal) @ replies))"
  by (simp add: decide_view_change_def vc_detectors_def vc_reset_def vc_event_def vc_applied_def
      Let_def split_beta)

lemma vc_detectors_inv:
  assumes "parts_inv en es st" "set proposal \<subseteq> set es"
  shows "service_inv en es (fst (vc_detectors en st proposal))"
proof -
  have "parts_inv en es (vc_applied en st proposal)"
    using assms by (simp add: vc_applied_def apply_nodes_parts)
  then have "parts_inv en es (vc_reset en st proposal)"
    unfolding vc_reset_def Let_def by (intro cut_clear_parts configuration_id_parts)
  then have "service_inv en es (fst (reinstate_fast_paxos en (vc_reset en st proposal)))"
    by (rule reinstate_fast_paxos_inv)
  then show ?thesis by (simp add: vc_detectors_def Let_def rebuild_inv)
qed

lemma decide_view_change_inv:
  assumes "parts_inv en es st" "set proposal \<subseteq> set es"
  shows "service_inv en es (fst (decide_view_change en st proposal))"
  using vc_detectors_inv[OF assms] by (simp add: decide_view_change_stages split_beta respond_to_joiners_inv)

lemma dispatch_one_inv:
  assumes "service_inv en es st" "\<And>v. out = FastDecision v \<Longrightarrow> set v \<subseteq> set es"
  shows "service_inv en es (fst (dispatch_one en st out))"
proof (cases out)
  case (FastDecision v)
  then have "service_inv en es (fst (decide_view_change en st v))"
    using assms by (intro decide_view_change_inv) (auto simp: service_inv_def)
  then have "service_inv en es (fst (reinstate_fast_paxos en (fst (decide_view_change en st v))))"
    by (intro reinstate_fast_paxos_inv) (simp add: service_inv_def)
  then show ?thesis using FastDecision by (simp add: dispatch_one_def split_beta Let_def)
qed (use assms in \<open>auto simp: dispatch_one_def spawn_fallback_def Let_def\<close>)

lemma dispatch_inv:
  assumes "service_inv en es st" "\<And>v. FastDecision v \<in> set outs \<Longrightarrow> set v \<subseteq> set es"
  shows "service_inv en es (fst (dispatch en st outs))"
  using assms by (induction outs arbitrary: st) (auto simp: Let_def split_beta dispatch_one_inv)

lemma fast_handler_frame [simp]:
  "fp_configuration_id (fst (propose j fp v)) = fp_configuration_id fp"
  "fp_membership_size (fst (propose j fp v)) = fp_membership_size fp"
  "fp_my_addr (fst (propose j fp v)) = fp_my_addr fp"
  "fp_configuration_id (fst (start_classic_round x fp)) = fp_configuration_id fp"
  "fp_membership_size (fst (start_classic_round x fp)) = fp_membership_size fp"
  "fp_my_addr (fst (start_classic_round x fp)) = fp_my_addr fp"
  "fp_configuration_id (fst (handle_consensus_message fp r)) = fp_configuration_id fp"
  "fp_membership_size (fst (handle_consensus_message fp r)) = fp_membership_size fp"
  "fp_my_addr (fst (handle_consensus_message fp r)) = fp_my_addr fp"
  by (auto simp: propose_def start_classic_round_def handle_consensus_message_def handle_paxos_def
      handle_fast_round_proposal_def Let_def split_beta split: option.split request_content.split)

definition request_values :: "rapid_request \<Rightarrow> endpoint list" where
  "request_values r = (case req_content r of
       Some (FastRoundPhase2bMessage m) \<Rightarrow> fr_endpoints m
     | Some (Phase2bMessage m) \<Rightarrow> p2b_endpoints m
     | _ \<Rightarrow> [])"

lemma no_decision [simp]:
  "FastDecision v \<notin> set (snd (propose j fp p))" "FastDecision v \<notin> set (snd (start_classic_round x fp))"
  by (auto simp: propose_def start_classic_round_def start_phase1a_def Let_def)

lemma consensus_decision:
  assumes "FastDecision v \<in> set (snd (handle_consensus_message fp r))"
  shows "v = request_values r"
proof (cases "req_content r")
  case (Some content)
  then show ?thesis
    using assms
    by (cases content)
      (auto simp: handle_consensus_message_def request_values_def handle_paxos_def
        handle_fast_round_proposal_def handle_phase1a_def handle_phase1b_def handle_phase2a_def
        handle_phase2b_def Let_def split: option.splits if_splits)
qed (use assms in \<open>simp add: handle_consensus_message_def\<close>)

lemma set_paxos_inv:
  assumes "service_inv en es st" "st_fast_paxos st = Some fp" "fp_configuration_id fp' = fp_configuration_id fp"
    "fp_membership_size fp' = fp_membership_size fp" "fp_my_addr fp' = fp_my_addr fp"
  shows "service_inv en es (st\<lparr>st_fast_paxos := Some fp'\<rparr>)"
  using assms by (simp add: service_inv_def parts_inv_def paxos_current_def)

lemma service_propose_inv:
  "service_inv en es st \<Longrightarrow> service_inv en es (fst (service_propose en j st p))"
  by (auto simp: service_propose_def split_beta Let_def intro!: dispatch_inv set_paxos_inv split: option.split)

lemma start_classic_inv: "service_inv en es st \<Longrightarrow> service_inv en es (fst (start_classic en st))"
  by (auto simp: start_classic_def split_beta Let_def intro!: dispatch_inv set_paxos_inv split: option.split)

lemma handle_consensus_request_inv:
  assumes "service_inv en es st" "set (request_values r) \<subseteq> set es"
  shows "service_inv en es (fst (handle_consensus_request en st r))"
  using assms consensus_decision
  by (auto simp: handle_consensus_request_def split_beta Let_def intro!: dispatch_inv set_paxos_inv
      split: option.split)

definition command_over :: "endpoint list \<Rightarrow> nat \<times> nat \<times> service_command \<Rightarrow> bool" where
  "command_over es c = (case snd (snd c) of
       Request r _ \<Rightarrow> set (request_values r) \<subseteq> set es
     | ApplyProposal p _ \<Rightarrow> set p \<subseteq> set es
     | _ \<Rightarrow> True)"

definition service_step :: "env \<Rightarrow> service_state \<Rightarrow> nat \<times> nat \<times> service_command \<Rightarrow> service_state" where
  "service_step en st c = fst (handle_command en (fst c) (fst (snd c)) st (snd (snd c)))"

lemma handle_request_inv:
  assumes "service_inv en es st" "set (request_values r) \<subseteq> set es"
  shows "service_inv en es (fst (handle_request en now j st r reply))"
proof (cases "st_lifecycle st = ShuttingDown")
  case False
  show ?thesis
  proof (cases "req_content r")
    case (Some content)
    then have r: "r = RapidRequest (Some content)" by (cases r) simp
    show ?thesis
      using False assms
      by (cases content)
        (auto simp: handle_request_def r Let_def split_beta handle_pre_join_inv handle_join_inv
          handle_batched_alerts_inv service_propose_inv handle_edge_failure_inv configuration_id_inv
          handle_consensus_request_inv split: option.split)
  qed (use False assms in \<open>simp add: handle_request_def\<close>)
qed (use assms in \<open>simp add: handle_request_def\<close>)

lemma service_step_inv:
  assumes inv: "service_inv en es st" and ok: "command_over es c"
  shows "service_inv en es (service_step en st c)"
proof (cases "snd (snd c)")
  case (ApplyProposal p reply)
  then have "service_inv en es (fst (decide_view_change en st p))"
    using assms by (intro decide_view_change_inv) (auto simp: service_inv_def command_over_def)
  then have "service_inv en es (fst (reinstate_fast_paxos en (fst (decide_view_change en st p))))"
    by (intro reinstate_fast_paxos_inv) (simp add: service_inv_def)
  then show ?thesis using ApplyProposal by (simp add: service_step_def handle_command_def split_beta Let_def)
next
  case (Request r reply)
  then show ?thesis
    using assms handle_request_inv by (simp add: service_step_def handle_command_def split_beta command_over_def)
qed (use inv in \<open>simp_all add: service_step_def handle_command_def split_beta Let_def configuration_id_inv
    handle_tick_inv handle_edge_failure_inv rebuild_inv start_classic_inv publish_initial_view_inv\<close>)

interpretation sm: event_machine "service_step en" "service_inv en es" "command_over es" for en es
  by unfold_locales (rule service_step_inv)

section \<open>What the handlers leave alone\<close>

lemma enqueue_alert_frame [simp]:
  "st_lifecycle (enqueue_alert now st a) = st_lifecycle st"
  "st_broadcaster (enqueue_alert now st a) = st_broadcaster st"
  "st_joiners_to_respond_to (enqueue_alert now st a) = st_joiners_to_respond_to st"
  "st_my_addr (enqueue_alert now st a) = st_my_addr st" "st_view (enqueue_alert now st a) = st_view st"
  by (simp_all add: enqueue_alert_def)

lemma handle_pre_join_frame [simp]:
  "st_lifecycle (fst (handle_pre_join en st m)) = st_lifecycle st"
  "st_broadcaster (fst (handle_pre_join en st m)) = st_broadcaster st"
  "st_joiners_to_respond_to (fst (handle_pre_join en st m)) = st_joiners_to_respond_to st"
  by (simp_all add: handle_pre_join_def Let_def split_beta)

lemma build_config_mismatch_frame [simp]:
  "st_lifecycle (fst (build_config_mismatch_response en st e i)) = st_lifecycle st"
  "st_broadcaster (fst (build_config_mismatch_response en st e i)) = st_broadcaster st"
  "st_joiners_to_respond_to (fst (build_config_mismatch_response en st e i)) = st_joiners_to_respond_to st"
  by (simp_all add: build_config_mismatch_response_def Let_def split_beta)

lemma handle_join_frame [simp]:
  "st_lifecycle (fst (handle_join en now st m r)) = st_lifecycle st"
  "st_broadcaster (fst (handle_join en now st m r)) = st_broadcaster st"
  by (simp_all add: handle_join_def Let_def split_beta)

lemma detect_cut_frame [simp]:
  "st_lifecycle (fst (detect_cut en st v)) = st_lifecycle st"
  "st_broadcaster (fst (detect_cut en st v)) = st_broadcaster st"
  "st_joiners_to_respond_to (fst (detect_cut en st v)) = st_joiners_to_respond_to st"
  "st_proposal_tx (fst (detect_cut en st v)) = st_proposal_tx st"
  by (simp_all add: detect_cut_def Let_def split_beta)

lemma handle_batched_alerts_frame [simp]:
  "st_broadcaster (fst (handle_batched_alerts en st b)) = st_broadcaster st"
  "st_joiners_to_respond_to (fst (handle_batched_alerts en st b)) = st_joiners_to_respond_to st"
  by (simp_all add: handle_batched_alerts_def Let_def split_beta)

lemma handle_tick_frame [simp]:
  "st_lifecycle (fst (handle_tick now st)) = st_lifecycle st"
  "st_broadcaster (fst (handle_tick now st)) = st_broadcaster st"
  "st_joiners_to_respond_to (fst (handle_tick now st)) = st_joiners_to_respond_to st"
  by (simp_all add: handle_tick_def Let_def split: option.split)

lemma rebuild_frame [simp]:
  "st_lifecycle (fst (rebuild en st)) = st_lifecycle st"
  "st_broadcaster (fst (rebuild en st)) = st_broadcaster st"
  "st_joiners_to_respond_to (fst (rebuild en st)) = st_joiners_to_respond_to st"
  "same_view (st_view (fst (rebuild en st))) (st_view st)"
  "st_my_addr (fst (rebuild en st)) = st_my_addr st"
  "st_metadata (fst (rebuild en st)) = st_metadata st"
  by (simp_all add: rebuild_def cancel_failure_detectors_def Let_def split_beta configuration_id_eq
      split: sum.split)

lemma handle_edge_failure_frame [simp]:
  "st_lifecycle (handle_edge_failure en now st ev) = st_lifecycle st"
  "st_broadcaster (handle_edge_failure en now st ev) = st_broadcaster st"
  "st_joiners_to_respond_to (handle_edge_failure en now st ev) = st_joiners_to_respond_to st"
  by (simp_all add: handle_edge_failure_def Let_def split_beta)

lemma publish_initial_view_frame [simp]:
  "st_lifecycle (fst (publish_initial_view en st)) = st_lifecycle st"
  "st_broadcaster (fst (publish_initial_view en st)) = st_broadcaster st"
  "st_joiners_to_respond_to (fst (publish_initial_view en st)) = st_joiners_to_respond_to st"
  by (simp_all add: publish_initial_view_def Let_def split_beta)

lemma reinstate_frame [simp]:
  "st_lifecycle (fst (reinstate_fast_paxos en st)) = st_lifecycle st"
  "st_broadcaster (fst (reinstate_fast_paxos en st)) = st_broadcaster st"
  "st_joiners_to_respond_to (fst (reinstate_fast_paxos en st)) = st_joiners_to_respond_to st"
  "same_view (st_view (fst (reinstate_fast_paxos en st))) (st_view st)"
  "st_my_addr (fst (reinstate_fast_paxos en st)) = st_my_addr st"
  "st_metadata (fst (reinstate_fast_paxos en st)) = st_metadata st"
  by (simp_all add: reinstate_fast_paxos_def Let_def split_beta configuration_id_eq)

lemma respond_parked_frame' [simp]:
  "st_broadcaster (fst (respond_parked w st ns)) = st_broadcaster st"
  by (induction ns arbitrary: st) (simp_all add: Let_def split_beta split: option.split)

lemma respond_to_joiners_frame [simp]:
  "st_lifecycle (fst (respond_to_joiners en st p m)) = st_lifecycle st"
  "st_broadcaster (fst (respond_to_joiners en st p m)) = st_broadcaster st"
  "same_view (st_view (fst (respond_to_joiners en st p m))) (st_view st)"
  by (simp_all add: respond_to_joiners_def Let_def split_beta configuration_id_eq)

lemma vc_frame [simp]:
  "st_broadcaster (vc_applied en st p) = st_broadcaster st"
  "st_joiners_to_respond_to (vc_applied en st p) = st_joiners_to_respond_to st"
  "st_broadcaster (vc_reset en st p) = st_broadcaster st"
  "st_joiners_to_respond_to (vc_reset en st p) = st_joiners_to_respond_to st"
  "st_lifecycle (vc_reset en st p) = Running"
  "st_broadcaster (fst (vc_detectors en st p)) = st_broadcaster st"
  "st_joiners_to_respond_to (fst (vc_detectors en st p)) = st_joiners_to_respond_to st"
  "st_lifecycle (fst (vc_detectors en st p)) = Running"
  "same_view (st_view (vc_reset en st p)) (st_view (vc_applied en st p))"
  by (simp_all add: vc_applied_def vc_reset_def vc_detectors_def cancel_failure_detectors_def Let_def
      configuration_id_eq)

lemma same_view_detectors [simp]: "same_view (st_view (fst (vc_detectors en st p))) (st_view (vc_applied en st p))"
proof -
  let ?s = "fst (reinstate_fast_paxos en (vc_reset en st p))"
  have "same_view (st_view (fst (vc_detectors en st p))) (st_view ?s)"
    by (simp add: vc_detectors_def Let_def)
  also have "same_view (st_view ?s) (st_view (vc_reset en st p))" by simp
  also have "same_view (st_view (vc_reset en st p)) (st_view (vc_applied en st p))" by simp
  finally show ?thesis .
qed

lemma decide_view_change_frame [simp]:
  "st_lifecycle (fst (decide_view_change en st p)) = Running"
  "st_broadcaster (fst (decide_view_change en st p)) = st_broadcaster st"
  "same_view (st_view (fst (decide_view_change en st p))) (st_view (vc_applied en st p))"
  by (simp_all add: decide_view_change_stages split_beta Let_def
      same_view_trans[OF respond_to_joiners_frame(3) same_view_detectors])

section \<open>An actor for the witnesses\<close>

definition demo_env :: env where
  "demo_env = \<lparr>en_xxh64 = demo_hash, en_cut_order = sorted_iter, en_proposal_order = sorted_iter,
     en_metadata_order = sorted_iter, en_parse_addr = (\<lambda>h p. Some (h, p))\<rparr>"

definition demo_service :: service_state where
  "demo_service = fst (install_fast_paxos demo_env (with_broadcaster (with_fd_factory
     (service_state_new (demo_ep 1) demo_view demo_cut metadata_new settings_for_tests))))"

definition demo_config :: configuration_id where
  "demo_config = snd (configuration_id demo_env demo_service)"

definition demo_join :: "nat \<Rightarrow> join_message" where
  "demo_join n = \<lparr>jm_sender = Some (demo_ep n), jm_node_id = Some (demo_nid n), jm_ring_number = [0],
     jm_configuration_id = demo_config, jm_metadata = None\<rparr>"

definition demo_commands :: "(nat \<times> nat \<times> service_command) list" where
  "demo_commands = [(10, 0, Request (RapidRequest (Some (JoinMessage (demo_join 4)))) 7),
     (20, 0, ApplyProposal [demo_ep 4, demo_ep 2] 8)]"

lemma demo_service_frame [simp]:
  "st_lifecycle demo_service = Running" "st_my_addr demo_service = demo_ep 1" "st_broadcaster demo_service"
  "st_joiners_to_respond_to demo_service = fmempty" "st_metadata demo_service = metadata_new"
  by (simp_all add: demo_service_def install_fast_paxos_def with_broadcaster_def with_fd_factory_def
      service_state_new_def)

lemma demo_service_inv: "service_inv demo_env (map demo_ep [1, 2, 3, 4, 5]) demo_service"
proof -
  have "view_bootstrap demo_hash 3 (map demo_nid [1, 2, 3]) (map demo_ep [1, 2, 3]) = Inr demo_view"
    by (rule demo_view_bootstrap)
  then have v: "view_inv_over demo_hash (map demo_ep [1, 2, 3, 4, 5]) demo_view"
    by (rule view_bootstrap_inv(1)[OF _ demo_no_collisions]) simp
  show ?thesis
    unfolding demo_service_def install_fast_paxos_def
    using v cut_new_fresh(1)[OF demo_cut_new]
    by (intro reinstate_fast_paxos_inv)
      (simp add: parts_inv_def service_state_new_def with_broadcaster_def with_fd_factory_def demo_env_def)
qed

end
