(* ===== verification/Service_Props.thy ===== *)
theory Service_Props
  imports Service
begin

text \<open>
  The properties of the membership-service actor: the invariant over every history of commands,
  one fast-round vote per configuration, the outcome of a view change, the accounting of
  replies, and the behaviour of the alert pipeline.
\<close>

section \<open>The invariant over histories\<close>

lemma service_new_inv:
  assumes "view_inv_over (en_xxh64 en) es v" "cut_inv cd"
  shows "service_inv en es (fst (install_fast_paxos en (service_state_new me v cd metadata_new se)))"
  unfolding install_fast_paxos_def
  using assms by (intro reinstate_fast_paxos_inv) (simp add: parts_inv_def service_state_new_def)

text \<open>
  C6. The actor's invariant. Start from a bootstrapped view and a fresh detector with the consensus
  instance installed, and process any commands over a collision-free universe of endpoints: the
  rings always equal the member set, the detector's bookkeeping is exact, the metadata maps are
  consistent, and the consensus instance belongs to the current configuration (its configuration
  identifier and quorum size are those of the current view), so a vote is never stamped with a
  past configuration.
\<close>

theorem service_history_inv:
  assumes "view_bootstrap (en_xxh64 en) k ids eps = Inr v" and "no_collisions (en_xxh64 en) k es"
    and "set eps \<subseteq> set es" and "cut_new k h l = Inr cd" and "list_all (command_over es) cmds"
  shows "service_inv en es (run (service_step en)
    (fst (install_fast_paxos en (service_state_new me v cd metadata_new se))) cmds)"
  using sm.run_inv[OF service_new_inv[OF view_bootstrap_inv(1)[OF assms(1-3)] cut_new_fresh(1)[OF assms(4)]] assms(5)] .

theorem service_history_inv_witness:
  "service_inv demo_env (map demo_ep [1, 2, 3, 4, 5]) (run (service_step demo_env)
     (fst (install_fast_paxos demo_env (service_state_new (demo_ep 1) demo_view demo_cut metadata_new settings_for_tests)))
     demo_commands)"
proof (rule service_history_inv[OF _ _ _ demo_cut_new])
  show "view_bootstrap (en_xxh64 demo_env) 3 (map demo_nid [1, 2, 3]) (map demo_ep [1, 2, 3]) = Inr demo_view"
    using demo_view_bootstrap by (simp add: demo_env_def)
  show "no_collisions (en_xxh64 demo_env) 3 (map demo_ep [1, 2, 3, 4, 5])"
    using demo_no_collisions by (simp add: demo_env_def)
  show "list_all (command_over (map demo_ep [1, 2, 3, 4, 5])) demo_commands"
    by (simp add: demo_commands_def command_over_def request_values_def)
qed simp

section \<open>One fast-round vote per configuration\<close>

fun is_fast_vote :: "service_effect \<Rightarrow> bool" where
  "is_fast_vote (BroadcastEffect (RapidRequest (Some (FastRoundPhase2bMessage _)))) = True"
| "is_fast_vote _ = False"

text \<open>
  Scan a list of effects: \<open>True\<close> means that no fast-round vote has been broadcast since the
  recipients were last replaced by a view change; a vote seen with \<open>False\<close> is a second one.
\<close>

fun vote_scan :: "bool \<Rightarrow> service_effect list \<Rightarrow> bool option" where
  "vote_scan b [] = Some b"
| "vote_scan b (SetMembership _ # es) = vote_scan True es"
| "vote_scan b (e # es) = (if is_fast_vote e then if b then vote_scan False es else None else vote_scan b es)"

definition sets_membership :: "service_effect \<Rightarrow> bool" where
  "sets_membership e = (case e of SetMembership _ \<Rightarrow> True | _ \<Rightarrow> False)"

lemma vote_scan_append: "vote_scan b (xs @ ys) = Option.bind (vote_scan b xs) (\<lambda>b. vote_scan b ys)"
  by (induction b xs rule: vote_scan.induct) auto

lemma vote_scan_quiet:
  "list_all (\<lambda>e. \<not> is_fast_vote e) es \<Longrightarrow> vote_scan b es = Some (b \<or> list_ex sets_membership es)"
  by (induction b es rule: vote_scan.induct) (auto simp: sets_membership_def)

text \<open>The state allows a vote: the flag may be \<open>False\<close> only while a proposal is announced.\<close>

definition vote_flag :: "service_state \<Rightarrow> bool \<Rightarrow> bool" where
  "vote_flag st b \<longleftrightarrow> b \<or> (st_broadcaster st \<and> st_lifecycle st = AnnouncedProposal)"

definition vote_step :: "service_state \<Rightarrow> service_effect list \<Rightarrow> service_state \<Rightarrow> bool" where
  "vote_step st es st' \<longleftrightarrow>
     (\<forall>b. vote_flag st b \<longrightarrow> (\<exists>b'. vote_scan b es = Some b' \<and> vote_flag st' b'))"

lemma vote_step_trans:
  "vote_step st es st' \<Longrightarrow> vote_step st' es' st'' \<Longrightarrow> vote_step st (es @ es') st''"
  by (fastforce simp: vote_step_def vote_scan_append)

lemma vote_step_quiet:
  assumes "list_all (\<lambda>e. \<not> is_fast_vote e) es" "st_broadcaster st' = st_broadcaster st"
    "st_lifecycle st' = st_lifecycle st"
  shows "vote_step st es st'"
  using assms by (auto simp: vote_step_def vote_scan_quiet vote_flag_def)

lemma map_quiet [simp]:
  "list_all (\<lambda>e. \<not> is_fast_vote e) (map AbortDetector xs)"
  "list_all (\<lambda>e. \<not> is_fast_vote e) (map SpawnDetector xs)"
  "list_all (\<lambda>e. \<not> is_fast_vote e) (map (\<lambda>r. Reply r (Inr w)) rs)"
  by (simp_all add: list_all_iff)

lemma rebuild_quiet [simp]: "list_all (\<lambda>e. \<not> is_fast_vote e) (snd (rebuild en st))"
  by (auto simp: rebuild_def cancel_failure_detectors_def Let_def split_beta list_all_iff split: sum.split)

lemma reinstate_quiet [simp]: "list_all (\<lambda>e. \<not> is_fast_vote e) (snd (reinstate_fast_paxos en st))"
  by (simp add: reinstate_fast_paxos_def Let_def split_beta split: option.split)

lemma respond_parked_quiet [simp]: "list_all (\<lambda>e. \<not> is_fast_vote e) (snd (respond_parked w st ns))"
  by (induction ns arbitrary: st) (simp_all add: Let_def split_beta split: option.split)

lemma decide_view_change_quiet:
  "list_all (\<lambda>e. \<not> is_fast_vote e) (snd (decide_view_change en st p))"
  "list_ex sets_membership (snd (decide_view_change en st p)) \<longleftrightarrow> st_broadcaster st \<or>
     list_ex sets_membership (snd (decide_view_change en st p))"
proof -
  show "list_all (\<lambda>e. \<not> is_fast_vote e) (snd (decide_view_change en st p))"
    by (simp add: decide_view_change_stages split_beta Let_def cancel_failure_detectors_def
        vc_detectors_def respond_to_joiners_def)
  show "list_ex sets_membership (snd (decide_view_change en st p)) \<longleftrightarrow> st_broadcaster st \<or>
     list_ex sets_membership (snd (decide_view_change en st p))"
    by (auto simp: decide_view_change_stages split_beta Let_def sets_membership_def)
qed

lemma decide_view_change_vote: "vote_step st (snd (decide_view_change en st p)) (fst (decide_view_change en st p))"
  using decide_view_change_quiet[of en st p]
  by (auto simp: vote_step_def vote_flag_def vote_scan_quiet)

definition quiet_out :: "fast_outgoing \<Rightarrow> bool" where
  "quiet_out out = (case out of FastBroadcast req \<Rightarrow> \<not> is_fast_vote (BroadcastEffect req) | _ \<Rightarrow> True)"

lemma dispatch_one_vote: "quiet_out out \<Longrightarrow> vote_step st (snd (dispatch_one en st out)) (fst (dispatch_one en st out))"
proof (cases out)
  case (FastDecision v)
  let ?st = "fst (decide_view_change en st v)"
  have "vote_step st (snd (decide_view_change en st v) @ snd (reinstate_fast_paxos en ?st))
      (fst (reinstate_fast_paxos en ?st))"
    by (rule vote_step_trans[OF decide_view_change_vote]) (rule vote_step_quiet; simp)
  then show ?thesis using FastDecision by (simp add: dispatch_one_def split_beta Let_def)
qed (auto simp: dispatch_one_def quiet_out_def spawn_broadcast_def spawn_unicast_def spawn_fallback_def Let_def
    intro!: vote_step_quiet split: option.split)

lemma dispatch_vote:
  "list_all quiet_out outs \<Longrightarrow> vote_step st (snd (dispatch en st outs)) (fst (dispatch en st outs))"
proof (induction outs arbitrary: st)
  case Nil
  then show ?case by (simp add: vote_step_def)
next
  case (Cons out outs)
  then show ?case
    using vote_step_trans[OF dispatch_one_vote[of out st en] Cons.IH] by (simp add: Let_def split_beta)
qed

lemma consensus_quiet_out:
  "list_all quiet_out (snd (handle_consensus_message fp r))" "list_all quiet_out (snd (start_classic_round x fp))"
  by (auto simp: handle_consensus_message_def handle_paxos_def handle_fast_round_proposal_def
      handle_phase1a_def handle_phase1b_def handle_phase2a_def handle_phase2b_def quiet_out_def
      start_classic_round_def start_phase1a_def Let_def split: option.split request_content.split)

lemma handle_consensus_vote:
  "vote_step st (snd (handle_consensus_request en st r)) (fst (handle_consensus_request en st r))"
proof (cases "st_fast_paxos st")
  case None
  then show ?thesis by (simp add: handle_consensus_request_def vote_step_def)
next
  case (Some fp)
  have "vote_step (st\<lparr>st_fast_paxos := Some (fst (handle_consensus_message fp r))\<rparr>)
      (snd (handle_consensus_request en st r)) (fst (handle_consensus_request en st r))"
    using dispatch_vote[OF consensus_quiet_out(1)[of fp r]] Some
    by (simp add: handle_consensus_request_def split_beta Let_def)
  then show ?thesis by (simp add: vote_step_def vote_flag_def)
qed

lemma start_classic_vote: "vote_step st (snd (start_classic en st)) (fst (start_classic en st))"
proof (cases "st_fast_paxos st")
  case None
  then show ?thesis by (simp add: start_classic_def vote_step_def)
next
  case (Some fp)
  have "vote_step (st\<lparr>st_fast_paxos := Some (fst (start_classic_round (en_xxh64 en) fp))\<rparr>)
      (snd (start_classic en st)) (fst (start_classic en st))"
    using dispatch_vote[OF consensus_quiet_out(2)[of "en_xxh64 en" fp]] Some
    by (simp add: start_classic_def split_beta Let_def)
  then show ?thesis by (simp add: vote_step_def vote_flag_def)
qed

text \<open>Announcing a proposal: at most one vote goes out, and the lifecycle records it.\<close>

lemma service_propose_vote:
  assumes "st_lifecycle st = AnnouncedProposal"
  shows "\<exists>b. vote_scan True (snd (service_propose en j st p)) = Some b \<and>
    vote_flag (fst (service_propose en j st p)) b"
  using assms
  by (auto simp: service_propose_def propose_def Let_def split_beta dispatch_one_def spawn_broadcast_def
      spawn_fallback_def vote_flag_def split: option.split)

lemma batched_alerts_cases:
  obtains "fst (snd (handle_batched_alerts en st m)) = []" "snd (snd (handle_batched_alerts en st m)) = []"
      "st_lifecycle (fst (handle_batched_alerts en st m)) = st_lifecycle st"
  | "st_lifecycle st \<noteq> AnnouncedProposal" "st_lifecycle (fst (handle_batched_alerts en st m)) = AnnouncedProposal"
      "list_all (\<lambda>e. \<not> is_fast_vote e \<and> \<not> sets_membership e) (snd (snd (handle_batched_alerts en st m)))"
proof -
  let ?f = "filter_alerts (snd (configuration_id en st)) (fst (configuration_id en st)) (ba_messages m)"
  show ?thesis
  proof (cases "st_lifecycle st = AnnouncedProposal \<or> snd (detect_cut en (fst ?f) (snd ?f)) = []")
    case True
    then show ?thesis
      by (intro that(1)) (auto simp: handle_batched_alerts_def Let_def split_beta)
  next
    case False
    then show ?thesis
      by (intro that(2)) (simp_all add: handle_batched_alerts_def Let_def split_beta sets_membership_def)
  qed
qed

lemma batched_alerts_vote:
  assumes "y = (if fst (snd (handle_batched_alerts en st m)) \<noteq> []
      then service_propose en j (fst (handle_batched_alerts en st m)) (fst (snd (handle_batched_alerts en st m)))
      else (fst (handle_batched_alerts en st m), []))"
  shows "vote_step st (snd (snd (handle_batched_alerts en st m)) @ snd y @ [Reply r z]) (fst y)"
proof (cases rule: batched_alerts_cases[of en st m])
  case 1
  then show ?thesis by (auto simp: assms intro!: vote_step_quiet)
next
  case 2
  let ?x = "handle_batched_alerts en st m"
  have "\<exists>b. vote_scan True (snd y @ [Reply r z]) = Some b \<and> vote_flag (fst y) b"
    using service_propose_vote[OF 2(2)] by (auto simp: assms vote_scan_append vote_flag_def)
  moreover have "vote_scan True (snd (snd ?x)) = Some True"
    using 2(3) by (simp add: vote_scan_quiet list_all_iff)
  ultimately show ?thesis
    using 2(1) by (auto simp: vote_step_def vote_scan_append vote_flag_def)
qed

lemma vote_step_reply: "vote_step st es st' \<Longrightarrow> vote_step st (es @ [Reply r z]) st'"
  "vote_step st es st' \<Longrightarrow> vote_step st (es @ [ReplyUnit r]) st'"
  by (auto intro!: vote_step_trans[of st es st'] vote_step_quiet)

lemma handle_request_vote:
  "vote_step st (snd (handle_request en now j st r reply)) (fst (handle_request en now j st r reply))"
proof (cases "st_lifecycle st = ShuttingDown \<or> req_content r = None")
  case True
  then show ?thesis by (auto simp: handle_request_def intro!: vote_step_quiet)
next
  case False
  then obtain content where r: "r = RapidRequest (Some content)" by (cases r) auto
  show ?thesis
  proof (cases content)
    case (BatchedAlertMessage m)
    show ?thesis
      using False batched_alerts_vote[OF refl, where en = en and st = st and m = m and j = j]
      by (simp add: handle_request_def r BatchedAlertMessage Let_def split_beta)
  next
    case (JoinMessage m)
    then show ?thesis
      using False by (auto simp: handle_request_def r handle_join_def Let_def split_beta intro!: vote_step_quiet)
  qed (use False handle_consensus_vote vote_step_reply in
      \<open>auto simp: handle_request_def r Let_def split_beta intro!: vote_step_quiet split: option.split\<close>)
qed

lemma handle_command_vote:
  assumes "cmd \<noteq> ShutdownCommand"
  shows "vote_step st (fst (snd (handle_command en now j st cmd))) (fst (handle_command en now j st cmd))"
proof (cases cmd)
  case (ApplyProposal p reply)
  let ?st = "fst (decide_view_change en st p)"
  have "vote_step st (snd (decide_view_change en st p) @ snd (reinstate_fast_paxos en ?st) @ [ReplyUnit reply])
      (fst (reinstate_fast_paxos en ?st))"
    by (rule vote_step_trans[OF decide_view_change_vote]) (rule vote_step_quiet; simp)
  then show ?thesis using ApplyProposal by (simp add: handle_command_def split_beta Let_def)
qed (use assms handle_request_vote start_classic_vote in
    \<open>auto simp: handle_command_def split_beta Let_def publish_initial_view_def handle_tick_def configuration_id_eq
      intro!: vote_step_quiet split: option.split\<close>)

lemma shutdown_command [simp]:
  "handle_command en now j st ShutdownCommand = (st\<lparr>st_lifecycle := ShuttingDown\<rparr>, [], True)"
  by (simp add: handle_command_def)

lemma command_loop_vote:
  "vote_flag st b \<Longrightarrow> vote_scan b (snd (command_loop en st cmds)) \<noteq> None"
proof (induction cmds arbitrary: st b)
  case (Cons c cmds)
  obtain now j cmd where c: "c = (now, j, cmd)" by (cases c)
  show ?case
  proof (cases "cmd = ShutdownCommand")
    case False
    then obtain b' where "vote_scan b (fst (snd (handle_command en now j st cmd))) = Some b'"
      "vote_flag (fst (handle_command en now j st cmd)) b'"
      using handle_command_vote Cons.prems by (metis vote_step_def)
    then show ?thesis
      using Cons.IH by (simp add: c split_beta Let_def vote_scan_append)
  qed (simp add: c)
qed simp

text \<open>
  C12. One fast-round vote per configuration. Whatever commands the actor processes (alert batches,
  consensus messages, classic-round timers, applied proposals, in any order), starting with no
  announced proposal it never broadcasts a second fast-round vote before a view change has
  replaced the recipients: the \<open>AnnouncedProposal\<close> guard of the alert handler is what the fast
  round's safety needs of its clients.
\<close>

theorem one_fast_vote_per_configuration:
  assumes "st_lifecycle st \<noteq> AnnouncedProposal"
  shows "vote_scan True (snd (service_run en st cmds)) \<noteq> None"
proof -
  obtain b where "vote_scan True (snd (command_loop en (fst (rebuild en st)) cmds)) = Some b"
    using command_loop_vote[of "fst (rebuild en st)" True en cmds] by (auto simp: vote_flag_def)
  then show ?thesis
    by (simp add: service_run_def Let_def split_beta vote_scan_append vote_scan_quiet
        cancel_failure_detectors_def)
qed

definition demo_batch :: "alert_message list \<Rightarrow> reply_id \<Rightarrow> service_command" where
  "demo_batch as r = Request (RapidRequest (Some (BatchedAlertMessage
     \<lparr>ba_sender = Some (demo_ep 2), ba_messages = map (\<lambda>a. a\<lparr>al_configuration_id := demo_config\<rparr>) as\<rparr>))) r"

theorem one_fast_vote_per_configuration_witness:
  "let es = snd (service_run demo_env demo_service
      [(10, 0, demo_batch [demo_alert 2 4 Up [0, 1]] 7), (20, 0, TickAlertBatcher)])
   in vote_scan True es \<noteq> None \<and> length (filter is_fast_vote es) = 1"
proof -
  have "length (filter is_fast_vote (snd (service_run demo_env demo_service
      [(10, 0, demo_batch [demo_alert 2 4 Up [0, 1]] 7), (20, 0, TickAlertBatcher)]))) = 1"
    by code_simp
  moreover have "st_lifecycle demo_service \<noteq> AnnouncedProposal" by simp
  ultimately show ?thesis
    using one_fast_vote_per_configuration[of demo_service demo_env] by (simp add: Let_def)
qed

section \<open>View changes\<close>

definition changed :: "edge_status \<Rightarrow> node_status_change list \<Rightarrow> endpoint set" where
  "changed s delta = nsc_endpoint ` {c \<in> set delta. nsc_status c = s}"

lemma changed_simps [simp]:
  "changed s [] = {}" "changed s (xs @ ys) = changed s xs \<union> changed s ys"
  "changed s [c] = (if nsc_status c = s then {nsc_endpoint c} else {})"
  by (auto simp: changed_def)

lemma parts_host_contains:
  assumes "parts_inv en es st" "n \<in> set es"
  shows "ring_contains (en_xxh64 en) (mv_rings (st_view st) ! 0) n \<longleftrightarrow> n \<in> members (st_view st)"
proof -
  have inv: "view_inv_over (en_xxh64 en) es (st_view st)" using assms(1) by (simp add: parts_inv_def)
  then have "view_inv (en_xxh64 en) (st_view st)" by (simp add: view_inv_over_def)
  moreover from this have "mv_rings (st_view st) ! 0 \<in> set (mv_rings (st_view st))"
    using view_wf_rings[of "en_xxh64 en" "st_view st"] by (auto simp: view_inv_def)
  ultimately show ?thesis
    using view_inv_contains view_inv_over_collision_free[OF inv assms(2)] by (auto simp: members_def)
qed

text \<open>One endpoint: it leaves, it enters, or it is neither a member nor an acceptable joiner.\<close>

lemma apply_node_cases:
  assumes "parts_inv en es st" "n \<in> set es"
  obtains (leaves) c where "n \<in> members (st_view st)" "snd (apply_node en st n) = [c]" "nsc_endpoint c = n"
      "nsc_status c = Down" "members (st_view (fst (apply_node en st n))) = members (st_view st) - {n}"
      "identifiers_seen (st_view (fst (apply_node en st n))) = identifiers_seen (st_view st)"
  | (enters) c nid where "n \<notin> members (st_view st)" "snd (apply_node en st n) = [c]" "nsc_endpoint c = n"
      "nsc_status c = Up" "members (st_view (fst (apply_node en st n))) = insert n (members (st_view st))"
      "fmlookup (st_joiner_uuid st) (endpoint_key_of n) = Some nid" "nid \<notin> identifiers_seen (st_view st)"
      "identifiers_seen (st_view (fst (apply_node en st n))) = insert nid (identifiers_seen (st_view st))"
  | (ignored) "n \<notin> members (st_view st)" "snd (apply_node en st n) = []"
      "members (st_view (fst (apply_node en st n))) = members (st_view st)"
      "identifiers_seen (st_view (fst (apply_node en st n))) = identifiers_seen (st_view st)"
      "\<And>nid. fmlookup (st_joiner_uuid st) (endpoint_key_of n) = Some nid \<Longrightarrow> nid \<in> identifiers_seen (st_view st)"
proof (cases "n \<in> members (st_view st)")
  case True
  then obtain v' where "ring_delete (en_xxh64 en) (st_view st) n = Inr v'"
    using parts_host_contains[OF assms] by (simp add: ring_delete_result)
  then show ?thesis
    using True ring_delete_members ring_delete_identifiers
    by (intro leaves[of "\<lparr>nsc_endpoint = n, nsc_status = Down, nsc_metadata = metadata_get (st_metadata st) n\<rparr>"])
      (simp_all add: apply_node_def Let_def members_def)
next
  case False
  then have np: "\<not> is_host_present (st_view st) n" by (simp add: members_def)
  show ?thesis
  proof (cases "fmlookup (st_joiner_uuid st) (endpoint_key_of n)")
    case None
    then show ?thesis using False np by (intro ignored) (simp_all add: apply_node_def Let_def)
  next
    case (Some nid)
    show ?thesis
    proof (cases "ring_add (en_xxh64 en) (st_view st) n nid")
      case (Inl err)
      then have "nid \<in> identifiers_seen (st_view st)"
        using False parts_host_contains[OF assms]
        by (auto simp: ring_add_def identifiers_seen_def Let_def split: if_splits)
      then show ?thesis using False np Some Inl by (intro ignored) (simp_all add: apply_node_def Let_def)
    next
      case (Inr v')
      then have "nid \<notin> identifiers_seen (st_view st)" by (simp add: ring_add_result identifiers_seen_def)
      then show ?thesis
        using False np Some Inr ring_add_members[OF Inr] ring_add_identifiers[OF Inr]
        by (intro enters[of "\<lparr>nsc_endpoint = n, nsc_status = Up,
            nsc_metadata = fm_get_or fmempty (st_joiner_metadata st) (endpoint_key_of n)\<rparr>" nid])
          (simp_all add: apply_node_def Let_def)
    qed
  qed
qed

lemma apply_node_uuid:
  "m \<noteq> n \<Longrightarrow> fmlookup (st_joiner_uuid (fst (apply_node en st n))) (endpoint_key_of m) =
     fmlookup (st_joiner_uuid st) (endpoint_key_of m)"
  by (auto simp: apply_node_def Let_def split: option.split sum.split)

definition delta_exact :: "endpoint list \<Rightarrow> endpoint set \<Rightarrow> node_status_change list \<Rightarrow> endpoint set \<Rightarrow> bool" where
  "delta_exact ns old delta new \<longleftrightarrow> changed Down delta = set ns \<inter> old \<and> changed Up delta \<subseteq> set ns - old \<and>
     new = (old - set ns) \<union> changed Up delta \<and> distinct (map nsc_endpoint delta) \<and> nsc_endpoint ` set delta \<subseteq> set ns"

lemma delta_exact_Cons:
  assumes "delta_exact ns mid delta new" "n \<notin> set ns"
  shows "n \<in> old \<Longrightarrow> mid = old - {n} \<Longrightarrow> nsc_endpoint c = n \<Longrightarrow> nsc_status c = Down \<Longrightarrow> delta_exact (n # ns) old (c # delta) new"
    "n \<notin> old \<Longrightarrow> mid = insert n old \<Longrightarrow> nsc_endpoint c = n \<Longrightarrow> nsc_status c = Up \<Longrightarrow> delta_exact (n # ns) old (c # delta) new"
    "n \<notin> old \<Longrightarrow> mid = old \<Longrightarrow> delta_exact (n # ns) old delta new"
proof -
  have cc: "changed s (c # delta) = (if nsc_status c = s then insert (nsc_endpoint c) (changed s delta) else changed s delta)" for s
    by (auto simp: changed_def)
  show "n \<in> old \<Longrightarrow> mid = old - {n} \<Longrightarrow> nsc_endpoint c = n \<Longrightarrow> nsc_status c = Down \<Longrightarrow> delta_exact (n # ns) old (c # delta) new"
    using assms unfolding delta_exact_def cc by (simp only: edge_status.simps if_True if_False) fastforce
  show "n \<notin> old \<Longrightarrow> mid = insert n old \<Longrightarrow> nsc_endpoint c = n \<Longrightarrow> nsc_status c = Up \<Longrightarrow> delta_exact (n # ns) old (c # delta) new"
    using assms unfolding delta_exact_def cc by (simp only: edge_status.simps if_True if_False) fastforce
  show "n \<notin> old \<Longrightarrow> mid = old \<Longrightarrow> delta_exact (n # ns) old delta new"
    using assms unfolding delta_exact_def by fastforce
qed

lemma apply_nodes_delta:
  assumes "parts_inv en es st" "set ns \<subseteq> set es" "distinct ns"
  shows "delta_exact ns (members (st_view st)) (snd (apply_nodes en st ns))
    (members (st_view (fst (apply_nodes en st ns))))"
  using assms
proof (induction ns arbitrary: st)
  case Nil
  then show ?case by (simp add: delta_exact_def)
next
  case (Cons n ns)
  let ?st = "fst (apply_node en st n)"
  have n: "parts_inv en es st" "n \<in> set es" "n \<notin> set ns" using Cons.prems by auto
  have IH: "delta_exact ns (members (st_view ?st)) (snd (apply_nodes en ?st ns))
      (members (st_view (fst (apply_nodes en ?st ns))))"
    using Cons apply_node_parts by simp
  show ?case
    by (cases rule: apply_node_cases[OF n(1,2)])
      (use delta_exact_Cons[OF IH n(3), of "members (st_view st)"] in \<open>simp_all add: Let_def split_beta\<close>)
qed

text \<open>
  Every joiner of the proposal carries an identifier of its own that no view has seen.
\<close>

definition fresh_joiners :: "service_state \<Rightarrow> endpoint list \<Rightarrow> bool" where
  "fresh_joiners st ns \<longleftrightarrow> (\<forall>n \<in> set ns. is_host_present (st_view st) n \<or>
     (case fmlookup (st_joiner_uuid st) (endpoint_key_of n) of
        None \<Rightarrow> False
      | Some nid \<Rightarrow> \<not> is_identifier_present (st_view st) nid \<and>
          (\<forall>m \<in> set ns. m = n \<or> is_host_present (st_view st) m \<or>
             fmlookup (st_joiner_uuid st) (endpoint_key_of m) \<noteq> Some nid)))"

lemma fresh_joinersD:
  assumes "fresh_joiners st ns" "n \<in> set ns" "n \<notin> members (st_view st)"
  obtains nid where "fmlookup (st_joiner_uuid st) (endpoint_key_of n) = Some nid"
    "nid \<notin> identifiers_seen (st_view st)"
    "\<And>m. m \<in> set ns \<Longrightarrow> m \<noteq> n \<Longrightarrow> m \<notin> members (st_view st) \<Longrightarrow>
       fmlookup (st_joiner_uuid st) (endpoint_key_of m) \<noteq> Some nid"
  using assms by (fastforce simp: fresh_joiners_def members_def identifiers_seen_def split: option.splits)

lemma fresh_joiners_step:
  assumes "parts_inv en es st" "set (n # ns) \<subseteq> set es" "distinct (n # ns)" "fresh_joiners st (n # ns)"
  shows "fresh_joiners (fst (apply_node en st n)) ns"
proof -
  let ?st = "fst (apply_node en st n)"
  have n: "n \<in> set es" "n \<notin> set ns" using assms by auto
  have u: "fmlookup (st_joiner_uuid ?st) (endpoint_key_of m) = fmlookup (st_joiner_uuid st) (endpoint_key_of m)"
    if "m \<in> set ns" for m using that n(2) by (intro apply_node_uuid) auto
  have m: "is_host_present (st_view ?st) m = is_host_present (st_view st) m" if "m \<in> set ns" for m
    using that n(2) by (cases rule: apply_node_cases[OF assms(1) n(1)]) (auto simp: members_def set_eq_iff)
  have ids: "\<not> is_identifier_present (st_view ?st) i"
    if i: "fmlookup (st_joiner_uuid st) (endpoint_key_of m) = Some i" "m \<in> set ns" "m \<notin> members (st_view st)" for m i
  proof -
    obtain nid where f: "fmlookup (st_joiner_uuid st) (endpoint_key_of m) = Some nid"
      "nid \<notin> identifiers_seen (st_view st)"
      "\<And>m'. m' \<in> set (n # ns) \<Longrightarrow> m' \<noteq> m \<Longrightarrow> m' \<notin> members (st_view st) \<Longrightarrow>
         fmlookup (st_joiner_uuid st) (endpoint_key_of m') \<noteq> Some nid"
      using fresh_joinersD[OF assms(4), of m] i by auto
    have "i \<notin> identifiers_seen (st_view ?st)"
      using f(1,2) f(3)[of n] i n(2) by (cases rule: apply_node_cases[OF assms(1) n(1)]) auto
    then show ?thesis by (simp add: identifiers_seen_def)
  qed
  show ?thesis
    unfolding fresh_joiners_def
  proof
    fix k assume k: "k \<in> set ns"
    show "is_host_present (st_view ?st) k \<or> (case fmlookup (st_joiner_uuid ?st) (endpoint_key_of k) of
        None \<Rightarrow> False
      | Some nid \<Rightarrow> \<not> is_identifier_present (st_view ?st) nid \<and>
          (\<forall>m \<in> set ns. m = k \<or> is_host_present (st_view ?st) m \<or>
             fmlookup (st_joiner_uuid ?st) (endpoint_key_of m) \<noteq> Some nid))"
    proof (cases "k \<in> members (st_view st)")
      case False
      then obtain nid where f: "fmlookup (st_joiner_uuid st) (endpoint_key_of k) = Some nid"
        "\<And>m. m \<in> set (n # ns) \<Longrightarrow> m \<noteq> k \<Longrightarrow> m \<notin> members (st_view st) \<Longrightarrow>
           fmlookup (st_joiner_uuid st) (endpoint_key_of m) \<noteq> Some nid"
        using fresh_joinersD[OF assms(4), of k] k by (metis list.set_intros(2))
      have "\<forall>m \<in> set ns. m = k \<or> is_host_present (st_view st) m \<or>
          fmlookup (st_joiner_uuid st) (endpoint_key_of m) \<noteq> Some nid"
        using f(2) by (metis list.set_intros(2) mem_Collect_eq members_def)
      then show ?thesis using ids[OF f(1) k False] by (simp add: u[OF k] f(1) m u)
    qed (simp add: m[OF k] members_def)
  qed
qed

lemma fresh_joiners_enter:
  assumes "parts_inv en es st" "set ns \<subseteq> set es" "distinct ns" "fresh_joiners st ns"
  shows "changed Up (snd (apply_nodes en st ns)) = set ns - members (st_view st)"
  using assms
proof (induction ns arbitrary: st)
  case (Cons n ns)
  let ?st = "fst (apply_node en st n)"
  have n: "n \<in> set es" "n \<notin> set ns" using Cons.prems by auto
  have IH: "changed Up (snd (apply_nodes en ?st ns)) = set ns - members (st_view ?st)"
    using Cons fresh_joiners_step[OF Cons.prems] apply_node_parts by simp
  show ?case
  proof (cases rule: apply_node_cases[OF Cons.prems(1) n(1)])
    case 3
    then show ?thesis using fresh_joinersD[OF Cons.prems(4), of n] by auto
  qed (use IH n(2) in \<open>auto simp: Let_def split_beta changed_def\<close>)
qed simp

text \<open>What subscribers see of a list of effects.\<close>

fun published :: "service_effect list \<Rightarrow> (cluster_event \<times> cluster_status_change) list" where
  "published [] = []"
| "published (Publish k ev # es) = (k, ev) # published es"
| "published (e # es) = published es"

lemma published_append [simp]: "published (xs @ ys) = published xs @ published ys"
  by (induction xs rule: published.induct) auto

lemma published_map [simp]:
  "published (map AbortDetector xs) = []" "published (map SpawnDetector xs) = []"
  "published (map (\<lambda>r. Reply r (Inr w)) rs) = []"
  by (induction xs, simp_all) (induction rs, simp_all)

lemma published_quiet [simp]:
  "published (snd (reinstate_fast_paxos en st)) = []" "published (snd (rebuild en st)) = []"
  "published (snd (cancel_failure_detectors st)) = []"
  by (auto simp: reinstate_fast_paxos_def rebuild_def cancel_failure_detectors_def Let_def split_beta
      simp del: map_map split: option.split sum.split)

lemma published_respond_parked [simp]: "published (snd (respond_parked w st ns)) = []"
  by (induction ns arbitrary: st) (simp_all add: Let_def split_beta split: option.split)

lemma ring_zero_members:
  assumes "view_inv x v"
  shows "set (ring_zero v) = members v" "distinct (ring_zero v)"
proof -
  have z: "mv_rings v ! 0 \<in> set (mv_rings v)"
    using view_wf_rings[of x v] assms by (auto simp: view_inv_def)
  have "mv_k v \<noteq> 0" using assms by (simp add: view_inv_def view_wf_def)
  then have "\<not> mv_k v \<le> 0" by simp
  then have r: "ring_zero v = ring_ordered (mv_rings v ! 0)" by (simp add: ring_zero_def get_ring_def)
  show "set (ring_zero v) = members v" using assms z by (simp add: r view_inv_def)
  have "ring_wf x (mv_rings v ! 0)" using assms z by (simp add: view_inv_def view_wf_def)
  then show "distinct (ring_zero v)" by (simp add: r distinct_ring_ordered)
qed

lemma decide_view_change_published:
  "published (snd (decide_view_change en st p)) = (ViewChange, vc_event en st p) #
     (if is_host_present (st_view (fst (decide_view_change en st p))) (st_my_addr st) then []
      else [(Kicked, vc_event en st p)])"
proof -
  have "is_host_present (st_view (fst (decide_view_change en st p))) = is_host_present (st_view (vc_applied en st p))"
    by (rule same_view_facts) simp
  moreover have "is_host_present (st_view (fst (reinstate_fast_paxos en (vc_reset en st p)))) =
      is_host_present (st_view (vc_applied en st p))"
    by (rule same_view_facts, rule same_view_trans[OF reinstate_frame(4)]) simp
  moreover have "st_my_addr (vc_reset en st p) = st_my_addr st"
    by (simp add: vc_reset_def vc_applied_def Let_def cancel_failure_detectors_def)
  ultimately show ?thesis
    by (simp add: decide_view_change_stages split_beta Let_def respond_to_joiners_def vc_detectors_def)
qed

lemma delta_exact_sets:
  assumes "delta_exact ns old delta new"
  shows "changed Up delta = new - old" "changed Down delta = old - new" "old - new = set ns \<inter> old"
    "new - old \<subseteq> set ns"
  using assms unfolding delta_exact_def by blast+

lemma vc_event_facts:
  assumes "parts_inv en es st" "set p \<subseteq> set es"
  shows "set (csc_membership (vc_event en st p)) = members (st_view (fst (decide_view_change en st p)))"
    "distinct (csc_membership (vc_event en st p))"
    "csc_membership (vc_event en st p) = ring_zero (st_view (fst (decide_view_change en st p)))"
    "csc_configuration_id (vc_event en st p) =
       true_configuration_id (en_xxh64 en) (st_view (fst (decide_view_change en st p)))"
proof -
  have p: "parts_inv en es (vc_applied en st p)" using assms by (simp add: vc_applied_def apply_nodes_parts)
  let ?st' = "fst (decide_view_change en st p)"
  have "service_inv en es ?st'" using assms by (rule decide_view_change_inv)
  then have inv: "view_inv (en_xxh64 en) (st_view ?st')"
    by (simp add: service_inv_def parts_inv_def view_inv_over_def)
  have "same_view (st_view (fst (configuration_id en (vc_applied en st p)))) (st_view (vc_applied en st p))"
    by (simp add: configuration_id_eq)
  note s = same_view_facts[OF this] same_view_facts[OF decide_view_change_frame(3)[of en st p]]
  show m: "csc_membership (vc_event en st p) = ring_zero (st_view ?st')"
    unfolding vc_event_def Let_def using s by simp
  show "set (csc_membership (vc_event en st p)) = members (st_view ?st')" "distinct (csc_membership (vc_event en st p))"
    using ring_zero_members[OF inv] m by simp_all
  show "csc_configuration_id (vc_event en st p) = true_configuration_id (en_xxh64 en) (st_view ?st')"
    unfolding vc_event_def Let_def using s configuration_id_true[OF p] by simp
qed

text \<open>
  C19. The outcome of a view change. Applying a decided proposal (no endpoint twice) publishes one
  \<open>ViewChange\<close> event, and a \<open>Kicked\<close> event with the same content exactly when this node is no
  longer a member. The event is exact: its delta lists each endpoint at most once, as \<open>Up\<close> those
  that are members now and were not, as \<open>Down\<close> those that were and are not; its membership lists
  the new members once each in ring-zero order; its configuration identifier is the new view's.
  Every member named by the proposal leaves, only endpoints it names enter, and they all do when
  each brought an identifier of its own that no view has seen.
\<close>

theorem view_change_exact:
  assumes "parts_inv en es st" and "set p \<subseteq> set es" and "distinct p"
  shows "let (st', effects) = decide_view_change en st p;
      old = members (st_view st); new = members (st_view st') in
    \<exists>ev. published effects = (ViewChange, ev) # (if st_my_addr st \<in> new then [] else [(Kicked, ev)]) \<and>
      changed Up (csc_delta ev) = new - old \<and> changed Down (csc_delta ev) = old - new \<and>
      distinct (map nsc_endpoint (csc_delta ev)) \<and>
      set (csc_membership ev) = new \<and> distinct (csc_membership ev) \<and>
      get_ring (st_view st') 0 = Inr (csc_membership ev) \<and>
      csc_configuration_id ev = true_configuration_id (en_xxh64 en) (st_view st') \<and>
      old - new = set p \<inter> old \<and> new - old \<subseteq> set p \<and> (fresh_joiners st p \<longrightarrow> new - old = set p - old)"
proof -
  let ?d = "decide_view_change en st p" and ?ev = "vc_event en st p"
  let ?st = "fst (cancel_failure_detectors st)"
  have c: "parts_inv en es ?st" "st_view ?st = st_view st" "st_joiner_uuid ?st = st_joiner_uuid st"
    using assms(1) by (simp_all add: cancel_failure_detectors_def)
  have v: "members (st_view (fst ?d)) = members (st_view (fst (apply_nodes en ?st p)))"
    using same_view_facts(1)[OF decide_view_change_frame(3)[of en st p]] by (simp add: vc_applied_def)
  have d: "csc_delta ?ev = snd (apply_nodes en ?st p)" by (simp add: vc_event_def Let_def)
  have x: "delta_exact p (members (st_view st)) (csc_delta ?ev) (members (st_view (fst ?d)))"
    using apply_nodes_delta[OF c(1) assms(2,3)] by (simp add: c(2) v d)
  note e = delta_exact_sets[OF x]
  have f: "members (st_view (fst ?d)) - members (st_view st) = set p - members (st_view st)" if "fresh_joiners st p"
  proof -
    have "fresh_joiners ?st p" using that unfolding fresh_joiners_def c .
    then show ?thesis using fresh_joiners_enter[OF c(1) assms(2,3)] e(1) by (simp add: c(2) d)
  qed
  have k: "mv_k (st_view (fst ?d)) \<noteq> 0"
    using decide_view_change_inv[OF assms(1,2)]
    by (simp add: service_inv_def parts_inv_def view_inv_over_def view_inv_def view_wf_def)
  then have "\<not> mv_k (st_view (fst ?d)) \<le> 0" by simp
  then have g: "get_ring (st_view (fst ?d)) 0 = Inr (csc_membership ?ev)"
    using vc_event_facts(3)[OF assms(1,2)] by (simp add: ring_zero_def get_ring_def)
  have dd: "distinct (map nsc_endpoint (csc_delta ?ev))" using x by (simp add: delta_exact_def)
  show ?thesis
    unfolding Let_def split_beta
    by (intro exI[of _ ?ev] conjI impI vc_event_facts[OF assms(1,2)] e f g dd)
      (simp add: decide_view_change_published members_def)
qed

definition demo_waiting :: service_state where
  "demo_waiting = demo_service\<lparr>st_joiner_uuid := fmupd (endpoint_key_of (demo_ep 4)) (demo_nid 4) fmempty,
     st_joiners_to_respond_to := fmupd (endpoint_key_of (demo_ep 4)) [7] fmempty\<rparr>"

theorem view_change_exact_witness:
  "let (st', effects) = decide_view_change demo_env demo_waiting [demo_ep 4, demo_ep 2];
      old = members (st_view demo_waiting); new = members (st_view st') in
    \<exists>ev. published effects = (ViewChange, ev) # (if st_my_addr demo_waiting \<in> new then [] else [(Kicked, ev)]) \<and>
      changed Up (csc_delta ev) = new - old \<and> changed Down (csc_delta ev) = old - new \<and>
      distinct (map nsc_endpoint (csc_delta ev)) \<and>
      set (csc_membership ev) = new \<and> distinct (csc_membership ev) \<and>
      get_ring (st_view st') 0 = Inr (csc_membership ev) \<and>
      csc_configuration_id ev = true_configuration_id (en_xxh64 demo_env) (st_view st') \<and>
      old - new = set [demo_ep 4, demo_ep 2] \<inter> old \<and> new - old \<subseteq> set [demo_ep 4, demo_ep 2] \<and>
      (if fresh_joiners demo_waiting [demo_ep 4, demo_ep 2]
       then new - old = set [demo_ep 4, demo_ep 2] - old else True)"
proof -
  have "parts_inv demo_env (map demo_ep [1, 2, 3, 4, 5]) demo_waiting"
    using demo_service_inv by (simp add: service_inv_def demo_waiting_def)
  moreover have "distinct [demo_ep 4, demo_ep 2]" by code_simp
  ultimately show ?thesis
    using view_change_exact[of demo_env "map demo_ep [1, 2, 3, 4, 5]" demo_waiting "[demo_ep 4, demo_ep 2]"]
    unfolding Let_def split_beta by (simp only: if_bool_eq_conj) simp
qed

section \<open>Every request is answered once\<close>

fun reply_channel :: "service_effect \<Rightarrow> reply_id option" where
  "reply_channel (Reply r _) = Some r"
| "reply_channel (ReplyEndpoints r _) = Some r"
| "reply_channel (ReplyNat r _) = Some r"
| "reply_channel (ReplyMetadata r _) = Some r"
| "reply_channel (ReplyConfigurationId r _) = Some r"
| "reply_channel (ReplyUnit r) = Some r"
| "reply_channel _ = None"

definition replies_to :: "reply_id \<Rightarrow> service_effect list \<Rightarrow> nat" where
  "replies_to r es = count_list (map reply_channel es) (Some r)"

definition parked_in :: "reply_id \<Rightarrow> (endpoint_key, reply_id list) fmap \<Rightarrow> nat" where
  "parked_in r m = (\<Sum>k \<in> fset (fmdom m). count_list (the (fmlookup m k)) r)"

definition parked :: "reply_id \<Rightarrow> service_state \<Rightarrow> nat" where
  "parked r st = parked_in r (st_joiners_to_respond_to st)"

fun command_channel :: "service_command \<Rightarrow> reply_id option" where
  "command_channel (Request _ r) = Some r"
| "command_channel (Memberlist r) = Some r"
| "command_channel (MembershipSize r) = Some r"
| "command_channel (MetadataQuery r) = Some r"
| "command_channel (ConfigurationIdQuery r) = Some r"
| "command_channel (RebuildFailureDetectors r) = Some r"
| "command_channel (AlertQueueLen r) = Some r"
| "command_channel (ApplyProposal _ r) = Some r"
| "command_channel (PublishInitialView r) = Some r"
| "command_channel _ = None"

lemma replies_to_simps [simp]:
  "replies_to r [] = 0" "replies_to r (xs @ ys) = replies_to r xs + replies_to r ys"
  "replies_to r (e # es) = (if reply_channel e = Some r then 1 else 0) + replies_to r es"
  by (simp_all add: replies_to_def)

lemma replies_to_map [simp]:
  "replies_to r (map AbortDetector xs) = 0" "replies_to r (map SpawnDetector xs) = 0"
  "replies_to r (map (\<lambda>c. Reply c (Inr w)) rs) = count_list rs r"
  by (induction xs, simp_all) (induction rs, simp_all)

lemma parked_in_drop:
  assumes "fmlookup m k = Some l"
  shows "parked_in r m = count_list l r + parked_in r (fmdrop k m)"
proof -
  have k: "k \<in> fset (fmdom m)" using assms by (simp add: fmdomI)
  have "parked_in r m = count_list l r + (\<Sum>j \<in> fset (fmdom m) - {k}. count_list (the (fmlookup m j)) r)"
    unfolding parked_in_def
    using sum.remove[OF _ k, where g = "\<lambda>j. count_list (the (fmlookup m j)) r"] assms by simp
  then show ?thesis by (simp add: parked_in_def)
qed

lemma parked_in_new:
  "fmlookup m k = None \<Longrightarrow> parked_in r (fmupd k l m) = count_list l r + parked_in r m"
proof -
  assume n: "fmlookup m k = None"
  then have "fmdrop k (fmupd k l m) = m" by (intro fmap_ext) simp
  then show ?thesis using parked_in_drop[of "fmupd k l m" k l r] by simp
qed

lemma parked_in_push:
  "parked_in r (fmupd k (fm_get_or [] m k @ [c]) m) = parked_in r m + (if c = r then 1 else 0)"
proof (cases "fmlookup m k")
  case None
  then show ?thesis by (simp add: parked_in_new fm_get_or_def)
next
  case (Some l)
  have "fmupd k (l @ [c]) m = fmupd k (l @ [c]) (fmdrop k m)" by (intro fmap_ext) simp
  then show ?thesis
    using Some parked_in_drop[OF Some, of r] by (simp add: parked_in_new fm_get_or_def)
qed

definition balanced :: "service_state \<Rightarrow> service_effect list \<Rightarrow> service_state \<Rightarrow> reply_id option \<Rightarrow> bool" where
  "balanced st es st' c \<longleftrightarrow>
     (\<forall>r. replies_to r es + parked r st' = parked r st + (if c = Some r then 1 else 0))"

lemma balanced_trans:
  "balanced st es st' None \<Longrightarrow> balanced st' es' st'' c \<Longrightarrow> balanced st (es @ es') st'' c"
  unfolding balanced_def replies_to_simps
proof
  fix r
  assume "\<forall>r. replies_to r es + parked r st' = parked r st + (if None = Some r then 1 else 0)"
    "\<forall>r. replies_to r es' + parked r st'' = parked r st' + (if c = Some r then 1 else 0)"
  then have "replies_to r es + parked r st' = parked r st"
    "replies_to r es' + parked r st'' = parked r st' + (if c = Some r then 1 else 0)" by simp_all
  then show "replies_to r es + replies_to r es' + parked r st'' = parked r st + (if c = Some r then 1 else 0)"
    by linarith
qed

lemma balanced_quiet:
  "(\<And>r. replies_to r es = 0) \<Longrightarrow> st_joiners_to_respond_to st' = st_joiners_to_respond_to st \<Longrightarrow> balanced st es st' None"
  by (simp add: balanced_def parked_def)

lemma balanced_reply:
  "(\<And>r. replies_to r es = (if Some r = c then 1 else 0)) \<Longrightarrow>
   st_joiners_to_respond_to st' = st_joiners_to_respond_to st \<Longrightarrow> balanced st es st' c"
  by (auto simp: balanced_def parked_def)

lemma replies_quiet [simp]:
  "replies_to r (snd (reinstate_fast_paxos en st)) = 0" "replies_to r (snd (rebuild en st)) = 0"
  "replies_to r (snd (cancel_failure_detectors st)) = 0" "replies_to r (snd (handle_tick now st)) = 0"
  by (auto simp: reinstate_fast_paxos_def rebuild_def cancel_failure_detectors_def handle_tick_def Let_def split_beta
      simp del: map_map split: option.split sum.split)

lemma respond_parked_balanced: "balanced st (snd (respond_parked w st ns)) (fst (respond_parked w st ns)) None"
proof (induction ns arbitrary: st)
  case (Cons n ns)
  show ?case
  proof (cases "fmlookup (st_joiners_to_respond_to st) (endpoint_key_of n)")
    case (Some l)
    let ?st = "st\<lparr>st_joiners_to_respond_to := fmdrop (endpoint_key_of n) (st_joiners_to_respond_to st)\<rparr>"
    have "balanced st (map (\<lambda>c. Reply c (Inr w)) l) ?st None"
      using parked_in_drop[OF Some] by (simp add: balanced_def parked_def)
    then show ?thesis using balanced_trans[OF _ Cons] Some by (simp add: Let_def split_beta)
  qed (use Cons in \<open>simp add: Let_def\<close>)
qed (simp add: balanced_def)

lemma decide_view_change_balanced:
  "balanced st (snd (decide_view_change en st p)) (fst (decide_view_change en st p)) None"
proof -
  let ?st = "fst (vc_detectors en st p)"
  let ?c = "fst (configuration_id en ?st)"
  let ?m = "csc_membership (vc_event en st p)"
  have r: "balanced ?st (snd (respond_to_joiners en ?st p ?m)) (fst (respond_to_joiners en ?st p ?m)) None"
    using respond_parked_balanced[of ?c] by (simp add: respond_to_joiners_def Let_def split_beta balanced_def parked_def)
  show ?thesis
    using balanced_trans[OF balanced_quiet r, where st = st and es =
        "snd (cancel_failure_detectors st) @ [Publish ViewChange (vc_event en st p)] @
            snd (reinstate_fast_paxos en (vc_reset en st p)) @
            (if st_broadcaster (fst (reinstate_fast_paxos en (vc_reset en st p)))
             then [SetMembership (endpoints_as_socket_addrs en ?m)] else []) @ snd (vc_detectors en st p)"]
    by (simp add: decide_view_change_stages split_beta Let_def vc_detectors_def)
qed

lemma dispatch_one_balanced: "balanced st (snd (dispatch_one en st out)) (fst (dispatch_one en st out)) None"
proof (cases out)
  case (FastDecision v)
  then show ?thesis
    using balanced_trans[OF decide_view_change_balanced balanced_quiet]
    by (simp add: dispatch_one_def split_beta Let_def)
qed (auto simp: dispatch_one_def spawn_broadcast_def spawn_unicast_def spawn_fallback_def Let_def
    intro!: balanced_quiet split: option.split)

lemma dispatch_balanced: "balanced st (snd (dispatch en st outs)) (fst (dispatch en st outs)) None"
proof (induction outs arbitrary: st)
  case (Cons out outs)
  show ?case using balanced_trans[OF dispatch_one_balanced Cons] by (simp add: Let_def split_beta)
qed (simp add: balanced_def)

lemma balanced_paxos [simp]: "balanced (st\<lparr>st_fast_paxos := f\<rparr>) es st' c = balanced st es st' c"
  by (simp add: balanced_def parked_def)

lemma consensus_balanced:
  "balanced st (snd (service_propose en j st p)) (fst (service_propose en j st p)) None"
  "balanced st (snd (start_classic en st)) (fst (start_classic en st)) None"
  "balanced st (snd (handle_consensus_request en st q)) (fst (handle_consensus_request en st q)) None"
  using dispatch_balanced[of "st\<lparr>st_fast_paxos := f\<rparr>" for f]
  by (simp_all add: service_propose_def start_classic_def handle_consensus_request_def split_beta Let_def
      balanced_def[of st "[]" st] split: option.split)

lemma handle_join_balanced:
  "balanced st (snd (handle_join en now st m c)) (fst (handle_join en now st m c)) (Some c)"
  by (auto simp: handle_join_def Let_def split_beta balanced_def parked_def parked_in_push)

lemma handle_batched_alerts_replies [simp]: "replies_to r (snd (snd (handle_batched_alerts en st m))) = 0"
  by (simp add: handle_batched_alerts_def Let_def split_beta)

lemma handle_request_balanced:
  "balanced st (snd (handle_request en now j st q c)) (fst (handle_request en now j st q c)) (Some c)"
proof (cases "st_lifecycle st = ShuttingDown \<or> req_content q = None")
  case True
  then show ?thesis by (auto simp: handle_request_def intro!: balanced_reply)
next
  case False
  then obtain content where q: "q = RapidRequest (Some content)" by (cases q) auto
  show ?thesis
  proof (cases content)
    case (BatchedAlertMessage m)
    let ?h = "handle_batched_alerts en st m"
    let ?y = "if fst (snd ?h) \<noteq> [] then service_propose en j (fst ?h) (fst (snd ?h)) else (fst ?h, [])"
    have "balanced st (snd (snd ?h)) (fst ?h) None" by (intro balanced_quiet) simp_all
    moreover have "balanced (fst ?h) (snd ?y) (fst ?y) None" by (simp add: consensus_balanced balanced_quiet)
    moreover have "balanced (fst ?y) [Reply c (Inr default_response)] (fst ?y) (Some c)"
      by (intro balanced_reply) auto
    ultimately have "balanced st (snd (snd ?h) @ snd ?y @ [Reply c (Inr default_response)]) (fst ?y) (Some c)"
      by (blast intro: balanced_trans)
    then show ?thesis using False by (simp add: handle_request_def q BatchedAlertMessage Let_def split_beta)
  next
    case (JoinMessage m)
    then show ?thesis using False handle_join_balanced by (simp add: handle_request_def q)
  qed (use False balanced_trans[OF consensus_balanced(3) balanced_reply] in
      \<open>auto simp: handle_request_def q Let_def split_beta intro!: balanced_reply split: option.split\<close>)
qed

lemma handle_command_balanced:
  "balanced st (fst (snd (handle_command en now j st cmd))) (fst (handle_command en now j st cmd)) (command_channel cmd)"
proof (cases cmd)
  case (ApplyProposal p c)
  let ?d = "decide_view_change en st p"
  have "balanced (fst ?d) (snd (reinstate_fast_paxos en (fst ?d)) @ [ReplyUnit c]) (fst (reinstate_fast_paxos en (fst ?d))) (Some c)"
    by (intro balanced_reply) auto
  then show ?thesis
    using ApplyProposal balanced_trans[OF decide_view_change_balanced] by (simp add: handle_command_def split_beta Let_def)
qed (auto simp: handle_command_def split_beta Let_def publish_initial_view_def configuration_id_eq handle_request_balanced
    consensus_balanced intro!: balanced_reply)

text \<open>The commands the loop takes before a shutdown.\<close>

definition taken :: "(nat \<times> nat \<times> service_command) list \<Rightarrow> service_command list" where
  "taken cmds = takeWhile (\<lambda>c. c \<noteq> ShutdownCommand) (map (snd \<circ> snd) cmds)"

lemma handle_command_stop: "snd (snd (handle_command en now j st cmd)) \<longleftrightarrow> cmd = ShutdownCommand"
  by (cases cmd) (simp_all add: handle_command_def split_beta Let_def)

lemma command_loop_replies:
  "replies_to r (snd (command_loop en st cmds)) + parked r (fst (command_loop en st cmds)) =
     parked r st + count_list (map command_channel (taken cmds)) (Some r)"
proof (induction cmds arbitrary: st)
  case (Cons x cmds)
  obtain now j cmd where x: "x = (now, j, cmd)" by (cases x)
  let ?h = "handle_command en now j st cmd"
  have b: "replies_to r (fst (snd ?h)) + parked r (fst ?h) = parked r st + (if command_channel cmd = Some r then 1 else 0)"
    using handle_command_balanced[of st en now j cmd] by (simp add: balanced_def)
  show ?case
  proof (cases "cmd = ShutdownCommand")
    case True
    then show ?thesis using b by (simp add: x taken_def)
  next
    case False
    then show ?thesis
      using b Cons[of "fst ?h"] by (auto simp: x taken_def split_beta handle_command_stop Let_def)
  qed
qed (simp add: taken_def)

text \<open>
  C20. Every request is answered exactly once. Over any sequence of commands, for every reply
  channel: the replies sent on it plus the copies of it still parked for a view change are the
  copies parked before plus the processed commands that carried it. No reply is lost or sent
  twice, whatever joins, view changes and errors occur; a join request whose configuration
  matches is the only one that waits.
\<close>

theorem replies_conserved:
  "replies_to r (snd (service_run en st cmds)) + parked r (fst (service_run en st cmds)) =
     parked r st + count_list (map command_channel (taken cmds)) (Some r)"
proof -
  have "parked r (fst (rebuild en st)) = parked r st" by (simp add: parked_def)
  then show ?thesis
    using command_loop_replies[of r en "fst (rebuild en st)" cmds]
    by (simp add: service_run_def Let_def split_beta parked_def cancel_failure_detectors_def)
qed

end
