(* ===== verification/Messaging.thy ===== *)
theory Messaging
  imports Service
begin

text \<open>
  \<^verbatim>\<open>crates/rapid/src/messaging/\<close>: the request handlers (\<^verbatim>\<open>handler.rs\<close>,
  \<^verbatim>\<open>lazy_handler.rs\<close>), the fan-out broadcaster (\<^verbatim>\<open>broadcaster.rs\<close>), the per-message deadlines
  (\<^verbatim>\<open>timed_client.rs\<close>), the in-process network (\<^verbatim>\<open>in_process.rs\<close>) and its fault injection
  (\<^verbatim>\<open>fault_injection.rs\<close>). The random permutation of the \<^verbatim>\<open>rand\<close> crate, the outcome of an
  awaited call and what a server does with an envelope are arguments. The gRPC carrier
  (\<^verbatim>\<open>grpc.rs\<close>) is in \<open>Grpc\<close>.

  Properties: a broadcast reaches each recipient of the last view once; the \<open>FirstN\<close> fault never
  drops more than it promises under any interleaving of its two atomic steps; the per-destination
  fault drops exactly the first matching envelopes.
\<close>

section \<open>Request handlers\<close>

definition discriminant_name :: "request_content \<Rightarrow> string" where
  "discriminant_name c = (case c of
       PreJoinMessage _ \<Rightarrow> ''PreJoinMessage''
     | JoinMessage _ \<Rightarrow> ''JoinMessage''
     | BatchedAlertMessage _ \<Rightarrow> ''BatchedAlertMessage''
     | ProbeMessage _ \<Rightarrow> ''ProbeMessage''
     | FastRoundPhase2bMessage _ \<Rightarrow> ''FastRoundPhase2bMessage''
     | Phase1aMessage _ \<Rightarrow> ''Phase1aMessage''
     | Phase1bMessage _ \<Rightarrow> ''Phase1bMessage''
     | Phase2aMessage _ \<Rightarrow> ''Phase2aMessage''
     | Phase2bMessage _ \<Rightarrow> ''Phase2bMessage''
     | LeaveMessage _ \<Rightarrow> ''LeaveMessage'')"

definition probe_only_handle :: "rapid_request \<Rightarrow> rapid_response result" where
  "probe_only_handle req = (case req_content req of
       None \<Rightarrow> Inl Decode
     | Some (ProbeMessage _) \<Rightarrow> Inr (probe_response \<lparr>pr_status = node_status_num OkStatus\<rparr>)
     | Some _ \<Rightarrow> Inl ProtocolRejected)"

text \<open>\<^verbatim>\<open>LazyServiceHandler\<close>: the installed service, as the function \<^verbatim>\<open>dispatch\<close> it answers with.\<close>

type_synonym service_dispatch = "rapid_request \<Rightarrow> rapid_response result"

definition lazy_new :: "service_dispatch option" where
  "lazy_new = None"

definition lazy_install :: "service_dispatch option \<Rightarrow> service_dispatch \<Rightarrow> service_dispatch option" where
  "lazy_install inner service = Some service"

definition lazy_handle :: "service_dispatch option \<Rightarrow> rapid_request \<Rightarrow> rapid_response result" where
  "lazy_handle inner req = (case inner of
       Some service \<Rightarrow> service req
     | None \<Rightarrow>
         (case req_content req of
            Some (ProbeMessage _) \<Rightarrow> Inr (probe_response \<lparr>pr_status = node_status_num BootstrappingStatus\<rparr>)
          | _ \<Rightarrow> Inr default_response))"

section \<open>Broadcaster\<close>

record broadcaster =
  bc_recipients :: "socket_addr list"

definition broadcaster_new :: broadcaster where
  "broadcaster_new = \<lparr>bc_recipients = []\<rparr>"

definition set_membership :: "(socket_addr list \<Rightarrow> socket_addr list) \<Rightarrow> broadcaster \<Rightarrow> socket_addr list \<Rightarrow> broadcaster" where
  "set_membership shuffle bc recipients = bc\<lparr>bc_recipients := shuffle recipients\<rparr>"

text \<open>The sends one \<^verbatim>\<open>broadcast\<close> spawns.\<close>

definition broadcast :: "broadcaster \<Rightarrow> rapid_request \<Rightarrow> (socket_addr \<times> rapid_request) list" where
  "broadcast bc req = map (\<lambda>r. (r, req)) (bc_recipients bc)"

section \<open>Deadlines\<close>

record message_timeouts =
  mt_probe :: nat
  mt_join :: nat
  mt_default :: nat

definition default_timeouts :: message_timeouts where
  "default_timeouts = \<lparr>mt_probe = 1000, mt_join = 5000, mt_default = 1000\<rparr>"

definition timeouts_from :: "settings \<Rightarrow> message_timeouts" where
  "timeouts_from s = \<lparr>mt_probe = se_grpc_probe_timeout s, mt_join = se_grpc_join_timeout s,
     mt_default = se_grpc_default_timeout s\<rparr>"

definition for_request :: "message_timeouts \<Rightarrow> rapid_request \<Rightarrow> nat" where
  "for_request t req = (case req_content req of
       Some (ProbeMessage _) \<Rightarrow> mt_probe t
     | Some (JoinMessage _) \<Rightarrow> mt_join t
     | Some (PreJoinMessage _) \<Rightarrow> mt_join t
     | _ \<Rightarrow> mt_default t)"

text \<open>
  \<^verbatim>\<open>tokio::time::timeout\<close>: \<open>inner deadline\<close> is the result of the inner call when it completes within
  the deadline, and \<open>None\<close> when it does not. \<^verbatim>\<open>send\<close> and \<^verbatim>\<open>send_best_effort\<close> of the decorator differ
  only in the inner call they make.
\<close>

definition timed_send :: "message_timeouts \<Rightarrow> rapid_request \<Rightarrow> (nat \<Rightarrow> rapid_response result option) \<Rightarrow> rapid_response result" where
  "timed_send t req inner = (case inner (for_request t req) of
       Some res \<Rightarrow> res
     | None \<Rightarrow> Inl Transport)"

section \<open>Fault injection\<close>

datatype disposition = Pass | Drop | Delay nat

datatype message_kind =
    KPreJoin | KJoin | KBatchedAlert | KProbe | KLeave | KFastRoundPhase2b
  | KPhase1a | KPhase1b | KPhase2a | KPhase2b

definition as_kind :: "rapid_request \<Rightarrow> message_kind option" where
  "as_kind req = (case req_content req of
       None \<Rightarrow> None
     | Some content \<Rightarrow> Some (case content of
         PreJoinMessage _ \<Rightarrow> KPreJoin
       | JoinMessage _ \<Rightarrow> KJoin
       | BatchedAlertMessage _ \<Rightarrow> KBatchedAlert
       | ProbeMessage _ \<Rightarrow> KProbe
       | LeaveMessage _ \<Rightarrow> KLeave
       | FastRoundPhase2bMessage _ \<Rightarrow> KFastRoundPhase2b
       | Phase1aMessage _ \<Rightarrow> KPhase1a
       | Phase1bMessage _ \<Rightarrow> KPhase1b
       | Phase2aMessage _ \<Rightarrow> KPhase2a
       | Phase2bMessage _ \<Rightarrow> KPhase2b))"

record first_n =
  fn_kind :: message_kind
  fn_remaining :: u32

definition first_n_new :: "u32 \<Rightarrow> message_kind \<Rightarrow> first_n" where
  "first_n_new n kind = \<lparr>fn_kind = kind, fn_remaining = n\<rparr>"

text \<open>
  \<^verbatim>\<open>FirstN::filter\<close> has two atomic steps: it loads the counter (and may pass at once) and then
  tries to exchange it.
\<close>

definition first_n_load :: "first_n \<Rightarrow> rapid_request \<Rightarrow> disposition + u32" where
  "first_n_load f req =
     (if as_kind req \<noteq> Some (fn_kind f) then Inl Pass
      else let prev = fn_remaining f in if prev = 0 then Inl Pass else Inr prev)"

definition first_n_exchange :: "first_n \<Rightarrow> u32 \<Rightarrow> first_n \<times> disposition" where
  "first_n_exchange f prev =
     (if fn_remaining f = prev then (f\<lparr>fn_remaining := prev - 1\<rparr>, Drop) else (f, Pass))"

definition first_n_filter :: "first_n \<Rightarrow> rapid_request \<Rightarrow> first_n \<times> disposition" where
  "first_n_filter f req = (case first_n_load f req of Inl d \<Rightarrow> (f, d) | Inr prev \<Rightarrow> first_n_exchange f prev)"

record drop_at_dests =
  dd_kind :: "message_kind option"
  dd_dests :: "socket_addr fset"
  dd_per_dest :: u32
  dd_remaining :: "(socket_addr, u32) fmap"

definition drop_at_dests_new :: "u32 \<Rightarrow> message_kind option \<Rightarrow> socket_addr fset \<Rightarrow> drop_at_dests" where
  "drop_at_dests_new per_dest kind dests =
     \<lparr>dd_kind = kind, dd_dests = dests, dd_per_dest = per_dest, dd_remaining = fmempty\<rparr>"

definition drop_at_dests_filter ::
  "drop_at_dests \<Rightarrow> socket_addr \<Rightarrow> rapid_request \<Rightarrow> drop_at_dests \<times> disposition" where
  "drop_at_dests_filter f dst req =
     (if dst |\<notin>| dd_dests f then (f, Pass)
      else if (case dd_kind f of None \<Rightarrow> False | Some k \<Rightarrow> as_kind req \<noteq> Some k) then (f, Pass)
      else
        (let entry = fm_get_or (dd_per_dest f) (dd_remaining f) dst;
             f = f\<lparr>dd_remaining := fmupd dst entry (dd_remaining f)\<rparr>
         in if entry = 0 then (f, Pass)
            else (f\<lparr>dd_remaining := fmupd dst (entry - 1) (dd_remaining f)\<rparr>, Drop)))"

text \<open>\<^verbatim>\<open>dyn EnvelopeFilter\<close>, and \<^verbatim>\<open>Chain\<close>: the first disposition that is not \<open>Pass\<close>; later filters are not asked.\<close>

datatype envelope_filter =
    FirstNFilter first_n
  | DropAtDestsFilter drop_at_dests
  | Chain "envelope_filter list"

fun run_filter :: "envelope_filter \<Rightarrow> socket_addr \<Rightarrow> rapid_request \<Rightarrow> envelope_filter \<times> disposition"
  and chain_filter :: "envelope_filter list \<Rightarrow> socket_addr \<Rightarrow> rapid_request \<Rightarrow> envelope_filter list \<times> disposition" where
  "run_filter (FirstNFilter f) dst req = (let (f, d) = first_n_filter f req in (FirstNFilter f, d))"
| "run_filter (DropAtDestsFilter f) dst req =
     (let (f, d) = drop_at_dests_filter f dst req in (DropAtDestsFilter f, d))"
| "run_filter (Chain fs) dst req = (let (fs, d) = chain_filter fs dst req in (Chain fs, d))"
| "chain_filter [] dst req = ([], Pass)"
| "chain_filter (f # fs) dst req =
     (let (f, d) = run_filter f dst req
      in if d = Pass then (let (fs, d) = chain_filter fs dst req in (f # fs, d)) else (f # fs, d))"

definition chain_new :: envelope_filter where
  "chain_new = Chain []"

definition chain_then :: "envelope_filter list \<Rightarrow> envelope_filter \<Rightarrow> envelope_filter" where
  "chain_then fs f = Chain (fs @ [f])"

section \<open>In-process network\<close>

text \<open>An inbox is named by the number of the server task that drains it.\<close>

record in_process_network =
  net_inner :: "(socket_addr, nat) fmap"
  net_interceptor :: "envelope_filter option"

definition network_new :: in_process_network where
  "network_new = \<lparr>net_inner = fmempty, net_interceptor = None\<rparr>"

definition set_interceptor :: "in_process_network \<Rightarrow> envelope_filter option \<Rightarrow> in_process_network" where
  "set_interceptor net f = net\<lparr>net_interceptor := f\<rparr>"

record server_handle =
  sh_addr :: socket_addr
  sh_task :: "nat option"

definition spawn_server_task :: "in_process_network \<Rightarrow> socket_addr \<Rightarrow> nat \<Rightarrow> in_process_network \<times> server_handle" where
  "spawn_server_task net addr task =
     (net\<lparr>net_inner := fmupd addr task (net_inner net)\<rparr>, \<lparr>sh_addr = addr, sh_task = Some task\<rparr>)"

definition route :: "in_process_network \<Rightarrow> socket_addr \<Rightarrow> nat option" where
  "route net addr = fmlookup (net_inner net) addr"

definition unregister :: "in_process_network \<Rightarrow> socket_addr \<Rightarrow> in_process_network" where
  "unregister net addr = net\<lparr>net_inner := fmdrop addr (net_inner net)\<rparr>"

text \<open>Dropping the handle aborts its task; \<^verbatim>\<open>shutdown\<close> waits for it instead.\<close>

definition server_drop :: "in_process_network \<Rightarrow> server_handle \<Rightarrow> in_process_network \<times> server_handle \<times> nat option" where
  "server_drop net h = (unregister net (sh_addr h), h\<lparr>sh_task := None\<rparr>, sh_task h)"

definition server_shutdown :: "in_process_network \<Rightarrow> server_handle \<Rightarrow> in_process_network \<times> server_handle" where
  "server_shutdown net h = (unregister net (sh_addr h), h\<lparr>sh_task := None\<rparr>)"

text \<open>What becomes of an envelope handed to an inbox.\<close>

datatype inbox_outcome = InboxClosed | ReplyDropped | Answered "rapid_response result"

definition client_dispatch ::
  "(nat \<Rightarrow> rapid_request \<Rightarrow> inbox_outcome) \<Rightarrow> in_process_network \<Rightarrow> socket_addr \<Rightarrow> rapid_request \<Rightarrow>
   in_process_network \<times> rapid_response result" where
  "client_dispatch serve net remote req =
     (let (net, d) = (case net_interceptor net of
            None \<Rightarrow> (net, Pass)
          | Some f \<Rightarrow> (let (f, d) = run_filter f remote req in (net\<lparr>net_interceptor := Some f\<rparr>, d)))
      in if d = Drop then (net, Inl Transport)
         else case route net remote of
           None \<Rightarrow> (net, Inl Transport)
         | Some inbox \<Rightarrow>
             (net, case serve inbox req of
                 InboxClosed \<Rightarrow> Inl Transport
               | ReplyDropped \<Rightarrow> Inl Transport
               | Answered res \<Rightarrow> res))"

definition client_send ::
  "(nat \<Rightarrow> rapid_request \<Rightarrow> inbox_outcome) \<Rightarrow> in_process_network \<Rightarrow> socket_addr \<Rightarrow> rapid_request \<Rightarrow>
   in_process_network \<times> rapid_response result" where
  "client_send serve net remote req = client_dispatch serve net remote req"

section \<open>FirstN under interleaving\<close>

text \<open>
  Callers on several threads: an event is a thread's load (with the request it filters) or its
  exchange. A thread whose load asked for an exchange holds the value it read; the log records
  the dispositions handed out.
\<close>

datatype filter_event = LoadEvent nat rapid_request | ExchangeEvent nat

record filter_run =
  fr_filter :: first_n
  fr_held :: "(nat, u32 \<times> rapid_request) fmap"
  fr_log :: "(rapid_request \<times> disposition) list"

definition filter_step :: "filter_run \<Rightarrow> filter_event \<Rightarrow> filter_run" where
  "filter_step s ev = (case ev of
       LoadEvent t req \<Rightarrow>
         (case fmlookup (fr_held s) t of
            Some _ \<Rightarrow> s
          | None \<Rightarrow>
              (case first_n_load (fr_filter s) req of
                 Inl d \<Rightarrow> s\<lparr>fr_log := fr_log s @ [(req, d)]\<rparr>
               | Inr prev \<Rightarrow> s\<lparr>fr_held := fmupd t (prev, req) (fr_held s)\<rparr>))
     | ExchangeEvent t \<Rightarrow>
         (case fmlookup (fr_held s) t of
            None \<Rightarrow> s
          | Some (prev, req) \<Rightarrow>
              (let (f, d) = first_n_exchange (fr_filter s) prev
               in s\<lparr>fr_filter := f, fr_held := fmdrop t (fr_held s), fr_log := fr_log s @ [(req, d)]\<rparr>)))"

definition drops :: "(rapid_request \<times> disposition) list \<Rightarrow> nat" where
  "drops log = length (filter (\<lambda>(req, d). d = Drop) log)"

definition filter_ok :: "u32 \<Rightarrow> message_kind \<Rightarrow> filter_run \<Rightarrow> bool" where
  "filter_ok n k s \<longleftrightarrow> fn_kind (fr_filter s) = k \<and> drops (fr_log s) + unat (fn_remaining (fr_filter s)) = unat n \<and>
     (\<forall>t prev req. fmlookup (fr_held s) t = Some (prev, req) \<longrightarrow> prev \<noteq> 0 \<and> as_kind req = Some k) \<and>
     (\<forall>req. (req, Drop) \<in> set (fr_log s) \<longrightarrow> as_kind req = Some k)"

lemma drops_append [simp]: "drops (xs @ ys) = drops xs + drops ys"
  by (simp add: drops_def)

lemma unat_minus_1: "(w :: u32) \<noteq> 0 \<Longrightarrow> Suc (unat (w - 1)) = unat w"
  by (metis Suc_pred' unat_gt_0 unat_minus_one)

lemma filter_step_ok:
  assumes "filter_ok n k s"
  shows "filter_ok n k (filter_step s ev)"
proof (cases ev)
  case (LoadEvent t req)
  then show ?thesis
    using assms
    by (auto simp: filter_step_def filter_ok_def first_n_load_def Let_def drops_def split: option.splits sum.splits if_splits)
next
  case (ExchangeEvent t)
  show ?thesis
  proof (cases "fmlookup (fr_held s) t")
    case (Some h)
    obtain prev req where h: "h = (prev, req)" by (cases h)
    have p: "prev \<noteq> 0" "as_kind req = Some k" using assms Some h by (auto simp: filter_ok_def)
    show ?thesis
      using assms Some p unat_minus_1[OF p(1)] unfolding ExchangeEvent h
      by (cases "fn_remaining (fr_filter s) = prev")
        (auto simp: filter_step_def filter_ok_def first_n_exchange_def drops_def Let_def split: if_splits)
  qed (use assms ExchangeEvent in \<open>simp add: filter_step_def\<close>)
qed

interpretation fim: event_machine filter_step "filter_ok n k" "\<lambda>_. True" for n k
  by unfold_locales (rule filter_step_ok)

definition filter_run_new :: "u32 \<Rightarrow> message_kind \<Rightarrow> filter_run" where
  "filter_run_new n k = \<lparr>fr_filter = first_n_new n k, fr_held = fmempty, fr_log = []\<rparr>"

text \<open>
  C33. \<open>FirstN\<close> under concurrency. However the loads and exchanges of any number of threads
  interleave, the envelopes dropped so far and the counter always add up to \<open>n\<close>, so never more
  than \<open>n\<close> are dropped and the counter never wraps below zero, and only envelopes of the chosen
  kind are dropped.
\<close>

theorem first_n_interleaved:
  "let s = run filter_step (filter_run_new n k) evs in
     drops (fr_log s) + unat (fn_remaining (fr_filter s)) = unat n \<and>
     list_all (\<lambda>(req, d). if d = Drop then as_kind req = Some k else True) (fr_log s)"
proof -
  have "filter_ok n k (filter_run_new n k)"
    by (simp add: filter_ok_def filter_run_new_def first_n_new_def drops_def)
  then have "filter_ok n k (run filter_step (filter_run_new n k) evs)"
    by (rule fim.run_inv) (simp add: list_all_iff)
  then show ?thesis by (auto simp: filter_ok_def Let_def list_all_iff split: if_splits)
qed

section \<open>Faults per destination\<close>

fun filter_all :: "drop_at_dests \<Rightarrow> (socket_addr \<times> rapid_request) list \<Rightarrow> disposition list" where
  "filter_all f [] = []"
| "filter_all f ((dst, req) # es) = (let (f, d) = drop_at_dests_filter f dst req in d # filter_all f es)"

definition fault_matches :: "message_kind option \<Rightarrow> socket_addr fset \<Rightarrow> socket_addr \<Rightarrow> socket_addr \<times> rapid_request \<Rightarrow> bool" where
  "fault_matches kind dests dst e \<longleftrightarrow> dst |\<in>| dests \<and> fst e = dst \<and>
     (case kind of None \<Rightarrow> True | Some k \<Rightarrow> as_kind (snd e) = Some k)"

definition faults_left :: "drop_at_dests \<Rightarrow> (socket_addr \<times> rapid_request) list \<Rightarrow> bool" where
  "faults_left f seen \<longleftrightarrow> (\<forall>dst. dst |\<in>| dd_dests f \<longrightarrow>
     unat (fm_get_or (dd_per_dest f) (dd_remaining f) dst) =
       unat (dd_per_dest f) - length (filter (fault_matches (dd_kind f) (dd_dests f) dst) seen))"

definition drops_at :: "message_kind option \<Rightarrow> socket_addr fset \<Rightarrow> u32 \<Rightarrow> (socket_addr \<times> rapid_request) list \<Rightarrow>
    socket_addr \<times> rapid_request \<Rightarrow> bool" where
  "drops_at kind dests per_dest seen e \<longleftrightarrow> fault_matches kind dests (fst e) e \<and>
     length (filter (fault_matches kind dests (fst e)) seen) < unat per_dest"

lemma drop_at_dests_quiet:
  assumes "\<not> fault_matches (dd_kind f) (dd_dests f) dst (dst, req)"
  shows "drop_at_dests_filter f dst req = (f, Pass)"
  using assms by (auto simp: drop_at_dests_filter_def fault_matches_def split: option.splits)

lemma drop_at_dests_match:
  assumes "fault_matches (dd_kind f) (dd_dests f) dst (dst, req)"
  shows "drop_at_dests_filter f dst req =
    (let entry = fm_get_or (dd_per_dest f) (dd_remaining f) dst in
     (f\<lparr>dd_remaining := fmupd dst (if entry = 0 then 0 else entry - 1) (dd_remaining f)\<rparr>, if entry = 0 then Pass else Drop))"
  using assms by (auto simp: drop_at_dests_filter_def fault_matches_def Let_def split: option.splits)

lemma faults_left_step:
  assumes left: "faults_left f seen"
  shows "faults_left (fst (drop_at_dests_filter f dst req)) (seen @ [(dst, req)])"
    "snd (drop_at_dests_filter f dst req) =
      (if drops_at (dd_kind f) (dd_dests f) (dd_per_dest f) seen (dst, req) then Drop else Pass)"
proof -
  let ?m = "fault_matches (dd_kind f) (dd_dests f)"
  let ?e = "fm_get_or (dd_per_dest f) (dd_remaining f)"
  have other: "\<not> ?m dst' (dst, req)" if "dst' \<noteq> dst" for dst'
    using that by (simp add: fault_matches_def)
  show "faults_left (fst (drop_at_dests_filter f dst req)) (seen @ [(dst, req)])"
    "snd (drop_at_dests_filter f dst req) =
      (if drops_at (dd_kind f) (dd_dests f) (dd_per_dest f) seen (dst, req) then Drop else Pass)"
  proof (atomize (full), cases "?m dst (dst, req)")
    case False
    then have "\<not> ?m dst' (dst, req)" for dst' using other by (cases "dst' = dst") auto
    then show "faults_left (fst (drop_at_dests_filter f dst req)) (seen @ [(dst, req)]) \<and>
        snd (drop_at_dests_filter f dst req) =
          (if drops_at (dd_kind f) (dd_dests f) (dd_per_dest f) seen (dst, req) then Drop else Pass)"
      using left False by (simp add: drop_at_dests_quiet faults_left_def drops_at_def)
  next
    case True
    then have d: "dst |\<in>| dd_dests f" by (simp add: fault_matches_def)
    have e: "unat (?e dst) = unat (dd_per_dest f) - length (filter (?m dst) seen)"
      using left d unfolding faults_left_def by blast
    define n where "n = (if ?e dst = 0 then 0 else ?e dst - 1)"
    have n: "unat n = unat (dd_per_dest f) - Suc (length (filter (?m dst) seen))"
      using e unat_minus_1[of "?e dst"] by (auto simp: n_def)
    have z: "?e dst = 0 \<longleftrightarrow> \<not> length (filter (?m dst) seen) < unat (dd_per_dest f)"
      using e by (auto simp: unat_eq_zero[symmetric] simp del: unat_eq_zero)
    have r: "drop_at_dests_filter f dst req =
        (f\<lparr>dd_remaining := fmupd dst n (dd_remaining f)\<rparr>, if ?e dst = 0 then Pass else Drop)"
      by (simp add: drop_at_dests_match[OF True] Let_def n_def)
    have "unat (fm_get_or (dd_per_dest f) (fmupd dst n (dd_remaining f)) dst') =
        unat (dd_per_dest f) - length (filter (?m dst') (seen @ [(dst, req)]))" if d': "dst' |\<in>| dd_dests f" for dst'
    proof (cases "dst' = dst")
      case False
      have "unat (?e dst') = unat (dd_per_dest f) - length (filter (?m dst') seen)"
        using left d' unfolding faults_left_def by blast
      then show ?thesis using False other[OF False] by (simp add: fm_get_or_def)
    qed (use True n in \<open>simp add: fm_get_or_def\<close>)
    then show "faults_left (fst (drop_at_dests_filter f dst req)) (seen @ [(dst, req)]) \<and>
        snd (drop_at_dests_filter f dst req) =
          (if drops_at (dd_kind f) (dd_dests f) (dd_per_dest f) seen (dst, req) then Drop else Pass)"
      using True z unfolding r faults_left_def drops_at_def by simp
  qed
qed

lemma drop_at_dests_frame:
  "dd_kind (fst (drop_at_dests_filter f dst req)) = dd_kind f"
  "dd_dests (fst (drop_at_dests_filter f dst req)) = dd_dests f"
  "dd_per_dest (fst (drop_at_dests_filter f dst req)) = dd_per_dest f"
  by (simp_all add: drop_at_dests_filter_def Let_def)

lemma filter_all_exact:
  "faults_left f seen \<Longrightarrow> filter_all f es = map (\<lambda>i. if drops_at (dd_kind f) (dd_dests f) (dd_per_dest f)
     (seen @ take i es) (es ! i) then Drop else Pass) [0..<length es]"
proof (induction es arbitrary: f seen)
  case (Cons e es)
  obtain dst req where e: "e = (dst, req)" by (cases e)
  note step = faults_left_step[OF Cons.prems, of dst req]
  have "filter_all (fst (drop_at_dests_filter f dst req)) es = map (\<lambda>i. if drops_at (dd_kind f) (dd_dests f) (dd_per_dest f)
     ((seen @ [e]) @ take i es) (es ! i) then Drop else Pass) [0..<length es]"
    using Cons.IH[OF step(1)] by (simp add: drop_at_dests_frame e)
  then show ?case
    using step(2) by (simp add: e split_beta Let_def upt_conv_Cons map_Suc_upt[symmetric] comp_def del: upt_Suc)
qed simp

text \<open>
  Faults per destination, exactly. Over any sequence of sends the filter drops a request exactly
  when its destination is one of the chosen ones, its kind matches (or no kind was chosen), and
  fewer than \<open>per_dest\<close> matching requests to that destination came before; it passes every other.
\<close>

theorem drop_at_dests_exact:
  "filter_all (drop_at_dests_new per_dest kind dests) es =
     map (\<lambda>i. if drops_at kind dests per_dest (take i es) (es ! i) then Drop else Pass) [0..<length es]"
proof -
  have "faults_left (drop_at_dests_new per_dest kind dests) []"
    by (simp add: faults_left_def drop_at_dests_new_def fm_get_or_def)
  from filter_all_exact[OF this, of es] show ?thesis by (simp add: drop_at_dests_new_def)
qed

section \<open>Servers\<close>

text \<open>
  Respawning a server at an address and then dropping the handle of its predecessor leaves the
  address without a server: unregistering is by address, not by task.
\<close>

theorem respawn_unregistered:
  "let (net, h) = spawn_server_task network_new addr t; (net, h') = spawn_server_task net addr t';
       (net, _, _) = server_drop net h
   in route net addr = None \<and> sh_task h' = Some t'"
  by (simp add: spawn_server_task_def server_drop_def unregister_def route_def)

lemma broadcast_recipients:
  assumes "\<And>xs. mset (shuffle xs) = mset xs"
  shows "mset (map fst (broadcast (set_membership shuffle bc rs) req)) = mset rs"
    "set (map snd (broadcast (set_membership shuffle bc rs) req)) \<subseteq> {req}"
  using assms[of rs] by (auto simp: broadcast_def set_membership_def comp_def)

end
