(* ===== verification/Monitoring.thy ===== *)
theory Monitoring
  imports Service
begin

text \<open>
  \<^verbatim>\<open>crates/rapid/src/monitoring/\<close>: the notifier a detector is bound to (\<^verbatim>\<open>factory.rs\<close>), the
  ping-pong detector (\<^verbatim>\<open>ping_pong.rs\<close>), the blacklist detector (\<^verbatim>\<open>static_fd.rs\<close>), the
  detector that never fires (\<^verbatim>\<open>no_op.rs\<close>), and their factories. A detector's \<^verbatim>\<open>run\<close> is an
  endless loop that sleeps, polls and may return; here it is run over a list with one entry per
  wake-up, holding what the environment answers then (the probe's result, the blacklist). A run
  whose list is exhausted is a task still waiting. Counters are \<open>u32\<close> and wrap.

  Properties: the exact number of probes and the single notification of the ping-pong detector,
  and the contract every detector keeps, stated as a locale and interpreted for all three.
\<close>

section \<open>Notifier and effects\<close>

record edge_failure_notifier =
  nf_configuration_id :: configuration_id
  nf_subject :: endpoint

definition notifier_new :: "configuration_id \<Rightarrow> endpoint \<Rightarrow> edge_failure_notifier" where
  "notifier_new c subject = \<lparr>nf_configuration_id = c, nf_subject = subject\<rparr>"

datatype detector_effect = Probe socket_addr rapid_request | Notify edge_failure

definition notify :: "edge_failure_notifier \<Rightarrow> detector_effect" where
  "notify n = Notify (EdgeFailure (nf_subject n) (nf_configuration_id n))"

text \<open>What one wake-up of a detector finds.\<close>

record poll =
  po_response :: "rapid_response result"
  po_blacklist :: "endpoint_key fset"

text \<open>\<^verbatim>\<open>loop { sleep; ...; if ... { return; } }\<close>: a step gives the new state, its effects and whether it returns.\<close>

fun poll_loop ::
  "('s \<Rightarrow> 'i \<Rightarrow> 's \<times> 'e list \<times> bool) \<Rightarrow> 's \<Rightarrow> 'i list \<Rightarrow> 's \<times> 'e list \<times> bool" where
  "poll_loop iter s [] = (s, [], False)"
| "poll_loop iter s (i # is) =
     (let (s, es, stop) = iter s i
      in if stop then (s, es, True)
         else (let (s, es', stop) = poll_loop iter s is in (s, es @ es', stop)))"

section \<open>Ping-pong detector\<close>

definition FAILURE_THRESHOLD :: u32 where "FAILURE_THRESHOLD = 10"
definition BOOTSTRAP_COUNT_THRESHOLD :: u32 where "BOOTSTRAP_COUNT_THRESHOLD = 30"

record ping_pong_detector =
  pp_address :: endpoint
  pp_subject :: endpoint
  pp_subject_addr :: socket_addr
  pp_notifier :: edge_failure_notifier
  pp_failure_count :: u32
  pp_bootstrap_response_count :: u32
  pp_notified :: bool
  pp_interval :: nat

definition ping_pong_new ::
  "(bytes \<Rightarrow> u16 \<Rightarrow> socket_addr option) \<Rightarrow> endpoint \<Rightarrow> endpoint \<Rightarrow> edge_failure_notifier \<Rightarrow> nat \<Rightarrow>
   ping_pong_detector option" where
  "ping_pong_new parse address subject notifier interval =
     (let port = sint (ep_port subject)
      in if \<not> (0 \<le> port \<and> port < 65536) then None
         else case parse (ep_hostname subject) (ucast (ep_port subject)) of
           None \<Rightarrow> None
         | Some subject_addr \<Rightarrow>
             Some \<lparr>pp_address = address, pp_subject = subject, pp_subject_addr = subject_addr,
               pp_notifier = notifier, pp_failure_count = 0, pp_bootstrap_response_count = 0,
               pp_notified = False, pp_interval = interval\<rparr>)"

definition has_failed :: "ping_pong_detector \<Rightarrow> bool" where
  "has_failed d \<longleftrightarrow> pp_failure_count d \<ge> FAILURE_THRESHOLD"

definition maybe_notify :: "ping_pong_detector \<Rightarrow> ping_pong_detector \<times> detector_effect list" where
  "maybe_notify d =
     (if pp_notified d then (d, []) else (d\<lparr>pp_notified := True\<rparr>, [notify (pp_notifier d)]))"

definition on_failure :: "ping_pong_detector \<Rightarrow> ping_pong_detector" where
  "on_failure d = d\<lparr>pp_failure_count := pp_failure_count d + 1\<rparr>"

definition on_response :: "ping_pong_detector \<Rightarrow> response_content option \<Rightarrow> ping_pong_detector" where
  "on_response d content = (case content of
       Some (ProbeResponse p) \<Rightarrow>
         if node_status_or_ok (pr_status p) = BootstrappingStatus
         then
           (let n = pp_bootstrap_response_count d + 1;
                d = d\<lparr>pp_bootstrap_response_count := n\<rparr>
            in if n > BOOTSTRAP_COUNT_THRESHOLD then on_failure d else d)
         else d
     | _ \<Rightarrow> on_failure d)"

definition tick ::
  "ping_pong_detector \<Rightarrow> rapid_response result \<Rightarrow> ping_pong_detector \<times> detector_effect list" where
  "tick d outcome =
     (if has_failed d then maybe_notify d
      else
        (let req = probe_request \<lparr>pm_sender = Some (pp_address d), pm_payload = []\<rparr>
         in (case outcome of
               Inr resp \<Rightarrow> on_response d (resp_content resp)
             | Inl _ \<Rightarrow> on_failure d,
             [Probe (pp_subject_addr d) req])))"

definition ping_pong_iter ::
  "ping_pong_detector \<Rightarrow> poll \<Rightarrow> ping_pong_detector \<times> detector_effect list \<times> bool" where
  "ping_pong_iter d i = (let (d, es) = tick d (po_response i) in (d, es, pp_notified d))"

definition ping_pong_run ::
  "ping_pong_detector \<Rightarrow> poll list \<Rightarrow> ping_pong_detector \<times> detector_effect list \<times> bool" where
  "ping_pong_run d is = poll_loop ping_pong_iter d is"

section \<open>Blacklist detector and no-op detector\<close>

definition blacklist_new :: "endpoint_key fset" where
  "blacklist_new = {||}"

definition add_failed_nodes :: "endpoint_key fset \<Rightarrow> endpoint list \<Rightarrow> endpoint_key fset" where
  "add_failed_nodes g nodes = fold (\<lambda>ep. finsert (endpoint_key_of ep)) nodes g"

definition blacklist_contains :: "endpoint_key fset \<Rightarrow> endpoint \<Rightarrow> bool" where
  "blacklist_contains g ep \<longleftrightarrow> endpoint_key_of ep |\<in>| g"

record static_detector =
  sd_subject :: endpoint
  sd_notifier :: edge_failure_notifier
  sd_interval :: nat

definition static_iter ::
  "static_detector \<Rightarrow> poll \<Rightarrow> static_detector \<times> detector_effect list \<times> bool" where
  "static_iter d i =
     (if blacklist_contains (po_blacklist i) (sd_subject d) then (d, [notify (sd_notifier d)], True)
      else (d, [], False))"

definition static_run ::
  "static_detector \<Rightarrow> poll list \<Rightarrow> static_detector \<times> detector_effect list \<times> bool" where
  "static_run d is = poll_loop static_iter d is"

text \<open>\<^verbatim>\<open>future::pending\<close>: the detector waits for ever.\<close>

definition no_op_run :: "poll list \<Rightarrow> detector_effect list \<times> bool" where
  "no_op_run is = ([], False)"

section \<open>Factories\<close>

datatype detector = PingPongDetector ping_pong_detector | StaticDetector static_detector | NoOpDetector

datatype detector_factory =
    PingPongFactory endpoint nat
  | StaticFactory nat
  | NoOpFactory

definition create_detector ::
  "(bytes \<Rightarrow> u16 \<Rightarrow> socket_addr option) \<Rightarrow> detector_factory \<Rightarrow> endpoint \<Rightarrow> edge_failure_notifier \<Rightarrow> detector" where
  "create_detector parse factory subject notifier = (case factory of
       PingPongFactory address interval \<Rightarrow>
         (case ping_pong_new parse address subject notifier interval of
            Some d \<Rightarrow> PingPongDetector d
          | None \<Rightarrow> NoOpDetector)
     | StaticFactory interval \<Rightarrow>
         StaticDetector \<lparr>sd_subject = subject, sd_notifier = notifier, sd_interval = interval\<rparr>
     | NoOpFactory \<Rightarrow> NoOpDetector)"

definition detector_run :: "detector \<Rightarrow> poll list \<Rightarrow> detector_effect list \<times> bool" where
  "detector_run d is = (case d of
       PingPongDetector p \<Rightarrow> snd (ping_pong_run p is)
     | StaticDetector s \<Rightarrow> snd (static_run s is)
     | NoOpDetector \<Rightarrow> no_op_run is)"

section \<open>The contract of a detector\<close>

fun notifications :: "detector_effect list \<Rightarrow> edge_failure list" where
  "notifications [] = []"
| "notifications (Notify ef # es) = ef # notifications es"
| "notifications (Probe _ _ # es) = notifications es"

lemma notifications_append [simp]: "notifications (xs @ ys) = notifications xs @ notifications ys"
  by (induction xs rule: notifications.induct) auto

text \<open>
  While \<open>live\<close>, a step either goes on silently or notifies once, about the edge the detector is
  bound to, and returns.
\<close>

locale edge_detector =
  fixes iter :: "'s \<Rightarrow> poll \<Rightarrow> 's \<times> detector_effect list \<times> bool"
    and live :: "'s \<Rightarrow> bool"
    and bound :: "'s \<Rightarrow> edge_failure_notifier"
  assumes iter_notifies: "live s \<Longrightarrow> iter s i = (s', es, stop) \<Longrightarrow>
      notifications es = (if stop then notifications [notify (bound s)] else [])"
    and iter_live: "live s \<Longrightarrow> iter s i = (s', es, False) \<Longrightarrow> live s' \<and> bound s' = bound s"
begin

lemma run_notifies:
  "live s \<Longrightarrow> poll_loop iter s is = (s', es, stop) \<Longrightarrow>
     notifications es = (if stop then notifications [notify (bound s)] else [])"
proof (induction "is" arbitrary: s s' es stop)
  case (Cons i "is")
  obtain t fs st where t: "iter s i = (t, fs, st)" by (cases "iter s i")
  show ?case
  proof (cases st)
    case True
    then show ?thesis using iter_notifies[OF Cons.prems(1) t] Cons.prems(2) by (simp add: t)
  next
    case False
    then have l: "live t" "bound t = bound s" "notifications fs = []"
      using iter_live[OF Cons.prems(1)] iter_notifies[OF Cons.prems(1)] t by auto
    obtain u gs su where u: "poll_loop iter t is = (u, gs, su)" by (cases "poll_loop iter t is")
    show ?thesis using Cons.IH[OF l(1) u] Cons.prems(2) False l by (auto simp: t u)
  qed
qed simp

end

interpretation ppd: edge_detector ping_pong_iter "\<lambda>d. \<not> pp_notified d" pp_notifier
  by unfold_locales
    (auto simp: ping_pong_iter_def tick_def maybe_notify_def on_response_def on_failure_def notify_def Let_def
      split: if_splits sum.splits option.splits response_content.splits)

interpretation sfd: edge_detector static_iter "\<lambda>_. True" sd_notifier
  by unfold_locales (auto simp: static_iter_def notify_def split: if_splits)

section \<open>Properties\<close>

definition probe_bootstrapping :: "poll \<Rightarrow> bool" where
  "probe_bootstrapping i = (case po_response i of
       Inr (RapidResponse (Some (ProbeResponse p))) \<Rightarrow> node_status_or_ok (pr_status p) = BootstrappingStatus
     | _ \<Rightarrow> False)"

definition probe_failed :: "poll \<Rightarrow> bool" where
  "probe_failed i = (case po_response i of
       Inr (RapidResponse (Some (ProbeResponse p))) \<Rightarrow> False
     | _ \<Rightarrow> True)"

text \<open>The failures a list of probe results amounts to: failed probes, and every answer
  \<open>BOOTSTRAPPING\<close> after the thirtieth.\<close>

definition boots :: "poll list \<Rightarrow> nat" where
  "boots is = length (filter probe_bootstrapping is)"

definition score :: "poll list \<Rightarrow> nat" where
  "score is = length (filter probe_failed is) + (boots is - 30)"

lemma score_snoc:
  "probe_failed i \<Longrightarrow> score (is @ [i]) = Suc (score is)"
  "probe_bootstrapping i \<Longrightarrow> score (is @ [i]) = (if boots is < 30 then score is else Suc (score is))"
  "\<not> probe_failed i \<Longrightarrow> \<not> probe_bootstrapping i \<Longrightarrow> score (is @ [i]) = score is"
  "boots (is @ [i]) = (if probe_bootstrapping i then Suc (boots is) else boots is)"
proof -
  have ex: "\<not> (probe_failed i \<and> probe_bootstrapping i)"
    by (auto simp: probe_failed_def probe_bootstrapping_def split: sum.split rapid_response.split option.split response_content.split)
  show "probe_failed i \<Longrightarrow> score (is @ [i]) = Suc (score is)"
    "probe_bootstrapping i \<Longrightarrow> score (is @ [i]) = (if boots is < 30 then score is else Suc (score is))"
    "\<not> probe_failed i \<Longrightarrow> \<not> probe_bootstrapping i \<Longrightarrow> score (is @ [i]) = score is"
    "boots (is @ [i]) = (if probe_bootstrapping i then Suc (boots is) else boots is)"
    using ex by (auto simp: score_def boots_def)
qed

definition counted :: "ping_pong_detector \<Rightarrow> poll list \<Rightarrow> bool" where
  "counted d is \<longleftrightarrow> \<not> pp_notified d \<and> pp_failure_count d = of_nat (score is) \<and>
     pp_bootstrap_response_count d = of_nat (boots is) \<and> score is \<le> 10"

lemma counted_failed: "counted d is \<Longrightarrow> has_failed d \<longleftrightarrow> 10 \<le> score is"
  by (auto simp: counted_def has_failed_def FAILURE_THRESHOLD_def word_le_nat_alt unat_of_nat)

lemma boots_threshold:
  assumes "boots is < 40"
  shows "of_nat (boots is) + 1 > BOOTSTRAP_COUNT_THRESHOLD \<longleftrightarrow> 30 < Suc (boots is)"
proof -
  have e: "of_nat (boots is) + 1 = (of_nat (Suc (boots is)) :: u32)" by simp
  have u: "unat (of_nat (Suc (boots is)) :: u32) = Suc (boots is)"
    using assms by (simp only: unat_of_nat) simp
  show ?thesis unfolding e BOOTSTRAP_COUNT_THRESHOLD_def word_less_nat_alt u by simp
qed

definition probe_of :: "ping_pong_detector \<Rightarrow> detector_effect" where
  "probe_of d = Probe (pp_subject_addr d) (probe_request \<lparr>pm_sender = Some (pp_address d), pm_payload = []\<rparr>)"

text \<open>The state after a probe's result.\<close>

definition outcome :: "ping_pong_detector \<Rightarrow> poll \<Rightarrow> ping_pong_detector" where
  "outcome d i = (case po_response i of Inr resp \<Rightarrow> on_response d (resp_content resp) | Inl _ \<Rightarrow> on_failure d)"

lemma outcome_cases:
  "probe_failed i \<Longrightarrow> outcome d i = on_failure d"
  "probe_bootstrapping i \<Longrightarrow> outcome d i =
     (let d' = d\<lparr>pp_bootstrap_response_count := pp_bootstrap_response_count d + 1\<rparr> in
      if pp_bootstrap_response_count d + 1 > BOOTSTRAP_COUNT_THRESHOLD then on_failure d' else d')"
  "\<not> probe_failed i \<Longrightarrow> \<not> probe_bootstrapping i \<Longrightarrow> outcome d i = d"
  by (cases "po_response i"; cases "projr (po_response i)";
      auto simp: probe_failed_def probe_bootstrapping_def outcome_def on_response_def Let_def
        split: option.splits response_content.splits)+

lemma outcome_frame:
  "pp_notified (outcome d i) = pp_notified d" "pp_notifier (outcome d i) = pp_notifier d"
  "probe_of (outcome d i) = probe_of d"
  by (simp_all add: outcome_def on_response_def on_failure_def probe_of_def Let_def
      split: sum.split option.split response_content.split)

lemma outcome_counted:
  assumes "counted d ps" "score ps < 10"
  shows "counted (outcome d i) (ps @ [i])"
proof -
  have b: "boots ps < 40" using assms(2) by (simp add: score_def)
  consider "probe_failed i" | "probe_bootstrapping i" "\<not> probe_failed i"
    | "\<not> probe_failed i" "\<not> probe_bootstrapping i" by blast
  then show ?thesis
  proof cases
    case 1
    then have "\<not> probe_bootstrapping i"
      by (auto simp: probe_failed_def probe_bootstrapping_def split: sum.splits rapid_response.splits option.splits response_content.splits)
    then show ?thesis using 1 assms by (simp add: counted_def outcome_cases on_failure_def score_snoc)
  next
    case 2
    then show ?thesis
      using assms boots_threshold[OF b]
      by (simp add: counted_def outcome_cases on_failure_def score_snoc Let_def add.commute)
  next
    case 3
    then show ?thesis using assms by (simp add: counted_def outcome_cases score_snoc)
  qed
qed

lemma counted_iter:
  assumes "counted d ps" "score ps < 10"
  obtains d' where "ping_pong_iter d i = (d', [probe_of d], False)" "counted d' (ps @ [i])"
    "probe_of d' = probe_of d" "pp_notifier d' = pp_notifier d"
proof -
  have nf: "\<not> has_failed d" "\<not> pp_notified d"
    using counted_failed[OF assms(1)] assms by (simp_all add: counted_def)
  then have "ping_pong_iter d i = (outcome d i, [probe_of d], False)"
    using outcome_frame(1)[of d i]
    by (simp add: ping_pong_iter_def tick_def probe_of_def Let_def outcome_def)
  then show thesis using that outcome_counted[OF assms] outcome_frame(2,3) by blast
qed

lemma ping_pong_counted:
  assumes "counted d ps"
  shows "let (d', es, stop) = ping_pong_run d is in \<exists>n \<le> length is.
    (\<forall>m < n. score (ps @ take m is) < 10) \<and> stop = (n < length is) \<and> (stop \<longrightarrow> 10 \<le> score (ps @ take n is)) \<and>
    es = replicate n (probe_of d) @ (if stop then [notify (pp_notifier d)] else [])"
  using assms
proof (induction "is" arbitrary: d ps)
  case Nil
  then show ?case by (simp add: ping_pong_run_def)
next
  case (Cons i "is")
  show ?case
  proof (cases "score ps < 10")
    case False
    then have "ping_pong_iter d i = (d\<lparr>pp_notified := True\<rparr>, [notify (pp_notifier d)], True)"
      using counted_failed[OF Cons.prems] Cons.prems
      by (simp add: ping_pong_iter_def tick_def maybe_notify_def counted_def)
    then show ?thesis using False by (auto simp: ping_pong_run_def intro!: exI[of _ 0])
  next
    case True
    then obtain d' where d': "ping_pong_iter d i = (d', [probe_of d], False)" "counted d' (ps @ [i])"
      "probe_of d' = probe_of d" "pp_notifier d' = pp_notifier d"
      using counted_iter[OF Cons.prems] by metis
    obtain d'' es stop where r: "ping_pong_run d' is = (d'', es, stop)" by (cases "ping_pong_run d' is")
    then obtain n where n: "n \<le> length is" "\<forall>m < n. score ((ps @ [i]) @ take m is) < 10" "stop = (n < length is)"
      "stop \<longrightarrow> 10 \<le> score ((ps @ [i]) @ take n is)"
      "es = replicate n (probe_of d') @ (if stop then [notify (pp_notifier d')] else [])"
      using Cons.IH[OF d'(2)] by auto
    have "\<forall>m < Suc n. score (ps @ take m (i # is)) < 10"
      using True n(2) by (auto simp: take_Cons' less_Suc_eq_0_disj)
    then show ?thesis
      using n d' r by (auto simp: ping_pong_run_def intro!: exI[of _ "Suc n"])
  qed
qed

text \<open>
  C25. The ping-pong detector, exactly. A new detector, woken over any list of probe results, sends
  its probe on every wake-up until the results so far amount to ten failures: failed probes
  (transport errors and answers that are not probe responses, successes in between do not cancel
  them) plus every \<open>BOOTSTRAPPING\<close> answer beyond the thirtieth. On the first wake-up after that it
  notifies exactly once, about its subject in the configuration it was created for, sends nothing
  more and ends. The 32-bit counters never wrap.
\<close>

theorem ping_pong_exact:
  assumes "ping_pong_new parse address subject notifier interval = Some d"
  shows "let (d', es, stop) = ping_pong_run d is in \<exists>n \<le> length is.
    (\<forall>m < n. score (take m is) < 10) \<and> stop = (n < length is) \<and> (if stop then 10 \<le> score (take n is) else True) \<and>
    es = replicate n (Probe (pp_subject_addr d) (probe_request \<lparr>pm_sender = Some address, pm_payload = []\<rparr>)) @
      (if stop then [Notify (EdgeFailure (nf_subject notifier) (nf_configuration_id notifier))] else [])"
proof -
  have d: "pp_address d = address" "pp_notifier d = notifier" "counted d []"
    using assms by (auto simp: ping_pong_new_def Let_def counted_def score_def boots_def split: if_splits option.splits)
  show ?thesis using ping_pong_counted[OF d(3), of "is"] by (auto simp: d probe_of_def notify_def)
qed

definition demo_poll :: "rapid_response result \<Rightarrow> poll" where
  "demo_poll r = \<lparr>po_response = r, po_blacklist = {||}\<rparr>"

definition demo_parse :: "bytes \<Rightarrow> u16 \<Rightarrow> socket_addr option" where
  "demo_parse h p = Some (h, p)"

definition demo_detector :: ping_pong_detector where
  "demo_detector = the (ping_pong_new demo_parse (demo_ep 1) (demo_ep 2) (notifier_new 5 (demo_ep 2)) 200)"

lemma demo_detector_new:
  "ping_pong_new demo_parse (demo_ep 1) (demo_ep 2) (notifier_new 5 (demo_ep 2)) 200 = Some demo_detector"
proof -
  have "case ping_pong_new demo_parse (demo_ep 1) (demo_ep 2) (notifier_new 5 (demo_ep 2)) 200 of None \<Rightarrow> False | Some _ \<Rightarrow> True"
    by code_simp
  then show ?thesis by (auto simp: demo_detector_def split: option.splits)
qed

theorem ping_pong_exact_witness:
  "let (d', es, stop) = ping_pong_run demo_detector (replicate 12 (demo_poll (Inl Transport))) in
    \<exists>n \<le> length (replicate 12 (demo_poll (Inl Transport))).
    (\<forall>m < n. score (take m (replicate 12 (demo_poll (Inl Transport)))) < 10) \<and>
    stop = (n < length (replicate 12 (demo_poll (Inl Transport)))) \<and>
    (if stop then 10 \<le> score (take n (replicate 12 (demo_poll (Inl Transport)))) else True) \<and>
    es = replicate n (Probe (pp_subject_addr demo_detector)
        (probe_request \<lparr>pm_sender = Some (demo_ep 1), pm_payload = []\<rparr>)) @
      (if stop then [Notify (EdgeFailure (nf_subject (notifier_new 5 (demo_ep 2)))
        (nf_configuration_id (notifier_new 5 (demo_ep 2))))] else [])"
  by (rule ping_pong_exact[OF demo_detector_new])

text \<open>
  The contract of every detector. Whatever factory made it and whatever it observes, a detector
  notifies at most once, exactly when its task ends, and the notification names the subject and
  the configuration it was created for; the actor can therefore tell a notification of an earlier
  configuration by its identifier.
\<close>

theorem detector_contract:
  "case detector_run (create_detector parse factory subject (notifier_new c subject)) is of
     (es, stop) \<Rightarrow> notifications es = (if stop then [EdgeFailure subject c] else [])"
proof (cases "create_detector parse factory subject (notifier_new c subject)")
  case (PingPongDetector d)
  then have d: "\<not> pp_notified d" "pp_notifier d = notifier_new c subject"
    by (auto simp: create_detector_def ping_pong_new_def Let_def split: detector_factory.splits option.splits if_splits)
  obtain d' es stop where r: "poll_loop ping_pong_iter d is = (d', es, stop)"
    by (cases "poll_loop ping_pong_iter d is")
  have "notifications es = (if stop then [EdgeFailure subject c] else [])"
    using ppd.run_notifies[OF d(1) r] by (simp add: d(2) notify_def notifier_new_def)
  then show ?thesis by (simp add: PingPongDetector detector_run_def ping_pong_run_def r)
next
  case (StaticDetector d)
  then have d: "sd_notifier d = notifier_new c subject"
    by (auto simp: create_detector_def split: detector_factory.splits option.splits)
  obtain d' es stop where r: "poll_loop static_iter d is = (d', es, stop)"
    by (cases "poll_loop static_iter d is")
  have "notifications es = (if stop then [EdgeFailure subject c] else [])"
    using sfd.run_notifies[OF TrueI r] by (simp add: d notify_def notifier_new_def)
  then show ?thesis by (simp add: StaticDetector detector_run_def static_run_def r)
qed (simp add: detector_run_def no_op_run_def)

end
