(* ===== verification/Join.thy ===== *)
theory Join
  imports Service_Props Messaging Monitoring
begin

text \<open>
  Bootstrapping a node: the two-phase join protocol (\<^verbatim>\<open>crates/rapid/src/cluster_join.rs\<close>), the
  builder and its assembly (\<^verbatim>\<open>cluster/builder.rs\<close>, \<^verbatim>\<open>cluster/bootstrap.rs\<close>) and the cluster handle's
  graceful leave (\<^verbatim>\<open>cluster/handle.rs\<close>). A socket address is the text of its IP with the port.
  What the network answers is an argument: per attempt, the contact's answer in phase 1 and, for
  the phase-2 requests sent, the results in the order in which they complete; so are the fresh
  UUIDs and the hash map's iteration order.

  Properties: the exact phase-2 fan-out, what a successful join returns, the bound on attempts,
  the agreement of a joiner's first view with the view that admitted it, and the disagreement
  that the answer to a late join causes.
\<close>

section \<open>Join protocol\<close>

definition endpoint_from_socket :: "socket_addr \<Rightarrow> endpoint" where
  "endpoint_from_socket addr = Endpoint (fst addr) (ucast (snd addr))"

definition node_id_from_uuid :: "u64 \<times> u64 \<Rightarrow> node_id" where
  "node_id_from_uuid uuid = NodeId (fst uuid) (snd uuid)"

definition phase1_request :: "socket_addr \<Rightarrow> node_id \<Rightarrow> rapid_request" where
  "phase1_request listen_addr current_id = RapidRequest (Some (PreJoinMessage
     \<lparr>pj_sender = Some (endpoint_from_socket listen_addr), pj_node_id = Some current_id,
      pj_ring_number = [], pj_configuration_id = - 1\<rparr>))"

definition run_phase1 :: "rapid_response result \<Rightarrow> join_response result" where
  "run_phase1 answer = (case answer of
       Inl err \<Rightarrow> Inl err
     | Inr resp \<Rightarrow> (case resp_content resp of Some (JoinResponse jr) \<Rightarrow> Inr jr | _ \<Rightarrow> Inl Decode))"

text \<open>\<^verbatim>\<open>per_observer\<close>: the ring numbers, in order, at which each observer is listed.\<close>

definition group_observers :: "endpoint list \<Rightarrow> (endpoint_key, i32 list) fmap" where
  "group_observers endpoints =
     fold (\<lambda>(i, observer) m. let key = endpoint_key_of observer in
            fmupd key (fm_get_or [] m key @ [of_nat i]) m)
       (zip [0..<length endpoints] endpoints) fmempty"

definition join_request :: "socket_addr \<Rightarrow> node_id \<Rightarrow> configuration_id \<Rightarrow> metadata \<Rightarrow> i32 list \<Rightarrow> rapid_request" where
  "join_request listen_addr current_id c meta ring_numbers = RapidRequest (Some (JoinMessage
     \<lparr>jm_sender = Some (endpoint_from_socket listen_addr), jm_node_id = Some current_id,
      jm_ring_number = ring_numbers, jm_configuration_id = c, jm_metadata = Some meta\<rparr>))"

definition phase2_requests ::
  "env \<Rightarrow> hash_order \<Rightarrow> socket_addr \<Rightarrow> node_id \<Rightarrow> configuration_id \<Rightarrow> metadata \<Rightarrow> endpoint list \<Rightarrow>
   (socket_addr \<times> rapid_request) list" where
  "phase2_requests en it listen_addr current_id c meta observers =
     (let per_observer = group_observers observers
      in List.map_filter (\<lambda>key.
           case endpoint_to_socket_addr en (Endpoint (key_hostname key) (key_port key)) of
             None \<Rightarrow> None
           | Some addr \<Rightarrow>
               Some (addr, join_request listen_addr current_id c meta (the (fmlookup per_observer key))))
         (it (fmdom per_observer)))"

text \<open>The first completed answer that is \<open>SAFE_TO_JOIN\<close> into another configuration.\<close>

fun winning_response :: "configuration_id \<Rightarrow> rapid_response result list \<Rightarrow> join_response option" where
  "winning_response c [] = None"
| "winning_response c (result # results) =
     (case result of
        Inl _ \<Rightarrow> winning_response c results
      | Inr resp \<Rightarrow>
          (case resp_content resp of
             Some (JoinResponse jr) \<Rightarrow>
               if jr_status_code jr = join_status_num SafeToJoinCode \<and> jr_configuration_id jr \<noteq> c
               then Some jr else winning_response c results
           | _ \<Rightarrow> winning_response c results))"

record join_attempt =
  ja_phase1 :: "rapid_response result"
  ja_phase2 :: "(socket_addr \<times> rapid_request) list \<Rightarrow> rapid_response result list"
  ja_uuid :: "u64 \<times> u64"

definition configuration_to_join :: "join_response \<Rightarrow> configuration_id" where
  "configuration_to_join phase1 =
     (if jr_status_code phase1 = join_status_num HostnameAlreadyInRingCode then - 1
      else jr_configuration_id phase1)"

text \<open>The retry loop; the result comes with the messages sent.\<close>

fun join_loop ::
  "env \<Rightarrow> hash_order \<Rightarrow> socket_addr \<Rightarrow> socket_addr \<Rightarrow> metadata \<Rightarrow> (nat \<Rightarrow> join_attempt) \<Rightarrow> node_id \<Rightarrow>
   nat \<Rightarrow> nat \<Rightarrow> join_response result \<times> (socket_addr \<times> rapid_request) list" where
  "join_loop en it listen_addr seed meta attempts current_id attempt 0 = (Inl ProtocolRejected, [])"
| "join_loop en it listen_addr seed meta attempts current_id attempt (Suc retries) =
     (let a = attempts attempt; hello = (seed, phase1_request listen_addr current_id)
      in case run_phase1 (ja_phase1 a) of
           Inl err \<Rightarrow> (Inl err, [hello])
         | Inr phase1 \<Rightarrow>
             (let c = configuration_to_join phase1;
                  sends = phase2_requests en it listen_addr current_id c meta (jr_endpoints phase1)
              in case winning_response c (ja_phase2 a sends) of
                   Some jr \<Rightarrow> (Inr jr, hello # sends)
                 | None \<Rightarrow>
                     (let current_id =
                            (if jr_status_code phase1 = join_status_num UuidAlreadyInRingCode
                             then node_id_from_uuid (ja_uuid a) else current_id);
                          (result, later) =
                            join_loop en it listen_addr seed meta attempts current_id (Suc attempt) retries
                      in (result, hello # sends @ later))))"

definition run_join_protocol ::
  "env \<Rightarrow> hash_order \<Rightarrow> socket_addr \<Rightarrow> socket_addr \<Rightarrow> settings \<Rightarrow> metadata \<Rightarrow> u64 \<times> u64 \<Rightarrow> (nat \<Rightarrow> join_attempt) \<Rightarrow>
   join_response result \<times> (socket_addr \<times> rapid_request) list" where
  "run_join_protocol en it listen_addr seed se meta uuid attempts =
     join_loop en it listen_addr seed meta attempts (node_id_from_uuid uuid) 0
       (unat (se_join_phase1_retries se))"

section \<open>Builder\<close>

datatype transport_choice = InProcess in_process_network | Grpc | Custom

text \<open>A clock is named: the production clock, or another one put in its place.\<close>

datatype clock_source = TokioClock | OtherClock nat

record cluster_builder =
  cb_listen_addr :: socket_addr
  cb_metadata :: metadata
  cb_settings :: settings
  cb_transport :: transport_choice
  cb_clock :: clock_source
  cb_fd_factory :: "detector_factory option"
  cb_timeouts_override :: "message_timeouts option"
  cb_pre_subscriptions :: "cluster_event list"

definition with_transport :: "socket_addr \<Rightarrow> transport_choice \<Rightarrow> cluster_builder" where
  "with_transport listen_addr transport = \<lparr>cb_listen_addr = listen_addr, cb_metadata = fmempty,
     cb_settings = default_settings, cb_transport = transport, cb_clock = TokioClock, cb_fd_factory = None,
     cb_timeouts_override = None, cb_pre_subscriptions = []\<rparr>"

definition builder_new :: "socket_addr \<Rightarrow> in_process_network \<Rightarrow> cluster_builder" where
  "builder_new listen_addr network = with_transport listen_addr (InProcess network)"

definition with_grpc :: "socket_addr \<Rightarrow> cluster_builder" where
  "with_grpc listen_addr = with_transport listen_addr Grpc"

definition add_subscription :: "cluster_builder \<Rightarrow> cluster_event \<Rightarrow> cluster_builder" where
  "add_subscription b event = b\<lparr>cb_pre_subscriptions := cb_pre_subscriptions b @ [event]\<rparr>"

definition with_timeouts :: "cluster_builder \<Rightarrow> message_timeouts \<Rightarrow> cluster_builder" where
  "with_timeouts b timeouts = b\<lparr>cb_timeouts_override := Some timeouts\<rparr>"

definition with_failure_detector_factory :: "cluster_builder \<Rightarrow> detector_factory \<Rightarrow> cluster_builder" where
  "with_failure_detector_factory b factory = b\<lparr>cb_fd_factory := Some factory\<rparr>"

definition with_metadata :: "cluster_builder \<Rightarrow> (string \<times> bytes) list \<Rightarrow> cluster_builder" where
  "with_metadata b entries = b\<lparr>cb_metadata := fold (\<lambda>(k, v) m. fmupd k v m) entries fmempty\<rparr>"

definition with_settings :: "cluster_builder \<Rightarrow> settings \<Rightarrow> cluster_builder" where
  "with_settings b se = b\<lparr>cb_settings := se\<rparr>"

definition with_clock :: "cluster_builder \<Rightarrow> clock_source \<Rightarrow> cluster_builder" where
  "with_clock b clock = b\<lparr>cb_clock := clock\<rparr>"

section \<open>Assembly\<close>

definition resolve_fd_factory :: "detector_factory option \<Rightarrow> settings \<Rightarrow> detector_factory" where
  "resolve_fd_factory override_factory se = (case override_factory of
       Some f \<Rightarrow> f
     | None \<Rightarrow> PingPongFactory default_endpoint (se_failure_detector_interval se))"

text \<open>
  The running cluster: the actor's state when its task starts, the recipients given to the
  broadcaster, the detector factory, the deadlines, the subscriptions, and the command the
  assembly posts to the actor before it returns.
\<close>

record cluster =
  cl_state :: service_state
  cl_broadcaster :: broadcaster
  cl_factory :: detector_factory
  cl_timeouts :: message_timeouts
  cl_subscriptions :: "cluster_event list"
  cl_posted :: "service_command list"
  cl_listen_addr :: socket_addr
  cl_listen_endpoint :: endpoint
  cl_settings :: settings
  cl_clock :: clock_source

definition finish_cluster ::
  "env \<Rightarrow> (socket_addr list \<Rightarrow> socket_addr list) \<Rightarrow> cluster_builder \<Rightarrow> membership_view \<Rightarrow> cut_detector \<Rightarrow>
   metadata_manager \<Rightarrow> message_timeouts \<Rightarrow> reply_id \<Rightarrow> unit result \<Rightarrow> cluster result" where
  "finish_cluster en shuffle b view cd metadata timeouts reply server =
     (let listen_endpoint = endpoint_from_socket (cb_listen_addr b);
          bc = set_membership shuffle broadcaster_new (endpoints_as_socket_addrs en (ring_zero view));
          factory = resolve_fd_factory (cb_fd_factory b) (cb_settings b);
          state = with_consensus_client (with_broadcaster
            (service_state_new listen_endpoint view cd metadata (cb_settings b)));
          state = with_fd_factory state;
          state = fst (install_fast_paxos en state)
      in case server of
           Inl err \<Rightarrow> Inl err
         | Inr _ \<Rightarrow>
             Inr \<lparr>cl_state = state, cl_broadcaster = bc, cl_factory = factory, cl_timeouts = timeouts,
               cl_subscriptions = cb_pre_subscriptions b, cl_posted = [PublishInitialView reply],
               cl_listen_addr = cb_listen_addr b, cl_listen_endpoint = listen_endpoint,
               cl_settings = cb_settings b, cl_clock = cb_clock b\<rparr>)"

definition builder_timeouts :: "cluster_builder \<Rightarrow> message_timeouts" where
  "builder_timeouts b = (case cb_timeouts_override b of
       None \<Rightarrow> timeouts_from (cb_settings b) | Some t \<Rightarrow> t)"

definition builder_start ::
  "env \<Rightarrow> (socket_addr list \<Rightarrow> socket_addr list) \<Rightarrow> cluster_builder \<Rightarrow> u64 \<times> u64 \<Rightarrow> reply_id \<Rightarrow> unit result \<Rightarrow>
   cluster result" where
  "builder_start en shuffle b uuid reply server =
     (let listen_endpoint = endpoint_from_socket (cb_listen_addr b);
          nid = node_id_from_uuid uuid;
          se = cb_settings b
      in case view_bootstrap (en_xxh64 en) (se_k se) [nid] [listen_endpoint] of
           Inl err \<Rightarrow> Inl err
         | Inr view \<Rightarrow>
             (case cut_new (se_k se) (se_h se) (se_l se) of
                Inl err \<Rightarrow> Inl err
              | Inr cd \<Rightarrow>
                  (let metadata = (if cb_metadata b \<noteq> fmempty
                         then metadata_add metadata_new [(listen_endpoint, cb_metadata b)] else metadata_new)
                   in finish_cluster en shuffle b view cd metadata (builder_timeouts b) reply server)))"

definition builder_join ::
  "env \<Rightarrow> (socket_addr list \<Rightarrow> socket_addr list) \<Rightarrow> cluster_builder \<Rightarrow> join_response result \<Rightarrow> reply_id \<Rightarrow>
   unit result \<Rightarrow> cluster result" where
  "builder_join en shuffle b joined reply server =
     (let listen_endpoint = endpoint_from_socket (cb_listen_addr b);
          se = cb_settings b
      in case joined of
           Inl err \<Rightarrow> Inl err
         | Inr response \<Rightarrow>
             (case view_bootstrap (en_xxh64 en) (se_k se) (jr_identifiers response) (jr_endpoints response) of
                Inl err \<Rightarrow> Inl err
              | Inr view \<Rightarrow>
                  (case cut_new (se_k se) (se_h se) (se_l se) of
                     Inl err \<Rightarrow> Inl err
                   | Inr cd \<Rightarrow>
                       (let metadata = metadata_add metadata_new
                              (zip (jr_metadata_keys response) (jr_metadata_values response));
                            metadata = (if cb_metadata b \<noteq> fmempty
                              then metadata_add metadata [(listen_endpoint, cb_metadata b)] else metadata)
                        in finish_cluster en shuffle b view cd metadata (builder_timeouts b) reply server))))"

section \<open>Leaving\<close>

definition leave_request :: "endpoint \<Rightarrow> rapid_request" where
  "leave_request self_endpoint = RapidRequest (Some (LeaveMessage \<lparr>lv_sender = Some self_endpoint\<rparr>))"

definition leave_gracefully ::
  "env \<Rightarrow> cluster \<Rightarrow> endpoint list result \<Rightarrow> (socket_addr \<times> rapid_request) list" where
  "leave_gracefully en cl answer =
     (let observers = filter (\<lambda>a. a \<noteq> cl_listen_addr cl)
            (endpoints_as_socket_addrs en (case answer of Inl _ \<Rightarrow> [] | Inr m \<Rightarrow> m))
      in map (\<lambda>o'. (o', leave_request (cl_listen_endpoint cl))) observers)"

text \<open>
  How long the leaver waits: until its sends, which end at the times \<open>finished\<close>, are over, but not beyond
  the deadline (\<^verbatim>\<open>select!\<close> over the two).
\<close>

definition leave_wait :: "settings \<Rightarrow> nat \<Rightarrow> nat list \<Rightarrow> nat" where
  "leave_wait se now finished =
     (let deadline = now + se_leave_message_timeout se;
          joined = fold max finished now
      in min joined deadline)"

lemma leave_wait_bounded:
  "now \<le> leave_wait se now finished" "leave_wait se now finished \<le> now + se_leave_message_timeout se"
  "leave_wait se now finished < now + se_leave_message_timeout se \<Longrightarrow> t \<in> set finished \<Longrightarrow> t \<le> leave_wait se now finished"
proof -
  have m: "now \<le> fold max ts now" "t \<in> set ts \<Longrightarrow> t \<le> fold max ts now" for ts :: "nat list" and now t :: nat
    using Max.set_eq_fold[of now ts] Max_ge[of "set (now # ts)"] by simp_all
  show "now \<le> leave_wait se now finished" "leave_wait se now finished \<le> now + se_leave_message_timeout se"
    "leave_wait se now finished < now + se_leave_message_timeout se \<Longrightarrow> t \<in> set finished \<Longrightarrow> t \<le> leave_wait se now finished"
    using m by (auto simp: leave_wait_def Let_def)
qed

section \<open>The joiner's first view\<close>

lemma set_current_identifiers:
  assumes "view_wf x v"
  shows "set (current_identifiers v) = identifiers_seen v"
proof -
  have o: "\<exists>n. fmlookup (mv_identifier_objs v) k = Some n \<and> node_id_key_of n = k" if "k |\<in>| mv_identifiers v" for k
    using assms that unfolding view_wf_def by (metis fmlookup_dom_iff)
  have inj: "m = n" if "node_id_key_of m = node_id_key_of n" for m n
    using that by (cases m; cases n) (simp add: node_id_key_of_def)
  show ?thesis
    unfolding current_identifiers_def identifiers_seen_def is_identifier_present_def
    using o inj by (force simp: image_iff)
qed

lemma view_bootstrap_ok: "k \<noteq> 0 \<Longrightarrow> \<exists>v. view_bootstrap x k ids eps = Inr v"
  by (simp add: view_bootstrap_def view_new_def)

text \<open>The settings of the builder and the view bootstrapped from an answer determine the assembled actor.\<close>

lemma finish_cluster_inv:
  assumes "view_inv_over (en_xxh64 en) es v" "cut_inv cd" "metadata_inv mm"
    and "finish_cluster en shuffle b v cd mm t reply server = Inr cl"
  shows "service_inv en es (cl_state cl)" "same_view (st_view (cl_state cl)) v"
    "st_my_addr (cl_state cl) = endpoint_from_socket (cb_listen_addr b)"
proof -
  let ?st = "with_fd_factory (with_consensus_client (with_broadcaster
    (service_state_new (endpoint_from_socket (cb_listen_addr b)) v cd mm (cb_settings b))))"
  have c: "cl_state cl = fst (reinstate_fast_paxos en ?st)"
    using assms(4) by (auto simp: finish_cluster_def install_fast_paxos_def Let_def split: sum.splits)
  have st: "st_view ?st = v" "st_cut_detector ?st = cd" "st_metadata ?st = mm"
    "st_my_addr ?st = endpoint_from_socket (cb_listen_addr b)"
    by (simp_all add: with_fd_factory_def with_consensus_client_def with_broadcaster_def service_state_new_def)
  show "service_inv en es (cl_state cl)"
    unfolding c using assms st by (intro reinstate_fast_paxos_inv) (simp add: parts_inv_def)
  show "same_view (st_view (cl_state cl)) v" using reinstate_frame(4)[of en ?st] by (simp add: c st)
  show "st_my_addr (cl_state cl) = endpoint_from_socket (cb_listen_addr b)" by (simp add: c st)
qed

lemma builder_join_ok:
  assumes "se_k (cb_settings b) = k" "k \<noteq> 0" "cut_new k (se_h (cb_settings b)) (se_l (cb_settings b)) = Inr cd"
    and "no_collisions (en_xxh64 en) k es" "set (jr_endpoints jr) \<subseteq> set es"
  obtains cl where "builder_join en shuffle b (Inr jr) reply (Inr ()) = Inr cl"
    "service_inv en es (cl_state cl)" "members (st_view (cl_state cl)) = set (jr_endpoints jr)"
    "identifiers_seen (st_view (cl_state cl)) = set (jr_identifiers jr)"
    "st_my_addr (cl_state cl) = endpoint_from_socket (cb_listen_addr b)"
proof -
  obtain v where v: "view_bootstrap (en_xxh64 en) k (jr_identifiers jr) (jr_endpoints jr) = Inr v"
    using view_bootstrap_ok[OF assms(2)] by blast
  note vi = view_bootstrap_inv[OF v assms(4,5)]
  define mm where "mm = (let m = metadata_add metadata_new (zip (jr_metadata_keys jr) (jr_metadata_values jr))
    in if cb_metadata b \<noteq> fmempty then metadata_add m [(endpoint_from_socket (cb_listen_addr b), cb_metadata b)] else m)"
  have mm: "metadata_inv mm" by (simp add: mm_def Let_def metadata_add_inv)
  have "builder_join en shuffle b (Inr jr) reply (Inr ()) =
      finish_cluster en shuffle b v cd mm (builder_timeouts b) reply (Inr ())"
    using assms(1,3) v by (simp add: builder_join_def mm_def Let_def)
  moreover obtain cl where cl: "finish_cluster en shuffle b v cd mm (builder_timeouts b) reply (Inr ()) = Inr cl"
    by (simp add: finish_cluster_def Let_def)
  moreover note f = finish_cluster_inv[OF vi(1) cut_new_fresh(1)[OF assms(3)] mm cl]
  ultimately show ?thesis
    using that[of cl] f same_view_facts(1,2)[OF f(2)] vi(2,3) by simp
qed

lemma apply_node_k [simp]: "mv_k (st_view (fst (apply_node en st node))) = mv_k (st_view st)"
  by (auto simp: apply_node_def Let_def ring_add_result ring_delete_result split: sum.split option.split)

lemma apply_nodes_k [simp]: "mv_k (st_view (fst (apply_nodes en st nodes))) = mv_k (st_view st)"
  by (induction nodes arbitrary: st) (simp_all add: Let_def split_beta)

lemma decide_view_change_k [simp]: "mv_k (st_view (fst (decide_view_change en st p))) = mv_k (st_view st)"
  using decide_view_change_frame(3)[of en st p]
  by (simp add: same_view_def vc_applied_def cancel_failure_detectors_def Let_def)

lemma respond_parked_only:
  "Reply r x \<in> set (snd (respond_parked w st ns)) \<Longrightarrow> x = Inr w"
  by (induction ns arbitrary: st) (auto simp: Let_def split_beta split: option.splits)

lemma quiet_no_reply: "replies_to r es = 0 \<Longrightarrow> Reply r x \<notin> set es"
  by (induction es) (auto split: if_splits)

lemma decide_view_change_replies:
  assumes "Reply r x \<in> set (snd (decide_view_change en st p))"
  shows "Reply r x \<in> set (snd (respond_to_joiners en (fst (vc_detectors en st p)) p (csc_membership (vc_event en st p))))"
proof -
  have "replies_to r (snd (vc_detectors en st p)) = 0" by (simp add: vc_detectors_def Let_def)
  then show ?thesis
    using assms quiet_no_reply[OF replies_quiet(1)] quiet_no_reply[OF replies_quiet(3)] quiet_no_reply[of r "snd (vc_detectors en st p)"]
    by (auto simp: decide_view_change_stages split_beta Let_def split: if_splits)
qed

lemma admission_answer:
  assumes "parts_inv en es st" "set p \<subseteq> set es"
    and "Reply r (Inr (RapidResponse (Some (JoinResponse jr)))) \<in> set (snd (decide_view_change en st p))"
  shows "jr_endpoints jr = ring_zero (st_view (fst (decide_view_change en st p)))"
    "set (jr_identifiers jr) = identifiers_seen (st_view (fst (decide_view_change en st p)))"
    "jr_configuration_id jr = true_configuration_id (en_xxh64 en) (st_view (fst (decide_view_change en st p)))"
    "jr_status_code jr = join_status_num SafeToJoinCode"
proof -
  let ?d = "fst (vc_detectors en st p)" and ?n = "fst (decide_view_change en st p)"
  have p: "parts_inv en es (vc_applied en st p)" using assms by (simp add: vc_applied_def apply_nodes_parts)
  have inv: "service_inv en es ?n" by (rule decide_view_change_inv[OF assms(1,2)])
  have wf: "view_wf (en_xxh64 en) (st_view ?n)"
    using inv by (simp add: service_inv_def parts_inv_def view_inv_over_def view_inv_def)
  have d: "same_view (st_view ?d) (st_view ?n)"
    using same_view_detectors decide_view_change_frame(3) by (metis same_view_def)
  have "same_view (st_view (fst (configuration_id en ?d))) (st_view ?n)"
    using d by (auto simp: configuration_id_eq same_view_def)
  then have ids: "current_identifiers (st_view (fst (configuration_id en ?d))) = current_identifiers (st_view ?n)"
    by (simp add: same_view_def current_identifiers_def)
  have "view_wf (en_xxh64 en) (st_view ?d)"
    using vc_detectors_inv[OF assms(1,2)] by (simp add: service_inv_def parts_inv_def view_inv_over_def view_inv_def)
  then have c: "snd (configuration_id en ?d) = true_configuration_id (en_xxh64 en) (st_view ?n)"
    using current_configuration_id_true(1) same_view_facts(5)[OF d] by (metis configuration_id_eq snd_conv)
  have "RapidResponse (Some (JoinResponse jr)) = RapidResponse (Some (JoinResponse \<lparr>jr_sender = Some (st_my_addr (fst (configuration_id en ?d))),
            jr_status_code = join_status_num SafeToJoinCode, jr_configuration_id = snd (configuration_id en ?d),
            jr_endpoints = csc_membership (vc_event en st p), jr_identifiers = current_identifiers (st_view (fst (configuration_id en ?d))),
            jr_metadata_keys = map fst (metadata_snapshot en (fst (configuration_id en ?d))), jr_metadata_values = map snd (metadata_snapshot en (fst (configuration_id en ?d)))\<rparr>))"
    using decide_view_change_replies[OF assms(3)]
    by (auto simp: respond_to_joiners_def Let_def split_beta dest!: respond_parked_only)
  then have jr: "jr_endpoints jr = csc_membership (vc_event en st p)" "jr_identifiers jr = current_identifiers (st_view ?n)"
    "jr_configuration_id jr = snd (configuration_id en ?d)" "jr_status_code jr = join_status_num SafeToJoinCode"
    by (simp_all add: ids)
  show "jr_endpoints jr = ring_zero (st_view ?n)" using vc_event_facts(3)[OF assms(1,2)] jr by simp
  show "set (jr_identifiers jr) = identifiers_seen (st_view ?n)" using jr set_current_identifiers[OF wf] by simp
  show "jr_configuration_id jr = true_configuration_id (en_xxh64 en) (st_view ?n)" using jr c by simp
  show "jr_status_code jr = join_status_num SafeToJoinCode" by (rule jr)
qed

text \<open>
  Admission is consistent. When a member applies a decided proposal and answers a parked
  joiner, the joiner that boots from the answer (same number of rings, thresholds its detector
  accepts, a server that binds) gets a running actor in its invariant whose member set,
  identifiers ever seen and configuration identifier are those of the admitting member after the
  view change, and the answer names that configuration: the two nodes are in the same
  configuration and their consensus messages address each other.
\<close>

lemma joiner_boots_alike:
  assumes "service_inv en es st" and "set p \<subseteq> set es"
    and "Reply r (Inr (RapidResponse (Some (JoinResponse jr)))) \<in> set (snd (decide_view_change en st p))"
    and "se_k (cb_settings b) = mv_k (st_view st)"
    and "cut_new (se_k (cb_settings b)) (se_h (cb_settings b)) (se_l (cb_settings b)) = Inr cd"
  shows "\<exists>cl. builder_join en shuffle b (Inr jr) reply (Inr ()) = Inr cl \<and> service_inv en es (cl_state cl) \<and>
    members (st_view (cl_state cl)) = members (st_view (fst (decide_view_change en st p))) \<and>
    identifiers_seen (st_view (cl_state cl)) = identifiers_seen (st_view (fst (decide_view_change en st p))) \<and>
    snd (configuration_id en (cl_state cl)) = jr_configuration_id jr \<and>
    snd (configuration_id en (fst (decide_view_change en st p))) = jr_configuration_id jr"
proof -
  let ?n = "fst (decide_view_change en st p)"
  have st: "parts_inv en es st" using assms(1) by (simp add: service_inv_def)
  have n: "parts_inv en es ?n" using decide_view_change_inv[OF st assms(2)] by (simp add: service_inv_def)
  then have v: "view_inv (en_xxh64 en) (st_view ?n)" "no_collisions (en_xxh64 en) (mv_k (st_view ?n)) es"
    "members (st_view ?n) \<subseteq> set es" "mv_k (st_view ?n) \<noteq> 0"
    by (simp_all add: parts_inv_def view_inv_over_def view_inv_def view_wf_def)
  have k: "se_k (cb_settings b) = mv_k (st_view ?n)" using assms(4) by simp
  note a = admission_answer[OF st assms(2,3)]
  have "set (jr_endpoints jr) \<subseteq> set es" using v(3) a(1) ring_zero_members(1)[OF v(1)] by simp
  from builder_join_ok[OF k v(4) assms(5)[unfolded k] v(2) this]
  obtain cl where cl: "builder_join en shuffle b (Inr jr) reply (Inr ()) = Inr cl"
    "service_inv en es (cl_state cl)" "members (st_view (cl_state cl)) = set (jr_endpoints jr)"
    "identifiers_seen (st_view (cl_state cl)) = set (jr_identifiers jr)" .
  have m: "members (st_view (cl_state cl)) = members (st_view ?n)" using cl(3) a(1) ring_zero_members(1)[OF v(1)] by simp
  have i: "identifiers_seen (st_view (cl_state cl)) = identifiers_seen (st_view ?n)" using cl(4) a(2) by simp
  have c: "parts_inv en es (cl_state cl)" using cl(2) by (simp add: service_inv_def)
  have "true_configuration_id (en_xxh64 en) (st_view (cl_state cl)) = true_configuration_id (en_xxh64 en) (st_view ?n)"
    using c v(1) m i by (intro true_configuration_id_canonical) (simp_all add: parts_inv_def view_inv_over_def)
  then show ?thesis
    using cl(1,2) m i a(3) configuration_id_true[OF c] configuration_id_true[OF n] by auto
qed

definition demo_builder :: cluster_builder where
  "demo_builder = with_settings (with_grpc (ep_hostname (demo_ep 4), ucast (ep_port (demo_ep 4)))) (settings_for_tests\<lparr>se_k := 3, se_h := 2, se_l := 1\<rparr>)"

lemma demo_service_view: "same_view (st_view demo_service) demo_view"
proof -
  let ?st = "with_broadcaster (with_fd_factory (service_state_new (demo_ep 1) demo_view demo_cut metadata_new settings_for_tests))"
  have "st_view ?st = demo_view" by (simp add: with_broadcaster_def with_fd_factory_def service_state_new_def)
  then show ?thesis using reinstate_frame(4)[of demo_env ?st] by (simp add: demo_service_def install_fast_paxos_def)
qed

lemma demo_service_k [simp]: "mv_k (st_view demo_service) = 3"
  using demo_service_view view_bootstrap_inv(4)[OF demo_view_bootstrap demo_no_collisions] by (auto simp: same_view_def)

text \<open>
  C30. The answer to a late join loses the identifiers. A join request that names another
  configuration than the current one, from an endpoint and identifier the view already has (its
  first request was applied and the answer was lost), is answered at once with \<open>SAFE_TO_JOIN\<close>, the
  current members and the current configuration identifier. A joiner that boots from this answer has the right
  members and has forgotten every identifier ever seen, while the answering member has seen at
  least the joiner's.
\<close>

theorem late_join_forgets_identifiers:
  assumes "service_inv en es st" and "jm_sender m = Some e" and "jm_node_id m = Some nid"
    and "is_host_present (st_view st) e" and "is_identifier_present (st_view st) nid"
    and "jm_configuration_id m \<noteq> snd (configuration_id en st)"
    and "se_k (cb_settings b) = mv_k (st_view st)"
    and "cut_new (se_k (cb_settings b)) (se_h (cb_settings b)) (se_l (cb_settings b)) = Inr cd"
  shows "\<exists>jr cl. snd (handle_join en now st m r) = [Reply r (Inr (RapidResponse (Some (JoinResponse jr))))] \<and>
    jr_status_code jr = join_status_num SafeToJoinCode \<and> jr_configuration_id jr = snd (configuration_id en st) \<and>
    builder_join en shuffle b (Inr jr) reply (Inr ()) = Inr cl \<and>
    members (st_view (cl_state cl)) = members (st_view st) \<and>
    identifiers_seen (st_view (cl_state cl)) = {} \<and> nid \<in> identifiers_seen (st_view st)"
proof -
  let ?s = "fst (configuration_id en st)"
  define jr where "jr = snd (build_config_mismatch_response en ?s e nid)"
  have s: "service_inv en es ?s" by (rule configuration_id_inv[OF assms(1)])
  have f: "same_view (st_view ?s) (st_view st)" "same_view (st_view (fst (configuration_id en ?s))) (st_view st)"
    by (auto simp: configuration_id_eq same_view_def)
  have idem: "snd (configuration_id en ?s) = snd (configuration_id en st)"
    using configuration_id_true[of en es] s assms(1) same_view_facts(5)[OF f(1)] by (simp add: service_inv_def)
  have p: "is_host_present (st_view (fst (configuration_id en ?s))) e"
    "is_identifier_present (st_view (fst (configuration_id en ?s))) nid"
    using same_view_facts(6,7)[OF f(2)] assms(4,5) by simp_all
  have v: "view_inv (en_xxh64 en) (st_view st)" "no_collisions (en_xxh64 en) (mv_k (st_view st)) es"
    "members (st_view st) \<subseteq> set es" "mv_k (st_view st) \<noteq> 0"
    using assms(1) by (simp_all add: service_inv_def parts_inv_def view_inv_over_def view_inv_def view_wf_def)
  have jr: "jr_endpoints jr = ring_zero (st_view st)" "jr_identifiers jr = []"
    "jr_status_code jr = join_status_num SafeToJoinCode" "jr_configuration_id jr = snd (configuration_id en st)"
    unfolding jr_def build_config_mismatch_response_def Let_def split_beta
    using p idem same_view_facts(4)[OF f(2)] by simp_all
  have h: "snd (handle_join en now st m r) = [Reply r (Inr (RapidResponse (Some (JoinResponse jr))))]"
    using assms(2,3,6) by (simp add: handle_join_def Let_def split_beta jr_def)
  have "set (jr_endpoints jr) \<subseteq> set es" using v(3) jr(1) ring_zero_members(1)[OF v(1)] by simp
  from builder_join_ok[OF assms(7) v(4) assms(8)[unfolded assms(7)] v(2) this]
  obtain cl where cl: "builder_join en shuffle b (Inr jr) reply (Inr ()) = Inr cl"
    "members (st_view (cl_state cl)) = set (jr_endpoints jr)"
    "identifiers_seen (st_view (cl_state cl)) = set (jr_identifiers jr)" .
  then show ?thesis
    using h jr ring_zero_members(1)[OF v(1)] assms(5)
    by (intro exI[of _ jr] exI[of _ cl]) (simp add: identifiers_seen_def)
qed

definition demo_late_join :: join_message where
  "demo_late_join = (demo_join 2)\<lparr>jm_configuration_id := demo_config + 1\<rparr>"

definition demo_late_answer :: join_response where
  "demo_late_answer = snd (build_config_mismatch_response demo_env (fst (configuration_id demo_env demo_service))
     (demo_ep 2) (demo_nid 2))"

lemma demo_late_present:
  "is_host_present (st_view demo_service) (demo_ep 2)" "is_identifier_present (st_view demo_service) (demo_nid 2)"
  using same_view_facts(6,7)[OF demo_service_view] demo_present demo_view_inv
  by (auto simp: identifiers_seen_def)

theorem late_join_forgets_identifiers_witness:
  "\<exists>jr cl. snd (handle_join demo_env 5 demo_service demo_late_join 7) = [Reply 7 (Inr (RapidResponse (Some (JoinResponse jr))))] \<and>
    jr_status_code jr = join_status_num SafeToJoinCode \<and> jr_configuration_id jr = snd (configuration_id demo_env demo_service) \<and>
    builder_join demo_env id demo_builder (Inr jr) 0 (Inr ()) = Inr cl \<and>
    members (st_view (cl_state cl)) = members (st_view demo_service) \<and>
    identifiers_seen (st_view (cl_state cl)) = {} \<and> demo_nid 2 \<in> identifiers_seen (st_view demo_service)"
proof (rule late_join_forgets_identifiers[OF demo_service_inv _ _ demo_late_present])
  show "cut_new (se_k (cb_settings demo_builder)) (se_h (cb_settings demo_builder)) (se_l (cb_settings demo_builder)) = Inr demo_cut"
    using demo_cut_new by (simp add: demo_builder_def with_settings_def)
  show "jm_configuration_id demo_late_join \<noteq> snd (configuration_id demo_env demo_service)"
    by (simp add: demo_late_join_def demo_config_def)
qed (simp_all add: demo_late_join_def demo_join_def demo_builder_def with_settings_def)

text \<open>
  The configurations differ: on the three-member cluster, the node that boots from the answer to
  its late join computes another configuration identifier than the member that answered it.
\<close>

theorem late_join_diverges:
  "case builder_join demo_env id demo_builder (Inr demo_late_answer) 0 (Inr ()) of
     Inl _ \<Rightarrow> False
   | Inr cl \<Rightarrow> snd (configuration_id demo_env (cl_state cl)) \<noteq> snd (configuration_id demo_env demo_service) \<and>
       jr_status_code demo_late_answer = join_status_num SafeToJoinCode"
  by code_simp

section \<open>The join protocol\<close>

definition ring_positions :: "endpoint list \<Rightarrow> endpoint \<Rightarrow> nat list" where
  "ring_positions observers e = filter (\<lambda>i. observers ! i = e) [0..<length observers]"

lemma group_observers_lookup:
  "fmlookup (group_observers observers) (endpoint_key_of e) =
     (if e \<in> set observers then Some (map of_nat (ring_positions observers e)) else None)"
proof (induction observers rule: rev_induct)
  case (snoc o' observers)
  have p: "ring_positions (observers @ [o']) e =
      ring_positions observers e @ (if o' = e then [length observers] else [])"
    by (auto simp: ring_positions_def nth_append intro!: filter_cong)
  have z: "zip [0..<length (observers @ [o'])] (observers @ [o']) = zip [0..<length observers] observers @ [(length observers, o')]"
    by simp
  have g: "group_observers (observers @ [o']) =
      (let m = group_observers observers; key = endpoint_key_of o' in fmupd key (fm_get_or [] m key @ [of_nat (length observers)]) m)"
    unfolding group_observers_def z by (simp add: Let_def)
  have n: "e \<notin> set observers \<Longrightarrow> ring_positions observers e = []"
    by (auto simp: ring_positions_def filter_empty_conv)
  show ?case using snoc n by (auto simp: g p Let_def fm_get_or_def)
qed (simp add: group_observers_def)

lemma filter_map_filter_one:
  assumes "distinct xs" "x \<in> set xs" "f x = Some y" "P y"
    and "\<And>x' y'. x' \<in> set xs \<Longrightarrow> x' \<noteq> x \<Longrightarrow> f x' = Some y' \<Longrightarrow> \<not> P y'"
  shows "filter P (List.map_filter f xs) = [y]"
  using assms
proof (induction xs)
  case (Cons a xs)
  have none: "filter P (List.map_filter f zs) = []" if "set zs \<subseteq> set (a # xs)" "x \<notin> set zs" for zs
    using that Cons.prems(5) by (induction zs) (auto simp: List.map_filter_simps split: option.split)
  show ?case
  proof (cases "a = x")
    case True
    then show ?thesis using Cons.prems none[of xs] by (auto simp: List.map_filter_simps)
  next
    case False
    then show ?thesis using Cons by (auto simp: List.map_filter_simps split: option.split)
  qed
qed simp

fun asked_rings :: "rapid_request \<Rightarrow> i32 list" where
  "asked_rings (RapidRequest (Some (JoinMessage m))) = jm_ring_number m"
| "asked_rings _ = []"

lemma dom_group_observers: "fset (fmdom (group_observers observers)) = endpoint_key_of ` set observers"
proof (rule set_eqI)
  fix k
  obtain e where e: "k = endpoint_key_of e" by (cases k) (metis endpoint.sel endpoint_key_of_def)
  have "k |\<in>| fmdom (group_observers observers) \<longleftrightarrow> e \<in> set observers"
    by (simp add: fmlookup_dom_iff e group_observers_lookup)
  then show "k \<in> fset (fmdom (group_observers observers)) \<longleftrightarrow> k \<in> endpoint_key_of ` set observers"
    by (auto simp: e)
qed

lemma asked_rings_join [simp]: "asked_rings (join_request listen current_id c meta rings) = rings"
  by (simp add: join_request_def)

lemma key_endpoint [simp]: "Endpoint (key_hostname (endpoint_key_of e)) (key_port (endpoint_key_of e)) = e"
  by (cases e) (simp add: endpoint_key_of_def)

lemma ring_positions_own:
  assumes "length observers \<le> 2 ^ 31" "i < length observers"
    and "(of_nat i :: i32) \<in> of_nat ` set (ring_positions observers e)"
  shows "observers ! i = e"
proof -
  obtain j where j: "j \<in> set (ring_positions observers e)" "(of_nat i :: i32) = of_nat j" using assms(3) by blast
  then have l: "j < length observers" "observers ! j = e" by (auto simp: ring_positions_def)
  have "unat (of_nat i :: i32) = i" "unat (of_nat j :: i32) = j"
    using assms(1,2) l(1) by (simp_all add: unat_of_nat)
  then show ?thesis using j(2) l(2) by metis
qed

text \<open>
  The phase-2 fan-out. Whatever order the observers are grouped in, every position of the
  contact's list (fewer than \<open>2\<^sup>31\<close>) whose observer has a socket address is asked for
  in exactly one request; the request goes to that observer's address and names exactly the
  positions, in order, at which the observer is listed.
\<close>

lemma phase2_fan_out_exact:
  assumes "iter_order it" and "length observers \<le> 2 ^ 31" and "i < length observers"
    and "endpoint_to_socket_addr en (observers ! i) = Some addr"
  shows "filter (\<lambda>(a, rq). of_nat i \<in> set (asked_rings rq)) (phase2_requests en it listen current_id c meta observers) =
    [(addr, join_request listen current_id c meta (map of_nat (ring_positions observers (observers ! i))))]"
  unfolding phase2_requests_def Let_def
proof (rule filter_map_filter_one[where x = "endpoint_key_of (observers ! i)"])
  show "distinct (it (fmdom (group_observers observers)))" using assms(1) by blast
  have d: "set (it (fmdom (group_observers observers))) = endpoint_key_of ` set observers"
    using assms(1) dom_group_observers by blast
  then show "endpoint_key_of (observers ! i) \<in> set (it (fmdom (group_observers observers)))" using assms(3) by simp
  fix k y
  assume k: "k \<in> set (it (fmdom (group_observers observers)))" "k \<noteq> endpoint_key_of (observers ! i)"
    and y: "(case endpoint_to_socket_addr en (Endpoint (key_hostname k) (key_port k)) of None \<Rightarrow> None
      | Some addr \<Rightarrow> Some (addr, join_request listen current_id c meta (the (fmlookup (group_observers observers) k)))) = Some y"
  obtain e where e: "k = endpoint_key_of e" "e \<in> set observers" using k d by auto
  then have "snd y = join_request listen current_id c meta (map of_nat (ring_positions observers e))"
    using y by (auto simp: group_observers_lookup split: option.splits)
  then show "\<not> (case y of (a, rq) \<Rightarrow> of_nat i \<in> set (asked_rings rq))"
    using ring_positions_own[OF assms(2,3), of e] k e by (auto simp: split_beta)
qed (use assms in \<open>auto simp: group_observers_lookup ring_positions_def\<close>)

fun is_prejoin :: "rapid_request \<Rightarrow> bool" where
  "is_prejoin (RapidRequest (Some (PreJoinMessage _))) = True"
| "is_prejoin _ = False"

definition contacts :: "(socket_addr \<times> rapid_request) list \<Rightarrow> socket_addr list" where
  "contacts sent = map fst (filter (\<lambda>(a, rq). is_prejoin rq) sent)"

definition admitted_by :: "configuration_id \<Rightarrow> rapid_response result list \<Rightarrow> join_response \<Rightarrow> bool" where
  "admitted_by c results jr \<longleftrightarrow> Inr (RapidResponse (Some (JoinResponse jr))) \<in> set results \<and>
     jr_status_code jr = join_status_num SafeToJoinCode \<and> jr_configuration_id jr \<noteq> c"

lemma winning_response_admits: "winning_response c results = Some jr \<Longrightarrow> admitted_by c results jr"
proof (induction results)
  case (Cons r results)
  show ?case
  proof (cases r)
    case (Inr resp)
    then show ?thesis
      using Cons by (cases resp) (auto simp: admitted_by_def split: option.splits response_content.splits if_splits)
  qed (use Cons in \<open>auto simp: admitted_by_def\<close>)
qed simp

lemma contacts_simps [simp]:
  "contacts [] = []" "contacts (xs @ ys) = contacts xs @ contacts ys"
  "contacts ((a, phase1_request l i) # xs) = a # contacts xs"
  by (simp_all add: contacts_def phase1_request_def)

lemma contacts_phase2 [simp]: "contacts (phase2_requests en it listen i c meta observers) = []"
proof -
  have "\<not> is_prejoin rq" if "(a, rq) \<in> set (phase2_requests en it listen i c meta observers)" for a rq
    using that by (auto simp: phase2_requests_def Let_def List.map_filter_def join_request_def split: option.splits)
  then show ?thesis by (auto simp: contacts_def filter_empty_conv)
qed

text \<open>What one run of the loop promises, for the attempts numbered from \<open>a\<close>.\<close>

definition join_promise ::
  "socket_addr \<Rightarrow> (nat \<Rightarrow> join_attempt) \<Rightarrow> nat \<Rightarrow> nat \<Rightarrow> join_response result \<times> (socket_addr \<times> rapid_request) list \<Rightarrow> bool" where
  "join_promise seed attempts a n out = (\<exists>m\<le>n. contacts (snd out) = replicate m seed \<and>
     (case fst out of
        Inl err \<Rightarrow> (\<exists>i. m = Suc i \<and> run_phase1 (ja_phase1 (attempts (a + i))) = Inl err) \<or> m = n \<and> err = ProtocolRejected
      | Inr jr \<Rightarrow> (\<exists>i phase1 sends. m = Suc i \<and> run_phase1 (ja_phase1 (attempts (a + i))) = Inr phase1 \<and>
          set sends \<subseteq> set (snd out) \<and>
          admitted_by (configuration_to_join phase1) (ja_phase2 (attempts (a + i)) sends) jr)))"

lemma join_promise_later:
  assumes "join_promise seed attempts (Suc a) n out"
  shows "join_promise seed attempts a (Suc n) (fst out, (seed, phase1_request l k) #
    phase2_requests en it listen k c meta observers @ snd out)"
proof -
  obtain m where m: "m \<le> n" "contacts (snd out) = replicate m seed"
    "case fst out of
        Inl err \<Rightarrow> (\<exists>i. m = Suc i \<and> run_phase1 (ja_phase1 (attempts (Suc a + i))) = Inl err) \<or> m = n \<and> err = ProtocolRejected
      | Inr jr \<Rightarrow> (\<exists>i phase1 sends. m = Suc i \<and> run_phase1 (ja_phase1 (attempts (Suc a + i))) = Inr phase1 \<and>
          set sends \<subseteq> set (snd out) \<and>
          admitted_by (configuration_to_join phase1) (ja_phase2 (attempts (Suc a + i)) sends) jr)"
    using assms by (auto simp: join_promise_def)
  show ?thesis
  proof (cases "fst out")
    case (Inl err)
    then show ?thesis using m unfolding join_promise_def by (intro exI[of _ "Suc m"]) auto
  next
    case (Inr jr)
    then obtain i phase1 sends where i: "m = Suc i" "run_phase1 (ja_phase1 (attempts (a + Suc i))) = Inr phase1"
      "set sends \<subseteq> set (snd out)" "admitted_by (configuration_to_join phase1) (ja_phase2 (attempts (a + Suc i)) sends) jr"
      using m(3) by auto
    have "\<exists>j phase1 sends. Suc m = Suc j \<and> run_phase1 (ja_phase1 (attempts (a + j))) = Inr phase1 \<and>
        set sends \<subseteq> set ((seed, phase1_request l k) # phase2_requests en it listen k c meta observers @ snd out) \<and>
        admitted_by (configuration_to_join phase1) (ja_phase2 (attempts (a + j)) sends) jr"
      by (intro exI[of _ "Suc i"] exI[of _ phase1] exI[of _ sends]) (use i in auto)
    then show ?thesis using m(1,2) Inr unfolding join_promise_def by (intro exI[of _ "Suc m"]) simp
  qed
qed

lemma join_loop_promise:
  "join_promise seed attempts a n (join_loop en it listen seed meta attempts current_id a n)"
proof (induction n arbitrary: a current_id)
  case (Suc n)
  let ?p = "run_phase1 (ja_phase1 (attempts a))"
  show ?case
  proof (cases ?p)
    case (Inl err)
    then show ?thesis by (auto simp: join_promise_def Let_def)
  next
    case (Inr phase1)
    let ?c = "configuration_to_join phase1"
    let ?s = "phase2_requests en it listen current_id ?c meta (jr_endpoints phase1)"
    show ?thesis
    proof (cases "winning_response ?c (ja_phase2 (attempts a) ?s)")
      case None
      then show ?thesis using Inr join_promise_later[OF Suc] by (auto simp: Let_def split_beta)
    next
      case (Some jr)
      then have "join_loop en it listen seed meta attempts current_id a (Suc n) = (Inr jr, (seed, phase1_request listen current_id) # ?s)"
        using Inr by (simp add: Let_def)
      then show ?thesis
        using Inr winning_response_admits[OF Some] unfolding join_promise_def
        by (intro exI[of _ "Suc 0"]) fastforce
    qed
  qed
qed (simp add: join_promise_def)

text \<open>
  C29. The outcome of the join protocol. The loop ends after at most the configured number of
  retries, every attempt contacts the seed once, and there are three outcomes: the phase-1 error
  of the last attempt; \<open>ProtocolRejected\<close> after all the attempts; or a response that an observer gave in
  the last attempt to the requests sent, whose status is \<open>SAFE_TO_JOIN\<close> and whose configuration is
  not the one asked for. With zero retries no message is sent and the protocol rejects.
\<close>

theorem join_protocol_outcome:
  "let (result, sent) = run_join_protocol en it listen seed se meta uuid attempts in
   \<exists>m\<le>unat (se_join_phase1_retries se). contacts sent = replicate m seed \<and>
     (case result of
        Inl err \<Rightarrow> (\<exists>i. m = Suc i \<and> run_phase1 (ja_phase1 (attempts i)) = Inl err) \<or>
          m = unat (se_join_phase1_retries se) \<and> err = ProtocolRejected
      | Inr jr \<Rightarrow> (\<exists>i phase1 sends. m = Suc i \<and> run_phase1 (ja_phase1 (attempts i)) = Inr phase1 \<and>
          set sends \<subseteq> set sent \<and>
          Inr (RapidResponse (Some (JoinResponse jr))) \<in> set (ja_phase2 (attempts i) sends) \<and>
          jr_status_code jr = join_status_num SafeToJoinCode \<and>
          jr_configuration_id jr \<noteq> configuration_to_join phase1))"
  using join_loop_promise[of seed attempts 0 "unat (se_join_phase1_retries se)" en it listen meta "node_id_from_uuid uuid"]
  unfolding run_join_protocol_def join_promise_def admitted_by_def split_beta add_0 Let_def .

end
