(* ===== verification/Configurations.thy ===== *)
theory Configurations
  imports Join
begin

text \<open>
  The abstract configuration (members and identifiers ever seen) and the step that a decided proposal
  takes it through, with the refinement: \<open>decide_view_change\<close> of \<open>Service\<close> implements that step, and two
  nodes that apply the same decision are again in the same configuration.
\<close>

section \<open>Members move through the same configurations\<close>

text \<open>
  The abstract configuration: its members and the identifiers ever seen. One endpoint of a decided
  proposal removes a member, or lets a joiner in whose identifier is new.
\<close>

definition configuration_of :: "membership_view \<Rightarrow> endpoint set \<times> node_id set" where
  "configuration_of v = (members v, identifiers_seen v)"

definition next_configuration ::
  "(endpoint \<Rightarrow> node_id option) \<Rightarrow> endpoint \<Rightarrow> endpoint set \<times> node_id set \<Rightarrow> endpoint set \<times> node_id set" where
  "next_configuration ids n c =
     (if n \<in> fst c then (fst c - {n}, snd c)
      else case ids n of
        None \<Rightarrow> c
      | Some nid \<Rightarrow> if nid \<in> snd c then c else (insert n (fst c), insert nid (snd c)))"

definition joiner_ids :: "service_state \<Rightarrow> endpoint \<Rightarrow> node_id option" where
  "joiner_ids st e = fmlookup (st_joiner_uuid st) (endpoint_key_of e)"

lemma apply_node_configuration:
  assumes "parts_inv en es st" "n \<in> set es"
  shows "configuration_of (st_view (fst (apply_node en st n))) =
    next_configuration (joiner_ids st) n (configuration_of (st_view st))"
  by (cases rule: apply_node_cases[OF assms])
    (auto simp: configuration_of_def next_configuration_def joiner_ids_def split: option.split)

lemma next_configuration_cong: "ids n = ids' n \<Longrightarrow> next_configuration ids n c = next_configuration ids' n c"
  by (simp add: next_configuration_def)

lemma fold_next_configuration_cong:
  "(\<And>n. n \<in> set ns \<Longrightarrow> ids n = ids' n) \<Longrightarrow> fold (next_configuration ids) ns c = fold (next_configuration ids') ns c"
  by (induction ns arbitrary: c) (auto simp: next_configuration_cong[of ids _ ids'])

text \<open>The identifiers matter for joiners only.\<close>

lemma fold_next_configuration_joiners:
  assumes "distinct ns" "\<And>n. n \<in> set ns \<Longrightarrow> n \<notin> fst c \<Longrightarrow> ids n = ids' n"
  shows "fold (next_configuration ids) ns c = fold (next_configuration ids') ns c"
  using assms
proof (induction ns arbitrary: c)
  case (Cons n ns)
  have e: "next_configuration ids n c = next_configuration ids' n c"
    using Cons.prems(2)[of n] by (cases "n \<in> fst c") (simp_all add: next_configuration_def)
  have "m \<notin> fst c" if "m \<in> set ns" "m \<notin> fst (next_configuration ids' n c)" for m
    using that Cons.prems(1) by (auto simp: next_configuration_def split: if_splits option.splits)
  then show ?case using Cons.IH[of "next_configuration ids' n c"] Cons.prems e by auto
qed simp

lemma apply_nodes_configuration:
  assumes "parts_inv en es st" "set ns \<subseteq> set es" "distinct ns"
  shows "configuration_of (st_view (fst (apply_nodes en st ns))) =
    fold (next_configuration (joiner_ids st)) ns (configuration_of (st_view st))"
  using assms
proof (induction ns arbitrary: st)
  case (Cons n ns)
  let ?st = "fst (apply_node en st n)"
  have "configuration_of (st_view (fst (apply_nodes en ?st ns))) =
      fold (next_configuration (joiner_ids ?st)) ns (configuration_of (st_view ?st))"
    using Cons apply_node_parts by simp
  also have "\<dots> = fold (next_configuration (joiner_ids st)) ns (configuration_of (st_view ?st))"
    using Cons.prems(3) by (intro fold_next_configuration_cong) (auto simp: joiner_ids_def intro!: apply_node_uuid)
  finally show ?case using Cons.prems apply_node_configuration[of en es st n] by (simp add: Let_def split_beta)
qed simp

lemma decide_view_change_configuration:
  assumes "parts_inv en es st" "set p \<subseteq> set es" "distinct p"
  shows "configuration_of (st_view (fst (decide_view_change en st p))) =
    fold (next_configuration (joiner_ids st)) p (configuration_of (st_view st))"
proof -
  let ?c = "fst (cancel_failure_detectors st)"
  have c: "parts_inv en es ?c" "st_view ?c = st_view st" "joiner_ids ?c = joiner_ids st"
    using assms(1) by (simp_all add: cancel_failure_detectors_def parts_inv_def joiner_ids_def fun_eq_iff)
  have "configuration_of (st_view (fst (decide_view_change en st p))) = configuration_of (st_view (vc_applied en st p))"
    using same_view_facts(1,2)[OF decide_view_change_frame(3)] by (simp add: configuration_of_def)
  then show ?thesis using apply_nodes_configuration[OF c(1) assms(2,3)] c by (simp add: vc_applied_def)
qed

text \<open>
  C9. A view change implements the abstract configuration step. Applying a decided proposal takes
  the actor, with its rings, hash maps, caches, detectors and consensus instance, from one abstract
  configuration to the next: the members and identifiers that the proposal's endpoints, taken in
  order, produce from the old ones and the joiners' identifiers.
\<close>

theorem view_change_refines:
  assumes "service_inv en es st" and "set p \<subseteq> set es" and "distinct p"
  shows "configuration_of (st_view (fst (decide_view_change en st p))) =
    fold (next_configuration (joiner_ids st)) p (configuration_of (st_view st))"
  using assms decide_view_change_configuration by (auto simp: service_inv_def)

theorem view_change_refines_witness:
  "configuration_of (st_view (fst (decide_view_change demo_env demo_waiting [demo_ep 4, demo_ep 2]))) =
    fold (next_configuration (joiner_ids demo_waiting)) [demo_ep 4, demo_ep 2] (configuration_of (st_view demo_waiting))"
proof (rule view_change_refines)
  show "service_inv demo_env (map demo_ep [1, 2, 3, 4, 5]) demo_waiting"
    using demo_service_inv by (simp add: demo_waiting_def)
  show "distinct [demo_ep 4, demo_ep 2]" by code_simp
qed simp

lemma ring_zero_canonical:
  assumes "view_inv x v" "view_inv x w" "members v = members w"
  shows "ring_zero v = ring_zero w"
proof -
  have wf: "view_wf x v" "view_wf x w" using assms by (auto simp: view_inv_def)
  have z: "0 < unat (mv_k v)" "0 < unat (mv_k w)" using wf by (auto simp: view_wf_def unat_gt_0)
  then have k: "\<not> mv_k v \<le> 0" "\<not> mv_k w \<le> 0" by auto
  have "ring_ordered (mv_rings v ! 0) = ring_ordered (mv_rings w ! 0)"
    using assms wf z view_wf_rings[OF wf(1)] view_wf_rings[OF wf(2)]
    by (intro ring_ordered_canonical) (auto simp: view_inv_def view_wf_def)
  then show ?thesis using k by (simp add: ring_zero_def get_ring_def)
qed

lemma decide_view_change_paxos:
  assumes "service_inv en es st" "set p \<subseteq> set es"
  shows "map_option fp_configuration_id (st_fast_paxos (fst (decide_view_change en st p))) =
      Some (true_configuration_id (en_xxh64 en) (st_view (fst (decide_view_change en st p))))"
    "map_option fp_membership_size (st_fast_paxos (fst (decide_view_change en st p))) =
      Some (membership_size (st_view (fst (decide_view_change en st p))))"
proof -
  let ?s = "fst (decide_view_change en st p)"
  have k: "st_fast_paxos (fst (rebuild en s)) = st_fast_paxos s" "st_fast_paxos (fst (respond_parked w s ns)) = st_fast_paxos s"
    for s w ns
    by (simp add: rebuild_def cancel_failure_detectors_def Let_def split_beta split: sum.split)
      (induction ns arbitrary: s; simp add: Let_def split_beta split: option.split)
  have "st_fast_paxos ?s \<noteq> None"
    by (simp add: decide_view_change_stages split_beta Let_def respond_to_joiners_def k configuration_id_eq
        vc_detectors_def reinstate_fast_paxos_def)
  moreover have "paxos_current en ?s"
    using decide_view_change_inv[of en es st p] assms by (simp add: service_inv_def)
  ultimately show "map_option fp_configuration_id (st_fast_paxos ?s) = Some (true_configuration_id (en_xxh64 en) (st_view ?s))"
    "map_option fp_membership_size (st_fast_paxos ?s) = Some (membership_size (st_view ?s))"
    by (auto simp: paxos_current_def)
qed

text \<open>
  The same decision leads to the same configuration. Two nodes with the same hash function, in
  the same configuration and with the same identifiers for the endpoints of the proposal, that
  apply the same decided proposal, are again in the same configuration: the same members in the
  same ring-zero order, the same identifiers seen, the same configuration identifier, and
  consensus instances for that identifier and that number of members. Whatever else their states
  hold (pending alerts, detector counts, caches, metadata, parked joiners, hash-map orders) does
  not matter. With one decision per configuration this makes all members pass through the same
  sequence of views.
\<close>

lemma same_decision_same_configuration:
  assumes "service_inv en es st" and "service_inv en' es st'" and "en_xxh64 en' = en_xxh64 en"
    and "members (st_view st') = members (st_view st)"
    and "identifiers_seen (st_view st') = identifiers_seen (st_view st)"
    and "set p \<subseteq> set es" and "distinct p"
    and "\<forall>n \<in> set p. joiner_ids st' n = joiner_ids st n"
  shows "let s = fst (decide_view_change en st p); s' = fst (decide_view_change en' st' p) in
    members (st_view s') = members (st_view s) \<and> identifiers_seen (st_view s') = identifiers_seen (st_view s) \<and>
    memberlist s' = memberlist s \<and> snd (configuration_id en' s') = snd (configuration_id en s) \<and>
    map_option fp_configuration_id (st_fast_paxos s') = map_option fp_configuration_id (st_fast_paxos s) \<and>
    map_option fp_membership_size (st_fast_paxos s') = map_option fp_membership_size (st_fast_paxos s)"
proof -
  let ?s = "fst (decide_view_change en st p)" and ?s' = "fst (decide_view_change en' st' p)"
  have pi: "parts_inv en es st" "parts_inv en' es st'" using assms(1,2) by (simp_all add: service_inv_def)
  note i = decide_view_change_inv[OF pi(1) assms(6)] decide_view_change_inv[OF pi(2) assms(6)]
  have v: "view_inv (en_xxh64 en) (st_view ?s)" "view_inv (en_xxh64 en) (st_view ?s')"
    using i assms(3) by (simp_all add: service_inv_def parts_inv_def view_inv_over_def)
  have "configuration_of (st_view st') = configuration_of (st_view st)" using assms(4,5) by (simp add: configuration_of_def)
  moreover have "configuration_of (st_view ?s) = fold (next_configuration (joiner_ids st)) p (configuration_of (st_view st))"
    "configuration_of (st_view ?s') = fold (next_configuration (joiner_ids st')) p (configuration_of (st_view st'))"
    by (rule decide_view_change_configuration[OF pi(1) assms(6,7)]) (rule decide_view_change_configuration[OF pi(2) assms(6,7)])
  ultimately have "configuration_of (st_view ?s') = configuration_of (st_view ?s)"
    using assms(8) fold_next_configuration_cong[of p "joiner_ids st'" "joiner_ids st"] by auto
  then have m: "members (st_view ?s') = members (st_view ?s)" "identifiers_seen (st_view ?s') = identifiers_seen (st_view ?s)"
    by (simp_all add: configuration_of_def)
  have c: "true_configuration_id (en_xxh64 en') (st_view ?s') = true_configuration_id (en_xxh64 en) (st_view ?s)"
    using true_configuration_id_canonical[OF v(2,1) m] assms(3) by simp
  have z: "membership_size (st_view ?s') = membership_size (st_view ?s)"
    using membership_size_card v m by metis
  have "snd (configuration_id en' ?s') = snd (configuration_id en ?s)"
    using c i configuration_id_true[of en es ?s] configuration_id_true[of en' es ?s'] by (simp add: service_inv_def)
  then show ?thesis
    unfolding Let_def
    using m ring_zero_canonical[OF v(2,1) m(1)] decide_view_change_paxos[OF assms(1,6)] decide_view_change_paxos[OF assms(2,6)] c z
    by (auto simp: memberlist_def)
qed

text \<open>
  A member that does not know the identifier of a decided joiner skips it: the same decision takes it to
  another configuration than the members that do. The alert that carries the identifier is a best-effort broadcast, so
  theorems on several members ask that they know the same identifiers.
\<close>

lemma unknown_joiner_diverges:
  assumes "parts_inv en es st" "parts_inv en' es st'" "configuration_of (st_view st') = configuration_of (st_view st)"
    and "n \<in> set es" "n \<notin> members (st_view st)" "joiner_ids st n = Some nid" "nid \<notin> identifiers_seen (st_view st)"
    and "joiner_ids st' n = None"
  shows "members (st_view (fst (decide_view_change en st [n]))) = insert n (members (st_view st))"
    "members (st_view (fst (decide_view_change en' st' [n]))) = members (st_view st)"
  using decide_view_change_configuration[OF assms(1), of "[n]"] decide_view_change_configuration[OF assms(2), of "[n]"] assms(3-8)
  by (simp_all add: configuration_of_def next_configuration_def)

end
