(* ===== verification/Detection.thy ===== *)
theory Detection
  imports Service
begin

text \<open>
  Properties of the alert pipeline across components: the proposal is a canonical function of the
  set of cut endpoints, a failure seen by every observer becomes a proposal at any receiver, and
  the batcher sends what was queued once it has been quiet for the batching window.
\<close>

section \<open>The proposal\<close>

lemma distinct_singleton_list: "distinct xs \<Longrightarrow> set xs = {a} \<Longrightarrow> xs = [a]"
  by (cases xs; cases "tl xs") auto

lemma endpoint_objs_lookup:
  "fmlookup (fold (\<lambda>e m. fmupd (endpoint_key_of e) e m) cuts m) (endpoint_key_of e) =
     (if e \<in> set cuts then Some e else fmlookup m (endpoint_key_of e))"
  by (induction cuts arbitrary: m) auto

lemma order_proposal_eq:
  assumes "iter_order (en_proposal_order en)"
  shows "order_proposal en cuts = sort_key (address_hash_seed_zero (en_xxh64 en))
    (map (inv endpoint_key_of) (en_proposal_order en (fset_of_list (map endpoint_key_of cuts))))"
proof -
  have "fm_get_or default_endpoint (fold (\<lambda>e m. fmupd (endpoint_key_of e) e m) cuts fmempty) k = inv endpoint_key_of k"
    if "k \<in> endpoint_key_of ` set cuts" for k
    using that by (auto simp: fm_get_or_def endpoint_objs_lookup)
  moreover have "set (en_proposal_order en (fset_of_list (map endpoint_key_of cuts))) = endpoint_key_of ` set cuts"
    using iter_orderD(2)[OF assms] by (simp add: fset_of_list.rep_eq)
  ultimately have "map (\<lambda>k. fm_get_or default_endpoint (fold (\<lambda>e m. fmupd (endpoint_key_of e) e m) cuts fmempty) k)
      (en_proposal_order en (fset_of_list (map endpoint_key_of cuts))) =
    map (inv endpoint_key_of) (en_proposal_order en (fset_of_list (map endpoint_key_of cuts)))"
    by (intro map_cong refl) blast
  then show ?thesis unfolding order_proposal_def Let_def by (rule arg_cong)
qed

text \<open>
  C18. The proposal is canonical. The list a node votes for has the cut endpoints, each once, in
  ascending order of their seed-zero address hash; two nodes that computed the same set of
  endpoints propose the same list, whatever order and repetition the detector emitted them in and
  whatever order their hash sets iterate in, provided no two of the endpoints collide. Fast-round
  votes for equal cuts are therefore votes for equal values.
\<close>

theorem proposal_canonical:
  assumes "iter_order (en_proposal_order en)" and "iter_order (en_proposal_order en')"
    and "en_xxh64 en' = en_xxh64 en" and "set cuts' = set cuts"
    and "inj_on (address_hash_seed_zero (en_xxh64 en)) (set cuts)"
  shows "order_proposal en' cuts' = order_proposal en cuts \<and>
    set (order_proposal en cuts) = set cuts \<and>
    sorted_wrt (\<lambda>a b. address_hash_seed_zero (en_xxh64 en) a < address_hash_seed_zero (en_xxh64 en) b)
      (order_proposal en cuts)"
proof -
  let ?h = "address_hash_seed_zero (en_xxh64 en)"
  let ?S = "fset_of_list (map endpoint_key_of cuts)"
  have S: "fset_of_list (map endpoint_key_of cuts') = ?S"
    using assms(4) by (simp add: fset_inject[symmetric] fset_of_list.rep_eq)
  let ?l = "\<lambda>en. map (inv endpoint_key_of) (en_proposal_order en ?S)"
  have set: "set (?l en) = set cuts"
    using iter_orderD(2)[OF assms(1)] by (simp add: fset_of_list.rep_eq image_image)
  have m: "mset (?l en') = mset (?l en)" using iter_order_mset[OF assms(2,1), of ?S] by (metis mset_map)
  then have "set (?l en') = set cuts" using set mset_eq_setD by blast
  then have "sort_key ?h (?l en') = sort_key ?h (?l en)"
    using sort_key_canonical[OF m] assms(5) by metis
  then have eq: "order_proposal en' cuts' = order_proposal en cuts"
    unfolding order_proposal_eq[OF assms(1)] order_proposal_eq[OF assms(2)] assms(3) S .
  have s: "set (order_proposal en cuts) = set cuts" using set by (simp add: order_proposal_eq[OF assms(1)])
  have "inj_on (inv endpoint_key_of) (set (en_proposal_order en ?S))"
    using iter_orderD(2)[OF assms(1)] by (intro inj_on_inv_into) (auto simp: fset_of_list.rep_eq)
  then have "distinct (?l en)" using iter_orderD(1)[OF assms(1)] by (simp add: distinct_map)
  then have "distinct (map ?h (order_proposal en cuts))"
    using assms(5) s by (simp add: distinct_map order_proposal_eq[OF assms(1)])
  moreover have "sorted (map ?h (order_proposal en cuts))" by (simp add: order_proposal_eq[OF assms(1)])
  ultimately have "sorted_wrt (<) (map ?h (order_proposal en cuts))" by (simp add: strict_sorted_iff)
  then show ?thesis using eq s by (simp add: sorted_wrt_map)
qed

section \<open>From an edge failure to a proposal\<close>

lemma handle_edge_failure_queue:
  assumes "parts_inv en es st"
  shows "st_send_queue (handle_edge_failure en now st (EdgeFailure s c)) =
    (if c \<noteq> true_configuration_id (en_xxh64 en) (st_view st) then st_send_queue st
     else st_send_queue st @ [\<lparr>al_edge_src = Some (st_my_addr st), al_edge_dst = Some s,
       al_edge_status = edge_status_num Down, al_configuration_id = c,
       al_ring_number = map ucast (case get_ring_numbers (en_xxh64 en) (st_view st) (st_my_addr st) s of
          Inl _ \<Rightarrow> [] | Inr ns \<Rightarrow> ns), al_node_id = None, al_metadata = None\<rparr>])"
proof -
  have g: "get_ring_numbers x (fst (current_configuration_id x v)) a b = get_ring_numbers x v a b" for x v a b
    by (simp add: get_ring_numbers_def get_subjects_of_def predecessors_of_def)
  show ?thesis
    using configuration_id_true[OF assms]
    by (auto simp: handle_edge_failure_def Let_def split_beta enqueue_alert_def configuration_id_eq g)
qed

lemma filter_down_alerts:
  assumes "\<forall>a \<in> set as. is_valid_alert st a c \<and> edge_status_or_up (al_edge_status a) = Down"
  shows "filter_alerts c st as = (st, as)"
  using assms by (induction as) (auto simp: extract_joiner_def)


text \<open>The DOWN alert node \<open>a\<close> queues when its detector for \<open>s\<close> fires in the current configuration.\<close>

definition failure_alert :: "env \<Rightarrow> membership_view \<Rightarrow> endpoint \<Rightarrow> endpoint \<Rightarrow> alert_message" where
  "failure_alert en v a s = \<lparr>al_edge_src = Some a, al_edge_dst = Some s,
     al_edge_status = edge_status_num Down, al_configuration_id = true_configuration_id (en_xxh64 en) v,
     al_ring_number = map ucast (case get_ring_numbers (en_xxh64 en) v a s of Inl _ \<Rightarrow> [] | Inr ns \<Rightarrow> ns),
     al_node_id = None, al_metadata = None\<rparr>"

lemma same_view_ring_numbers:
  "same_view v w \<Longrightarrow> get_ring_numbers x v a s = get_ring_numbers x w a s"
  by (simp add: same_view_def get_ring_numbers_def get_subjects_of_def predecessors_of_def is_host_present_def)

lemma ucast_back [simp]: "ucast (ucast (w :: u8) :: i32) = w"
  by transfer (simp add: min_def)

lemma failure_alert_reports:
  assumes "view_inv (en_xxh64 en) v" "2 \<le> membership_size v" "a \<in> members v" "s \<in> members v"
  shows "set (alert_reports (failure_alert en v a s)) =
    (\<lambda>i. (a, s, Down, of_nat i)) ` {i. i < unat (mv_k v) \<and> compute_observers_of (en_xxh64 en) v s ! i = a}"
proof -
  have "get_ring_numbers (en_xxh64 en) v a s = Inr (map of_nat
      (filter (\<lambda>i. compute_observers_of (en_xxh64 en) v s ! i = a) [0..<unat (mv_k v)]))"
    using assms by (intro ring_numbers_map) (auto simp: members_def)
  then show ?thesis
    by (auto simp: alert_reports_def failure_alert_def image_image)
qed

text \<open>The alerts of some observers report the subject on their rings, and nothing else.\<close>

lemma observers_report_rings:
  assumes "view_inv (en_xxh64 en) v" "2 \<le> membership_size v" "s \<in> members v" "Obs \<subseteq> members v"
    and "set msgs = (\<lambda>a. failure_alert en v a s) ` Obs"
  shows "rings_reporting (all_reports msgs) (endpoint_key_of s) =
      of_nat ` {i. i < unat (mv_k v) \<and> compute_observers_of (en_xxh64 en) v s ! i \<in> Obs}"
    "k \<noteq> endpoint_key_of s \<Longrightarrow> rings_reporting (all_reports msgs) k = {}"
proof -
  let ?obs = "compute_observers_of (en_xxh64 en) v s"
  have "set (all_reports msgs) = (\<Union>a \<in> Obs. set (alert_reports (failure_alert en v a s)))"
    by (simp add: all_reports_def assms(5))
  also have "\<dots> = (\<Union>a \<in> Obs. (\<lambda>i. (a, s, Down, of_nat i)) ` {i. i < unat (mv_k v) \<and> ?obs ! i = a})"
    using failure_alert_reports[OF assms(1,2) _ assms(3)] assms(4) by (intro SUP_cong refl) blast
  finally have r: "set (all_reports msgs) = (\<lambda>i. (?obs ! i, s, Down, of_nat i)) ` {i. i < unat (mv_k v) \<and> ?obs ! i \<in> Obs}" by auto
  show "rings_reporting (all_reports msgs) (endpoint_key_of s) = of_nat ` {i. i < unat (mv_k v) \<and> ?obs ! i \<in> Obs}"
    "k \<noteq> endpoint_key_of s \<Longrightarrow> rings_reporting (all_reports msgs) k = {}"
    unfolding rings_reporting_def r by auto
qed

lemma observers_are_members:
  assumes "view_inv x v" "2 \<le> card (members v)"
  shows "length (compute_observers_of x v s) = unat (mv_k v)" "set (compute_observers_of x v s) \<subseteq> members v"
proof -
  have "members v \<noteq> {}" using assms(2) by auto
  then show "length (compute_observers_of x v s) = unat (mv_k v)" "set (compute_observers_of x v s) \<subseteq> members v"
    using view_ring_ex(3)[OF assms(1)] assms by (auto simp: compute_observers_map[OF assms] view_inv_def view_wf_def)
qed

lemma observers_report_all_rings:
  assumes "view_inv (en_xxh64 en) v" "2 \<le> membership_size v" "s \<in> members v"
    and "set msgs = (\<lambda>a. failure_alert en v a s) ` set (compute_observers_of (en_xxh64 en) v s)"
  shows "rings_reporting (all_reports msgs) (endpoint_key_of s) = of_nat ` {..<unat (mv_k v)}"
    "k \<noteq> endpoint_key_of s \<Longrightarrow> rings_reporting (all_reports msgs) k = {}"
proof -
  have c: "2 \<le> card (members v)" using assms(1,2) by (simp add: membership_size_card)
  note m = observers_are_members[OF assms(1) c, of s]
  have "{i. i < unat (mv_k v) \<and> compute_observers_of (en_xxh64 en) v s ! i \<in> set (compute_observers_of (en_xxh64 en) v s)} = {..<unat (mv_k v)}"
    using m(1) by auto
  then show "rings_reporting (all_reports msgs) (endpoint_key_of s) = of_nat ` {..<unat (mv_k v)}"
    "k \<noteq> endpoint_key_of s \<Longrightarrow> rings_reporting (all_reports msgs) k = {}"
    using observers_report_rings[OF assms(1-3) m(2) assms(4)] by simp_all
qed

lemma card_rings:
  assumes "I \<subseteq> {..<unat (k :: u8)}"
  shows "card (of_nat ` I :: u8 set) = card I"
proof -
  have "inj_on (of_nat :: nat \<Rightarrow> u8) {..<unat k}"
  proof (rule inj_onI)
    fix i j assume "i \<in> {..<unat k}" "j \<in> {..<unat k}" and e: "(of_nat i :: u8) = of_nat j"
    then have "i < 2 ^ 8" "j < 2 ^ 8" using unsigned_less[of k, where 'a = nat] by auto
    then show "i = j" using arg_cong[OF e, of unat] by (simp add: unat_of_nat)
  qed
  then show ?thesis using card_image inj_on_subset assms by blast
qed

lemma card_ring_numbers: "card (of_nat ` {..<unat (k :: u8)} :: u8 set) = unat k"
  by (simp add: card_rings[of _ k])

text \<open>Reports about one endpoint on every ring, and about no other, are cut at once.\<close>

lemma full_reports_cut:
  assumes "rings_reporting (all_reports msgs) (endpoint_key_of s) = of_nat ` {..<unat k}"
    and "\<And>e. e \<noteq> endpoint_key_of s \<Longrightarrow> rings_reporting (all_reports msgs) e = {}"
    and "cut_new k h l = Inr cd" "iter_order it"
  shows "snd (aggregate_all it cd msgs) = [s]" "cd_pre_proposal (fst (aggregate_all it cd msgs)) = {||}"
proof -
  note f = feed_new_exact[OF assms(3,4), of "all_reports msgs"]
  note n = cut_new_fresh[OF assms(3)]
  have b: "0 < unat l" "unat l \<le> unat h" "unat h \<le> unat k"
    using cut_invD(1)[OF n(1)] cut_params_bounds[OF cut_invD(1)[OF n(1)]] n(4-6)
    by (auto simp: cut_params_def word_le_nat_alt)
  have card: "card (rings_reporting (all_reports msgs) e) = (if e = endpoint_key_of s then unat k else 0)" for e
    using assms(1,2) card_ring_numbers[of k] by simp
  have "fset (cd_pre_proposal (fst (feed it cd (all_reports msgs)))) = {}"
    unfolding f(1) card using b by auto
  then have pre: "cd_pre_proposal (fst (feed it cd (all_reports msgs))) = {||}"
    by (metis bot_fset.rep_eq fset_inject)
  have "endpoint_key_of ` set (snd (feed it cd (all_reports msgs))) = {k. unat h \<le> card (rings_reporting (all_reports msgs) k)}"
    using f(4) f(5)[OF pre] by simp
  also have "\<dots> = {endpoint_key_of s}" unfolding card using b by auto
  finally have "endpoint_key_of ` set (snd (feed it cd (all_reports msgs))) = endpoint_key_of ` {s}" by simp
  then have "set (snd (feed it cd (all_reports msgs))) = {s}" by (simp only: inj_image_eq_iff[OF inj_endpoint_key_of(1)])
  then have "snd (feed it cd (all_reports msgs)) = [s]"
    using f(2) by (metis distinct_singleton_list)
  then show "snd (aggregate_all it cd msgs) = [s]" "cd_pre_proposal (fst (aggregate_all it cd msgs)) = {||}"
    using pre by (simp_all add: aggregate_all_feed)
qed

lemma observers_cut:
  assumes "view_inv (en_xxh64 en) v" "2 \<le> membership_size v" "s \<in> members v"
    and "set msgs = (\<lambda>a. failure_alert en v a s) ` set (compute_observers_of (en_xxh64 en) v s)"
    and "cut_new (mv_k v) h l = Inr cd" "iter_order it"
  shows "snd (aggregate_all it cd msgs) = [s]" "cd_pre_proposal (fst (aggregate_all it cd msgs)) = {||}"
  using full_reports_cut[OF observers_report_all_rings[OF assms(1-4)] assms(5,6)] by blast+

lemma invalidate_no_flux:
  assumes "iter_order it" "cd_pre_proposal cd = {||}"
  shows "invalidate_failing_edges x it cd v = (cd, v, [])"
proof -
  have n: "it {||} = []" using iter_orderD(2)[OF assms(1), of "{||}"] by (metis bot_fset.rep_eq set_empty)
  show ?thesis unfolding invalidate_failing_edges_def assms(2) n by simp
qed

lemma order_proposal_single: "iter_order (en_proposal_order en) \<Longrightarrow> order_proposal en [s] = [s]"
proof -
  assume it: "iter_order (en_proposal_order en)"
  let ?l = "en_proposal_order en {|endpoint_key_of s|}"
  have "set ?l = {endpoint_key_of s}" "distinct ?l" using iter_orderD[OF it] by auto
  then have "?l = [endpoint_key_of s]" by (metis distinct_singleton_list)
  then show ?thesis by (simp add: order_proposal_eq[OF it])
qed

lemma observers_propose:
  assumes "parts_inv en es st" "2 \<le> membership_size (st_view st)" "s \<in> members (st_view st)"
    and "st_lifecycle st = Running" "cut_new (mv_k (st_view st)) h l = Inr (st_cut_detector st)"
    and "iter_order (en_cut_order en)" "iter_order (en_proposal_order en)"
    and msgs: "set (ba_messages batch) =
      (\<lambda>a. failure_alert en (st_view st) a s) ` set (compute_observers_of (en_xxh64 en) (st_view st) s)"
  shows "fst (snd (handle_batched_alerts en st batch)) = [s]"
    "st_lifecycle (fst (handle_batched_alerts en st batch)) = AnnouncedProposal"
proof -
  let ?c = "snd (configuration_id en st)" and ?st = "fst (configuration_id en st)"
  have c: "?c = true_configuration_id (en_xxh64 en) (st_view st)" by (rule configuration_id_true[OF assms(1)])
  have inv: "view_inv (en_xxh64 en) (st_view st)" using assms(1) by (simp add: parts_inv_def view_inv_over_def)
  have "is_valid_alert ?st m ?c \<and> edge_status_or_up (al_edge_status m) = Down" if "m \<in> set (ba_messages batch)" for m
    using that assms(3) c unfolding msgs
    by (auto simp: is_valid_alert_def failure_alert_def members_def configuration_id_eq)
  then have f: "filter_alerts ?c ?st (ba_messages batch) = (?st, ba_messages batch)"
    by (intro filter_down_alerts) blast
  note o = observers_cut[OF inv assms(2,3) msgs assms(5,6)]
  have "snd (detect_cut en ?st (ba_messages batch)) = [s]"
    using o invalidate_no_flux[OF assms(6) o(2)] by (simp add: detect_cut_def Let_def split_beta)
  then show "fst (snd (handle_batched_alerts en st batch)) = [s]"
    "st_lifecycle (fst (handle_batched_alerts en st batch)) = AnnouncedProposal"
    using assms(4) order_proposal_single[OF assms(7), of s]
    by (simp_all add: handle_batched_alerts_def split_beta Let_def f)
qed

text \<open>
  A failure every observer sees is proposed everywhere. Take a configuration of two or more
  members with detectors parameterised by its K. Let each observer of member \<open>s\<close>, a node whose
  view has the same members, receive its failure detector's notification for that configuration;
  the alerts they queue, sent in one batch in any order and with any repetition, make every node
  of the configuration that has not yet announced a proposal propose exactly \<open>[s]\<close>.
\<close>

theorem failure_becomes_proposal:
  assumes "parts_inv en es st" and "2 \<le> membership_size (st_view st)" and "s \<in> members (st_view st)"
    and "st_lifecycle st = Running" and "cut_new (mv_k (st_view st)) h l = Inr (st_cut_detector st)"
    and "iter_order (en_cut_order en)" and "iter_order (en_proposal_order en)"
    and "\<And>a. a \<in> set (compute_observers_of (en_xxh64 en) (st_view st) s) \<Longrightarrow>
      parts_inv en es (node a) \<and> st_my_addr (node a) = a \<and> same_view (st_view (node a)) (st_view st)"
    and "set (ba_messages batch) = (\<lambda>a. last (st_send_queue (handle_edge_failure en now (node a)
      (EdgeFailure s (snd (configuration_id en st)))))) ` set (compute_observers_of (en_xxh64 en) (st_view st) s)"
  shows "fst (snd (handle_batched_alerts en st batch)) = [s] \<and>
    st_lifecycle (fst (handle_batched_alerts en st batch)) = AnnouncedProposal"
proof -
  let ?x = "en_xxh64 en" and ?v = "st_view st" and ?c = "snd (configuration_id en st)"
  let ?st = "fst (configuration_id en st)"
  have c: "?c = true_configuration_id ?x ?v" by (rule configuration_id_true[OF assms(1)])
  have inv: "view_inv ?x ?v" using assms(1) by (simp add: parts_inv_def view_inv_over_def)
  have "last (st_send_queue (handle_edge_failure en now (node a) (EdgeFailure s ?c))) = failure_alert en ?v a s"
    if a: "a \<in> set (compute_observers_of ?x ?v s)" for a
    using assms(8)[OF a] same_view_facts(5)[of "st_view (node a)" ?v ?x] same_view_ring_numbers[of "st_view (node a)" ?v ?x]
    by (simp add: handle_edge_failure_queue[of en es] c failure_alert_def)
  then have msgs: "set (ba_messages batch) = (\<lambda>a. failure_alert en ?v a s) ` set (compute_observers_of ?x ?v s)"
    unfolding assms(9) by (intro image_cong refl) auto
  from observers_propose[OF assms(1-7) msgs] show ?thesis by blast
qed

definition demo_node :: "endpoint \<Rightarrow> service_state" where
  "demo_node a = service_state_new a demo_view demo_cut metadata_new settings_for_tests"

definition demo_failure_batch :: batched_alert_message where
  "demo_failure_batch = \<lparr>ba_sender = None, ba_messages = map (\<lambda>a. last (st_send_queue
     (handle_edge_failure demo_env 5 (demo_node a)
       (EdgeFailure (demo_ep 2) (snd (configuration_id demo_env (demo_node (demo_ep 1))))))))
     (compute_observers_of demo_hash demo_view (demo_ep 2))\<rparr>"

theorem failure_becomes_proposal_witness:
  "fst (snd (handle_batched_alerts demo_env (demo_node (demo_ep 1)) demo_failure_batch)) = [demo_ep 2] \<and>
   st_lifecycle (fst (handle_batched_alerts demo_env (demo_node (demo_ep 1)) demo_failure_batch)) = AnnouncedProposal"
proof (rule failure_becomes_proposal)
  have parts: "parts_inv demo_env (map demo_ep [1, 2, 3, 4, 5]) (demo_node a)" for a
    using view_bootstrap_inv(1)[OF demo_view_bootstrap demo_no_collisions] cut_new_fresh(1)[OF demo_cut_new]
    by (simp add: parts_inv_def demo_node_def service_state_new_def demo_env_def)
  show "parts_inv demo_env (map demo_ep [1, 2, 3, 4, 5]) (demo_node (demo_ep 1))" by (rule parts)
  show "2 \<le> membership_size (st_view (demo_node (demo_ep 1)))"
    by (simp add: demo_node_def service_state_new_def demo_view_size)
  show "demo_ep 2 \<in> members (st_view (demo_node (demo_ep 1)))"
    using demo_present by (simp add: demo_node_def service_state_new_def members_def)
  have "mv_k demo_view = 3" by code_simp
  then show "cut_new (mv_k (st_view (demo_node (demo_ep 1)))) 2 1 = Inr (st_cut_detector (demo_node (demo_ep 1)))"
    using demo_cut_new by (simp add: demo_node_def service_state_new_def)
  show "parts_inv demo_env (map demo_ep [1, 2, 3, 4, 5]) (demo_node a) \<and> st_my_addr (demo_node a) = a \<and>
      same_view (st_view (demo_node a)) (st_view (demo_node (demo_ep 1)))" for a
    using parts by (simp add: demo_node_def service_state_new_def)
qed (simp_all add: demo_node_def service_state_new_def demo_env_def demo_failure_batch_def)

theorem proposal_canonical_witness:
  "order_proposal (demo_env\<lparr>en_proposal_order := rev \<circ> sorted_iter\<rparr>) [demo_ep 3, demo_ep 1, demo_ep 3] =
     order_proposal demo_env [demo_ep 1, demo_ep 3] \<and>
   set (order_proposal demo_env [demo_ep 1, demo_ep 3]) = set [demo_ep 1, demo_ep 3] \<and>
   sorted_wrt (\<lambda>a b. address_hash_seed_zero (en_xxh64 demo_env) a < address_hash_seed_zero (en_xxh64 demo_env) b)
     (order_proposal demo_env [demo_ep 1, demo_ep 3])"
proof (rule proposal_canonical)
  have "distinct (map (address_hash_seed_zero demo_hash) [demo_ep 1, demo_ep 3])" by code_simp
  then show "inj_on (address_hash_seed_zero (en_xxh64 demo_env)) (set [demo_ep 1, demo_ep 3])"
    by (auto simp: demo_env_def)
  have "iter_order (rev \<circ> sorted_iter :: hash_order)"
    using sorted_iter_order unfolding iter_order_def by simp
  then show "iter_order (en_proposal_order (demo_env\<lparr>en_proposal_order := rev \<circ> sorted_iter\<rparr>))" by simp
qed (auto simp: demo_env_def)

end
