(* ===== verification/Actors.thy ===== *)
theory Actors
  imports Consensus Configurations Detection
begin

text \<open>
  The members of one configuration as whole actors: each runs \<open>handle_command\<close> of \<open>Service\<close> on any
  commands (requests, timers, failure notifications, queries, in any order and at any instants),
  and the consensus messages among its effects travel over the network of \<open>Consensus\<close>. An actor
  is followed until the command in which it hands its broadcaster the members of a new view; its
  states before and after that command and the effects of that command are kept.

  What is asked of the run is what \<open>Consensus\<close> asks: a consensus message of this
  configuration that arrives was sent by a member (\<open>actor_possible\<close>), a phase 1b message arrives once, and no member
  announces a proposal after it has promised a classic round (\<open>actors_reachable\<close>; hypotheses on the run of \<open>actors_exec\<close>,
  since the code ensures neither). Consensus messages of other configurations may arrive at any time. \<^verbatim>\<open>ApplyProposal\<close>, with which tests bypass consensus, is not used.

  Result: the consensus instances inside the actors run as a network of \<open>Consensus\<close>, so all members
  that leave the configuration start in the same next one.
\<close>

section \<open>The model\<close>

definition is_consensus :: "rapid_request \<Rightarrow> bool" where
  "is_consensus req = (case req_content req of
       Some (FastRoundPhase2bMessage _) \<Rightarrow> True | Some (Phase1aMessage _) \<Rightarrow> True | Some (Phase1bMessage _) \<Rightarrow> True
     | Some (Phase2aMessage _) \<Rightarrow> True | Some (Phase2bMessage _) \<Rightarrow> True | _ \<Rightarrow> False)"

definition request_configuration :: "rapid_request \<Rightarrow> i64 option" where
  "request_configuration req = (case req_content req of
       Some (FastRoundPhase2bMessage m) \<Rightarrow> Some (fr_configuration_id m)
     | Some (Phase1aMessage m) \<Rightarrow> Some (p1a_configuration_id m)
     | Some (Phase1bMessage m) \<Rightarrow> Some (p1b_configuration_id m)
     | Some (Phase2aMessage m) \<Rightarrow> Some (p2a_configuration_id m)
     | Some (Phase2bMessage m) \<Rightarrow> Some (p2b_configuration_id m)
     | _ \<Rightarrow> None)"

text \<open>The consensus messages among the effects of a command, with the members they go to.\<close>

definition delivered :: "env \<Rightarrow> endpoint set \<Rightarrow> service_effect \<Rightarrow> (endpoint \<times> rapid_request) set" where
  "delivered en A e = (case e of
       BroadcastEffect req \<Rightarrow> if is_consensus req then (\<lambda>b. (b, req)) ` A else {}
     | UnicastEffect addr req \<Rightarrow>
         if is_consensus req then (\<lambda>b. (b, req)) ` Set.filter (\<lambda>b. endpoint_to_socket_addr en b = Some addr) A else {}
     | _ \<Rightarrow> {})"

record actor_net =
  an_actors :: "endpoint \<Rightarrow> service_state"
  an_sent :: "(endpoint \<times> rapid_request) set"
  an_consumed :: "(endpoint \<times> rapid_request) set"
  an_left :: "endpoint \<Rightarrow> (service_state \<times> service_state) option"
  an_parting :: "endpoint \<Rightarrow> service_effect list"

type_synonym actor_event = "endpoint \<times> nat \<times> nat \<times> service_command"

text \<open>The proposal that a command makes the actor announce.\<close>

definition announced :: "env \<Rightarrow> service_state \<Rightarrow> service_command \<Rightarrow> endpoint list" where
  "announced en st cmd = (case cmd of
       Request req _ \<Rightarrow> if st_lifecycle st = ShuttingDown then [] else (case req_content req of
           Some (BatchedAlertMessage m) \<Rightarrow> fst (snd (handle_batched_alerts en st m))
         | _ \<Rightarrow> [])
     | _ \<Rightarrow> [])"

definition promised :: "service_state \<Rightarrow> bool" where
  "promised st = (case st_fast_paxos st of None \<Rightarrow> False | Some fp \<Rightarrow> classic_rank (px_rnd (fp_paxos fp)))"

text \<open>What may happen at a member that has not left: a consensus message of this configuration that arrives was sent.\<close>

definition arrives :: "i64 \<Rightarrow> actor_net \<Rightarrow> endpoint \<Rightarrow> service_command \<Rightarrow> bool" where
  "arrives c s a cmd = (case cmd of
       Request req _ \<Rightarrow> if is_consensus req \<and> request_configuration req = Some c then (a, req) \<in> an_sent s else True
     | ApplyProposal _ _ \<Rightarrow> False
     | _ \<Rightarrow> True)"

fun actor_possible :: "endpoint list \<Rightarrow> i64 \<Rightarrow> endpoint set \<Rightarrow> actor_net \<Rightarrow> actor_event \<Rightarrow> bool" where
  "actor_possible es c A s (a, now, j, cmd) \<longleftrightarrow> a \<in> A \<and> an_left s a = None \<and> command_over es (now, j, cmd) \<and> arrives c s a cmd"

text \<open>The two events that \<open>Consensus\<close> excludes, at an actor.\<close>

fun late_announcement :: "(endpoint \<Rightarrow> env) \<Rightarrow> actor_net \<Rightarrow> actor_event \<Rightarrow> bool" where
  "late_announcement en s (a, now, j, cmd) \<longleftrightarrow> announced (en a) (an_actors s a) cmd \<noteq> [] \<and> promised (an_actors s a)"

definition repeated_phase1b :: "i64 \<Rightarrow> actor_net \<Rightarrow> actor_event \<Rightarrow> bool" where
  "repeated_phase1b c s ev = (case ev of
       (a, _, _, Request req _) \<Rightarrow> is_phase1b req \<and> request_configuration req = Some c \<and> (a, req) \<in> an_consumed s
     | _ \<Rightarrow> False)"

definition actor_enabled :: "(endpoint \<Rightarrow> env) \<Rightarrow> endpoint list \<Rightarrow> i64 \<Rightarrow> endpoint set \<Rightarrow> actor_net \<Rightarrow> actor_event \<Rightarrow> bool" where
  "actor_enabled en es c A s ev \<longleftrightarrow> actor_possible es c A s ev \<and> \<not> late_announcement en s ev \<and> \<not> repeated_phase1b c s ev"

lemma actor_enabled_eq [simp]:
  "actor_enabled en es c A s (a, now, j, cmd) \<longleftrightarrow> a \<in> A \<and> an_left s a = None \<and> command_over es (now, j, cmd) \<and>
     arrives c s a cmd \<and> \<not> repeated_phase1b c s (a, now, j, cmd) \<and>
     (announced (en a) (an_actors s a) cmd = [] \<or> \<not> promised (an_actors s a))"
  by (auto simp: actor_enabled_def)

fun actor_apply :: "(endpoint \<Rightarrow> env) \<Rightarrow> endpoint set \<Rightarrow> actor_net \<Rightarrow> actor_event \<Rightarrow> actor_net" where
  "actor_apply en A s (a, now, j, cmd) =
     (let st = an_actors s a;
          (st', effects, _) = handle_command (en a) now j st cmd
      in s\<lparr>an_actors := (an_actors s)(a := st'),
           an_sent := an_sent s \<union> \<Union> (set (map (delivered (en a) A) effects)),
           an_consumed := (case cmd of Request req _ \<Rightarrow> insert (a, req) (an_consumed s) | _ \<Rightarrow> an_consumed s),
           an_left := (if list_ex sets_membership effects then (an_left s)(a \<mapsto> (st, st')) else an_left s),
           an_parting := (if list_ex sets_membership effects then (an_parting s)(a := effects) else an_parting s)\<rparr>)"

definition actors_init :: "(endpoint \<Rightarrow> service_state) \<Rightarrow> actor_net" where
  "actors_init st0 = \<lparr>an_actors = st0, an_sent = {}, an_consumed = {}, an_left = (\<lambda>_. None), an_parting = (\<lambda>_. [])\<rparr>"

inductive actors_reachable ::
  "(endpoint \<Rightarrow> env) \<Rightarrow> endpoint list \<Rightarrow> i64 \<Rightarrow> endpoint set \<Rightarrow> (endpoint \<Rightarrow> service_state) \<Rightarrow> actor_net \<Rightarrow> bool"
  for en es c A st0 where
  actors_start: "actors_reachable en es c A st0 (actors_init st0)"
| actors_next: "actors_reachable en es c A st0 s \<Longrightarrow> actor_enabled en es c A s ev \<Longrightarrow>
    actors_reachable en es c A st0 (actor_apply en A s ev)"

fun actors_run :: "(endpoint \<Rightarrow> env) \<Rightarrow> endpoint list \<Rightarrow> i64 \<Rightarrow> endpoint set \<Rightarrow> actor_net \<Rightarrow> actor_event list \<Rightarrow> actor_net option" where
  "actors_run en es c A s [] = Some s"
| "actors_run en es c A s (ev # evs) =
     (if actor_enabled en es c A s ev then actors_run en es c A (actor_apply en A s ev) evs else None)"

lemma actors_run_reachable:
  "actors_reachable en es c A st0 s \<Longrightarrow> actors_run en es c A s evs = Some t \<Longrightarrow> actors_reachable en es c A st0 t"
  by (induction evs arbitrary: s) (auto split: if_splits intro: actors_next)

text \<open>Every execution of the actors; the results are about those without the two events.\<close>

definition actors_exec :: "(endpoint \<Rightarrow> env) \<Rightarrow> endpoint list \<Rightarrow> i64 \<Rightarrow> endpoint set \<Rightarrow> actor_net \<Rightarrow> actor_event list \<Rightarrow> actor_net option" where
  "actors_exec en es c A = exec (actor_apply en A) (actor_possible es c A)"

lemma actors_run_exec:
  "actors_run en es c A s evs = Some t \<longleftrightarrow> actors_exec en es c A s evs = Some t \<and>
     never (actor_apply en A) (late_announcement en) s evs \<and> never (actor_apply en A) (repeated_phase1b c) s evs"
proof -
  have "actors_run en es c A s evs = exec (actor_apply en A) (actor_enabled en es c A) s evs"
    by (induction evs arbitrary: s) (simp_all del: actor_apply.simps actor_enabled_eq)
  then show ?thesis unfolding actors_exec_def by (simp add: exec_guarded actor_enabled_def)
qed

lemma actors_exec_reachable:
  assumes "actors_exec en es c A (actors_init st0) evs = Some s"
    and "never (actor_apply en A) (late_announcement en) (actors_init st0) evs"
    and "never (actor_apply en A) (repeated_phase1b c) (actors_init st0) evs"
  shows "actors_reachable en es c A st0 s"
  using actors_run_reachable[OF actors_start] actors_run_exec assms by blast

text \<open>
  An actor that starts in the configuration with identifier \<open>c\<close>, members \<open>A\<close> and identifiers \<open>I\<close>.
\<close>

definition starts_in ::
  "env \<Rightarrow> endpoint list \<Rightarrow> nat \<Rightarrow> i64 \<Rightarrow> endpoint set \<Rightarrow> node_id set \<Rightarrow> endpoint \<Rightarrow> service_state \<Rightarrow> bool" where
  "starts_in en es delay c A I a st \<longleftrightarrow> service_inv en es st \<and> st_my_addr st = a \<and> st_broadcaster st \<and>
     se_paxos_fallback_base_delay (st_settings st) = delay \<and> members (st_view st) = A \<and> identifiers_seen (st_view st) = I \<and>
     st_lifecycle st = Running \<and> st_fast_paxos st = Some (fast_paxos_new a c (card A) delay)"

section \<open>Commands that do not touch consensus\<close>

text \<open>What every command but a view change keeps.\<close>

definition same_epoch :: "service_state \<Rightarrow> service_state \<Rightarrow> bool" where
  "same_epoch st st' \<longleftrightarrow> st_my_addr st' = st_my_addr st \<and> st_broadcaster st' = st_broadcaster st \<and>
     st_settings st' = st_settings st \<and> same_view (st_view st') (st_view st) \<and>
     (st_lifecycle st \<noteq> Running \<longrightarrow> st_lifecycle st' \<noteq> Running)"

definition silent :: "service_effect \<Rightarrow> bool" where
  "silent e \<longleftrightarrow> (case e of BroadcastEffect req \<Rightarrow> \<not> is_consensus req | UnicastEffect _ _ \<Rightarrow> False | SetMembership _ \<Rightarrow> False | _ \<Rightarrow> True)"

fun is_join_answer :: "service_effect \<Rightarrow> bool" where
  "is_join_answer (Reply _ (Inr (RapidResponse (Some (JoinResponse _))))) = True"
| "is_join_answer _ = False"

definition quiet :: "service_state \<Rightarrow> service_state \<times> service_effect list \<Rightarrow> bool" where
  "quiet st r \<longleftrightarrow> same_epoch st (fst r) \<and> st_fast_paxos (fst r) = st_fast_paxos st \<and> list_all silent (snd r)"

lemma same_epoch_refl [simp]: "same_epoch st st"
  by (simp add: same_epoch_def)

lemma same_epoch_trans: "same_epoch st st' \<Longrightarrow> same_epoch st' st'' \<Longrightarrow> same_epoch st st''"
  using same_view_trans by (auto simp: same_epoch_def)

lemma silent_simps [simp]:
  "silent (Reply r z)" "silent (ReplyEndpoints r es)" "silent (ReplyNat r n)" "silent (ReplyMetadata r ms)"
  "silent (ReplyConfigurationId r i)" "silent (ReplyUnit r)" "silent (Publish ev ch)" "silent (ProposalEmitted p)"
  "silent (SpawnDetector t)" "silent (AbortDetector t)" "silent (SpawnFallback d)" "silent (AbortFallback d)"
  "silent (BroadcastEffect req) \<longleftrightarrow> \<not> is_consensus req" "\<not> silent (UnicastEffect addr req)" "\<not> silent (SetMembership m)"
  by (simp_all add: silent_def)

lemma silent_maps [simp]:
  "list_all silent (map AbortDetector xs)" "list_all silent (map SpawnDetector xs)"
  "list_all silent (map (SpawnDetector \<circ> f) ys)"
  by (simp_all add: list_all_iff)

lemma silent_effects:
  assumes "list_all silent effects"
  shows "\<Union> (set (map (delivered en A) effects)) = {}" "\<not> list_ex sets_membership effects"
  using assms by (induction effects) (auto simp: delivered_def silent_def sets_membership_def split: service_effect.splits)

lemma configuration_id_quiet: "quiet st (fst (configuration_id en st), [])"
  by (simp add: quiet_def same_epoch_def configuration_id_eq)

lemma edge_failure_quiet: "quiet st (handle_edge_failure en now st ev, [])"
  by (simp add: quiet_def same_epoch_def handle_edge_failure_def enqueue_alert_def configuration_id_eq Let_def split_beta)

lemma rebuild_quiet_step: "quiet st (rebuild en st)"
  by (auto simp: quiet_def same_epoch_def rebuild_def cancel_failure_detectors_def configuration_id_eq Let_def split_beta
      split: sum.split)

lemma handle_tick_quiet: "quiet st (handle_tick now st)"
  by (auto simp: quiet_def same_epoch_def handle_tick_def is_consensus_def Let_def split: option.split)

lemma pre_join_quiet: "quiet st (fst (handle_pre_join en st m), [Reply r z])"
  by (simp add: quiet_def same_epoch_def handle_pre_join_def configuration_id_eq Let_def split_beta split: option.split)

lemma join_quiet: "quiet st (handle_join en now st m r)"
  by (simp add: quiet_def same_epoch_def handle_join_def build_config_mismatch_response_def collect_metadata_def
      enqueue_alert_def configuration_id_eq Let_def split_beta same_view_trans[OF same_view_config same_view_config])

lemma publish_initial_view_quiet: "quiet st (publish_initial_view en st)"
  by (simp add: quiet_def same_epoch_def publish_initial_view_def configuration_id_eq Let_def split_beta)

lemma filter_alerts_state [simp]:
  "st_my_addr (fst (filter_alerts c st as)) = st_my_addr st" "st_settings (fst (filter_alerts c st as)) = st_settings st"
  "st_view (fst (filter_alerts c st as)) = st_view st" "st_fast_paxos (fst (filter_alerts c st as)) = st_fast_paxos st"
  by (induction as arbitrary: st) (simp_all add: extract_joiner_def Let_def split_beta split: option.split)

lemma batched_alerts_quiet:
  "quiet st (fst (handle_batched_alerts en st m), snd (snd (handle_batched_alerts en st m)))"
proof -
  let ?f = "filter_alerts (snd (configuration_id en st)) (fst (configuration_id en st)) (ba_messages m)"
  have "same_view (st_view (fst (detect_cut en (fst ?f) v))) (st_view st)" for v
    by (simp add: detect_cut_def Let_def split_beta configuration_id_eq same_view_trans[OF same_view_invalidate])
  moreover have "st_my_addr (fst (detect_cut en s v)) = st_my_addr s" "st_settings (fst (detect_cut en s v)) = st_settings s"
    "st_fast_paxos (fst (detect_cut en s v)) = st_fast_paxos s" for s v
    by (simp_all add: detect_cut_def Let_def split_beta)
  ultimately show ?thesis
    by (auto simp: quiet_def same_epoch_def handle_batched_alerts_def Let_def split_beta configuration_id_eq)
qed

lemma batched_alerts_answers: "list_all (Not \<circ> is_join_answer) (snd (snd (handle_batched_alerts en st m)))"
  by (simp add: handle_batched_alerts_def Let_def split_beta)

lemma handle_batched_alerts_lifecycle:
  "fst (snd (handle_batched_alerts en st m)) \<noteq> [] \<Longrightarrow>
     st_lifecycle st \<noteq> AnnouncedProposal \<and> st_lifecycle (fst (handle_batched_alerts en st m)) = AnnouncedProposal"
  by (cases rule: batched_alerts_cases[of en st m]) simp_all

lemma handle_batched_alerts_distinct:
  assumes "iter_order (en_proposal_order en)"
  shows "distinct (fst (snd (handle_batched_alerts en st m)))"
proof -
  have "distinct (order_proposal en cuts)" for cuts
  proof -
    have "inj_on (inv endpoint_key_of) (set (en_proposal_order en (fset_of_list (map endpoint_key_of cuts))))"
      using iter_orderD(2)[OF assms] by (intro inj_on_inv_into) (auto simp: fset_of_list.rep_eq)
    then show ?thesis using iter_orderD(1)[OF assms] by (simp add: order_proposal_eq[OF assms] distinct_map)
  qed
  then show ?thesis by (simp add: handle_batched_alerts_def Let_def split_beta)
qed

section \<open>Commands that call the consensus instance\<close>

text \<open>The call that a command makes, and the state of the actor at that moment.\<close>

definition consensus_call ::
  "env \<Rightarrow> nat \<Rightarrow> service_state \<Rightarrow> service_command \<Rightarrow> (service_state \<times> fast_paxos \<times> fast_outgoing list) option" where
  "consensus_call en j st cmd = (case st_fast_paxos st of
       None \<Rightarrow> None
     | Some fp \<Rightarrow> (case cmd of
         StartClassicRound \<Rightarrow> Some (st, start_classic_round (en_xxh64 en) fp)
       | Request req reply \<Rightarrow>
           if st_lifecycle st \<noteq> ShuttingDown \<and> is_consensus req then Some (st, handle_consensus_message fp req)
           else if announced en st cmd \<noteq> [] then
             (case req_content req of
                Some (BatchedAlertMessage m) \<Rightarrow> Some (fst (handle_batched_alerts en st m), propose j fp (announced en st cmd))
              | _ \<Rightarrow> None)
           else None
       | _ \<Rightarrow> None))"

lemma quiet_reply: "quiet st (st', es) \<Longrightarrow> list_all silent es' \<Longrightarrow> quiet st (st', es @ es')"
  by (simp add: quiet_def)

lemma handle_request_quiet:
  assumes "consensus_call en j st (Request req reply) = None"
  shows "quiet st (handle_request en now j st req reply)"
proof (cases "st_lifecycle st = ShuttingDown \<or> req_content req = None \<or> is_consensus req")
  case True
  then show ?thesis
    using assms by (cases req)
      (auto simp: handle_request_def quiet_def consensus_call_def is_consensus_def handle_consensus_request_def
        split: option.splits request_content.splits)
next
  case False
  then obtain content where r: "req = RapidRequest (Some content)" by (cases req) auto
  show ?thesis
  proof (cases content)
    case (BatchedAlertMessage m)
    let ?b = "handle_batched_alerts en st m"
    have b: "quiet st (fst ?b, snd (snd ?b))" by (rule batched_alerts_quiet)
    then have "fst (snd ?b) = [] \<or> st_fast_paxos (fst ?b) = None"
      using assms False by (auto simp: consensus_call_def announced_def r BatchedAlertMessage quiet_def split: option.splits if_splits)
    then show ?thesis using b False
      by (auto simp: handle_request_def r BatchedAlertMessage Let_def split_beta service_propose_def quiet_def)
  next
    case (LeaveMessage m)
    show ?thesis
    proof (cases "lv_sender m")
      case (Some sender)
      let ?c = "configuration_id en st"
      let ?h = "handle_edge_failure en now (fst ?c) (EdgeFailure sender (snd ?c))"
      have "same_epoch st (fst ?c)" "st_fast_paxos (fst ?c) = st_fast_paxos st"
        using configuration_id_quiet[of st en] by (simp_all add: quiet_def)
      moreover have "same_epoch (fst ?c) ?h" "st_fast_paxos ?h = st_fast_paxos (fst ?c)"
        using edge_failure_quiet[of "fst ?c" en now "EdgeFailure sender (snd ?c)"] by (simp_all add: quiet_def)
      ultimately show ?thesis
        using False same_epoch_trans by (simp add: handle_request_def r LeaveMessage Some Let_def split_beta quiet_def)
    qed (use False in \<open>simp add: handle_request_def r LeaveMessage quiet_def\<close>)
  qed (use False pre_join_quiet join_quiet in
      \<open>auto simp: handle_request_def r is_consensus_def Let_def split_beta quiet_def\<close>)
qed

lemma handle_command_quiet:
  assumes "consensus_call en j st cmd = None" "\<And>p r. cmd \<noteq> ApplyProposal p r"
  shows "quiet st (fst (handle_command en now j st cmd), fst (snd (handle_command en now j st cmd)))"
proof (cases cmd)
  case (Request req reply)
  then show ?thesis using assms(1) handle_request_quiet by (simp add: handle_command_def Let_def split_beta)
next
  case StartClassicRound
  then show ?thesis
    using assms(1) by (simp add: handle_command_def start_classic_def consensus_call_def quiet_def split: option.splits)
qed (use assms(2) configuration_id_quiet handle_tick_quiet edge_failure_quiet rebuild_quiet_step publish_initial_view_quiet in
    \<open>auto simp: handle_command_def Let_def split_beta quiet_def same_epoch_def\<close>)

lemma consensus_call_cases:
  assumes "consensus_call en j st cmd = Some (st1, fp, outs)"
  obtains fp0 where "st_fast_paxos st = Some fp0" "cmd = StartClassicRound" "st1 = st"
      "fst (start_classic_round (en_xxh64 en) fp0) = fp" "snd (start_classic_round (en_xxh64 en) fp0) = outs"
  | fp0 req reply where "st_fast_paxos st = Some fp0" "cmd = Request req reply" "st_lifecycle st \<noteq> ShuttingDown"
      "is_consensus req" "st1 = st" "fst (handle_consensus_message fp0 req) = fp" "snd (handle_consensus_message fp0 req) = outs"
  | fp0 m reply where "st_fast_paxos st = Some fp0" "cmd = Request (RapidRequest (Some (BatchedAlertMessage m))) reply"
      "st_lifecycle st \<noteq> ShuttingDown" "fst (snd (handle_batched_alerts en st m)) \<noteq> []" "st1 = fst (handle_batched_alerts en st m)"
      "fst (propose j fp0 (fst (snd (handle_batched_alerts en st m)))) = fp"
      "snd (propose j fp0 (fst (snd (handle_batched_alerts en st m)))) = outs"
proof -
  obtain fp0 where fp0: "st_fast_paxos st = Some fp0" using assms by (auto simp: consensus_call_def split: option.splits)
  show ?thesis
  proof (cases cmd)
    case StartClassicRound
    then show ?thesis using assms fp0 by (intro that(1)) (auto simp: consensus_call_def)
  next
    case (Request req reply)
    show ?thesis
    proof (cases "st_lifecycle st \<noteq> ShuttingDown \<and> is_consensus req")
      case True
      then show ?thesis using assms fp0 Request by (intro that(2)) (auto simp: consensus_call_def)
    next
      case False
      then obtain m where m: "req_content req = Some (BatchedAlertMessage m)" "announced en st cmd \<noteq> []"
        using assms fp0 Request by (auto simp: consensus_call_def split: if_splits option.splits request_content.splits)
      then have r: "req = RapidRequest (Some (BatchedAlertMessage m))" by (cases req) simp
      from m Request have "st_lifecycle st \<noteq> ShuttingDown" "announced en st cmd = fst (snd (handle_batched_alerts en st m))"
        by (auto simp: announced_def split: if_splits)
      then show ?thesis using assms fp0 Request m False by (intro that(3)) (auto simp: consensus_call_def r)
    qed
  qed (use assms fp0 in \<open>simp_all add: consensus_call_def\<close>)
qed

lemma handle_command_call:
  assumes "consensus_call en j st cmd = Some (st1, fp, outs)"
  shows "quiet st (st1, [])"
    "\<exists>pre post. list_all silent pre \<and> list_all silent post \<and> list_all (Not \<circ> is_join_answer) (pre @ post) \<and>
      fst (handle_command en now j st cmd) = fst (dispatch en (st1\<lparr>st_fast_paxos := Some fp\<rparr>) outs) \<and>
      fst (snd (handle_command en now j st cmd)) = pre @ snd (dispatch en (st1\<lparr>st_fast_paxos := Some fp\<rparr>) outs) @ post"
proof -
  show "quiet st (st1, [])"
  proof (cases rule: consensus_call_cases[OF assms])
    case (3 fp0 m reply)
    then show ?thesis using batched_alerts_quiet[of st en m] by (simp add: quiet_def)
  qed (simp_all add: quiet_def)
  show "\<exists>pre post. list_all silent pre \<and> list_all silent post \<and> list_all (Not \<circ> is_join_answer) (pre @ post) \<and>
      fst (handle_command en now j st cmd) = fst (dispatch en (st1\<lparr>st_fast_paxos := Some fp\<rparr>) outs) \<and>
      fst (snd (handle_command en now j st cmd)) = pre @ snd (dispatch en (st1\<lparr>st_fast_paxos := Some fp\<rparr>) outs) @ post"
  proof (cases rule: consensus_call_cases[OF assms])
    case (1 fp0)
    then show ?thesis by (intro exI[of _ "[]"]) (simp add: handle_command_def start_classic_def Let_def split_beta)
  next
    case (2 fp0 req reply)
    obtain content where "req = RapidRequest (Some content)" using 2(4) by (cases req) (auto simp: is_consensus_def split: option.splits)
    then show ?thesis
      using 2 by (intro exI[of _ "[]"] exI[of _ "[Reply reply (Inr default_response)]"], cases content)
        (simp_all add: handle_command_def handle_request_def handle_consensus_request_def is_consensus_def default_response_def
          Let_def split_beta)
  next
    case (3 fp0 m reply)
    then show ?thesis
      using batched_alerts_quiet[of st en m]
      by (intro exI[of _ "snd (snd (handle_batched_alerts en st m))"] exI[of _ "[Reply reply (Inr default_response)]"])
        (simp add: handle_command_def handle_request_def service_propose_def Let_def split_beta quiet_def
          default_response_def batched_alerts_answers)
  qed
qed

lemma decided_values_simps [simp]:
  "decided_values [] = []" "decided_values (FastDecision v # outs) = v # decided_values outs"
  "decided_values (FastBroadcast r # outs) = decided_values outs" "decided_values (FastUnicast t r # outs) = decided_values outs"
  "decided_values (ScheduleClassicFallback d # outs) = decided_values outs"
  by (simp_all add: decided_values_def List.map_filter_simps)

lemma dispatch_undecided:
  assumes "decided_values outs = []"
  shows "same_epoch st (fst (dispatch en st outs))" "st_fast_paxos (fst (dispatch en st outs)) = st_fast_paxos st"
    "\<not> list_ex sets_membership (snd (dispatch en st outs))"
  using assms
proof (induction outs arbitrary: st)
  case (Cons out outs)
  {
    case 1
    then show ?case using Cons(1)[of "fst (dispatch_one en st out)"]
      by (cases out) (auto simp: dispatch_one_def spawn_fallback_def same_epoch_def Let_def split_beta)
  next
    case 2
    then show ?case using Cons(2)[of "fst (dispatch_one en st out)"]
      by (cases out) (auto simp: dispatch_one_def spawn_fallback_def Let_def split_beta)
  next
    case 3
    then show ?case using Cons(3)[of "fst (dispatch_one en st out)"]
      by (cases out) (auto simp: dispatch_one_def spawn_fallback_def spawn_broadcast_def spawn_unicast_def
          sets_membership_def Let_def split_beta split: option.split)
  }
qed simp_all

lemma dispatch_delivered:
  assumes "decided_values outs = []" "\<And>t req. FastUnicast t req \<in> set outs \<Longrightarrow> t \<in> A"
    and inj: "\<And>b t. b \<in> A \<Longrightarrow> t \<in> A \<Longrightarrow> endpoint_to_socket_addr en b = endpoint_to_socket_addr en t \<Longrightarrow>
      endpoint_to_socket_addr en t \<noteq> None \<Longrightarrow> b = t"
  shows "\<Union> (set (map (delivered en A) (snd (dispatch en st outs)))) \<subseteq> \<Union> (set (map (addressed A) outs))"
  using assms(1,2)
proof (induction outs arbitrary: st)
  case (Cons out outs)
  let ?d = "dispatch_one en st out"
  have "\<Union> (set (map (delivered en A) (snd ?d))) \<subseteq> addressed A out"
  proof (cases out)
    case (FastUnicast t req)
    then have "t \<in> A" using Cons.prems(2) by auto
    have "b = t" if "b \<in> A" "endpoint_to_socket_addr en b = Some addr" "endpoint_to_socket_addr en t = Some addr" for b addr
      by (rule inj) (use that \<open>t \<in> A\<close> in simp_all)
    then have "delivered en A (UnicastEffect addr req) \<subseteq> {(t, req)}" if "endpoint_to_socket_addr en t = Some addr" for addr
      using that by (simp add: delivered_def subset_iff image_iff)
    then show ?thesis
      using FastUnicast by (cases "endpoint_to_socket_addr en t") (simp_all add: dispatch_one_def spawn_unicast_def)
  qed (use Cons.prems in \<open>auto simp: dispatch_one_def spawn_fallback_def spawn_broadcast_def delivered_def Let_def
      split: option.splits if_splits\<close>)
  moreover have "\<Union> (set (map (delivered en A) (snd (dispatch en (fst ?d) outs)))) \<subseteq> \<Union> (set (map (addressed A) outs))"
    using Cons.prems by (intro Cons.IH) (cases out, auto)
  ultimately show ?case by (simp add: Let_def split_beta) blast
qed simp

lemma consensus_outs:
  "decided_values (snd (propose j fp p)) = []" "decided_values (snd (start_classic_round x fp)) = []"
  by (auto simp: propose_def start_classic_round_def start_phase1a_def Let_def)

lemma message_outs:
  "decided_values (snd (handle_consensus_message fp r)) = [] \<or> snd (handle_consensus_message fp r) = [FastDecision (request_values r)]"
proof (cases "req_content r")
  case (Some content)
  have "decided_values (map wrap (snd (handle_phase1a p m1))) = []" "decided_values (map wrap (snd (handle_phase1b p m2))) = []"
    "decided_values (map wrap (snd (handle_phase2a p m3))) = []" for p m1 m2 m3
    by (auto simp: handle_phase1a_def handle_phase1b_def handle_phase2a_def Let_def split: option.split)
  then show ?thesis using Some
    by (cases content)
      (auto simp: handle_consensus_message_def handle_paxos_def handle_fast_round_proposal_def
        handle_phase2b_def request_values_def Let_def split: option.split)
qed (simp add: handle_consensus_message_def)

text \<open>The two flags of an instance agree.\<close>

definition decided_synced :: "fast_paxos \<Rightarrow> bool" where
  "decided_synced fp \<longleftrightarrow> (px_decided (fp_paxos fp) \<longrightarrow> fp_decided fp)"

lemma decided_synced_kept:
  assumes "decided_synced fp"
  shows "decided_synced (fst (propose j fp p))" "decided_synced (fst (start_classic_round x fp))"
    "decided_synced (fst (handle_consensus_message fp r))"
  using assms
  by (auto simp: decided_synced_def propose_def start_classic_round_def start_phase1a_def register_fast_round_vote_def
      handle_consensus_message_def handle_paxos_def handle_fast_round_proposal_def Let_def
      split: option.split request_content.split)

lemma net_decided_synced:
  assumes "net_reachable x c delay A s"
  shows "decided_synced (cn_nodes s a)"
  using assms
proof (induction rule: net_reachable.induct)
  case net_start
  then show ?case by (simp add: net_init_def decided_synced_def fast_paxos_new_def paxos_new_def Let_def)
next
  case (net_next s ev)
  then show ?case using decided_synced_kept by (cases ev) auto
qed

lemma foreign_ignored:
  assumes "request_configuration req \<noteq> Some c" "fp_configuration_id fp = c" "px_configuration_id (fp_paxos fp) = c"
    "decided_synced fp"
  shows "handle_consensus_message fp req = (fp, [])"
proof (cases "req_content req")
  case (Some content)
  then show ?thesis using assms
    by (cases content)
      (simp_all add: handle_consensus_message_def handle_paxos_def handle_fast_round_proposal_def handle_phase1a_def
        handle_phase1b_def handle_phase2a_def handle_phase2b_def request_configuration_def decided_synced_def Let_def)
qed (simp add: handle_consensus_message_def)

section \<open>The simulation\<close>

text \<open>
  The members share the hash function and tell each other apart by node index and by address; their
  hash maps may iterate in any order.
\<close>

definition cluster_ok :: "xxh64_fn \<Rightarrow> (endpoint \<Rightarrow> env) \<Rightarrow> endpoint set \<Rightarrow> bool" where
  "cluster_ok x en A \<longleftrightarrow> finite A \<and> A \<noteq> {} \<and> inj_on (stable_node_index x) A \<and>
     (\<forall>a \<in> A. en_xxh64 (en a) = x \<and> iter_order (en_proposal_order (en a)) \<and>
        (\<forall>b \<in> A. \<forall>d \<in> A. endpoint_to_socket_addr (en a) b = endpoint_to_socket_addr (en a) d \<longrightarrow>
           endpoint_to_socket_addr (en a) d \<noteq> None \<longrightarrow> b = d))"

text \<open>
  An actor that has left did so by applying a decision of the network; the join responses it sent then are
  those of the view change.
\<close>

definition left_by :: "env \<Rightarrow> endpoint list \<Rightarrow> consensus_net \<Rightarrow> endpoint \<Rightarrow> service_effect list \<Rightarrow>
    service_state \<Rightarrow> service_state \<Rightarrow> service_state \<Rightarrow> bool" where
  "left_by en es t a effects st0 st st' \<longleftrightarrow> same_epoch st0 st \<and> service_inv en es st \<and>
     (\<exists>fp v. (a, v) \<in> cn_decisions t \<and> set v \<subseteq> set es \<and> service_inv en es (st\<lparr>st_fast_paxos := Some fp\<rparr>) \<and>
        st' = fst (reinstate_fast_paxos en (fst (decide_view_change en (st\<lparr>st_fast_paxos := Some fp\<rparr>) v))) \<and>
        (\<forall>e \<in> set effects. is_join_answer e \<longrightarrow> e \<in> set (snd (decide_view_change en (st\<lparr>st_fast_paxos := Some fp\<rparr>) v))))"

definition actor_sim :: "(endpoint \<Rightarrow> env) \<Rightarrow> endpoint list \<Rightarrow> i64 \<Rightarrow> endpoint set \<Rightarrow> (endpoint \<Rightarrow> service_state) \<Rightarrow>
    actor_net \<Rightarrow> consensus_net \<Rightarrow> bool" where
  "actor_sim en es c A st0 s t \<longleftrightarrow>
     (\<forall>a \<in> A. an_left s a = None \<longrightarrow> st_fast_paxos (an_actors s a) = Some (cn_nodes t a) \<and>
        same_epoch (st0 a) (an_actors s a) \<and> service_inv (en a) es (an_actors s a) \<and>
        (a \<in> cn_proposed t \<longrightarrow> st_lifecycle (an_actors s a) \<noteq> Running)) \<and>
     an_sent s \<subseteq> cn_sent t \<and> (\<forall>q \<in> cn_consumed t. is_phase1b (snd q) \<longrightarrow> q \<in> an_consumed s) \<and>
     (\<forall>b v. fast_req c b v \<in> said t \<longrightarrow> distinct v) \<and>
     (\<forall>a st st'. an_left s a = Some (st, st') \<longrightarrow> a \<in> A \<and> left_by (en a) es t a (an_parting s a) (st0 a) st st')"

lemma left_by_mono: "left_by en es t a eff st0 st st' \<Longrightarrow> cn_decisions t \<subseteq> cn_decisions t' \<Longrightarrow> left_by en es t' a eff st0 st st'"
  unfolding left_by_def by blast

lemma actor_sim_quiet:
  assumes sim: "actor_sim en es c A st0 s t" and en: "actor_enabled en es c A s (a, now, j, cmd)"
    and call: "consensus_call (en a) j (an_actors s a) cmd = None"
  shows "actor_sim en es c A st0 (actor_apply en A s (a, now, j, cmd)) t"
proof -
  let ?st = "an_actors s a" let ?h = "handle_command (en a) now j ?st cmd"
  have a: "a \<in> A" "an_left s a = None" "command_over es (now, j, cmd)" "\<And>p r. cmd \<noteq> ApplyProposal p r"
    using en by (auto simp: arrives_def)
  have q: "quiet ?st (fst ?h, fst (snd ?h))" by (rule handle_command_quiet[OF call a(4)])
  note eff = silent_effects[OF q[unfolded quiet_def, THEN conjunct2, THEN conjunct2, simplified]]
  have inv: "service_inv (en a) es (fst ?h)"
    using service_step_inv[of "en a" es ?st "(now, j, cmd)"] sim a by (simp add: actor_sim_def service_step_def)
  have old: "st_fast_paxos ?st = Some (cn_nodes t a)" "same_epoch (st0 a) ?st" "a \<in> cn_proposed t \<longrightarrow> st_lifecycle ?st \<noteq> Running"
    using sim a by (simp_all add: actor_sim_def)
  have new: "st_fast_paxos (fst ?h) = Some (cn_nodes t a)" "same_epoch (st0 a) (fst ?h)"
    "a \<in> cn_proposed t \<longrightarrow> st_lifecycle (fst ?h) \<noteq> Running"
    using q old same_epoch_trans[of "st0 a" ?st] by (auto simp: quiet_def same_epoch_def)
  have s': "actor_apply en A s (a, now, j, cmd) = s\<lparr>an_actors := (an_actors s)(a := fst ?h),
      an_consumed := (case cmd of Request req _ \<Rightarrow> insert (a, req) (an_consumed s) | _ \<Rightarrow> an_consumed s)\<rparr>"
    using eff by (simp add: Let_def split_beta)
  have "q \<in> (case cmd of Request req _ \<Rightarrow> insert (a, req) (an_consumed s) | _ \<Rightarrow> an_consumed s)" if "q \<in> an_consumed s" for q
    using that by (simp split: service_command.split)
  then show ?thesis using sim new inv unfolding s' actor_sim_def by simp
qed

text \<open>A call without a decision, matched by a step of the network from \<open>t\<close> to \<open>t'\<close>.\<close>

lemma actor_sim_undecided:
  assumes sim: "actor_sim en es c A st0 s t" and ok: "cluster_ok x en A" and en: "actor_enabled en es c A s (a, now, j, cmd)"
    and call: "consensus_call (en a) j (an_actors s a) cmd = Some (st1, fp, outs)"
    and outs: "decided_values outs = []" "\<And>b req. FastUnicast b req \<in> set outs \<Longrightarrow> b \<in> A"
    and t: "cn_nodes t' = (cn_nodes t)(a := fp)" "cn_sent t \<union> \<Union> (set (map (addressed A) outs)) \<subseteq> cn_sent t'"
      "cn_decisions t \<subseteq> cn_decisions t'" "cn_proposed t' \<subseteq> insert a (cn_proposed t)"
      "a \<in> cn_proposed t' \<Longrightarrow> a \<in> cn_proposed t \<or> st_lifecycle st1 \<noteq> Running"
      "\<And>q. q \<in> cn_consumed t' \<Longrightarrow> q \<in> cn_consumed t \<or> (\<exists>req r. q = (a, req) \<and> cmd = Request req r)"
      "\<And>b v. fast_req c b v \<in> said t' \<Longrightarrow> distinct v"
  shows "actor_sim en es c A st0 (actor_apply en A s (a, now, j, cmd)) t'"
proof -
  let ?st = "an_actors s a" let ?h = "handle_command (en a) now j ?st cmd" let ?s1 = "st1\<lparr>st_fast_paxos := Some fp\<rparr>"
  let ?d = "dispatch (en a) ?s1 outs"
  have a: "a \<in> A" "an_left s a = None" "command_over es (now, j, cmd)" using en by auto
  obtain pre post where h: "list_all silent pre" "list_all silent post" "fst ?h = fst ?d" "fst (snd ?h) = pre @ snd ?d @ post"
    using handle_command_call(2)[OF call] by blast
  have "\<Union> (set (map (delivered (en a) A) (snd ?d))) \<subseteq> \<Union> (set (map (addressed A) outs))"
  proof (rule dispatch_delivered[OF outs])
    show "b = d" if "b \<in> A" "d \<in> A" "endpoint_to_socket_addr (en a) b = endpoint_to_socket_addr (en a) d"
      "endpoint_to_socket_addr (en a) d \<noteq> None" for b d
      using ok a(1) that unfolding cluster_ok_def by blast
  qed
  moreover have "\<Union> (set (map (delivered (en a) A) (fst (snd ?h)))) = \<Union> (set (map (delivered (en a) A) (snd ?d)))"
    using silent_effects(1)[OF h(1), of "en a" A] silent_effects(1)[OF h(2), of "en a" A] unfolding h(4) by simp
  ultimately have sent: "\<Union> (set (map (delivered (en a) A) (fst (snd ?h)))) \<subseteq> cn_sent t'" using t(2) by (simp only:) blast
  have stay: "\<not> list_ex sets_membership (fst (snd ?h))"
    using dispatch_undecided(3)[OF outs(1)] silent_effects(2)[OF h(1)] silent_effects(2)[OF h(2)] by (simp add: h(4))
  have inv: "service_inv (en a) es (fst ?h)"
    using service_step_inv[of "en a" es ?st "(now, j, cmd)"] sim a by (simp add: actor_sim_def service_step_def)
  have old: "same_epoch (st0 a) ?st" "a \<in> cn_proposed t \<longrightarrow> st_lifecycle ?st \<noteq> Running"
    using sim a by (simp_all add: actor_sim_def)
  have e: "same_epoch ?st st1" using handle_command_call(1)[OF call] by (simp add: quiet_def)
  have "same_epoch st1 ?s1" by (simp add: same_epoch_def)
  then have e1: "same_epoch st1 (fst ?h)" using same_epoch_trans dispatch_undecided(1)[OF outs(1)] h(3) by metis
  have new: "st_fast_paxos (fst ?h) = Some fp" "same_epoch (st0 a) (fst ?h)" "a \<in> cn_proposed t' \<longrightarrow> st_lifecycle (fst ?h) \<noteq> Running"
    using dispatch_undecided(2)[OF outs(1)] h(3) same_epoch_trans[OF old(1) same_epoch_trans[OF e e1]] old(2) e e1 t(5)
    by (auto simp: same_epoch_def)
  have s': "actor_apply en A s (a, now, j, cmd) = s\<lparr>an_actors := (an_actors s)(a := fst ?h),
      an_sent := an_sent s \<union> \<Union> (set (map (delivered (en a) A) (fst (snd ?h)))),
      an_consumed := (case cmd of Request req _ \<Rightarrow> insert (a, req) (an_consumed s) | _ \<Rightarrow> an_consumed s)\<rparr>"
    using stay by (simp add: Let_def split_beta)
  have consumed: "q \<in> (case cmd of Request req _ \<Rightarrow> insert (a, req) (an_consumed s) | _ \<Rightarrow> an_consumed s)"
    if "q \<in> cn_consumed t'" "is_phase1b (snd q)" for q
    using t(6)[OF that(1)] that(2) sim by (auto simp: actor_sim_def split: service_command.split)
  have left: "left_by (en b) es t' b (an_parting s b) (st0 b) st st'" if "an_left s b = Some (st, st')" for b st st'
    using that sim left_by_mono[OF _ t(3)] by (auto simp: actor_sim_def)
  have sent': "an_sent s \<subseteq> cn_sent t'" using sim t(2) unfolding actor_sim_def by blast
  have others: "st_fast_paxos (an_actors s b) = Some (cn_nodes t' b)" "same_epoch (st0 b) (an_actors s b)"
    "service_inv (en b) es (an_actors s b)" "b \<in> cn_proposed t' \<longrightarrow> st_lifecycle (an_actors s b) \<noteq> Running"
    if "b \<in> A" "an_left s b = None" "b \<noteq> a" for b
    using sim that t(1,4) by (auto simp: actor_sim_def)
  have "a \<in> A \<and> left_by (en b) es t' b (an_parting s b) (st0 b) st st'" if "an_left s b = Some (st, st')" for b st st'
    using left[OF that] a(1) by simp
  moreover have "b \<in> A" if "an_left s b = Some q" for b q using sim that by (cases q) (auto simp: actor_sim_def)
  ultimately show ?thesis
    using new inv t(1,7) consumed sent sent' others unfolding s' actor_sim_def by simp
qed

lemma decide_delivers_nothing:
  "\<Union> (set (map (delivered en' A) (snd (decide_view_change en st p)))) = {}"
  "\<Union> (set (map (delivered en' A) (snd (reinstate_fast_paxos en st)))) = {}"
proof -
  let ?q = "list_all (\<lambda>e. silent e \<or> sets_membership e)"
  have r: "?q (snd (reinstate_fast_paxos en st))" for st
    by (simp add: reinstate_fast_paxos_def Let_def split_beta split: option.split)
  have p: "?q (snd (respond_parked w st ns))" for w st ns
    by (induction ns arbitrary: st) (auto simp: Let_def split_beta list_all_iff split: option.split)
  have b: "?q (snd (rebuild en st))" for st
    using rebuild_quiet_step[of st en] by (auto simp: quiet_def list_all_iff)
  have m: "?q (map AbortDetector ts)" "sets_membership (SetMembership ms)" for ts ms by (simp_all add: list_all_iff sets_membership_def)
  have "?q (snd (decide_view_change en st p))"
    using r p b m by (simp add: decide_view_change_stages split_beta Let_def cancel_failure_detectors_def vc_detectors_def
        respond_to_joiners_def)
  moreover have "\<Union> (set (map (delivered en' A) es)) = {}" if "?q es" for es
    using that by (induction es) (auto simp: delivered_def silent_def sets_membership_def split: service_effect.splits)
  ultimately show "\<Union> (set (map (delivered en' A) (snd (decide_view_change en st p)))) = {}"
    "\<Union> (set (map (delivered en' A) (snd (reinstate_fast_paxos en st)))) = {}"
    using r by blast+
qed

text \<open>A decision: the actor leaves the configuration.\<close>

lemma actor_sim_decided:
  assumes sim: "actor_sim en es c A st0 s t" and en: "actor_enabled en es c A s (a, now, j, cmd)"
    and st0: "st_broadcaster (st0 a)" and call: "consensus_call (en a) j (an_actors s a) cmd = Some (an_actors s a, fp, [FastDecision v])"
    and v: "set v \<subseteq> set es" "service_inv (en a) es ((an_actors s a)\<lparr>st_fast_paxos := Some fp\<rparr>)"
    and t: "cn_nodes t' = (cn_nodes t)(a := fp)" "cn_sent t \<subseteq> cn_sent t'" "insert (a, v) (cn_decisions t) \<subseteq> cn_decisions t'"
      "cn_proposed t' = cn_proposed t"
      "\<And>q. q \<in> cn_consumed t' \<Longrightarrow> q \<in> cn_consumed t \<or> (\<exists>req r. q = (a, req) \<and> cmd = Request req r)"
      "\<And>b w. fast_req c b w \<in> said t' \<Longrightarrow> distinct w"
  shows "actor_sim en es c A st0 (actor_apply en A s (a, now, j, cmd)) t'"
proof -
  let ?st = "an_actors s a" let ?h = "handle_command (en a) now j ?st cmd" let ?s1 = "?st\<lparr>st_fast_paxos := Some fp\<rparr>"
  let ?v = "decide_view_change (en a) ?s1 v" let ?r = "reinstate_fast_paxos (en a) (fst ?v)"
  have a: "a \<in> A" "an_left s a = None" using en by auto
  have old: "same_epoch (st0 a) ?st" "service_inv (en a) es ?st" using sim a by (simp_all add: actor_sim_def)
  obtain pre post where h: "list_all silent pre" "list_all silent post" "fst ?h = fst ?r" "fst (snd ?h) = pre @ (snd ?v @ snd ?r) @ post"
    "list_all (Not \<circ> is_join_answer) (pre @ post)"
    using handle_command_call(2)[OF call, of now] by (auto simp: dispatch_one_def Let_def split_beta)
  have sent: "\<Union> (set (map (delivered (en a) A) (fst (snd ?h)))) = {}"
    using silent_effects(1)[OF h(1), of "en a" A] silent_effects(1)[OF h(2), of "en a" A] decide_delivers_nothing[of "en a" A "en a"]
    unfolding h(4) by simp
  have "st_broadcaster ?s1" using old(1) st0 by (simp add: same_epoch_def)
  then have "list_ex sets_membership (snd ?v)" using decide_view_change_quiet(2)[of "en a" ?s1 v] by simp
  then have leave: "list_ex sets_membership (fst (snd ?h))" unfolding h(4) by simp
  have s': "actor_apply en A s (a, now, j, cmd) = s\<lparr>an_actors := (an_actors s)(a := fst ?r),
      an_consumed := (case cmd of Request req _ \<Rightarrow> insert (a, req) (an_consumed s) | _ \<Rightarrow> an_consumed s),
      an_left := (an_left s)(a \<mapsto> (?st, fst ?r)), an_parting := (an_parting s)(a := fst (snd ?h))\<rparr>"
    using leave sent h(3) by (simp add: Let_def split_beta)
  have "\<not> is_join_answer e" if "e \<in> set (snd ?r)" for e
    using that by (auto simp: reinstate_fast_paxos_def Let_def split_beta split: option.splits)
  then have answers: "\<forall>e \<in> set (fst (snd ?h)). is_join_answer e \<longrightarrow> e \<in> set (snd ?v)"
    using h(5) unfolding h(4) by (auto simp: list_all_iff)
  have consumed: "q \<in> (case cmd of Request req _ \<Rightarrow> insert (a, req) (an_consumed s) | _ \<Rightarrow> an_consumed s)"
    if "q \<in> cn_consumed t'" "is_phase1b (snd q)" for q
    using t(5)[OF that(1)] that(2) sim by (auto simp: actor_sim_def split: service_command.split)
  have "left_by (en a) es t' a (fst (snd ?h)) (st0 a) ?st (fst ?r)" unfolding left_by_def using old v t(3) answers by blast
  moreover have "left_by (en b) es t' b (an_parting s b) (st0 b) st st'" if "an_left s b = Some (st, st')" for b st st'
    using that sim left_by_mono[of "en b" es t b "an_parting s b" "st0 b" st st' t'] t(3) by (auto simp: actor_sim_def)
  ultimately show ?thesis using sim t(1,2,4,6) consumed a unfolding s' actor_sim_def by auto
qed

lemma wf_unicast:
  assumes "req \<in> wf_reqs x c A" "FastUnicast b r \<in> set (snd (handle_consensus_message fp req))"
  shows "b \<in> A"
  using assms
  by (auto simp: wf_reqs_def req_defs handle_consensus_message_def handle_paxos_def handle_fast_round_proposal_def
      handle_phase1a_def handle_phase1b_def handle_phase2a_def handle_phase2b_def Let_def split: option.splits if_splits)

lemma no_fast_votes:
  "fast_req c b v \<notin> set (sent_requests (snd (handle_consensus_message fp r)))"
  "fast_req c b v \<notin> set (sent_requests (snd (start_classic_round x fp)))"
proof -
  have "fast_req c b v \<notin> set (sent_requests (map wrap (snd (handle_phase1a p m1))))"
    "fast_req c b v \<notin> set (sent_requests (map wrap (snd (handle_phase1b p m2))))"
    "fast_req c b v \<notin> set (sent_requests (map wrap (snd (handle_phase2a p m3))))"
    "fast_req c b v \<notin> set (sent_requests (map wrap (snd (handle_phase2b p m4))))" for p m1 m2 m3 m4
    by (auto simp: handle_phase1a_def handle_phase1b_def handle_phase2a_def handle_phase2b_def fast_req_def Let_def
        split: option.split)
  then show "fast_req c b v \<notin> set (sent_requests (snd (handle_consensus_message fp r)))"
    by (auto simp: handle_consensus_message_def handle_paxos_def handle_fast_round_proposal_def Let_def
        split: option.split request_content.split)
  show "fast_req c b v \<notin> set (sent_requests (snd (start_classic_round x fp)))"
    by (auto simp: start_classic_round_def start_phase1a_def fast_req_def Let_def)
qed

lemma fast_vote_value: "fast_req c b v \<in> set (sent_requests (snd (propose j fp p))) \<Longrightarrow> v = p"
  by (simp add: propose_def fast_req_def Let_def)

lemma propose_unicasts: "FastUnicast b r \<notin> set (snd (propose j fp p))" "FastUnicast b r \<notin> set (snd (start_classic_round x fp))"
  by (auto simp: propose_def start_classic_round_def start_phase1a_def Let_def)

lemma actor_message_step:
  assumes sim: "actor_sim en es c A st0 s t" and net: "net_reachable x c delay A t" and ok: "cluster_ok x en A"
    and st0: "\<forall>a \<in> A. st_broadcaster (st0 a)" and en: "actor_enabled en es c A s (a, now, j, Request req reply)"
    and call: "consensus_call (en a) j (an_actors s a) (Request req reply) =
      Some (an_actors s a, handle_consensus_message (cn_nodes t a) req)" and req: "is_consensus req"
  shows "\<exists>t'. net_reachable x c delay A t' \<and> actor_sim en es c A st0 (actor_apply en A s (a, now, j, Request req reply)) t'"
proof -
  let ?st = "an_actors s a" let ?m = "handle_consensus_message (cn_nodes t a) req"
  have a: "a \<in> A" "an_left s a = None" "set (request_values req) \<subseteq> set es" using en by (auto simp: command_over_def)
  have fp: "st_fast_paxos ?st = Some (cn_nodes t a)" "service_inv (en a) es ?st" using sim a by (simp_all add: actor_sim_def)
  have A: "finite A" "A \<noteq> {}" "inj_on (stable_node_index x) A" using ok by (simp_all add: cluster_ok_def)
  note inv = net_reachable_inv[OF net A]
  have votes: "\<And>b v. fast_req c b v \<in> said t \<Longrightarrow> distinct v" using sim by (simp add: actor_sim_def)
  show ?thesis
  proof (cases "request_configuration req = Some c")
    case False
    have "node_static c A a (cn_nodes t a)" using inv a(1) by (simp add: net_inv_def node_inv_def)
    then have m: "?m = (cn_nodes t a, [])"
      using foreign_ignored[OF False] net_decided_synced[OF net] by (simp add: node_static_def)
    have "actor_sim en es c A st0 (actor_apply en A s (a, now, j, Request req reply)) t"
      by (rule actor_sim_undecided[OF sim ok en call[unfolded m]]) (use votes in auto)
    then show ?thesis using net by blast
  next
    case True
    then have sent: "(a, req) \<in> cn_sent t" "is_phase1b req \<Longrightarrow> (a, req) \<notin> cn_consumed t"
      using en req sim True by (auto simp: arrives_def repeated_phase1b_def actor_sim_def)
    let ?t = "net_apply x A t (NetDeliver a req)"
    have t: "net_reachable x c delay A ?t" by (rule net_next[OF net]) (use sent a in simp)
    have facts: "cn_nodes ?t = (cn_nodes t)(a := fst ?m)" "cn_sent ?t = cn_sent t \<union> \<Union> (set (map (addressed A) (snd ?m)))"
      "cn_decisions ?t = cn_decisions t \<union> Pair a ` set (decided_values (snd ?m))" "cn_proposed ?t = cn_proposed t"
      "cn_consumed ?t = insert (a, req) (cn_consumed t)" by (simp_all add: absorb_def)
    have said: "said ?t = said t \<union> set (sent_requests (snd ?m))" by (simp add: said_absorb[OF A(2)])
    have votes': "distinct v" if "fast_req c b v \<in> said ?t" for b v using votes no_fast_votes(1) that unfolding said by blast
    have "req \<in> wf_reqs x c A" using inv sent(1) unfolding net_inv_def said_def by force
    note uni = wf_unicast[OF this]
    have call': "consensus_call (en a) j ?st (Request req reply) = Some (?st, fst ?m, snd ?m)" using call by simp
    consider "decided_values (snd ?m) = []" | "snd ?m = [FastDecision (request_values req)]" using message_outs by blast
    then have "actor_sim en es c A st0 (actor_apply en A s (a, now, j, Request req reply)) ?t"
    proof cases
      case 1
      show ?thesis
        by (rule actor_sim_undecided[OF sim ok en call' 1 uni, where t' = ?t, unfolded facts]) (use facts votes' in auto)
    next
      case 2
      have "service_inv (en a) es (?st\<lparr>st_fast_paxos := Some (fst ?m)\<rparr>)" by (rule set_paxos_inv[OF fp(2,1)]) simp_all
      moreover have "consensus_call (en a) j ?st (Request req reply) = Some (?st, fst ?m, [FastDecision (request_values req)])"
        using call' 2 by simp
      ultimately show ?thesis
        by (intro actor_sim_decided[OF sim en _ _ a(3), where t' = ?t and fp = "fst ?m"]) (use facts votes' 2 st0 a in auto)
    qed
    with t show ?thesis by blast
  qed
qed

lemma actor_sim_step:
  assumes sim: "actor_sim en es c A st0 s t" and net: "net_reachable x c delay A t" and ok: "cluster_ok x en A"
    and st0: "\<forall>a \<in> A. st_broadcaster (st0 a)" and en: "actor_enabled en es c A s ev"
  shows "\<exists>t'. net_reachable x c delay A t' \<and> actor_sim en es c A st0 (actor_apply en A s ev) t'"
proof -
  obtain a now j cmd where ev: "ev = (a, now, j, cmd)" by (cases ev)
  note en = en[unfolded ev]
  let ?st = "an_actors s a"
  have a: "a \<in> A" "an_left s a = None" using en by auto
  have fp: "st_fast_paxos ?st = Some (cn_nodes t a)" "a \<in> cn_proposed t \<Longrightarrow> st_lifecycle ?st \<noteq> Running"
    using sim a by (simp_all add: actor_sim_def)
  have A: "A \<noteq> {}" "en_xxh64 (en a) = x" "iter_order (en_proposal_order (en a))" using ok a by (simp_all add: cluster_ok_def)
  have votes: "\<And>b v. fast_req c b v \<in> said t \<Longrightarrow> distinct v" using sim by (simp add: actor_sim_def)
  show ?thesis
  proof (cases "consensus_call (en a) j ?st cmd")
    case None
    then show ?thesis using actor_sim_quiet[OF sim en] net ev by blast
  next
    case (Some r)
    then obtain st1 fp' outs where call: "consensus_call (en a) j ?st cmd = Some (st1, fp', outs)" by (cases r) auto
    from call show ?thesis
    proof (cases rule: consensus_call_cases)
      case (1 fp0)
      let ?t = "net_apply x A t (NetStart a)"
      have f: "(fp', outs) = start_classic_round x (cn_nodes t a)" using 1 fp A(2) by auto
      have t: "net_reachable x c delay A ?t" by (rule net_next[OF net]) (use a in simp)
      have "said ?t = said t \<union> set (sent_requests outs)" using said_absorb[OF A(1)] f by (metis net_apply.simps(2) snd_conv)
      moreover have "fast_req c b v \<notin> set (sent_requests outs)" for b v using no_fast_votes(2) f by (metis snd_conv)
      moreover have "decided_values outs = []" "\<And>b req. FastUnicast b req \<notin> set outs"
        using consensus_outs(2) propose_unicasts(2) f by (metis snd_conv)+
      ultimately have "actor_sim en es c A st0 (actor_apply en A s ev) ?t"
        unfolding ev by (intro actor_sim_undecided[OF sim ok en call]) (use f[symmetric] votes in \<open>auto simp: absorb_def\<close>)
      with t show ?thesis by blast
    next
      case (2 fp0 req reply)
      then have "consensus_call (en a) j ?st (Request req reply) = Some (?st, handle_consensus_message (cn_nodes t a) req)"
        using call fp by auto
      then show ?thesis using actor_message_step[OF sim net ok st0] en 2(2,4) ev by blast
    next
      case (3 fp0 m reply)
      let ?p = "fst (snd (handle_batched_alerts (en a) ?st m))" let ?t = "net_apply x A t (NetPropose a j ?p)"
      have f: "(fp', outs) = propose j (cn_nodes t a) ?p" using 3 fp by auto
      have l: "st_lifecycle ?st = Running" "st_lifecycle st1 = AnnouncedProposal"
        using handle_batched_alerts_lifecycle[OF 3(4)] 3(3,5) by (cases "st_lifecycle ?st", simp_all)
      have "announced (en a) ?st cmd \<noteq> []" using 3(2-4) by (simp add: announced_def)
      then have "\<not> classic_rank (px_rnd (fp_paxos (cn_nodes t a)))" using en fp(1) by (auto simp: promised_def)
      then have t: "net_reachable x c delay A ?t" by (intro net_next[OF net]) (use a 3(4) fp(2) l in auto)
      have "said ?t = said t \<union> set (sent_requests outs)" using said_absorb[OF A(1)] f by (metis net_apply.simps(1) said_update(2) snd_conv)
      moreover have "distinct v" if "fast_req c b v \<in> set (sent_requests outs)" for b v
        using fast_vote_value[of c b v j "cn_nodes t a" ?p] that f handle_batched_alerts_distinct[OF A(3)] by (metis snd_conv)
      moreover have "decided_values outs = []" "\<And>b req. FastUnicast b req \<notin> set outs"
        using consensus_outs(1) propose_unicasts(1) f by (metis snd_conv)+
      ultimately have "actor_sim en es c A st0 (actor_apply en A s ev) ?t"
        unfolding ev by (intro actor_sim_undecided[OF sim ok en call]) (use f[symmetric] votes l in \<open>auto simp: absorb_def\<close>)
      with t show ?thesis by blast
    qed
  qed
qed

lemma actors_simulated:
  assumes "actors_reachable en es c A st0 s" "cluster_ok x en A" "\<forall>a \<in> A. starts_in (en a) es delay c A I a (st0 a)"
  shows "\<exists>t. net_reachable x c delay A t \<and> actor_sim en es c A st0 s t"
  using assms(1)
proof (induction rule: actors_reachable.induct)
  case actors_start
  have "actor_sim en es c A st0 (actors_init st0) (net_init c delay A)"
    using assms(3) by (simp add: actor_sim_def actors_init_def net_init_def starts_in_def said_def)
  then show ?case using net_start by blast
next
  case (actors_next s ev)
  have "\<forall>a \<in> A. st_broadcaster (st0 a)" using assms(3) by (simp add: starts_in_def)
  then show ?case using actors_next actor_sim_step[OF _ _ assms(2)] by blast
qed

section \<open>The next configuration\<close>

lemma decide_view_change_self [simp]:
  "st_my_addr (fst (decide_view_change en st p)) = st_my_addr st"
  "st_settings (fst (decide_view_change en st p)) = st_settings st"
proof -
  have n: "st_my_addr (fst (apply_node en s n)) = st_my_addr s \<and> st_settings (fst (apply_node en s n)) = st_settings s" for s n
    by (simp add: apply_node_def Let_def split: option.split sum.split)
  have a: "st_my_addr (fst (apply_nodes en s ns)) = st_my_addr s \<and> st_settings (fst (apply_nodes en s ns)) = st_settings s" for s ns
    using n by (induction ns arbitrary: s) (simp_all add: Let_def split_beta)
  have r: "st_settings (fst (rebuild en s)) = st_settings s" for s
    using rebuild_quiet_step[of s en] by (simp add: quiet_def same_epoch_def)
  have p: "st_my_addr (fst (respond_parked w s ns)) = st_my_addr s \<and> st_settings (fst (respond_parked w s ns)) = st_settings s" for w s ns
    by (induction ns arbitrary: s) (simp_all add: Let_def split_beta split: option.split)
  show "st_my_addr (fst (decide_view_change en st p)) = st_my_addr st"
    "st_settings (fst (decide_view_change en st p)) = st_settings st"
    using a r p by (simp_all add: decide_view_change_stages split_beta Let_def vc_detectors_def vc_reset_def vc_applied_def
        respond_to_joiners_def cancel_failure_detectors_def configuration_id_eq reinstate_fast_paxos_def)
qed

lemma reinstate_starts:
  assumes "parts_inv en es st" "st_broadcaster st" "st_lifecycle st = Running"
  shows "starts_in en es (se_paxos_fallback_base_delay (st_settings st)) (true_configuration_id (en_xxh64 en) (st_view st))
    (members (st_view st)) (identifiers_seen (st_view st)) (st_my_addr st) (fst (reinstate_fast_paxos en st))"
proof -
  let ?s = "fst (reinstate_fast_paxos en st)"
  have "view_inv (en_xxh64 en) (st_view st)" using assms(1) by (simp add: parts_inv_def view_inv_over_def)
  then have "membership_size (st_view st) = card (members (st_view st))" by (rule membership_size_card)
  moreover have "snd (configuration_id en (st\<lparr>st_pending_fallback := None\<rparr>)) = true_configuration_id (en_xxh64 en) (st_view st)"
    using configuration_id_true[of en es "st\<lparr>st_pending_fallback := None\<rparr>"] assms(1) by (simp add: parts_inv_def)
  ultimately have "st_fast_paxos ?s = Some (fast_paxos_new (st_my_addr st) (true_configuration_id (en_xxh64 en) (st_view st))
      (card (members (st_view st))) (se_paxos_fallback_base_delay (st_settings st)))"
    by (simp add: reinstate_fast_paxos_def Let_def split_beta configuration_id_eq)
  moreover have "st_settings ?s = st_settings st" by (simp add: reinstate_fast_paxos_def Let_def split_beta configuration_id_eq)
  moreover have "service_inv en es ?s" using assms(1) by (rule reinstate_fast_paxos_inv)
  ultimately show ?thesis
    using assms(2,3) same_view_facts(1,2)[OF reinstate_frame(4)[of en st]] by (simp add: starts_in_def)
qed

lemma left_starts:
  assumes "left_by en es t a eff st0 st st'" "starts_in en es delay c A I a st0" "\<And>v. (a, v) \<in> cn_decisions t \<Longrightarrow> v = w" "distinct w"
  shows "\<exists>u. view_inv (en_xxh64 en) u \<and>
    configuration_of u = fold (next_configuration (joiner_ids st)) w (A, I) \<and>
    starts_in en es delay (true_configuration_id (en_xxh64 en) u) (members u) (identifiers_seen u) a st' \<and> set w \<subseteq> set es"
proof -
  obtain fp where l: "same_epoch st0 st" "set w \<subseteq> set es" "service_inv en es (st\<lparr>st_fast_paxos := Some fp\<rparr>)"
    "st' = fst (reinstate_fast_paxos en (fst (decide_view_change en (st\<lparr>st_fast_paxos := Some fp\<rparr>) w)))"
    using assms(1,3) unfolding left_by_def by blast
  let ?s1 = "st\<lparr>st_fast_paxos := Some fp\<rparr>" let ?d = "fst (decide_view_change en ?s1 w)"
  have p: "parts_inv en es ?s1" using l(3) by (simp add: service_inv_def)
  have d: "parts_inv en es ?d" using decide_view_change_inv[OF p l(2)] by (simp add: service_inv_def)
  have "st_broadcaster ?d" "st_my_addr ?d = a" "se_paxos_fallback_base_delay (st_settings ?d) = delay"
    using l(1) assms(2) by (simp_all add: same_epoch_def starts_in_def)
  then have "starts_in en es delay (true_configuration_id (en_xxh64 en) (st_view ?d)) (members (st_view ?d))
      (identifiers_seen (st_view ?d)) a st'" using reinstate_starts[OF d] l(4) by simp
  moreover have "view_inv (en_xxh64 en) (st_view ?d)" using d by (simp add: parts_inv_def view_inv_over_def)
  moreover have "configuration_of (st_view st) = (A, I)"
    using l(1) assms(2) same_view_facts(1,2)[of "st_view st" "st_view st0"]
    by (simp add: configuration_of_def same_epoch_def starts_in_def)
  then have "configuration_of (st_view ?d) = fold (next_configuration (joiner_ids st)) w (A, I)"
    using decide_view_change_configuration[OF p l(2) assms(4)] by (simp add: joiner_ids_def[abs_def])
  ultimately show ?thesis using l(2) by blast
qed

text \<open>
  The members that left knew the same identifiers for the nodes outside the configuration. A member that missed the
  best-effort alerts about a joiner does not (\<open>unknown_joiner_diverges\<close>).
\<close>

definition same_joiner_ids :: "endpoint list \<Rightarrow> endpoint set \<Rightarrow> actor_net \<Rightarrow> bool" where
  "same_joiner_ids es A s \<longleftrightarrow> (\<forall>a b st st' u u'. an_left s a = Some (st, st') \<and> an_left s b = Some (u, u') \<longrightarrow>
     (\<forall>n \<in> set es - A. joiner_ids u n = joiner_ids st n))"

lemma actors_next_configuration:
  assumes "actors_reachable en es c A st0 s" and "cluster_ok x en A"
    and "\<forall>a \<in> A. starts_in (en a) es delay c A I a (st0 a)" and "same_joiner_ids es A s"
  shows "\<exists>c' A' I'. \<forall>a st st'. an_left s a = Some (st, st') \<longrightarrow> starts_in (en a) es delay c' A' I' a st'"
proof (cases "\<exists>b u u'. an_left s b = Some (u, u')")
  case True
  then obtain b u u' where b: "an_left s b = Some (u, u')" by blast
  obtain t where t: "net_reachable x c delay A t" "actor_sim en es c A st0 s t" using actors_simulated[OF assms(1-3)] by blast
  have A: "finite A" "A \<noteq> {}" "inj_on (stable_node_index x) A" using assms(2) by (simp_all add: cluster_ok_def)
  have left: "a \<in> A" "left_by (en a) es t a (an_parting s a) (st0 a) st st'" if "an_left s a = Some (st, st')" for a st st'
    using t(2) that by (simp_all add: actor_sim_def)
  obtain w where w: "(b, w) \<in> cn_decisions t" using left(2)[OF b] by (auto simp: left_by_def)
  have only: "v = w" if "(a, v) \<in> cn_decisions t" for a v using network_agreement[OF t(1) A(1,3) that w] .
  have "distinct w" using network_validity[OF t(1) A w] t(2) unfolding actor_sim_def by blast
  have at: "\<exists>v. view_inv x v \<and> configuration_of v = fold (next_configuration (joiner_ids st)) w (A, I) \<and>
      starts_in (en a) es delay (true_configuration_id x v) (members v) (identifiers_seen v) a st' \<and> set w \<subseteq> set es"
    if "an_left s a = Some (st, st')" for a st st'
    using left_starts[OF left(2)[OF that] _ only \<open>distinct w\<close>] left(1)[OF that] assms(2,3) by (auto simp: cluster_ok_def)
  obtain v where v: "view_inv x v" "configuration_of v = fold (next_configuration (joiner_ids u)) w (A, I)" "set w \<subseteq> set es"
    using at[OF b] by blast
  have "starts_in (en a) es delay (true_configuration_id x v) (members v) (identifiers_seen v) a st'"
    if a: "an_left s a = Some (st, st')" for a st st'
  proof -
    obtain v' where v': "view_inv x v'" "configuration_of v' = fold (next_configuration (joiner_ids st)) w (A, I)"
      "starts_in (en a) es delay (true_configuration_id x v') (members v') (identifiers_seen v') a st'" using at[OF a] by blast
    have "configuration_of v' = configuration_of v"
      unfolding v(2) v'(2) using assms(4)[unfolded same_joiner_ids_def] a b v(3)
      by (intro fold_next_configuration_joiners[OF \<open>distinct w\<close>]) (metis DiffI fst_conv subsetD)
    then have m: "members v' = members v" "identifiers_seen v' = identifiers_seen v" by (simp_all add: configuration_of_def)
    then show ?thesis using v'(3) true_configuration_id_canonical[OF v'(1) v(1) m] by simp
  qed
  then show ?thesis by blast
qed auto

text \<open>
  C1. Members move together. Let the members of a configuration run as actors over a network that
  delays, reorders, loses and repeats their consensus messages, process any other commands at any
  times, and start classic rounds whenever they like, in a run in which no member announces a proposal after it has
  promised a classic round and no phase 1b message arrives twice, and let the members that left have known the same
  identifiers for the joiners (the code ensures none of the three). Then all members that leave the
  configuration, whether the fast or a classic round decided for them, start in one and the same
  next configuration: the same members, identifiers seen and configuration identifier, each with a
  fresh consensus instance for exactly that identifier and number of members, no proposal
  announced, and the invariant of its parts. The conclusion is again the assumption on the start, so the
  statement carries over from configuration to configuration.
\<close>

theorem actors_move_together:
  assumes "actors_exec en es c A (actors_init st0) evs = Some s"
    and "never (actor_apply en A) (late_announcement en) (actors_init st0) evs"
    and "never (actor_apply en A) (repeated_phase1b c) (actors_init st0) evs"
    and "cluster_ok x en A" and "\<forall>a \<in> A. starts_in (en a) es delay c A I a (st0 a)"
    and "same_joiner_ids es A s"
  shows "\<exists>c' A' I'. \<forall>a st st'. an_left s a = Some (st, st') \<longrightarrow> starts_in (en a) es delay c' A' I' a st'"
  by (rule actors_next_configuration[OF actors_exec_reachable[OF assms(1-3)] assms(4-6)])

lemma starts_in_configuration:
  assumes "starts_in en es delay c A I a st"
  shows "c = true_configuration_id (en_xxh64 en) (st_view st)"
  using assms by (auto simp: starts_in_def service_inv_def paxos_current_def fast_paxos_new_def Let_def)

text \<open>A node that boots, as a seed or from the answer to its join request, starts in the configuration it boots with.\<close>

lemma finish_cluster_starts:
  assumes "finish_cluster en shuffle b view cd metadata timeouts reply server = Inr cl" "service_inv en es (cl_state cl)"
  shows "starts_in en es (se_paxos_fallback_base_delay (cb_settings b)) (snd (configuration_id en (cl_state cl)))
    (members (st_view (cl_state cl))) (identifiers_seen (st_view (cl_state cl))) (cl_listen_endpoint cl) (cl_state cl)"
proof -
  let ?new = "with_fd_factory (with_consensus_client (with_broadcaster
    (service_state_new (endpoint_from_socket (cb_listen_addr b)) view cd metadata (cb_settings b))))"
  have cl: "cl_state cl = fst (reinstate_fast_paxos en ?new)" "cl_listen_endpoint cl = endpoint_from_socket (cb_listen_addr b)"
    using assms(1) by (auto simp: finish_cluster_def install_fast_paxos_def Let_def split: sum.splits)
  note frames = with_fd_factory_def with_consensus_client_def with_broadcaster_def service_state_new_def
  have f: "st_broadcaster (cl_state cl)" "st_lifecycle (cl_state cl) = Running" "st_my_addr (cl_state cl) = cl_listen_endpoint cl"
    "st_settings (cl_state cl) = cb_settings b"
    unfolding cl by (simp_all add: frames reinstate_fast_paxos_def Let_def split_beta configuration_id_eq)
  obtain c n where p: "st_fast_paxos (cl_state cl) = Some (fast_paxos_new (cl_listen_endpoint cl) c n (se_paxos_fallback_base_delay (cb_settings b)))"
    unfolding cl by (simp add: frames reinstate_fast_paxos_def Let_def split_beta configuration_id_eq)
  have pc: "parts_inv en es (cl_state cl)" "paxos_current en (cl_state cl)" using assms(2) by (simp_all add: service_inv_def)
  then have "c = snd (configuration_id en (cl_state cl))" "n = membership_size (st_view (cl_state cl))"
    using p configuration_id_true[OF pc(1)] by (simp_all add: paxos_current_def fast_paxos_new_def Let_def)
  moreover have "membership_size (st_view (cl_state cl)) = card (members (st_view (cl_state cl)))"
    using pc(1) by (intro membership_size_card[of "en_xxh64 en"]) (simp add: parts_inv_def view_inv_over_def)
  ultimately show ?thesis using f p assms(2) by (simp add: starts_in_def)
qed

lemma booted_starts:
  assumes "builder_join en shuffle b joined reply server = Inr cl" "service_inv en es (cl_state cl)"
  shows "starts_in en es (se_paxos_fallback_base_delay (cb_settings b)) (snd (configuration_id en (cl_state cl)))
    (members (st_view (cl_state cl))) (identifiers_seen (st_view (cl_state cl))) (cl_listen_endpoint cl) (cl_state cl)"
proof -
  obtain view cd metadata timeouts where "finish_cluster en shuffle b view cd metadata timeouts reply server = Inr cl"
    using assms(1) by (auto simp: builder_join_def Let_def split: sum.splits)
  from finish_cluster_starts[OF this assms(2)] show ?thesis .
qed

lemma left_joiner_starts:
  assumes "left_by en es t a eff st0 st st'" "starts_in en es delay c A I a st'"
    and "Reply r (Inr (RapidResponse (Some (JoinResponse jr)))) \<in> set eff" "se_k (cb_settings b) = mv_k (st_view st)"
    and "cut_new (se_k (cb_settings b)) (se_h (cb_settings b)) (se_l (cb_settings b)) = Inr cd"
    and "se_paxos_fallback_base_delay (cb_settings b) = delay"
  shows "\<exists>cl. builder_join en shuffle b (Inr jr) reply (Inr ()) = Inr cl \<and> starts_in en es delay c A I (cl_listen_endpoint cl) (cl_state cl)"
proof -
  obtain fp v where l: "set v \<subseteq> set es" "service_inv en es (st\<lparr>st_fast_paxos := Some fp\<rparr>)"
    "st' = fst (reinstate_fast_paxos en (fst (decide_view_change en (st\<lparr>st_fast_paxos := Some fp\<rparr>) v)))"
    "Reply r (Inr (RapidResponse (Some (JoinResponse jr)))) \<in> set (snd (decide_view_change en (st\<lparr>st_fast_paxos := Some fp\<rparr>) v))"
    using assms(1,3) unfolding left_by_def by auto
  let ?d = "fst (decide_view_change en (st\<lparr>st_fast_paxos := Some fp\<rparr>) v)"
  have "se_k (cb_settings b) = mv_k (st_view (st\<lparr>st_fast_paxos := Some fp\<rparr>))" using assms(4) by simp
  from joiner_boots_alike[OF l(2,1,4) this assms(5), of shuffle reply] obtain cl where cl:
    "builder_join en shuffle b (Inr jr) reply (Inr ()) = Inr cl" "service_inv en es (cl_state cl)"
    "members (st_view (cl_state cl)) = members (st_view ?d)" "identifiers_seen (st_view (cl_state cl)) = identifiers_seen (st_view ?d)"
    "snd (configuration_id en (cl_state cl)) = snd (configuration_id en ?d)" by auto
  have d: "parts_inv en es ?d" using decide_view_change_inv[of en es _ v] l(1,2) by (simp add: service_inv_def)
  note same = same_view_facts[OF reinstate_frame(4)[of en ?d]]
  have "A = members (st_view ?d)" "I = identifiers_seen (st_view ?d)"
    using assms(2) same(1,2) by (simp_all add: starts_in_def l(3))
  moreover have "c = snd (configuration_id en ?d)"
    using starts_in_configuration[OF assms(2)] configuration_id_true[OF d] same(5) by (simp add: l(3))
  ultimately show ?thesis using booted_starts[OF cl(1,2)] cl assms(6) by auto
qed

text \<open>
  C10. Joiners start with the members. In the same setting and under the same three conditions on the run, let a
  member that leaves the configuration answer a parked join request with that command. The node that boots from the
  answer (same number of rings and fallback delay, thresholds its detector accepts, a server that binds) starts in the
  very configuration in which all members that left start: with the members that stay it can run the
  next configuration.
\<close>

theorem joiner_starts_with_members:
  assumes "actors_exec en es c A (actors_init st0) evs = Some s"
    and "never (actor_apply en A) (late_announcement en) (actors_init st0) evs"
    and "never (actor_apply en A) (repeated_phase1b c) (actors_init st0) evs"
    and "cluster_ok x en A" and "\<forall>a \<in> A. starts_in (en a) es delay c A I a (st0 a)"
    and "same_joiner_ids es A s"
    and "an_left s a = Some (st, st')" and "Reply r (Inr (RapidResponse (Some (JoinResponse jr)))) \<in> set (an_parting s a)"
    and "se_k (cb_settings b) = mv_k (st_view st)" and "se_paxos_fallback_base_delay (cb_settings b) = delay"
    and "cut_new (se_k (cb_settings b)) (se_h (cb_settings b)) (se_l (cb_settings b)) = Inr cd"
  shows "\<exists>cl c' A' I'. builder_join (en a) shuffle b (Inr jr) reply (Inr ()) = Inr cl \<and>
    starts_in (en a) es delay c' A' I' (cl_listen_endpoint cl) (cl_state cl) \<and>
    (\<forall>d u u'. an_left s d = Some (u, u') \<longrightarrow> starts_in (en d) es delay c' A' I' d u')"
proof -
  note r = actors_exec_reachable[OF assms(1-3)]
  obtain c' A' I' where n: "\<forall>d u u'. an_left s d = Some (u, u') \<longrightarrow> starts_in (en d) es delay c' A' I' d u'"
    using actors_next_configuration[OF r assms(4-6)] by blast
  obtain t where "actor_sim en es c A st0 s t" using actors_simulated[OF r assms(4,5)] by blast
  then have "left_by (en a) es t a (an_parting s a) (st0 a) st st'" using assms(7) by (simp add: actor_sim_def)
  from left_joiner_starts[OF this _ assms(8,9,11,10)] n assms(7) show ?thesis by blast
qed

section \<open>Two members admit a joiner\<close>

text \<open>A hash that is quick to evaluate, and two members that learn of a joiner and vote for it.\<close>

definition first_byte_hash :: xxh64_fn where
  "first_byte_hash bs seed = (case bs of [] \<Rightarrow> 0 | b # _ \<Rightarrow> ucast b)"

definition pair_env :: env where
  "pair_env = demo_env\<lparr>en_xxh64 := first_byte_hash\<rparr>"

definition pair_view :: membership_view where
  "pair_view = (case view_bootstrap first_byte_hash 3 (map demo_nid [1, 2]) (map demo_ep [1, 2]) of Inr v \<Rightarrow> v)"

definition pair_config :: configuration_id where
  "pair_config = snd (current_configuration_id first_byte_hash pair_view)"

definition pair_member :: "nat \<Rightarrow> service_state" where
  "pair_member i = fst (install_fast_paxos pair_env (with_broadcaster
     (service_state_new (demo_ep i) pair_view demo_cut metadata_new settings_for_tests)))"

definition pair_alerts :: service_command where
  "pair_alerts = Request (RapidRequest (Some (BatchedAlertMessage \<lparr>ba_sender = None, ba_messages =
     [(demo_alert 2 4 Up [0, 1])\<lparr>al_node_id := Some (demo_nid 4), al_configuration_id := pair_config\<rparr>]\<rparr>))) 7"

definition pair_join :: service_command where
  "pair_join = Request (RapidRequest (Some (JoinMessage \<lparr>jm_sender = Some (demo_ep 4), jm_node_id = Some (demo_nid 4),
     jm_ring_number = [0], jm_configuration_id = pair_config, jm_metadata = None\<rparr>))) 9"

definition pair_vote :: "nat \<Rightarrow> rapid_request" where
  "pair_vote i = fast_req pair_config (demo_ep i) [demo_ep 4]"

lemma pair_config_code [code]: "pair_config = 3610119545797"
  by code_simp

text \<open>What each of the two actors does on its own: a join request, the alerts, the two votes.\<close>

definition pair_does :: "service_state \<Rightarrow> service_command \<Rightarrow> service_state \<times> service_effect list" where
  "pair_does st cmd = (let r = handle_command pair_env 10 0 st cmd in (fst r, fst (snd r)))"

definition pair_summary :: "nat \<Rightarrow> bool \<times> bool list \<times> node_id option list \<times> bool" where
  "pair_summary i =
     (let z = pair_does (pair_member i) pair_join; r = pair_does (fst z) pair_alerts;
          q = pair_does (fst r) (Request (pair_vote 1) 8); p = pair_does (fst q) (Request (pair_vote 2) 8)
      in (BroadcastEffect (pair_vote i) \<in> set (snd r), map (list_ex sets_membership \<circ> snd) [z, r, q, p],
          map (joiner_ids (fst q)) (map demo_ep [1, 2, 4]), list_ex is_join_answer (snd p)))"

lemma pair_summary1: "pair_summary 1 = (True, [False, False, False, True], [None, None, Some (demo_nid 4)], True)"
  by code_simp

lemma pair_summary2: "pair_summary 2 = (True, [False, False, False, True], [None, None, Some (demo_nid 4)], True)"
  by code_simp

definition pair_members :: "endpoint set" where
  "pair_members = {demo_ep 1, demo_ep 2}"

definition pair_universe :: "endpoint list" where
  "pair_universe = map demo_ep [1, 2, 4]"

definition pair_start :: "endpoint \<Rightarrow> service_state" where
  "pair_start a = pair_member (if a = demo_ep 1 then 1 else 2)"

definition pair_schedule :: "actor_event list" where
  "pair_schedule = [(demo_ep 1, 10, 0, pair_join), (demo_ep 2, 10, 0, pair_join), (demo_ep 1, 10, 0, pair_alerts), (demo_ep 2, 10, 0, pair_alerts),
     (demo_ep 1, 10, 0, Request (pair_vote 1) 8), (demo_ep 1, 10, 0, Request (pair_vote 2) 8),
     (demo_ep 2, 10, 0, Request (pair_vote 1) 8), (demo_ep 2, 10, 0, Request (pair_vote 2) 8)]"

lemma pair_view_facts:
  "view_inv_over first_byte_hash pair_universe pair_view" "members pair_view = pair_members"
  "identifiers_seen pair_view = set (map demo_nid [1, 2])" "mv_k pair_view = 3"
proof -
  have b: "view_bootstrap first_byte_hash 3 (map demo_nid [1, 2]) (map demo_ep [1, 2]) = Inr pair_view"
    by (simp add: pair_view_def view_bootstrap_def view_new_def)
  have "no_collisions first_byte_hash 3 pair_universe" by code_simp
  note f = view_bootstrap_inv[OF b this]
  show "view_inv_over first_byte_hash pair_universe pair_view" "members pair_view = pair_members"
    "identifiers_seen pair_view = set (map demo_nid [1, 2])" "mv_k pair_view = 3"
    using f by (simp_all add: pair_universe_def pair_members_def)
qed

lemma new_member_starts:
  assumes "view_inv_over first_byte_hash es v"
  shows "starts_in pair_env es 300 (true_configuration_id first_byte_hash v) (members v) (identifiers_seen v) (demo_ep i)
    (fst (install_fast_paxos pair_env (with_broadcaster (service_state_new (demo_ep i) v demo_cut metadata_new settings_for_tests))))"
proof -
  let ?st = "with_broadcaster (service_state_new (demo_ep i) v demo_cut metadata_new settings_for_tests)"
  have "parts_inv pair_env es ?st"
    using assms cut_new_fresh(1)[OF demo_cut_new]
    by (simp add: parts_inv_def service_state_new_def with_broadcaster_def pair_env_def)
  then show ?thesis
    using reinstate_starts[of pair_env es ?st]
    by (simp add: install_fast_paxos_def pair_env_def with_broadcaster_def service_state_new_def settings_for_tests_def)
qed

lemma pair_member_starts:
  "starts_in pair_env pair_universe 300 pair_config pair_members (set (map demo_nid [1, 2])) (demo_ep i) (pair_member i)"
proof -
  have "true_configuration_id first_byte_hash pair_view = pair_config"
    using pair_view_facts(1) current_configuration_id_true(1) by (auto simp: pair_config_def view_inv_over_def view_inv_def)
  then show ?thesis using new_member_starts[OF pair_view_facts(1), of i] pair_view_facts(2,3) by (simp add: pair_member_def)
qed

lemma pair_cluster_ok: "cluster_ok first_byte_hash (\<lambda>_. pair_env) pair_members"
proof -
  have "inj_on (stable_node_index first_byte_hash) pair_members"
  proof -
    have "stable_node_index first_byte_hash (demo_ep 1) \<noteq> stable_node_index first_byte_hash (demo_ep 2)" by code_simp
    then show ?thesis by (auto simp: pair_members_def)
  qed
  moreover have "endpoint_to_socket_addr pair_env (demo_ep 1) \<noteq> endpoint_to_socket_addr pair_env (demo_ep 2)" by code_simp
  ultimately show ?thesis by (auto simp: cluster_ok_def pair_members_def pair_env_def demo_env_def)
qed

lemma actor_apply_proj:
  "an_actors (actor_apply en A s (a, now, j, cmd)) = (an_actors s)(a := fst (handle_command (en a) now j (an_actors s a) cmd))"
  "an_sent (actor_apply en A s (a, now, j, cmd)) = an_sent s \<union>
     \<Union> (set (map (delivered (en a) A) (fst (snd (handle_command (en a) now j (an_actors s a) cmd)))))"
  "an_left (actor_apply en A s (a, now, j, cmd)) =
     (if list_ex sets_membership (fst (snd (handle_command (en a) now j (an_actors s a) cmd)))
      then (an_left s)(a \<mapsto> (an_actors s a, fst (handle_command (en a) now j (an_actors s a) cmd))) else an_left s)"
  "an_parting (actor_apply en A s (a, now, j, cmd)) =
     (if list_ex sets_membership (fst (snd (handle_command (en a) now j (an_actors s a) cmd)))
      then (an_parting s)(a := fst (snd (handle_command (en a) now j (an_actors s a) cmd))) else an_parting s)"
  "an_consumed (actor_apply en A s (a, now, j, cmd)) =
     (case cmd of Request req _ \<Rightarrow> insert (a, req) (an_consumed s) | _ \<Rightarrow> an_consumed s)"
  by (simp_all add: Let_def split_beta)

lemma pair_vote_facts [simp]:
  "is_consensus (pair_vote i)" "request_configuration (pair_vote i) = Some pair_config" "\<not> is_phase1b (pair_vote i)"
  "request_values (pair_vote i) = [demo_ep 4]" "announced en st (Request (pair_vote i) r) = []"
  by (simp_all add: pair_vote_def fast_req_def is_consensus_def request_configuration_def is_phase1b_def request_values_def
      announced_def)

lemma pair_vote_arrives [simp]:
  "arrives pair_config s a (Request (pair_vote i) r) \<longleftrightarrow> (a, pair_vote i) \<in> an_sent s"
  "command_over pair_universe (now, j, Request (pair_vote i) r)" "\<not> repeated_phase1b c s (a, now, j, Request (pair_vote i) r)"
  by (simp_all add: repeated_phase1b_def arrives_def command_over_def pair_universe_def)

lemma pair_command_facts [simp]:
  "arrives c s a pair_alerts" "command_over es (now, j, pair_alerts)"
  "arrives c s a pair_join" "command_over es (now, j, pair_join)" "announced en st pair_join = []"
  "\<not> repeated_phase1b c s (a, now, j, pair_alerts)" "\<not> repeated_phase1b c s (a, now, j, pair_join)"
  by (simp_all add: repeated_phase1b_def is_phase1b_def pair_alerts_def pair_join_def arrives_def is_consensus_def command_over_def request_values_def announced_def)

lemma pair_not_promised [simp]: "\<not> promised (fst (handle_command pair_env 10 0 (pair_member i) pair_join))"
proof -
  have p: "st_fast_paxos (pair_member i) = Some (fast_paxos_new (demo_ep i) pair_config (card pair_members) 300)"
    using pair_member_starts[of i] by (simp add: starts_in_def)
  have "consensus_call pair_env 0 (pair_member i) pair_join = None"
    by (simp add: consensus_call_def pair_join_def is_consensus_def announced_def split: option.split)
  then have "quiet (pair_member i) (fst (handle_command pair_env 10 0 (pair_member i) pair_join),
      fst (snd (handle_command pair_env 10 0 (pair_member i) pair_join)))"
    by (rule handle_command_quiet) (simp add: pair_join_def)
  then show ?thesis
    using p by (simp add: quiet_def promised_def fast_paxos_new_def paxos_new_def classic_rank_def Let_def)
qed

lemma pair_run:
  "\<exists>s st st' u u'. actors_run (\<lambda>_. pair_env) pair_universe pair_config pair_members (actors_init pair_start) pair_schedule = Some s \<and>
     an_left s (demo_ep 1) = Some (st, st') \<and> an_left s (demo_ep 2) = Some (u, u') \<and>
     (\<forall>n \<in> set pair_universe. joiner_ids u n = joiner_ids st n) \<and> list_ex is_join_answer (an_parting s (demo_ep 1)) \<and>
     an_actors s (demo_ep 1) = st' \<and> (demo_ep 1, pair_vote 1) \<in> an_consumed s \<and> (demo_ep 1, pair_vote 2) \<in> an_consumed s"
proof -
  have ne: "demo_ep 2 \<noteq> demo_ep 1" "demo_ep 1 \<noteq> demo_ep 2" by (simp_all add: demo_ep_def)
  let ?h = "handle_command pair_env 10 0"
  have i: "i = 1 \<or> i = 2 \<Longrightarrow> pair_summary i = (True, [False, False, False, True], [None, None, Some (demo_nid 4)], True)" for i
    using pair_summary1 pair_summary2 by blast
  let ?z = "\<lambda>i. ?h (pair_member i) pair_join"
  let ?r = "\<lambda>i. ?h (fst (?z i)) pair_alerts"
  let ?q = "\<lambda>i. ?h (fst (?r i)) (Request (pair_vote 1) 8)"
  let ?p = "\<lambda>i. ?h (fst (?q i)) (Request (pair_vote 2) 8)"
  have f: "BroadcastEffect (pair_vote i) \<in> set (fst (snd (?r i)))" "\<not> list_ex sets_membership (fst (snd (?z i)))"
    "\<not> list_ex sets_membership (fst (snd (?r i)))" "\<not> list_ex sets_membership (fst (snd (?q i)))"
    "list_ex sets_membership (fst (snd (?p i)))" "list_ex is_join_answer (fst (snd (?p i)))"
    "map (joiner_ids (fst (?q i))) pair_universe = [None, None, Some (demo_nid 4)]" if "i = 1 \<or> i = 2" for i
    using i[OF that] by (simp_all add: pair_summary_def pair_does_def Let_def pair_universe_def)
  have sent: "(b, pair_vote i) \<in> \<Union> (set (map (delivered pair_env pair_members) (fst (snd (?r i)))))"
    if "b \<in> pair_members" "i = 1 \<or> i = 2" for b i
    using f(1)[OF that(2)] that(1) by (force simp: delivered_def)
  have m: "demo_ep 1 \<in> pair_members" "demo_ep 2 \<in> pair_members" by (simp_all add: pair_members_def)
  have start: "pair_start (demo_ep 1) = pair_member 1" "pair_start (demo_ep 2) = pair_member 2"
    using ne by (simp_all add: pair_start_def)
  obtain s where s: "actors_run (\<lambda>_. pair_env) pair_universe pair_config pair_members (actors_init pair_start) pair_schedule = Some s"
    "an_left s (demo_ep 1) = Some (fst (?q 1), fst (?p 1))" "an_left s (demo_ep 2) = Some (fst (?q 2), fst (?p 2))"
    "an_parting s (demo_ep 1) = fst (snd (?p 1))" "an_actors s (demo_ep 1) = fst (?p 1)"
    "(demo_ep 1, pair_vote 1) \<in> an_consumed s" "(demo_ep 1, pair_vote 2) \<in> an_consumed s"
    using f[of 1] f[of 2] sent[OF m(1), of 1] sent[OF m(1), of 2] sent[OF m(2), of 1] sent[OF m(2), of 2] ne m start
    by (simp add: pair_schedule_def actor_apply_proj actors_init_def del: actor_apply.simps UN_iff Union_iff)
  have "map (joiner_ids (fst (?q 2))) pair_universe = map (joiner_ids (fst (?q 1))) pair_universe" using f(7) by simp
  then have "\<forall>n \<in> set pair_universe. joiner_ids (fst (?q 2)) n = joiner_ids (fst (?q 1)) n" by (simp add: map_eq_conv)
  moreover have "list_ex is_join_answer (an_parting s (demo_ep 1))" using f(6)[of 1] s(4) by simp
  ultimately show ?thesis using s(1-3,5-7) by blast
qed

lemma left_member: "actors_reachable en es c A st0 s \<Longrightarrow> an_left s a \<noteq> None \<Longrightarrow> a \<in> A"
proof (induction rule: actors_reachable.induct)
  case (actors_next s ev)
  then show ?case by (cases ev) (auto simp: actor_apply_proj simp del: actor_apply.simps split: if_splits)
qed (simp add: actors_init_def)

lemma pair_actors:
  obtains s st st' u u' where
    "actors_exec (\<lambda>_. pair_env) pair_universe pair_config pair_members (actors_init pair_start) pair_schedule = Some s"
    "never (actor_apply (\<lambda>_. pair_env) pair_members) (late_announcement (\<lambda>_. pair_env)) (actors_init pair_start) pair_schedule"
    "never (actor_apply (\<lambda>_. pair_env) pair_members) (repeated_phase1b pair_config) (actors_init pair_start) pair_schedule"
    "same_joiner_ids pair_universe pair_members s"
    "an_left s (demo_ep 1) = Some (st, st')" "an_left s (demo_ep 2) = Some (u, u')"
    "list_ex is_join_answer (an_parting s (demo_ep 1))"
proof -
  obtain s st st' u u' where s: "actors_run (\<lambda>_. pair_env) pair_universe pair_config pair_members (actors_init pair_start) pair_schedule = Some s"
    "an_left s (demo_ep 1) = Some (st, st')" "an_left s (demo_ep 2) = Some (u, u')"
    "\<forall>n \<in> set pair_universe. joiner_ids u n = joiner_ids st n" "list_ex is_join_answer (an_parting s (demo_ep 1))"
    using pair_run by blast
  have "\<forall>a b v v' w w'. an_left s a = Some (v, v') \<and> an_left s b = Some (w, w') \<longrightarrow>
      (\<forall>n \<in> set pair_universe. joiner_ids w n = joiner_ids v n)"
    using left_member[OF actors_run_reachable[OF actors_start s(1)]] s(2-4)
    by (auto simp: pair_members_def) (metis Pair_inject option.inject option.distinct(1))+
  then have "same_joiner_ids pair_universe pair_members s" by (simp add: same_joiner_ids_def)
  then show thesis using that[OF _ _ _ _ s(2,3,5)] s(1) unfolding actors_run_exec by blast
qed

lemma pair_starts:
  "\<forall>a \<in> pair_members. starts_in pair_env pair_universe 300 pair_config pair_members (set (map demo_nid [1, 2])) a (pair_start a)"
proof -
  have "demo_ep 2 \<noteq> demo_ep 1" by (simp add: demo_ep_def)
  then show ?thesis using pair_member_starts by (auto simp: pair_members_def pair_start_def)
qed

theorem actors_move_together_witness:
  "\<exists>s st st' u u' c' A' I'.
     actors_exec (\<lambda>_. pair_env) pair_universe pair_config pair_members (actors_init pair_start) pair_schedule = Some s \<and>
     an_left s (demo_ep 1) = Some (st, st') \<and> an_left s (demo_ep 2) = Some (u, u') \<and>
     starts_in pair_env pair_universe 300 c' A' I' (demo_ep 1) st' \<and> starts_in pair_env pair_universe 300 c' A' I' (demo_ep 2) u'"
proof (rule pair_actors)
  fix s st st' u u'
  assume s: "actors_exec (\<lambda>_. pair_env) pair_universe pair_config pair_members (actors_init pair_start) pair_schedule = Some s"
    "never (actor_apply (\<lambda>_. pair_env) pair_members) (late_announcement (\<lambda>_. pair_env)) (actors_init pair_start) pair_schedule"
    "never (actor_apply (\<lambda>_. pair_env) pair_members) (repeated_phase1b pair_config) (actors_init pair_start) pair_schedule"
    "same_joiner_ids pair_universe pair_members s"
    and l: "an_left s (demo_ep 1) = Some (st, st')" "an_left s (demo_ep 2) = Some (u, u')"
  show ?thesis using actors_move_together[OF s(1-3) pair_cluster_ok pair_starts s(4)] s(1) l by blast
qed

theorem joiner_starts_with_members_witness:
  "\<exists>s st st' u u' jr cl c' A' I'.
     actors_exec (\<lambda>_. pair_env) pair_universe pair_config pair_members (actors_init pair_start) pair_schedule = Some s \<and>
     an_left s (demo_ep 1) = Some (st, st') \<and> an_left s (demo_ep 2) = Some (u, u') \<and>
     builder_join pair_env id demo_builder (Inr jr) 7 (Inr ()) = Inr cl \<and>
     starts_in pair_env pair_universe 300 c' A' I' (cl_listen_endpoint cl) (cl_state cl) \<and>
     starts_in pair_env pair_universe 300 c' A' I' (demo_ep 1) st' \<and> starts_in pair_env pair_universe 300 c' A' I' (demo_ep 2) u'"
proof (rule pair_actors)
  fix s st st' u u'
  assume e: "actors_exec (\<lambda>_. pair_env) pair_universe pair_config pair_members (actors_init pair_start) pair_schedule = Some s"
    "never (actor_apply (\<lambda>_. pair_env) pair_members) (late_announcement (\<lambda>_. pair_env)) (actors_init pair_start) pair_schedule"
    "never (actor_apply (\<lambda>_. pair_env) pair_members) (repeated_phase1b pair_config) (actors_init pair_start) pair_schedule"
    and agree: "same_joiner_ids pair_universe pair_members s"
    and l: "an_left s (demo_ep 1) = Some (st, st')" "an_left s (demo_ep 2) = Some (u, u')"
    and "list_ex is_join_answer (an_parting s (demo_ep 1))"
  then obtain r jr where jr: "Reply r (Inr (RapidResponse (Some (JoinResponse jr)))) \<in> set (an_parting s (demo_ep 1))"
    by (auto simp: list_ex_iff elim!: is_join_answer.elims)
  obtain t where "actor_sim (\<lambda>_. pair_env) pair_universe pair_config pair_members pair_start s t"
    using actors_simulated[OF actors_exec_reachable[OF e] pair_cluster_ok pair_starts] by blast
  then have "same_view (st_view st) (st_view (pair_start (demo_ep 1)))"
    using l(1) by (auto simp: actor_sim_def left_by_def same_epoch_def)
  moreover have "mv_k (st_view (pair_start (demo_ep 1))) = 3"
    using pair_view_facts(4) by (simp add: pair_start_def pair_member_def install_fast_paxos_def with_broadcaster_def service_state_new_def
        reinstate_fast_paxos_def configuration_id_eq Let_def split_beta)
  ultimately have k: "mv_k (st_view st) = 3" by (simp add: same_view_def)
  have b: "se_k (cb_settings demo_builder) = mv_k (st_view st)" "se_paxos_fallback_base_delay (cb_settings demo_builder) = 300"
    "cut_new (se_k (cb_settings demo_builder)) (se_h (cb_settings demo_builder)) (se_l (cb_settings demo_builder)) = Inr demo_cut"
    using demo_cut_new by (simp_all add: k demo_builder_def with_settings_def settings_for_tests_def)
  show ?thesis using joiner_starts_with_members[OF e pair_cluster_ok pair_starts agree l(1) jr b, of id 7] e(1) l by blast
qed

end
