(* ===== verification/Progress.thy ===== *)
theory Progress
  imports Actors
begin

text \<open>
  Progress of the actors of one configuration, in the model of \<open>Actors\<close>: the tally of an actor is exact for the
  votes of its configuration that it has handled, so a member that has handled a fast quorum of equal votes has
  moved on, and a failure that all observers of a member report removes that member even when only a fast quorum of
  the members still runs.
\<close>

section \<open>What an actor has counted\<close>

definition votes_handled :: "i64 \<Rightarrow> actor_net \<Rightarrow> endpoint \<Rightarrow> vote set" where
  "votes_handled c s a = {m. (a, RapidRequest (Some (FastRoundPhase2bMessage m))) \<in> an_consumed s \<and> fr_configuration_id m = c}"

definition tally_current :: "vote set \<Rightarrow> fast_paxos \<Rightarrow> bool" where
  "tally_current M fp \<longleftrightarrow> \<not> fp_decided fp \<and>
     (\<exists>past. votes_exact fp past \<and> distinct (map fr_sender past) \<and> set past = M)"

definition counting :: "i64 \<Rightarrow> endpoint set \<Rightarrow> actor_net \<Rightarrow> bool" where
  "counting c A s \<longleftrightarrow> (\<forall>a \<in> A. (\<lambda>m. (a, RapidRequest (Some (FastRoundPhase2bMessage m)))) ` votes_handled c s a \<subseteq> an_sent s \<and>
     (an_left s a = None \<and> st_lifecycle (an_actors s a) \<noteq> ShuttingDown \<longrightarrow>
        (\<exists>fp. st_fast_paxos (an_actors s a) = Some fp \<and> tally_current (votes_handled c s a) fp)))"

lemma tally_current_cong:
  assumes "tally_current M fp" "fp_votes_received fp' = fp_votes_received fp" "fp_votes_per_proposal fp' = fp_votes_per_proposal fp"
    "fp_membership_size fp' = fp_membership_size fp" "fp_configuration_id fp' = fp_configuration_id fp" "\<not> fp_decided fp'"
  shows "tally_current M fp'"
  using assms unfolding tally_current_def votes_exact_def by auto

lemma dispatch_frame:
  assumes "decided_values outs = []"
  shows "st_lifecycle (fst (dispatch en st outs)) = st_lifecycle st \<and> st_joiner_uuid (fst (dispatch en st outs)) = st_joiner_uuid st"
  using assms
proof (induction outs arbitrary: st)
  case (Cons out outs)
  then show ?case
    by (cases out) (auto simp: dispatch_one_def spawn_fallback_def Let_def split_beta)
qed simp

lemma shutdown_kept:
  assumes "st_lifecycle st = ShuttingDown" "\<And>p r. cmd \<noteq> ApplyProposal p r"
  shows "st_lifecycle (fst (handle_command en now j st cmd)) = ShuttingDown"
proof (cases cmd)
  case (Request req reply)
  then show ?thesis using assms(1) by (simp add: handle_command_def handle_request_def)
next
  case StartClassicRound
  then show ?thesis
    using assms(1) dispatch_frame[OF consensus_outs(2)]
    by (simp add: handle_command_def start_classic_def Let_def split_beta split: option.split)
qed (use assms in \<open>auto simp: handle_command_def handle_tick_def handle_edge_failure_def enqueue_alert_def rebuild_def
    publish_initial_view_def cancel_failure_detectors_def configuration_id_eq Let_def split_beta split: option.split sum.split\<close>)

text \<open>A command that does not make the actor leave hands its instance's new state on.\<close>

lemma call_stays:
  assumes "consensus_call en j st cmd = Some (st1, fp, outs)" "st_broadcaster st"
    and "\<not> list_ex sets_membership (fst (snd (handle_command en now j st cmd)))"
  shows "decided_values outs = []" "st_fast_paxos (fst (handle_command en now j st cmd)) = Some fp"
proof -
  obtain pre post where h: "fst (handle_command en now j st cmd) = fst (dispatch en (st1\<lparr>st_fast_paxos := Some fp\<rparr>) outs)"
    "fst (snd (handle_command en now j st cmd)) = pre @ snd (dispatch en (st1\<lparr>st_fast_paxos := Some fp\<rparr>) outs) @ post"
    using handle_command_call(2)[OF assms(1), of now] by blast
  show o: "decided_values outs = []"
  proof (cases rule: consensus_call_cases[OF assms(1)])
    case (2 fp0 req reply)
    then consider "decided_values outs = []" | "outs = [FastDecision (request_values req)]" using message_outs by metis
    then show ?thesis
    proof cases
      case 2
      have "st_broadcaster (st1\<lparr>st_fast_paxos := Some fp\<rparr>)"
        using handle_command_call(1)[OF assms(1)] assms(2) by (simp add: quiet_def same_epoch_def)
      then have "list_ex sets_membership (snd (dispatch en (st1\<lparr>st_fast_paxos := Some fp\<rparr>) outs))"
        using decide_view_change_quiet(2)[of en "st1\<lparr>st_fast_paxos := Some fp\<rparr>" "request_values req"]
        by (simp add: 2 dispatch_one_def Let_def split_beta)
      then show ?thesis using assms(3) h(2) by simp
    qed
  qed (use consensus_outs in auto)
  show "st_fast_paxos (fst (handle_command en now j st cmd)) = Some fp"
    using dispatch_undecided(2)[OF o, of en "st1\<lparr>st_fast_paxos := Some fp\<rparr>"] h(1) by simp
qed

lemma message_undecided:
  assumes "\<not> fp_decided fp" "decided_synced fp" "decided_values (snd (handle_consensus_message fp r)) = []"
  shows "\<not> fp_decided (fst (handle_consensus_message fp r))"
proof (cases "req_content r")
  case (Some content)
  have p: "\<not> px_decided (fp_paxos fp)" using assms(1,2) by (simp add: decided_synced_def)
  have "\<not> fp_decided (fst (handle_paxos fp r'))" if "\<not> px_decided (fst r')" for r'
    using assms(1) that by (simp add: handle_paxos_def Let_def)
  then show ?thesis using Some assms p
    by (cases content)
      (auto simp: handle_consensus_message_def handle_fast_round_proposal_def handle_phase1a_def handle_phase1b_def
        handle_phase2a_def handle_phase2b_def handle_paxos_def Let_def split: option.splits if_splits)
qed (use assms in \<open>simp add: handle_consensus_message_def\<close>)

lemma fast_vote_unique:
  assumes "net_reachable x c delay A t" "cluster_ok x en A" "fast_req c b v \<in> said t" "fast_req c b w \<in> said t"
  shows "v = w"
proof -
  have A: "finite A" "A \<noteq> {}" "inj_on (stable_node_index x) A" using assms(2) by (simp_all add: cluster_ok_def)
  have "voting_inv A (abs_net c t)"
    using net_reachable_inv[OF assms(1) A] voting_reachable_inv A(1) unfolding net_inv_def by blast
  then have "\<And>a r v w. (a, r, v) \<in> votes_in c (said t) \<Longrightarrow> (a, r, w) \<in> votes_in c (said t) \<Longrightarrow> v = w"
    unfolding voting_inv_def votes_ok_def abs_net_simps by blast
  moreover have "(b, fast_rank, v) \<in> votes_in c (said t)" "(b, fast_rank, w) \<in> votes_in c (said t)"
    using assms(3,4) by (simp_all add: votes_in_def)
  ultimately show ?thesis by blast
qed

text \<open>Counting one more vote that was sent: a repetition changes nothing, a new one comes from a sender not counted yet.\<close>

lemma tally_current_vote:
  assumes "tally_current M fp" "\<not> fp_decided (count_vote fp m)" "fr_sender m \<noteq> None"
    and uniq: "\<And>m'. m' \<in> M \<Longrightarrow> fr_sender m' = fr_sender m \<Longrightarrow> m' = m" and c: "fr_configuration_id m = fp_configuration_id fp"
  shows "tally_current (insert m M) (count_vote fp m)"
proof -
  obtain past where past: "votes_exact fp past" "distinct (map fr_sender past)" "set past = M" "\<not> fp_decided fp"
    using assms(1) unfolding tally_current_def by blast
  obtain b where b: "fr_sender m = Some b" using assms(3) by blast
  show ?thesis
  proof (cases "m \<in> M")
    case True
    then have "b \<in> voters (fp_configuration_id fp) past (fr_endpoints m)" using past(3) b c by (auto simp: voters_def)
    then have "endpoint_key_of b |\<in>| fp_votes_received fp" using past(1) unfolding votes_exact_def by auto
    then have "handle_fast_round_proposal fp m = (fp, [])" using b by (intro not_counted) (auto simp: Fast_Paxos.counted_def)
    then show ?thesis using assms(1) True by (simp add: count_vote_def insert_absorb)
  next
    case False
    then have new: "fr_sender m \<notin> fr_sender ` set past" using uniq past(3) by force
    have "votes_exact (count_vote fp m) (past @ [m])" by (rule votes_exact_step[OF past(1,4) new assms(3,2)])
    moreover have "distinct (map fr_sender (past @ [m]))" using past(2) new by auto
    ultimately show ?thesis using past(3) assms(2) unfolding tally_current_def by (intro conjI exI[of _ "past @ [m]"]) auto
  qed
qed

lemma votes_handled_apply:
  "votes_handled c (actor_apply en A s (a, now, j, cmd)) b =
     votes_handled c s b \<union> {m. b = a \<and> (\<exists>r. cmd = Request (RapidRequest (Some (FastRoundPhase2bMessage m))) r) \<and> fr_configuration_id m = c}"
  by (auto simp: votes_handled_def Let_def split_beta split: service_command.splits)

lemma tally_current_message:
  assumes "tally_current M fp" "decided_synced fp" "decided_values (snd (handle_consensus_message fp req)) = []"
    and "\<And>m. req = RapidRequest (Some (FastRoundPhase2bMessage m)) \<Longrightarrow> fr_configuration_id m = fp_configuration_id fp \<Longrightarrow>
      fr_sender m \<noteq> None \<and> (\<forall>m' \<in> M. fr_sender m' = fr_sender m \<longrightarrow> m' = m)"
  shows "tally_current (M \<union> {m. req = RapidRequest (Some (FastRoundPhase2bMessage m)) \<and> fr_configuration_id m = fp_configuration_id fp})
    (fst (handle_consensus_message fp req))"
proof (cases "\<exists>m. req = RapidRequest (Some (FastRoundPhase2bMessage m)) \<and> fr_configuration_id m = fp_configuration_id fp")
  case True
  then obtain m where m: "req = RapidRequest (Some (FastRoundPhase2bMessage m))" "fr_configuration_id m = fp_configuration_id fp" by blast
  have u: "\<not> fp_decided (fst (handle_consensus_message fp req))"
    using message_undecided[OF _ assms(2,3)] assms(1) by (simp add: tally_current_def)
  have h: "fst (handle_consensus_message fp req) = count_vote fp m" by (simp add: m handle_consensus_message_def count_vote_def)
  have "M \<union> {m. req = RapidRequest (Some (FastRoundPhase2bMessage m)) \<and> fr_configuration_id m = fp_configuration_id fp} = insert m M"
    using m by auto
  then show ?thesis using tally_current_vote[OF assms(1), of m] assms(4)[OF m] u m(2) unfolding h by auto
next
  case False
  let ?f = "fst (handle_consensus_message fp req)"
  have u: "\<not> fp_decided ?f" using message_undecided[OF _ assms(2,3)] assms(1) by (simp add: tally_current_def)
  have "fp_votes_received ?f = fp_votes_received fp \<and> fp_votes_per_proposal ?f = fp_votes_per_proposal fp \<and>
      fp_membership_size ?f = fp_membership_size fp \<and> fp_configuration_id ?f = fp_configuration_id fp"
  proof (cases req)
    case (RapidRequest content)
    then show ?thesis using False
      by (auto simp: handle_consensus_message_def handle_paxos_def handle_fast_round_proposal_def Let_def
          split: option.split request_content.split)
  qed
  moreover have "{m. req = RapidRequest (Some (FastRoundPhase2bMessage m)) \<and> fr_configuration_id m = fp_configuration_id fp} = {}"
    using False by blast
  moreover have "tally_current M ?f" using calculation tally_current_cong[OF assms(1), of ?f] u by blast
  ultimately show ?thesis by (simp only: Un_empty_right)
qed

lemma call_keeps_tally:
  assumes "tally_current M fp"
  shows "tally_current M (fst (start_classic_round x fp))" "tally_current M (fst (propose j fp p))"
proof -
  have "\<not> fp_decided fp" using assms by (simp add: tally_current_def)
  then show "tally_current M (fst (start_classic_round x fp))" "tally_current M (fst (propose j fp p))"
    by (auto intro!: tally_current_cong[OF assms] simp: start_classic_round_def start_phase1a_def propose_def Let_def)
qed

lemma counting_call:
  assumes call: "consensus_call en j st cmd = Some (st1, fp', outs)" and st: "st_fast_paxos st = Some fp" "st_broadcaster st"
    and tally: "tally_current M fp" "decided_synced fp" "fp_configuration_id fp = c"
    and stays: "\<not> list_ex sets_membership (fst (snd (handle_command en now j st cmd)))"
    and votes: "\<And>m r. cmd = Request (RapidRequest (Some (FastRoundPhase2bMessage m))) r \<Longrightarrow> fr_configuration_id m = c \<Longrightarrow>
      fr_sender m \<noteq> None \<and> (\<forall>m' \<in> M. fr_sender m' = fr_sender m \<longrightarrow> m' = m)"
  shows "tally_current (M \<union> {m. (\<exists>r. cmd = Request (RapidRequest (Some (FastRoundPhase2bMessage m))) r) \<and> fr_configuration_id m = c}) fp'"
proof (cases rule: consensus_call_cases[OF call])
  case (1 fp0)
  then show ?thesis using st(1) call_keeps_tally(1)[OF tally(1)] by auto
next
  case (2 fp0 req reply)
  have "decided_values (snd (handle_consensus_message fp req)) = []" using call_stays(1)[OF call st(2) stays] 2 st(1) by simp
  from tally_current_message[OF tally(1,2) this] show ?thesis using 2 st(1) tally(3) votes by auto
next
  case (3 fp0 m reply)
  then show ?thesis using st(1) call_keeps_tally(2)[OF tally(1)] by auto
qed

lemma no_call:
  assumes "consensus_call en j st cmd = None" "st_fast_paxos st = Some fp" "st_lifecycle st \<noteq> ShuttingDown"
  shows "cmd \<noteq> Request (RapidRequest (Some (FastRoundPhase2bMessage m))) r"
  using assms by (auto simp: consensus_call_def is_consensus_def)

lemma sent_vote_facts:
  assumes "net_reachable x c delay A t" "cluster_ok x en A" "(b, RapidRequest (Some (FastRoundPhase2bMessage m))) \<in> cn_sent t"
  shows "fr_sender m \<noteq> None"
    "(b', RapidRequest (Some (FastRoundPhase2bMessage m'))) \<in> cn_sent t \<Longrightarrow> fr_sender m' = fr_sender m \<Longrightarrow> m' = m"
proof -
  have wf: "said t \<subseteq> wf_reqs x c A"
    using net_reachable_inv[OF assms(1)] assms(2) by (auto simp: net_inv_def cluster_ok_def)
  have shape: "\<exists>a. m = \<lparr>fr_sender = Some a, fr_configuration_id = c, fr_endpoints = fr_endpoints m\<rparr> \<and> fast_req c a (fr_endpoints m) \<in> said t"
    if "(b, RapidRequest (Some (FastRoundPhase2bMessage m))) \<in> cn_sent t" for b m
  proof -
    have "RapidRequest (Some (FastRoundPhase2bMessage m)) \<in> said t" using that by (force simp: said_def)
    then show ?thesis using wf by (auto simp: wf_reqs_def req_defs)
  qed
  obtain a where a: "m = \<lparr>fr_sender = Some a, fr_configuration_id = c, fr_endpoints = fr_endpoints m\<rparr>" "fast_req c a (fr_endpoints m) \<in> said t"
    using shape[OF assms(3)] by blast
  then show "fr_sender m \<noteq> None" by (metis fast_round_phase2b_message.select_convs(1) option.distinct(1))
  assume m': "(b', RapidRequest (Some (FastRoundPhase2bMessage m'))) \<in> cn_sent t" "fr_sender m' = fr_sender m"
  obtain a' where a': "m' = \<lparr>fr_sender = Some a', fr_configuration_id = c, fr_endpoints = fr_endpoints m'\<rparr>" "fast_req c a' (fr_endpoints m') \<in> said t"
    using shape[OF m'(1)] by blast
  have "a' = a" using a(1) a'(1) m'(2) by (metis fast_round_phase2b_message.select_convs(1) option.inject)
  then show "m' = m" using fast_vote_unique[OF assms(1,2) a(2)] a a' by metis
qed

lemma counting_next:
  assumes cnt: "counting c A s" and sim: "actor_sim en es c A st0 s t" and net: "net_reachable x c delay A t" and ok: "cluster_ok x en A"
    and st0: "\<forall>a \<in> A. st_broadcaster (st0 a)" and en: "actor_enabled en es c A s (a, now, j, cmd)"
  shows "counting c A (actor_apply en A s (a, now, j, cmd))"
proof -
  let ?s = "actor_apply en A s (a, now, j, cmd)" let ?st = "an_actors s a" let ?h = "handle_command (en a) now j ?st cmd"
  let ?new = "{m. (\<exists>r. cmd = Request (RapidRequest (Some (FastRoundPhase2bMessage m))) r) \<and> fr_configuration_id m = c}"
  have a: "a \<in> A" "an_left s a = None" "\<And>p r. cmd \<noteq> ApplyProposal p r" using en by (auto simp: arrives_def)
  have new: "(a, RapidRequest (Some (FastRoundPhase2bMessage m))) \<in> an_sent s" if "m \<in> ?new" for m
    using en that by (auto simp: arrives_def is_consensus_def request_configuration_def split: if_splits)
  have sent: "(\<lambda>m. (b, RapidRequest (Some (FastRoundPhase2bMessage m)))) ` votes_handled c ?s b \<subseteq> an_sent ?s" if "b \<in> A" for b
    using cnt new that unfolding votes_handled_apply actor_apply_proj counting_def by auto
  have st: "st_fast_paxos ?st = Some (cn_nodes t a)" "st_broadcaster ?st"
    using sim a st0 by (auto simp: actor_sim_def same_epoch_def)
  have node: "fp_configuration_id (cn_nodes t a) = c"
    using net_reachable_inv[OF net] ok a(1) by (auto simp: net_inv_def node_inv_def node_static_def cluster_ok_def)
  have sub: "an_sent s \<subseteq> cn_sent t" using sim by (simp add: actor_sim_def)
  have votes: "fr_sender m \<noteq> None \<and> (\<forall>m' \<in> votes_handled c s a. fr_sender m' = fr_sender m \<longrightarrow> m' = m)" if m: "m \<in> ?new" for m
  proof -
    have "(a, RapidRequest (Some (FastRoundPhase2bMessage m'))) \<in> an_sent s" if "m' \<in> votes_handled c s a" for m'
      using cnt a(1) that unfolding counting_def by blast
    then show ?thesis using sent_vote_facts[OF net ok] new[OF m] sub by blast
  qed
  have self: "\<exists>fp. st_fast_paxos (an_actors ?s a) = Some fp \<and> tally_current (votes_handled c ?s a) fp"
    if left: "an_left ?s a = None" and run: "st_lifecycle (an_actors ?s a) \<noteq> ShuttingDown"
  proof -
    have stays: "\<not> list_ex sets_membership (fst (snd ?h))" using left by (simp add: actor_apply_proj del: actor_apply.simps split: if_splits)
    have "st_lifecycle ?st \<noteq> ShuttingDown" using run shutdown_kept[OF _ a(3)] by (auto simp: actor_apply_proj simp del: actor_apply.simps)
    then have tally: "tally_current (votes_handled c s a) (cn_nodes t a)" using cnt a st(1) unfolding counting_def by auto
    have v: "votes_handled c ?s a = votes_handled c s a \<union> ?new" unfolding votes_handled_apply by auto
    show ?thesis
    proof (cases "consensus_call (en a) j ?st cmd")
      case None
      then have "?new = {}" using no_call[OF None st(1) \<open>st_lifecycle ?st \<noteq> ShuttingDown\<close>] by auto
      moreover have "st_fast_paxos (fst ?h) = st_fast_paxos ?st" using handle_command_quiet[OF None a(3)] by (simp add: quiet_def)
      moreover have "votes_handled c ?s a = votes_handled c s a" unfolding v calculation(1) by (rule Un_empty_right)
      ultimately show ?thesis using tally st(1) by (simp add: actor_apply_proj del: actor_apply.simps)
    next
      case (Some r)
      then obtain st1 fp' outs where call: "consensus_call (en a) j ?st cmd = Some (st1, fp', outs)" by (cases r) auto
      have "tally_current (votes_handled c s a \<union> ?new) fp'"
        by (rule counting_call[OF call st tally net_decided_synced[OF net] node stays]) (use votes in blast)
      then show ?thesis unfolding v using call_stays(2)[OF call st(2) stays] by (simp add: actor_apply_proj del: actor_apply.simps)
    qed
  qed
  have "\<exists>fp. st_fast_paxos (an_actors ?s b) = Some fp \<and> tally_current (votes_handled c ?s b) fp"
    if "b \<in> A" "b \<noteq> a" "an_left ?s b = None" "st_lifecycle (an_actors ?s b) \<noteq> ShuttingDown" for b
  proof -
    have "an_left s b = None" "an_actors ?s b = an_actors s b" "votes_handled c ?s b = votes_handled c s b"
      using that by (auto simp: actor_apply_proj votes_handled_apply simp del: actor_apply.simps split: if_splits)
    then show ?thesis using cnt that unfolding counting_def by metis
  qed
  then show ?thesis using self sent unfolding counting_def by (intro ballI conjI impI) metis+
qed

lemma actors_counting:
  assumes "actors_reachable en es c A st0 s" "cluster_ok x en A" "\<forall>a \<in> A. starts_in (en a) es delay c A I a (st0 a)"
  shows "counting c A s"
  using assms(1)
proof (induction rule: actors_reachable.induct)
  case actors_start
  have A: "finite A" "A \<noteq> {}" using assms(2) by (simp_all add: cluster_ok_def)
  have q: "0 < fast_quorum (card A)" using A qs.fast_fast[of "card A"] by (simp add: card_gt_0_iff)
  have "votes_exact (fast_paxos_new a c (card A) delay) []" for a
    using q by (simp add: votes_exact_def fast_paxos_new_def fm_get_or_def voters_def)
  then have "tally_current {} (fast_paxos_new a c (card A) delay)" for a
    unfolding tally_current_def by (intro conjI exI[of _ "[]"]) (simp_all add: fast_paxos_new_def)
  then show ?case using assms(3) by (simp add: counting_def actors_init_def votes_handled_def starts_in_def)
next
  case (actors_next s ev)
  obtain t where "net_reachable x c delay A t" "actor_sim en es c A st0 s t" using actors_simulated[OF actors_next(1) assms(2,3)] by blast
  moreover have "\<forall>a \<in> A. st_broadcaster (st0 a)" using assms(3) by (simp add: starts_in_def)
  ultimately show ?case using counting_next[OF actors_next(3) _ _ assms(2)] actors_next(2) by (cases ev) blast
qed

lemma quorum_handled_leaves:
  assumes "actors_reachable en es c A st0 s" "cluster_ok x en A" "\<forall>a \<in> A. starts_in (en a) es delay c A I a (st0 a)"
    and "a \<in> A" "st_lifecycle (an_actors s a) \<noteq> ShuttingDown" "fast_quorum (card A) \<le> card Q"
    and "\<forall>b \<in> Q. (a, fast_req c b p) \<in> an_consumed s"
  shows "an_left s a \<noteq> None"
proof
  assume l: "an_left s a = None"
  obtain fp where fp: "st_fast_paxos (an_actors s a) = Some fp" "tally_current (votes_handled c s a) fp"
    using actors_counting[OF assms(1-3)] assms(4,5) l unfolding counting_def by blast
  obtain t where t: "net_reachable x c delay A t" "actor_sim en es c A st0 s t" using actors_simulated[OF assms(1-3)] by blast
  have "st_fast_paxos (an_actors s a) = Some (cn_nodes t a)" using t(2) assms(4) l by (simp add: actor_sim_def)
  then have n: "fp_configuration_id fp = c" "fp_membership_size fp = card A"
    using net_reachable_inv[OF t(1)] assms(2,4) fp(1) by (auto simp: net_inv_def node_inv_def node_static_def cluster_ok_def)
  obtain past where past: "votes_exact fp past" "set past = votes_handled c s a" using fp(2) unfolding tally_current_def by blast
  have "Q \<subseteq> voters c past p"
    unfolding voters_def past(2) votes_handled_def using assms(7) by (auto simp: fast_req_def intro!: exI)
  then have "card Q \<le> card (voters c past p)" by (intro card_mono) auto
  moreover have "card (voters c past p) < fast_quorum (card A)" using past(1) n unfolding votes_exact_def by auto
  ultimately show False using assms(6) by simp
qed

section \<open>Outstanding votes\<close>

definition outstanding :: "i64 \<Rightarrow> endpoint set \<Rightarrow> endpoint list \<Rightarrow> actor_net \<Rightarrow> (endpoint \<times> endpoint) set" where
  "outstanding c Q p s = {(a, b) \<in> Q \<times> Q. an_left s a = None \<and> (a, fast_req c b p) \<notin> an_consumed s}"

lemma fast_req_facts [simp]:
  "is_consensus (fast_req c b p)" "request_configuration (fast_req c b p) = Some c" "\<not> is_phase1b (fast_req c b p)"
  "request_values (fast_req c b p) = p" "announced en st (Request (fast_req c b p) r) = []"
  by (simp_all add: fast_req_def is_consensus_def request_configuration_def is_phase1b_def request_values_def announced_def)

lemma vote_frame:
  assumes "st_fast_paxos st = Some fp" "st_broadcaster st" "st_lifecycle st \<noteq> ShuttingDown"
    "\<not> list_ex sets_membership (fst (snd (handle_command en now j st (Request (fast_req c b p) r))))"
  shows "st_lifecycle (fst (handle_command en now j st (Request (fast_req c b p) r))) = st_lifecycle st"
    "st_joiner_uuid (fst (handle_command en now j st (Request (fast_req c b p) r))) = st_joiner_uuid st"
proof -
  obtain fp' outs where call: "consensus_call en j st (Request (fast_req c b p) r) = Some (st, fp', outs)"
    using assms(1,3) by (cases "handle_consensus_message fp (fast_req c b p)") (simp add: consensus_call_def)
  obtain pre post where "fst (handle_command en now j st (Request (fast_req c b p) r)) = fst (dispatch en (st\<lparr>st_fast_paxos := Some fp'\<rparr>) outs)"
    using handle_command_call(2)[OF call, of now] by blast
  then show "st_lifecycle (fst (handle_command en now j st (Request (fast_req c b p) r))) = st_lifecycle st"
    "st_joiner_uuid (fst (handle_command en now j st (Request (fast_req c b p) r))) = st_joiner_uuid st"
    using dispatch_frame[OF call_stays(1)[OF call assms(2,4)], of en "st\<lparr>st_fast_paxos := Some fp'\<rparr>"] by simp_all
qed

lemma votes_can_arrive:
  assumes "actors_reachable en es c A st0 s" "cluster_ok x en A" "\<forall>a \<in> A. starts_in (en a) es delay c A I a (st0 a)"
    and "Q \<subseteq> A" "fast_quorum (card A) \<le> card Q" "set p \<subseteq> set es"
    and "\<forall>a \<in> Q. \<forall>b \<in> Q. (a, fast_req c b p) \<in> an_sent s"
    and "\<forall>a \<in> Q. an_left s a = None \<longrightarrow> st_lifecycle (an_actors s a) \<noteq> ShuttingDown"
  shows "\<exists>evs t. actors_run en es c A s evs = Some t \<and> set evs \<subseteq> (\<lambda>(a, b). (a, now, 0, Request (fast_req c b p) 0)) ` (Q \<times> Q) \<and> (\<forall>a \<in> Q. an_left t a \<noteq> None) \<and>
    (\<forall>a. an_left s a = None \<longrightarrow> (\<forall>st st'. an_left t a = Some (st, st') \<longrightarrow> st_joiner_uuid st = st_joiner_uuid (an_actors s a))) \<and>
    (\<forall>a l. an_left s a = Some l \<longrightarrow> an_left t a = Some l)"
  using assms(1,7,8)
proof (induction "card (outstanding c Q p s)" arbitrary: s rule: less_induct)
  case less
  show ?case
  proof (cases "\<forall>a \<in> Q. an_left s a \<noteq> None")
    case True
    then show ?thesis by (intro exI[of _ "[]"] exI[of _ s]) simp
  next
    case False
    then obtain a where a: "a \<in> Q" "an_left s a = None" by blast
    then obtain b where b: "b \<in> Q" "(a, fast_req c b p) \<notin> an_consumed s"
      using quorum_handled_leaves[OF less.prems(1) assms(2,3) _ _ assms(5)] assms(4) less.prems(3) by blast
    let ?cmd = "Request (fast_req c b p) 0" let ?ev = "(a, now, 0, ?cmd)" let ?s = "actor_apply en A s ?ev"
    have en: "actor_enabled en es c A s ?ev"
      using a b assms(4,6) less.prems(2) by (auto simp: arrives_def command_over_def repeated_phase1b_def)
    have r: "actors_reachable en es c A st0 ?s" by (rule actors_next[OF less.prems(1) en])
    have c: "an_consumed ?s = insert (a, fast_req c b p) (an_consumed s)" by (simp add: Let_def split_beta)
    have l: "an_left ?s a' = None \<Longrightarrow> an_left s a' = None" for a'
      by (auto simp: actor_apply_proj simp del: actor_apply.simps split: if_splits)
    have "outstanding c Q p ?s \<subseteq> outstanding c Q p s" "(a, b) \<in> outstanding c Q p s - outstanding c Q p ?s"
      using l a b by (auto simp: outstanding_def c simp del: actor_apply.simps)
    moreover have "finite Q" using assms(2,4) finite_subset by (auto simp: cluster_ok_def)
    then have "finite (outstanding c Q p s)" by (auto simp: outstanding_def intro: finite_subset[of _ "Q \<times> Q"])
    ultimately have "card (outstanding c Q p ?s) < card (outstanding c Q p s)" by (intro psubset_card_mono) blast+
    moreover have "\<forall>a \<in> Q. \<forall>b \<in> Q. (a, fast_req c b p) \<in> an_sent ?s"
      using less.prems(2) by (simp add: actor_apply_proj del: actor_apply.simps)
    moreover obtain t' where "actor_sim en es c A st0 s t'" using actors_simulated[OF less.prems(1) assms(2,3)] by blast
    then have "st_fast_paxos (an_actors s a) = Some (cn_nodes t' a)" "st_broadcaster (an_actors s a)"
      using a assms(3,4) by (auto simp: actor_sim_def same_epoch_def starts_in_def)
    note frame = vote_frame[OF this, of "en a" now 0]
    have "\<forall>a' \<in> Q. an_left ?s a' = None \<longrightarrow> st_lifecycle (an_actors ?s a') \<noteq> ShuttingDown"
      using frame(1) less.prems(3) l by (auto simp: actor_apply_proj simp del: actor_apply.simps split: if_splits)
    ultimately obtain evs t where t: "actors_run en es c A ?s evs = Some t" "set evs \<subseteq> (\<lambda>(a, b). (a, now, 0, Request (fast_req c b p) 0)) ` (Q \<times> Q)" "\<forall>a \<in> Q. an_left t a \<noteq> None"
      "\<forall>a. an_left ?s a = None \<longrightarrow> (\<forall>st st'. an_left t a = Some (st, st') \<longrightarrow> st_joiner_uuid st = st_joiner_uuid (an_actors ?s a))"
      "\<forall>a l. an_left ?s a = Some l \<longrightarrow> an_left t a = Some l"
      using less.hyps[OF _ r] by blast
    have "st_joiner_uuid st = st_joiner_uuid (an_actors s a')" if "an_left s a' = None" "an_left t a' = Some (st, st')" for a' st st'
    proof (cases "an_left ?s a' = None")
      case True
      then show ?thesis using t(4) that frame(2) less.prems(3) a
        by (auto simp: actor_apply_proj simp del: actor_apply.simps split: if_splits)
    next
      case False
      then have "a' = a" "an_left ?s a' = Some (an_actors s a', an_actors ?s a')"
        using that(1) by (auto simp: actor_apply_proj simp del: actor_apply.simps split: if_splits)
      then show ?thesis using t(5) that(2) by fastforce
    qed
    moreover have "an_left t a' = Some q" if "an_left s a' = Some q" for a' q
    proof -
      have "an_left ?s a' = Some q" using that a(2) by (auto simp: actor_apply_proj simp del: actor_apply.simps)
      then show ?thesis using t(5) by blast
    qed
    moreover have "actors_run en es c A s (?ev # evs) = Some t" using en t(1) by (simp del: actor_apply.simps actor_enabled_eq)
    moreover have "set (?ev # evs) \<subseteq> (\<lambda>(a, b). (a, now, 0, Request (fast_req c b p) 0)) ` (Q \<times> Q)" using a(1) b(1) t(2) by auto
    ultimately show ?thesis using t(3) by blast
  qed
qed

section \<open>The decision is the value of the quorum\<close>

lemma quorum_fixes_decision:
  assumes "net_reachable x c delay A t" "cluster_ok x en A" "fast_quorum (card A) \<le> card Q"
    and "\<forall>b \<in> Q. fast_req c b p \<in> said t" "(a, v) \<in> cn_decisions t"
  shows "v = p"
proof -
  have A: "finite A" "A \<noteq> {}" "inj_on (stable_node_index x) A" using assms(2) by (simp_all add: cluster_ok_def)
  note inv = net_reachable_inv[OF assms(1) A]
  then have vi: "voting_inv A (abs_net c t)" using voting_reachable_inv A(1) unfolding net_inv_def by blast
  have "voters_of (abs_net c t) fast_rank p \<subseteq> A" using vi unfolding voting_inv_def votes_ok_def voters_of_def by blast
  moreover have "Q \<subseteq> voters_of (abs_net c t) fast_rank p" using assms(4) by (auto simp: voters_of_def votes_in_def)
  ultimately have "card Q \<le> card (voters_of (abs_net c t) fast_rank p)" using A(1) by (intro card_mono) (auto intro: finite_subset)
  then have "chosen A (abs_net c t) fast_rank p" using assms(3) by (simp add: chosen_def quorum_size_def)
  moreover obtain r where "chosen A (abs_net c t) r v" using inv assms(5) unfolding net_inv_def by blast
  ultimately show ?thesis using voting_agreement[OF A(1,2) vi] by blast
qed

lemma quorum_next_configuration:
  assumes "actors_reachable en es c A st0 s" "cluster_ok x en A" "\<forall>a \<in> A. starts_in (en a) es delay c A I a (st0 a)"
    and "fast_quorum (card A) \<le> card Q" "\<forall>b \<in> Q. \<exists>a. (a, fast_req c b p) \<in> an_sent s" "an_left s a = Some (st, st')"
  shows "\<exists>u. view_inv x u \<and> configuration_of u = fold (next_configuration (joiner_ids st)) p (A, I) \<and>
    starts_in (en a) es delay (true_configuration_id x u) (members u) (identifiers_seen u) a st'"
proof -
  obtain t where t: "net_reachable x c delay A t" "actor_sim en es c A st0 s t" using actors_simulated[OF assms(1-3)] by blast
  have "an_sent s \<subseteq> cn_sent t" using t(2) by (simp add: actor_sim_def)
  then have "\<forall>b \<in> Q. fast_req c b p \<in> said t" using assms(5) unfolding said_def by force
  then have v: "v = p" if "(b, v) \<in> cn_decisions t" for b v using quorum_fixes_decision[OF t(1) assms(2,4) _ that] by blast
  have l: "a \<in> A" "left_by (en a) es t a (an_parting s a) (st0 a) st st'" using t(2) assms(6) by (simp_all add: actor_sim_def)
  then obtain w where "(a, w) \<in> cn_decisions t" by (auto simp: left_by_def)
  then have "(a, p) \<in> cn_decisions t" using v by metis
  moreover have "finite A" "A \<noteq> {}" "inj_on (stable_node_index x) A" using assms(2) by (simp_all add: cluster_ok_def)
  ultimately obtain b where "fast_req c b p \<in> said t" using network_validity[OF t(1)] by blast
  then have "distinct p" using t(2) by (simp add: actor_sim_def)
  moreover have "starts_in (en a) es delay c A I a (st0 a)" "en_xxh64 (en a) = x" using l(1) assms(2,3) by (auto simp: cluster_ok_def)
  ultimately show ?thesis using left_starts[OF l(2) _ v[of a], of delay c A I] by auto
qed

lemma announcement_effects:
  assumes "starts_in en es delay c A I a st" "announced en st cmd = p" "p \<noteq> []" "cmd = Request req r"
  shows "BroadcastEffect (fast_req c a p) \<in> set (fst (snd (handle_command en now j st cmd)))"
    "\<not> list_ex sets_membership (fst (snd (handle_command en now j st cmd)))"
    "st_lifecycle (fst (handle_command en now j st cmd)) = AnnouncedProposal"
    "\<not> promised st"
    "req = RapidRequest (Some (BatchedAlertMessage m)) \<Longrightarrow>
      st_joiner_uuid (fst (handle_command en now j st cmd)) = st_joiner_uuid (fst (handle_batched_alerts en st m))"
proof -
  have st: "st_fast_paxos st = Some (fast_paxos_new a c (card A) delay)" "st_lifecycle st = Running" "st_broadcaster st" "st_my_addr st = a"
    using assms(1) by (simp_all add: starts_in_def)
  let ?fp = "fast_paxos_new a c (card A) delay"
  obtain m' where m: "req_content req = Some (BatchedAlertMessage m')" "fst (snd (handle_batched_alerts en st m')) = p"
    using assms(2-4) st(2) by (auto simp: announced_def split: option.splits request_content.splits)
  let ?b = "fst (handle_batched_alerts en st m')"
  have call: "consensus_call en j st cmd = Some (?b, fst (propose j ?fp p), snd (propose j ?fp p))"
    using st m assms by (auto simp: consensus_call_def is_consensus_def)
  let ?s = "?b\<lparr>st_fast_paxos := Some (fst (propose j ?fp p))\<rparr>"
  obtain pre post where h: "list_all silent pre" "list_all silent post"
    "fst (handle_command en now j st cmd) = fst (dispatch en ?s (snd (propose j ?fp p)))"
    "fst (snd (handle_command en now j st cmd)) = pre @ snd (dispatch en ?s (snd (propose j ?fp p))) @ post"
    using handle_command_call(2)[OF call, of now] by blast
  have b: "st_broadcaster ?s" using handle_command_call(1)[OF call] st(3) by (simp add: quiet_def same_epoch_def)
  have "BroadcastEffect (fast_req c a p) \<in> set (snd (dispatch en ?s (snd (propose j ?fp p))))"
    using b by (simp add: propose_def fast_paxos_new_def fast_req_def dispatch_one_def spawn_broadcast_def Let_def split_beta)
  then show "BroadcastEffect (fast_req c a p) \<in> set (fst (snd (handle_command en now j st cmd)))" by (simp add: h(4))
  show "\<not> list_ex sets_membership (fst (snd (handle_command en now j st cmd)))"
    using dispatch_undecided(3)[OF consensus_outs(1)] silent_effects(2)[OF h(1)] silent_effects(2)[OF h(2)] by (simp add: h(4))
  have "st_lifecycle ?b = AnnouncedProposal" using handle_batched_alerts_lifecycle m(2) assms(3) by blast
  then show "st_lifecycle (fst (handle_command en now j st cmd)) = AnnouncedProposal"
    using dispatch_frame[OF consensus_outs(1)] by (simp add: h(3))
  show "st_joiner_uuid (fst (handle_command en now j st cmd)) = st_joiner_uuid (fst (handle_batched_alerts en st m))"
    if "req = RapidRequest (Some (BatchedAlertMessage m))"
    using that m(1) dispatch_frame[OF consensus_outs(1)] by (simp add: h(3))
  show "\<not> promised st" using st(1) by (simp add: promised_def fast_paxos_new_def paxos_new_def classic_rank_def Let_def)
qed

section \<open>Members of one configuration have the same rings\<close>

lemma actors_run_sent: "actors_run en es c A s evs = Some t \<Longrightarrow> an_sent s \<subseteq> an_sent t"
proof (induction evs arbitrary: s)
  case (Cons ev evs)
  have "an_sent s \<subseteq> an_sent (actor_apply en A s ev)" by (cases ev) (simp add: actor_apply_proj del: actor_apply.simps)
  then show ?case using Cons by (auto simp del: actor_apply.simps actor_enabled_eq split: if_splits)
qed simp

text \<open>Members with the same configuration and number of rings have the same rings, hence the same observers.\<close>

lemma ring_canonical:
  assumes "ring_wf x r" "ring_wf x r'" "rg_seed r = rg_seed r'" "ring_elems r = ring_elems r'"
  shows "r = r'"
proof -
  have k: "ring_key x r = ring_key x r'" using assms(3) by (simp add: fun_eq_iff ring_key_def)
  have half: "fmlookup (rg_by_hash q') h = Some e" if "ring_wf x q" "ring_wf x q'" "ring_key x q = ring_key x q'"
    "ring_elems q = ring_elems q'" "fmlookup (rg_by_hash q) h = Some e" for q q' h e
  proof -
    have "e \<in> ring_elems q'" using that(4,5) by (auto simp: ring_elems_def intro: fmran'I)
    then obtain h' where h': "fmlookup (rg_by_hash q') h' = Some e" by (auto simp: ring_elems_def elim: fmran'E)
    moreover have "h' = h" using that h' by (metis ring_wf_def)
    ultimately show ?thesis by simp
  qed
  have "fmlookup (rg_by_hash r) h = fmlookup (rg_by_hash r') h" for h
    using half[OF assms(1,2) k assms(4), of h] half[OF assms(2,1) k[symmetric] assms(4)[symmetric], of h]
    by (cases "fmlookup (rg_by_hash r) h"; cases "fmlookup (rg_by_hash r') h") auto
  then have "rg_by_hash r = rg_by_hash r'" by (intro fmap_ext)
  then show ?thesis using assms(3) by (intro ring.equality) auto
qed

lemma rings_canonical:
  assumes "view_inv x v" "view_inv x w" "members v = members w" "mv_k v = mv_k w"
  shows "mv_rings v = mv_rings w"
proof (rule nth_equalityI)
  show l: "length (mv_rings v) = length (mv_rings w)" using assms by (simp add: view_inv_def view_wf_def)
  fix i assume i: "i < length (mv_rings v)"
  show "mv_rings v ! i = mv_rings w ! i"
    using assms l i nth_mem[OF i] nth_mem[of i "mv_rings w"] by (intro ring_canonical[of x]) (auto simp: view_inv_def view_wf_def)
qed

lemma failure_alert_canonical:
  assumes "view_inv (en_xxh64 en) v" "view_inv (en_xxh64 en) w" "members v = members w" "identifiers_seen v = identifiers_seen w"
    "mv_k v = mv_k w" "en_xxh64 en' = en_xxh64 en" "2 \<le> card (members v)" "a \<in> members v" "s \<in> members v"
  shows "failure_alert en' w a s = failure_alert en v a s" "compute_observers_of (en_xxh64 en) w s = compute_observers_of (en_xxh64 en) v s"
proof -
  have r: "mv_rings w = mv_rings v" using rings_canonical assms by metis
  then show o: "compute_observers_of (en_xxh64 en) w s = compute_observers_of (en_xxh64 en) v s" by (simp add: compute_observers_of_def)
  have m: "2 \<le> membership_size v" "2 \<le> membership_size w" using assms by (simp_all add: membership_size_card)
  have "get_ring_numbers (en_xxh64 en) w a s = get_ring_numbers (en_xxh64 en) v a s"
  proof -
    have "is_host_present v a" "is_host_present v s" "is_host_present w a" "is_host_present w s"
      using assms(3,8,9) by (auto simp: members_def set_eq_iff)
    then show ?thesis using ring_numbers_map[OF assms(1) m(1)] ring_numbers_map[OF assms(2) m(2)] assms(5) o by simp
  qed
  then show "failure_alert en' w a s = failure_alert en v a s"
    using true_configuration_id_canonical[OF assms(2,1)] assms(3,4,6) by (simp add: failure_alert_def)
qed

section \<open>Results\<close>

text \<open>
  C11. Handling a fast quorum of votes moves a member on. In every reachable state of the actors, whatever else
  they processed in between, a member that is not shutting down and to which the equal fast-round votes of a fast
  quorum of members have been delivered has left the configuration: no vote is lost, counted for the
  wrong value or blocked by a classic round under way.
\<close>

theorem fast_votes_move_member:
  assumes "actors_reachable en es c A st0 s" and "cluster_ok x en A"
    and "\<forall>a \<in> A. starts_in (en a) es delay c A I a (st0 a)"
    and "a \<in> A" and "st_lifecycle (an_actors s a) \<noteq> ShuttingDown" and "fast_quorum (card A) \<le> card Q"
    and "\<forall>b \<in> Q. (a, fast_req c b p) \<in> an_consumed s"
  shows "an_left s a \<noteq> None"
  using assms by (rule quorum_handled_leaves)

theorem fast_votes_move_member_witness:
  "\<exists>s. actors_reachable (\<lambda>_. pair_env) pair_universe pair_config pair_members pair_start s \<and>
     (\<forall>b \<in> pair_members. (demo_ep 1, fast_req pair_config b [demo_ep 4]) \<in> an_consumed s) \<and> an_left s (demo_ep 1) \<noteq> None"
proof -
  obtain s st st' where run: "actors_run (\<lambda>_. pair_env) pair_universe pair_config pair_members (actors_init pair_start) pair_schedule = Some s"
    and s: "actors_reachable (\<lambda>_. pair_env) pair_universe pair_config pair_members pair_start s"
    "an_left s (demo_ep 1) = Some (st, st')" "an_actors s (demo_ep 1) = st'"
    "(demo_ep 1, pair_vote 1) \<in> an_consumed s" "(demo_ep 1, pair_vote 2) \<in> an_consumed s"
    using pair_run actors_run_reachable[OF actors_start] by blast
  have v: "\<forall>b \<in> pair_members. (demo_ep 1, fast_req pair_config b [demo_ep 4]) \<in> an_consumed s"
    using s(4,5) by (simp add: pair_members_def pair_vote_def)
  obtain t where "actor_sim (\<lambda>_. pair_env) pair_universe pair_config pair_members pair_start s t"
    using actors_simulated[OF s(1) pair_cluster_ok pair_starts] by blast
  then have "left_by pair_env pair_universe t (demo_ep 1) (an_parting s (demo_ep 1)) (pair_start (demo_ep 1)) st st'"
    using s(2) by (simp add: actor_sim_def)
  then obtain st1 v where "st' = fst (reinstate_fast_paxos pair_env (fst (decide_view_change pair_env st1 v)))"
    unfolding left_by_def by blast
  then have "st_lifecycle (an_actors s (demo_ep 1)) \<noteq> ShuttingDown" unfolding s(3) by simp
  then show ?thesis
    using fast_votes_move_member[OF s(1) pair_cluster_ok pair_starts _ _ _ v] s(1) v
    by (auto simp: pair_members_def fast_quorum_def card_insert_if)
qed

end
