(* ===== verification/Subject.thy ===== *)
theory Subject
  imports Detection
begin

text \<open>
  What a member does with alerts about a single subject, a failed member or a joiner: its detector counts the
  reported rings until they reach the high watermark and then the proposal is the subject (\<open>batch_about\<close>), however the alerts are
  spread over batches; the implicit detection has nothing to add, since the subject is not one of its own observers.
\<close>

section \<open>Reports about one subject\<close>

text \<open>A detector that has heard of one subject only, before and after its reports reach the high watermark.\<close>

definition only_about :: "endpoint \<Rightarrow> report list \<Rightarrow> bool" where
  "only_about s rs \<longleftrightarrow> (\<forall>(src, dst, st, rn) \<in> set rs. dst = s)"

lemma only_about_simps [simp]:
  "only_about s []" "only_about s (rs @ rs') \<longleftrightarrow> only_about s rs \<and> only_about s rs'"
  by (auto simp: only_about_def ball_Un)

lemma only_about_rings: "only_about s rs \<Longrightarrow> e \<noteq> endpoint_key_of s \<Longrightarrow> rings_reporting rs e = {}"
  by (auto simp: only_about_def rings_reporting_def)

lemma subject_below:
  assumes "cut_new k h l = Inr cd" "iter_order it" "only_about s rs" "card (rings_reporting rs (endpoint_key_of s)) < unat h"
  shows "snd (feed it cd rs) = []" "suspected (fst (feed it cd rs)) |\<subseteq>| {|endpoint_key_of s|}"
proof -
  note f = feed_new_exact[OF assms(1,2), of rs]
  note n = cut_new_fresh[OF assms(1)]
  have b: "0 < unat l" "0 < unat h" using cut_params_bounds[OF cut_invD(1)[OF n(1)]] n(5,6) by auto
  have none: "{e. unat h \<le> card (rings_reporting rs e)} = {}"
  proof -
    have "card (rings_reporting rs e) < unat h" for e
      using assms(4) only_about_rings[OF assms(3), of e] b(2) by (cases "e = endpoint_key_of s") auto
    then show ?thesis by (auto simp: not_le[symmetric])
  qed
  then show "snd (feed it cd rs) = []" using f(4) by auto
  have "fset (cd_pre_proposal (fst (feed it cd rs))) \<subseteq> {endpoint_key_of s}"
  proof
    fix e assume "e \<in> fset (cd_pre_proposal (fst (feed it cd rs)))"
    then have "0 < card (rings_reporting rs e)" using b(1) unfolding f(1) by auto
    then have "rings_reporting rs e \<noteq> {}" by auto
    then show "e \<in> {endpoint_key_of s}" using only_about_rings[OF assms(3), of e] by blast
  qed
  moreover have "cd_proposal (fst (feed it cd rs)) = {||}" using f(4) none by (auto simp flip: fset_inject)
  ultimately show "suspected (fst (feed it cd rs)) |\<subseteq>| {|endpoint_key_of s|}" by (auto simp: suspected_def)
qed

lemma subject_cut:
  assumes "cut_new k h l = Inr cd" "iter_order it" "only_about s rs" "unat h \<le> card (rings_reporting rs (endpoint_key_of s))"
  shows "snd (feed it cd rs) = [s]" "cd_pre_proposal (fst (feed it cd rs)) = {||}"
proof -
  note f = feed_new_exact[OF assms(1,2), of rs]
  note n = cut_new_fresh[OF assms(1)]
  have b: "0 < unat l" "0 < unat h" using cut_params_bounds[OF cut_invD(1)[OF n(1)]] n(5,6) by auto
  have e: "card (rings_reporting rs e) = 0" if "e \<noteq> endpoint_key_of s" for e using only_about_rings[OF assms(3) that] by simp
  have "\<not> (unat l \<le> card (rings_reporting rs e') \<and> card (rings_reporting rs e') < unat h)" for e'
    using e[of e'] b assms(4) by (cases "e' = endpoint_key_of s") auto
  then have "fset (cd_pre_proposal (fst (feed it cd rs))) = {}" unfolding f(1) by blast
  then show pre: "cd_pre_proposal (fst (feed it cd rs)) = {||}" by (metis bot_fset.rep_eq fset_inject)
  have "endpoint_key_of ` set (snd (feed it cd rs)) = {e. unat h \<le> card (rings_reporting rs e)}"
    using f(4) f(5)[OF pre] by simp
  also have "\<dots> = endpoint_key_of ` {s}" using e b assms(4) by force
  finally have "set (snd (feed it cd rs)) = {s}" by (simp only: inj_image_eq_iff[OF inj_endpoint_key_of(1)])
  then show "snd (feed it cd rs) = [s]" using f(2) by (metis distinct_singleton_list)
qed

text \<open>While only a node that does not observe itself is suspected, implicit detection does nothing.\<close>

lemma invalidate_alone:
  assumes "cut_inv cd" "iter_order it" "suspected cd |\<subseteq>| {|endpoint_key_of s|}" "s \<notin> set (flux_observers x view s)"
  shows "fst (invalidate_failing_edges x it cd view) = cd" "snd (snd (invalidate_failing_edges x it cd view)) = []"
proof -
  let ?nodes = "map (endpoint_obj cd) (it (cd_pre_proposal cd))"
  have n: "node = s" if "node \<in> set ?nodes" for node
    using flux_pending(2)[OF assms(1,2) that] assms(3) by (auto simp: suspected_def)
  have "endpoint_key_of o' |\<notin>| suspected cd" if "o' \<in> set (flux_observers x view s)" for o'
    using fsubsetD[OF assms(3), of "endpoint_key_of o'"] assms(4) that by auto
  then have "observer_reports (suspected cd) s st 0 (flux_observers x view s) = []" for st
    by (auto simp: observer_reports_def filter_empty_conv in_set_enumerate_eq)
  then have "implicit_reports x view (suspected cd) ?nodes = []" unfolding implicit_reports_def using n by (auto simp: concat_eq_Nil_conv)
  then have "(fst (invalidate_failing_edges x it cd view), snd (snd (invalidate_failing_edges x it cd view))) = (cd, [])"
    using invalidate_spec[OF assms(1,2), of x view] by (simp split: if_splits)
  then show "fst (invalidate_failing_edges x it cd view) = cd" "snd (snd (invalidate_failing_edges x it cd view)) = []" by simp_all
qed

lemma flux_observers_invalidate [simp]:
  "flux_observers x (fst (snd (invalidate_failing_edges x it cd view))) e = flux_observers x view e"
  by (rule invalidate_view[of "\<lambda>v. flux_observers x v e = flux_observers x view e"]) simp_all

lemma flux_observers_configuration [simp]:
  "flux_observers x (fst (current_configuration_id x v)) e = flux_observers x v e"
  by (simp add: flux_observers_def get_observers_of_def get_expected_observers_of_def predecessors_of_def compute_observers_of_def
      is_host_present_def Let_def split: option.split)

text \<open>
  Alerts about one subject of the configuration \<open>c\<close> with members \<open>A\<close>: its failure if it is a member, its arrival under
  the identifier \<open>nid\<close> otherwise.
\<close>

definition alert_about :: "i64 \<Rightarrow> endpoint set \<Rightarrow> endpoint \<Rightarrow> node_id \<Rightarrow> alert_message \<Rightarrow> bool" where
  "alert_about c A s nid al \<longleftrightarrow> al_configuration_id al = c \<and> al_edge_dst al = Some s \<and>
     (if s \<in> A then edge_status_or_up (al_edge_status al) = Down
      else edge_status_or_up (al_edge_status al) = Up \<and> al_node_id al = Some nid)"

definition joiner_known :: "endpoint set \<Rightarrow> endpoint \<Rightarrow> node_id \<Rightarrow> service_state \<Rightarrow> bool" where
  "joiner_known A s nid st \<longleftrightarrow> s \<in> A \<or> fmlookup (st_joiner_uuid st) (endpoint_key_of s) = Some nid"

lemma alert_about_reports: "\<forall>al \<in> set as. alert_about c A s nid al \<Longrightarrow> only_about s (all_reports as)"
  by (auto simp: only_about_def all_reports_def alert_about_def alert_reports_def split: option.splits)

lemma filter_about:
  assumes "\<forall>al \<in> set as. alert_about c A s nid al" "members (st_view st) = A"
  shows "snd (filter_alerts c st as) = as \<and> st_cut_detector (fst (filter_alerts c st as)) = st_cut_detector st \<and>
    st_view (fst (filter_alerts c st as)) = st_view st \<and>
    st_lifecycle (fst (filter_alerts c st as)) = st_lifecycle st \<and> (as \<noteq> [] \<longrightarrow> joiner_known A s nid (fst (filter_alerts c st as)))"
  using assms
proof (induction as arbitrary: st)
  case (Cons al as)
  have p: "is_host_present (st_view st) s \<longleftrightarrow> s \<in> A" using Cons.prems(2) by (auto simp: members_def)
  have al: "alert_about c A s nid al" using Cons.prems(1) by simp
  have v: "is_valid_alert st al c" using al p by (auto simp: is_valid_alert_def alert_about_def split: if_splits)
  let ?s = "extract_joiner st al"
  have e: "st_view ?s = st_view st" "st_cut_detector ?s = st_cut_detector st" "st_lifecycle ?s = st_lifecycle st"
    "joiner_known A s nid ?s"
    using al by (auto simp: joiner_known_def extract_joiner_def alert_about_def Let_def split: option.split if_splits)
  show ?case using Cons.IH[of ?s] Cons.prems v e by (cases "as = []") (simp_all add: Let_def split_beta)
qed simp

text \<open>A batch about the subject: it is cut once its rings reach the high watermark, and until then only counted.\<close>

lemma batch_about:
  assumes st: "parts_inv en es st" "st_lifecycle st = Running" "members (st_view st) = A"
      "c = true_configuration_id (en_xxh64 en) (st_view st)" "s \<notin> set (flux_observers (en_xxh64 en) (st_view st) s)"
    and it: "iter_order (en_cut_order en)" "iter_order (en_proposal_order en)"
    and cd: "cut_new k h l = Inr cd" "st_cut_detector st = fst (feed (en_cut_order en) cd rs)" "only_about s rs"
      "card (rings_reporting rs (endpoint_key_of s)) < unat h"
    and as: "\<forall>al \<in> set (ba_messages m). alert_about c A s nid al" "ba_messages m \<noteq> []"
  defines "rs' \<equiv> rs @ all_reports (ba_messages m)" and "r \<equiv> handle_batched_alerts en st m"
  shows "joiner_known A s nid (fst r)"
    "flux_observers (en_xxh64 en) (st_view (fst r)) s = flux_observers (en_xxh64 en) (st_view st) s"
    "unat h \<le> card (rings_reporting rs' (endpoint_key_of s)) \<Longrightarrow> fst (snd r) = [s]"
    "card (rings_reporting rs' (endpoint_key_of s)) < unat h \<Longrightarrow>
      fst (snd r) = [] \<and> st_lifecycle (fst r) = Running \<and> st_cut_detector (fst r) = fst (feed (en_cut_order en) cd rs')"
proof -
  let ?x = "en_xxh64 en" and ?it = "en_cut_order en" let ?st = "fst (configuration_id en st)"
  have c: "snd (configuration_id en st) = c" using configuration_id_true[OF st(1)] st(4) by simp
  have only: "only_about s rs'" using cd(3) alert_about_reports[OF as(1)] by (simp add: rs'_def)
  note f = filter_about[OF as(1), of ?st]
  let ?f = "fst (filter_alerts c ?st (ba_messages m))"
  have ff: "snd (filter_alerts c ?st (ba_messages m)) = ba_messages m" "st_cut_detector ?f = st_cut_detector st" "joiner_known A s nid ?f"
    "st_view ?f = fst (current_configuration_id ?x (st_view st))" "st_lifecycle ?f = Running"
    using f st(2,3) as(2) by (auto simp: configuration_id_eq)
  have agg: "aggregate_all ?it (st_cut_detector st) (ba_messages m) = (fst (feed ?it cd rs'), snd (feed ?it cd rs'))"
    using subject_below(1)[OF cd(1) it(1) cd(3,4)]
    by (simp add: aggregate_all_feed cd(2) rs'_def feed_append split_beta Let_def)
  have inv: "cut_inv (fst (feed ?it cd rs'))" by (rule feed_inv[OF cut_new_fresh(1)[OF cd(1)]])
  let ?i = "invalidate_failing_edges ?x ?it (fst (feed ?it cd rs')) (st_view ?f)"
  have no_self: "s \<notin> set (flux_observers ?x (st_view ?f) s)" unfolding ff(4) using st(5) by simp
  have "fst ?i = fst (feed ?it cd rs') \<and> snd (snd ?i) = []"
  proof (cases "unat h \<le> card (rings_reporting rs' (endpoint_key_of s))")
    case True
    show ?thesis using invalidate_no_flux[OF it(1) subject_cut(2)[OF cd(1) it(1) only True]] by simp
  next
    case False
    then show ?thesis using invalidate_alone[OF inv it(1) subject_below(2)[OF cd(1) it(1) only] no_self] by simp
  qed
  then have d: "detect_cut en ?f (ba_messages m) =
      (?f\<lparr>st_cut_detector := fst (feed ?it cd rs'), st_view := fst (snd ?i)\<rparr>, snd (feed ?it cd rs'))"
    by (simp add: detect_cut_def agg ff(2) Let_def split_beta)
  have r: "r = (let st' = ?f\<lparr>st_cut_detector := fst (feed ?it cd rs'), st_view := fst (snd ?i)\<rparr>; cuts = snd (feed ?it cd rs')
    in if cuts = [] then (st', [], []) else (let st' = st'\<lparr>st_lifecycle := AnnouncedProposal\<rparr>; ordered = order_proposal en cuts
       in (st', ordered, if st_proposal_tx st' then [ProposalEmitted ordered] else [])))"
    unfolding r_def handle_batched_alerts_def using st(2) c ff(1)
    by (simp add: d split_beta Let_def)
  show "joiner_known A s nid (fst r)" using ff(3) by (simp add: r Let_def joiner_known_def)
  show "flux_observers ?x (st_view (fst r)) s = flux_observers ?x (st_view st) s" using flux_observers_configuration[of ?x "st_view st" s] by (simp add: r Let_def flip: ff(4))
  show "fst (snd r) = [s]" if "unat h \<le> card (rings_reporting rs' (endpoint_key_of s))"
    using subject_cut(1)[OF cd(1) it(1) only that] order_proposal_single[OF it(2), of s] by (simp add: r Let_def)
  show "fst (snd r) = [] \<and> st_lifecycle (fst r) = Running \<and> st_cut_detector (fst r) = fst (feed ?it cd rs')"
    if "card (rings_reporting rs' (endpoint_key_of s)) < unat h"
    using subject_below(1)[OF cd(1) it(1) only that] ff(5) by (simp add: r Let_def)
qed

end
