(* ===== verification/Pipeline.thy ===== *)
theory Pipeline
  imports Progress Subject
begin

text \<open>
  The alert pipeline end to end. In a closed run of the actors the only commands from outside are the given ones; every
  other command is a tick of an alert batcher or the arrival of a request that some member broadcast earlier in the
  run. What reaches the failure detectors of a failed member's observers then has to pass through the alerts they queue, the
  batches they send, the cut detectors and the fast round of the members, and the member is removed; \<open>Admission\<close> does the same for a
  joiner.
\<close>

section \<open>Closed runs\<close>

type_synonym closed_state = "actor_net \<times> rapid_request set"

text \<open>The requests that a list of effects broadcasts. All members of the configuration get them.\<close>

definition broadcast_in :: "service_effect list \<Rightarrow> rapid_request set" where
  "broadcast_in effects = {req. BroadcastEffect req \<in> set effects}"

fun closed_apply :: "(endpoint \<Rightarrow> env) \<Rightarrow> endpoint set \<Rightarrow> closed_state \<Rightarrow> actor_event \<Rightarrow> closed_state" where
  "closed_apply en A (s, B) (a, now, j, cmd) = (actor_apply en A s (a, now, j, cmd),
     B \<union> broadcast_in (fst (snd (handle_command (en a) now j (an_actors s a) cmd))))"

fun closed_enabled :: "(endpoint \<Rightarrow> env) \<Rightarrow> endpoint list \<Rightarrow> i64 \<Rightarrow> endpoint set \<Rightarrow> actor_event set \<Rightarrow> closed_state \<Rightarrow> actor_event \<Rightarrow> bool" where
  "closed_enabled en es c A E (s, B) (a, now, j, cmd) \<longleftrightarrow> actor_enabled en es c A s (a, now, j, cmd) \<and>
     ((a, now, j, cmd) \<in> E \<or> (case cmd of Request req _ \<Rightarrow> req \<in> B | TickAlertBatcher \<Rightarrow> True | _ \<Rightarrow> False))"

definition closed_run ::
  "(endpoint \<Rightarrow> env) \<Rightarrow> endpoint list \<Rightarrow> i64 \<Rightarrow> endpoint set \<Rightarrow> actor_event set \<Rightarrow> closed_state \<Rightarrow> actor_event list \<Rightarrow> closed_state option" where
  "closed_run en es c A E = exec (closed_apply en A) (closed_enabled en es c A E)"

lemma closed_run_append:
  "closed_run en es c A E z evs = Some z' \<Longrightarrow> closed_run en es c A E z (evs @ evs') = closed_run en es c A E z' evs'"
  by (simp add: closed_run_def exec_append)

lemma closed_run_actors:
  "closed_run en es c A E (s, B) evs = Some (t, B') \<Longrightarrow> actors_run en es c A s evs = Some t"
proof (induction evs arbitrary: s B)
  case (Cons ev evs)
  then show ?case by (cases ev) (auto simp: closed_run_def simp del: actor_apply.simps actor_enabled_eq split: if_splits)
qed (simp add: closed_run_def)

text \<open>Requests that were broadcast may arrive.\<close>

lemma closed_run_requests:
  assumes "actors_run en es c A s evs = Some t" "\<And>a now j cmd. (a, now, j, cmd) \<in> set evs \<Longrightarrow> \<exists>req r. cmd = Request req r \<and> req \<in> B"
  shows "\<exists>B'. closed_run en es c A E (s, B) evs = Some (t, B')"
  using assms
proof (induction evs arbitrary: s B)
  case (Cons ev evs)
  obtain a now j req r where ev: "ev = (a, now, j, Request req r)" "req \<in> B" using Cons.prems(2) by (cases ev) fastforce
  have "\<exists>B'. closed_run en es c A E (closed_apply en A (s, B) ev) evs = Some (t, B')"
    using Cons.prems unfolding ev(1) closed_apply.simps
    by (intro Cons.IH) (fastforce simp del: actor_apply.simps actor_enabled_eq split: if_splits)+
  then show ?case
    using Cons.prems(1) ev by (auto simp: closed_run_def simp del: actor_apply.simps closed_apply.simps actor_enabled_eq split: if_splits)
qed (simp add: closed_run_def)

section \<open>Members in turn\<close>

text \<open>Part of a closed run in which only the members \<open>as\<close> do anything, at the instant \<open>T\<close>, and none leaves.\<close>

definition grows :: "closed_state \<Rightarrow> closed_state \<Rightarrow> bool" where
  "grows z z' \<longleftrightarrow> an_left (fst z') = an_left (fst z) \<and> an_sent (fst z) \<subseteq> an_sent (fst z') \<and> snd z \<subseteq> snd z'"

definition block ::
  "(endpoint \<Rightarrow> env) \<Rightarrow> endpoint list \<Rightarrow> i64 \<Rightarrow> endpoint set \<Rightarrow> actor_event set \<Rightarrow> endpoint set \<Rightarrow> nat \<Rightarrow>
   closed_state \<Rightarrow> actor_event list \<Rightarrow> closed_state \<Rightarrow> bool" where
  "block en es c A E as T z evs z' \<longleftrightarrow> closed_run en es c A E z evs = Some z' \<and>
     (\<forall>ev \<in> set evs. fst ev \<in> as \<and> fst (snd ev) = T) \<and> grows z z' \<and> (\<forall>b. b \<notin> as \<longrightarrow> an_actors (fst z') b = an_actors (fst z) b)"

definition stable :: "(endpoint \<Rightarrow> closed_state \<Rightarrow> bool) \<Rightarrow> bool" where
  "stable P \<longleftrightarrow> (\<forall>a z z'. P a z \<and> grows z z' \<and> an_actors (fst z') a = an_actors (fst z) a \<longrightarrow> P a z')"

lemma block_refl [simp]: "block en es c A E as T z [] z"
  by (simp add: block_def closed_run_def grows_def)

lemma block_append:
  assumes "block en es c A E as T z evs z1" "block en es c A E bs T z1 evs' z2"
  shows "block en es c A E (as \<union> bs) T z (evs @ evs') z2"
  using assms by (auto simp: block_def closed_run_def grows_def exec_append)

lemma block_stable:
  "stable P \<Longrightarrow> block en es c A E as T z evs z' \<Longrightarrow> a \<notin> as \<Longrightarrow> P a z \<Longrightarrow> P a z'"
  unfolding stable_def block_def by blast

lemma block_event:
  assumes "closed_enabled en es c A E (s, B) (a, now, j, cmd)"
    "\<not> list_ex sets_membership (fst (snd (handle_command (en a) now j (an_actors s a) cmd)))"
  shows "block en es c A E {a} now (s, B) [(a, now, j, cmd)] (closed_apply en A (s, B) (a, now, j, cmd))"
  using assms by (auto simp: block_def closed_run_def grows_def actor_apply_proj simp del: actor_apply.simps actor_enabled_eq)

lemma in_turn:
  assumes "finite as" "stable pre" "stable post" "\<forall>a \<in> as. pre a z"
    and each: "\<And>a z. a \<in> as \<Longrightarrow> pre a z \<Longrightarrow> \<exists>evs z'. block en es c A E {a} T z evs z' \<and> post a z'"
  shows "\<exists>evs z'. block en es c A E as T z evs z' \<and> (\<forall>a \<in> as. post a z')"
  using assms(1,4) each
proof (induction as rule: finite_induct)
  case (insert a as)
  then obtain evs z1 where z1: "block en es c A E as T z evs z1" "\<forall>b \<in> as. post b z1" by auto
  have "pre a z1" using block_stable[OF assms(2) z1(1) insert(2)] insert.prems by blast
  then obtain evs' z2 where z2: "block en es c A E {a} T z1 evs' z2" "post a z2" using insert.prems(2) by blast
  have "\<forall>b \<in> insert a as. post b z2" using block_stable[OF assms(3) z2(1)] z1(2) z2(2) insert(2) by (metis insertE singletonD)
  then show ?case using block_append[OF z1(1) z2(1)] by (intro exI[of _ "evs @ evs'"] exI[of _ z2]) simp
next
  case empty
  show ?case by (intro exI[of _ "[]"] exI[of _ z]) simp
qed

section \<open>Members that stay in the configuration\<close>

lemma quiet_starts:
  assumes st: "starts_in en es delay c A I a st" and cmd: "consensus_call en j st cmd = None" "\<And>p r. cmd \<noteq> ApplyProposal p r"
    "command_over es (now, j, cmd)" and run: "st_lifecycle (fst (handle_command en now j st cmd)) = Running"
  shows "starts_in en es delay c A I a (fst (handle_command en now j st cmd))"
    "\<not> list_ex sets_membership (fst (snd (handle_command en now j st cmd)))"
proof -
  have q: "quiet st (fst (handle_command en now j st cmd), fst (snd (handle_command en now j st cmd)))"
    by (rule handle_command_quiet[OF cmd(1,2)])
  have "service_inv en es (fst (handle_command en now j st cmd))"
    using service_step_inv[OF _ cmd(3), of en st] st by (simp add: service_step_def starts_in_def)
  then show "starts_in en es delay c A I a (fst (handle_command en now j st cmd))"
    using q st run same_view_facts(1,2) by (auto simp: starts_in_def quiet_def same_epoch_def)
  show "\<not> list_ex sets_membership (fst (snd (handle_command en now j st cmd)))"
    using q silent_effects(2) by (simp add: quiet_def)
qed

lemma starts_facts:
  assumes "cluster_ok x en A" "starts_in (en a) es delay c A I a st" "a \<in> A"
  shows "parts_inv (en a) es st" "members (st_view st) = A" "identifiers_seen (st_view st) = I" "st_my_addr st = a"
    "st_lifecycle st = Running" "st_broadcaster st" "view_inv x (st_view st)" "en_xxh64 (en a) = x"
    "iter_order (en_proposal_order (en a))" "c = true_configuration_id x (st_view st)" "\<not> promised st"
  using assms starts_in_configuration[OF assms(2)]
  by (auto simp: starts_in_def service_inv_def parts_inv_def view_inv_over_def cluster_ok_def promised_def fast_paxos_new_def
      paxos_new_def classic_rank_def Let_def)

section \<open>From the reports of the observers to a proposal\<close>

text \<open>The commands by which an observer learns of a failure or of a joiner.\<close>

definition outside_input :: "service_command \<Rightarrow> bool" where
  "outside_input cmd = (case cmd of
       EdgeFailureCommand _ \<Rightarrow> True
     | Request req _ \<Rightarrow> (case req_content req of Some (JoinMessage _) \<Rightarrow> True | _ \<Rightarrow> False)
     | _ \<Rightarrow> False)"

lemma outside_input_facts:
  assumes "outside_input cmd"
  shows "arrives c s a cmd" "command_over es (now, j, cmd)" "\<not> repeated_phase1b c s (a, now, j, cmd)" "announced en st cmd = []"
    "consensus_call en j st cmd = None" "cmd \<noteq> ApplyProposal p r"
  using assms by (auto simp: outside_input_def arrives_def command_over_def repeated_phase1b_def announced_def consensus_call_def
      is_consensus_def is_phase1b_def request_values_def split: service_command.splits option.splits request_content.splits)

text \<open>A command that queues one alert in an empty queue and leaves the detector alone.\<close>

definition same_detection :: "env \<Rightarrow> service_state \<Rightarrow> service_state \<Rightarrow> bool" where
  "same_detection en st st' \<longleftrightarrow> st_cut_detector st' = st_cut_detector st \<and>
     flux_observers (en_xxh64 en) (st_view st') = flux_observers (en_xxh64 en) (st_view st)"

definition alert_queued :: "env \<Rightarrow> nat \<Rightarrow> service_state \<Rightarrow> alert_message \<Rightarrow> service_state \<Rightarrow> bool" where
  "alert_queued en now st al st' \<longleftrightarrow> same_detection en st st' \<and> st_send_queue st' = [al] \<and> st_last_enqueue_at st' = Some now \<and>
     st_settings st' = st_settings st"

definition queues_alert :: "env \<Rightarrow> nat \<Rightarrow> service_state \<Rightarrow> service_command \<Rightarrow> alert_message \<Rightarrow> bool" where
  "queues_alert en now st cmd al \<longleftrightarrow> outside_input cmd \<and> (let st' = fst (handle_command en now 0 st cmd) in
     alert_queued en now st al st' \<and> st_lifecycle st' = st_lifecycle st)"

definition alert_batch :: "endpoint \<Rightarrow> alert_message \<Rightarrow> rapid_request" where
  "alert_batch a al = RapidRequest (Some (BatchedAlertMessage \<lparr>ba_sender = Some a, ba_messages = [al]\<rparr>))"

lemma observer_queues:
  fixes B :: "rapid_request set"
  assumes "cluster_ok x en A" "starts_in (en a) es delay c A I a (an_actors s a)" "a \<in> A" "an_left s a = None"
    and q: "queues_alert (en a) now (an_actors s a) cmd al" and E: "(a, now, 0, cmd) \<in> E"
  defines "z \<equiv> closed_apply en A (s, B) (a, now, 0, cmd)"
  shows "block en es c A E {a} now (s, B) [(a, now, 0, cmd)] z" "starts_in (en a) es delay c A I a (an_actors (fst z) a)"
    "alert_queued (en a) now (an_actors s a) al (an_actors (fst z) a)"
proof -
  have i: "outside_input cmd" using q by (simp add: queues_alert_def)
  note f = starts_facts[OF assms(1-3)] and o = outside_input_facts[OF i]
  have run: "st_lifecycle (fst (handle_command (en a) now 0 (an_actors s a) cmd)) = Running" using q f(5) by (simp add: queues_alert_def Let_def)
  note k = quiet_starts[OF assms(2) o(5,6,2) run]
  have "actor_enabled en es c A s (a, now, 0, cmd)" using assms(3,4) o(1-4) by simp
  then show "block en es c A E {a} now (s, B) [(a, now, 0, cmd)] z"
    unfolding z_def using E k(2) by (intro block_event) simp_all
  show "starts_in (en a) es delay c A I a (an_actors (fst z) a)"
    "alert_queued (en a) now (an_actors s a) al (an_actors (fst z) a)"
    using k(1) q by (simp_all add: z_def actor_apply_proj queues_alert_def Let_def del: actor_apply.simps)
qed

lemma observer_sends:
  fixes B :: "rapid_request set"
  assumes "cluster_ok x en A" "starts_in (en a) es delay c A I a (an_actors s a)" "a \<in> A" "an_left s a = None"
    and q: "st_send_queue (an_actors s a) = [al]" "st_last_enqueue_at (an_actors s a) = Some now"
      "now + se_batching_window (st_settings (an_actors s a)) < T"
  defines "z \<equiv> closed_apply en A (s, B) (a, T, 0, TickAlertBatcher)"
  shows "block en es c A E {a} T (s, B) [(a, T, 0, TickAlertBatcher)] z" "starts_in (en a) es delay c A I a (an_actors (fst z) a)"
    "same_detection (en a) (an_actors s a) (an_actors (fst z) a)" "alert_batch a al \<in> snd z"
proof -
  note f = starts_facts[OF assms(1-3)]
  have h: "handle_command (en a) T 0 (an_actors s a) TickAlertBatcher =
      ((an_actors s a)\<lparr>st_send_queue := [], st_last_enqueue_at := None\<rparr>, [BroadcastEffect (alert_batch a al)], False)"
    using q f(4,6) by (simp add: handle_command_def handle_tick_def alert_batch_def Let_def)
  have n: "consensus_call (en a) 0 (an_actors s a) TickAlertBatcher = None" "command_over es (T, 0, TickAlertBatcher)"
    by (simp_all add: consensus_call_def command_over_def split: option.split)
  note k = quiet_starts[OF assms(2) n(1) _ n(2)]
  have "closed_enabled en es c A E (s, B) (a, T, 0, TickAlertBatcher)"
    using assms(3,4) by (simp add: arrives_def command_over_def repeated_phase1b_def announced_def)
  then show "block en es c A E {a} T (s, B) [(a, T, 0, TickAlertBatcher)] z" unfolding z_def using k(2) f(5) h by (intro block_event) simp_all
  show "starts_in (en a) es delay c A I a (an_actors (fst z) a)" "same_detection (en a) (an_actors s a) (an_actors (fst z) a)" "alert_batch a al \<in> snd z"
    using k(1) h f(5) by (simp_all add: z_def actor_apply_proj same_detection_def broadcast_in_def del: actor_apply.simps)
qed

lemma batch_unannounced:
  assumes "st_lifecycle st \<noteq> ShuttingDown" "fst (snd (handle_batched_alerts en st m)) = []"
  shows "fst (handle_command en now j st (Request (RapidRequest (Some (BatchedAlertMessage m))) r)) = fst (handle_batched_alerts en st m)"
    "consensus_call en j st (Request (RapidRequest (Some (BatchedAlertMessage m))) r) = None"
  using assms by (auto simp: handle_command_def handle_request_def consensus_call_def is_consensus_def announced_def Let_def split_beta
      split: option.split)

text \<open>A member that counts the alerts about \<open>s\<close>, and one that has announced \<open>s\<close>.\<close>

definition counts_alerts :: "env \<Rightarrow> cut_detector \<Rightarrow> endpoint \<Rightarrow> report list \<Rightarrow> service_state \<Rightarrow> bool" where
  "counts_alerts en cd s rs st \<longleftrightarrow> st_cut_detector st = fst (feed (en_cut_order en) cd rs) \<and>
     s \<notin> set (flux_observers (en_xxh64 en) (st_view st) s)"

definition has_announced :: "i64 \<Rightarrow> endpoint set \<Rightarrow> endpoint \<Rightarrow> node_id \<Rightarrow> endpoint \<Rightarrow> closed_state \<Rightarrow> bool" where
  "has_announced c A s nid a z \<longleftrightarrow> st_lifecycle (an_actors (fst z) a) = AnnouncedProposal \<and> joiner_known A s nid (an_actors (fst z) a) \<and>
     (\<forall>b \<in> A. (b, fast_req c a [s]) \<in> an_sent (fst z)) \<and> fast_req c a [s] \<in> snd z"

lemma member_counts:
  fixes B :: "rapid_request set" and T :: nat
  assumes ok: "cluster_ok x en A" and start: "starts_in (en a) es delay c A I a (an_actors s a)" and a: "a \<in> A" "an_left s a = None"
    and cd: "cut_new k h l = Inr cd" "iter_order (en_cut_order (en a))"
    and rs: "counts_alerts (en a) cd sub rs (an_actors s a)" "only_about sub rs" "card (rings_reporting rs (endpoint_key_of sub)) < unat h"
    and al: "alert_about c A sub nid al" "alert_batch o' al \<in> B"
  defines "ev \<equiv> (a, T, 0, Request (alert_batch o' al) 0)" and "rs' \<equiv> rs @ all_reports [al]"
  defines "z \<equiv> closed_apply en A (s, B) ev"
  shows "block en es c A E {a} T (s, B) [ev] z"
    "unat h \<le> card (rings_reporting rs' (endpoint_key_of sub)) \<Longrightarrow> has_announced c A sub nid a z"
    "card (rings_reporting rs' (endpoint_key_of sub)) < unat h \<Longrightarrow>
      starts_in (en a) es delay c A I a (an_actors (fst z) a) \<and> counts_alerts (en a) cd sub rs' (an_actors (fst z) a)"
proof -
  let ?m = "\<lparr>ba_sender = Some o', ba_messages = [al]\<rparr>" let ?st = "an_actors s a" let ?cmd = "Request (alert_batch o' al) 0"
  note f = starts_facts[OF ok start a(1)]
  have b: "joiner_known A sub nid (fst (handle_batched_alerts (en a) ?st ?m))"
    "flux_observers (en_xxh64 (en a)) (st_view (fst (handle_batched_alerts (en a) ?st ?m))) sub = flux_observers (en_xxh64 (en a)) (st_view ?st) sub"
    "unat h \<le> card (rings_reporting rs' (endpoint_key_of sub)) \<Longrightarrow> fst (snd (handle_batched_alerts (en a) ?st ?m)) = [sub]"
    "card (rings_reporting rs' (endpoint_key_of sub)) < unat h \<Longrightarrow> fst (snd (handle_batched_alerts (en a) ?st ?m)) = [] \<and>
      st_lifecycle (fst (handle_batched_alerts (en a) ?st ?m)) = Running \<and>
      st_cut_detector (fst (handle_batched_alerts (en a) ?st ?m)) = fst (feed (en_cut_order (en a)) cd rs')"
    using batch_about[OF f(1,5,2) _ _ cd(2) f(9) cd(1) _ rs(2,3), of c ?m nid] rs(1) f(8,10) al(1)
    unfolding rs'_def counts_alerts_def by simp_all
  have ann: "announced (en a) ?st ?cmd = fst (snd (handle_batched_alerts (en a) ?st ?m))"
    using f(5) by (simp add: announced_def alert_batch_def)
  have en: "closed_enabled en es c A E (s, B) ev"
    using a al(2) f(11) by (simp add: ev_def arrives_def alert_batch_def is_consensus_def command_over_def request_values_def
        repeated_phase1b_def is_phase1b_def)
  have h: "unat h \<le> card (rings_reporting rs' (endpoint_key_of sub)) \<or> card (rings_reporting rs' (endpoint_key_of sub)) < unat h" by linarith
  note an = announcement_effects[OF start ann _ refl]
  have proj: "an_actors (fst z) a = fst (handle_command (en a) T 0 ?st ?cmd)"
    "an_sent (fst z) = an_sent s \<union> \<Union> (set (map (delivered (en a) A) (fst (snd (handle_command (en a) T 0 ?st ?cmd)))))"
    "snd z = B \<union> broadcast_in (fst (snd (handle_command (en a) T 0 ?st ?cmd)))"
    by (simp_all add: z_def ev_def actor_apply_proj del: actor_apply.simps)
  have stay: "starts_in (en a) es delay c A I a (an_actors (fst z) a) \<and> counts_alerts (en a) cd sub rs' (an_actors (fst z) a) \<and>
      \<not> list_ex sets_membership (fst (snd (handle_command (en a) T 0 ?st ?cmd)))"
    if "card (rings_reporting rs' (endpoint_key_of sub)) < unat h"
  proof -
    have "st_lifecycle ?st \<noteq> ShuttingDown" using f(5) by simp
    note u = batch_unannounced[OF this conjunct1[OF b(4)[OF that]], folded alert_batch_def]
    have "command_over es (T, 0, ?cmd)" by (simp add: command_over_def alert_batch_def request_values_def)
    then show ?thesis
      using quiet_starts[OF start u(2)[where j = 0 and r = 0], of T] u(1)[of T 0] b(2) b(4)[OF that] rs(1) by (simp add: proj(1) counts_alerts_def)
  qed
  then show "card (rings_reporting rs' (endpoint_key_of sub)) < unat h \<Longrightarrow>
      starts_in (en a) es delay c A I a (an_actors (fst z) a) \<and> counts_alerts (en a) cd sub rs' (an_actors (fst z) a)" by blast
  have go: "has_announced c A sub nid a z \<and> \<not> list_ex sets_membership (fst (snd (handle_command (en a) T 0 ?st ?cmd)))"
    if "unat h \<le> card (rings_reporting rs' (endpoint_key_of sub))"
  proof -
    have p: "fst (snd (handle_batched_alerts (en a) ?st ?m)) = [sub]" by (rule b(3)[OF that])
    then have e: "BroadcastEffect (fast_req c a [sub]) \<in> set (fst (snd (handle_command (en a) T 0 ?st ?cmd)))"
      "\<not> list_ex sets_membership (fst (snd (handle_command (en a) T 0 ?st ?cmd)))"
      "st_lifecycle (an_actors (fst z) a) = AnnouncedProposal"
      "st_joiner_uuid (an_actors (fst z) a) = st_joiner_uuid (fst (handle_batched_alerts (en a) ?st ?m))"
      using an(1,2,3)[of T 0] an(5)[of ?m T 0] by (simp_all add: proj(1) alert_batch_def)
    have "\<forall>b \<in> A. (b, fast_req c a [sub]) \<in> an_sent (fst z)"
      using e(1) unfolding proj(2) by (force simp: delivered_def)
    then show ?thesis using e b(1) by (simp add: has_announced_def joiner_known_def proj(3) broadcast_in_def)
  qed
  then show "unat h \<le> card (rings_reporting rs' (endpoint_key_of sub)) \<Longrightarrow> has_announced c A sub nid a z" by blast
  have "\<not> list_ex sets_membership (fst (snd (handle_command (en a) T 0 ?st ?cmd)))" using h stay go by blast
  then show "block en es c A E {a} T (s, B) [ev] z" unfolding z_def using en unfolding ev_def by (intro block_event)
qed

lemma member_announces:
  assumes "cluster_ok x en A" "a \<in> A" "cut_new k h l = Inr cd" "iter_order (en_cut_order (en a))"
    and "\<forall>o' \<in> set os. alert_about c A sub nid (al o')"
  shows "starts_in (en a) es delay c A I a (an_actors s a) \<Longrightarrow> an_left s a = None \<Longrightarrow> counts_alerts (en a) cd sub rs (an_actors s a) \<Longrightarrow>
    only_about sub rs \<Longrightarrow> card (rings_reporting rs (endpoint_key_of sub)) < unat h \<Longrightarrow> \<forall>o' \<in> set os. alert_batch o' (al o') \<in> B \<Longrightarrow>
    unat h \<le> card (rings_reporting (rs @ all_reports (map al os)) (endpoint_key_of sub)) \<Longrightarrow>
    \<exists>evs z. block en es c A E {a} T (s, B) evs z \<and> has_announced c A sub nid a z"
  using assms(5)
proof (induction os arbitrary: s B rs)
  case Nil
  then show ?case by (simp add: all_reports_def)
next
  case (Cons o' os)
  let ?rs = "rs @ all_reports [al o']"
  have al: "alert_about c A sub nid (al o')" "alert_batch o' (al o') \<in> B" using Cons.prems by simp_all
  note m = member_counts[OF assms(1) Cons.prems(1) assms(2) Cons.prems(2) assms(3,4) Cons.prems(3-5) al, where T = T]
  obtain t B1 where z: "closed_apply en A (s, B) (a, T, 0, Request (alert_batch o' (al o')) 0) = (t, B1)" by fastforce
  show ?case
  proof (cases "unat h \<le> card (rings_reporting ?rs (endpoint_key_of sub))")
    case True
    then show ?thesis using m(1,2) by blast
  next
    case False
    have b: "block en es c A E {a} T (s, B) [(a, T, 0, Request (alert_batch o' (al o')) 0)] (t, B1)" using m(1) z by simp
    have "only_about sub ?rs" using Cons.prems(4) alert_about_reports[of "[al o']" c A sub nid] al(1) by simp
    moreover have "all_reports (map al (o' # os)) = all_reports [al o'] @ all_reports (map al os)" by (simp add: all_reports_def)
    moreover have "an_left t a = None" "B \<subseteq> B1" using b Cons.prems(2) by (auto simp: block_def grows_def)
    ultimately obtain evs z' where z': "block en es c A E {a} T (t, B1) evs z'" "has_announced c A sub nid a z'"
      using Cons.IH[of t ?rs B1] m(3) False z Cons.prems(6,7,8) by (auto simp: not_le)
    then show ?thesis using block_append[OF b z'(1)] by fastforce
  qed
qed

text \<open>The observers learn of the subject, their batchers send the alerts, and the batches reach the members of \<open>Q\<close>.\<close>

lemma observers_queue:
  assumes ok: "cluster_ok x en A" and starts: "\<forall>a \<in> A. starts_in (en a) es delay c A I a (st0 a)" and O: "Obs \<subseteq> A"
    and q: "\<forall>o' \<in> Obs. queues_alert (en o') now (st0 o') (trigger o') (al o')"
  shows "\<exists>evs z. block en es c A ((\<lambda>o'. (o', now, 0, trigger o')) ` Obs) Obs now (actors_init st0, {}) evs z \<and>
    (\<forall>o' \<in> Obs. starts_in (en o') es delay c A I o' (an_actors (fst z) o') \<and> alert_queued (en o') now (st0 o') (al o') (an_actors (fst z) o'))"
proof (rule in_turn[where pre = "\<lambda>o' z. an_left (fst z) o' = None \<and> an_actors (fst z) o' = st0 o'"])
  show "finite Obs" using ok O finite_subset by (auto simp: cluster_ok_def)
  fix o' :: endpoint and z :: closed_state
  assume o': "o' \<in> Obs" and z: "an_left (fst z) o' = None \<and> an_actors (fst z) o' = st0 o'"
  obtain s B where sB: "z = (s, B)" by (cases z)
  have p: "starts_in (en o') es delay c A I o' (an_actors s o')" "o' \<in> A" "an_left s o' = None"
    "queues_alert (en o') now (an_actors s o') (trigger o') (al o')" "(o', now, 0, trigger o') \<in> (\<lambda>o'. (o', now, 0, trigger o')) ` Obs"
    using o' z starts q O by (auto simp: sB)
  show "\<exists>evs z'. block en es c A ((\<lambda>o'. (o', now, 0, trigger o')) ` Obs) {o'} now z evs z' \<and>
      starts_in (en o') es delay c A I o' (an_actors (fst z') o') \<and> alert_queued (en o') now (st0 o') (al o') (an_actors (fst z') o')"
    using observer_queues[OF ok p, of B] z unfolding sB by fastforce
qed (auto simp: stable_def grows_def actors_init_def)

lemma observers_send:
  assumes ok: "cluster_ok x en A" and O: "Obs \<subseteq> A" and none: "an_left (fst z) = (\<lambda>_. None)"
    and z: "\<forall>o' \<in> Obs. starts_in (en o') es delay c A I o' (an_actors (fst z) o') \<and> alert_queued (en o') now (st0 o') (al o') (an_actors (fst z) o')"
    and T: "\<forall>o' \<in> Obs. now + se_batching_window (st_settings (st0 o')) < T"
  shows "\<exists>evs z'. block en es c A E Obs T z evs z' \<and> (\<forall>o' \<in> Obs. starts_in (en o') es delay c A I o' (an_actors (fst z') o') \<and>
      same_detection (en o') (st0 o') (an_actors (fst z') o') \<and> alert_batch o' (al o') \<in> snd z')"
proof (rule in_turn[where pre = "\<lambda>o' z. an_left (fst z) o' = None \<and> starts_in (en o') es delay c A I o' (an_actors (fst z) o') \<and>
    alert_queued (en o') now (st0 o') (al o') (an_actors (fst z) o')"])
  show "finite Obs" using ok O finite_subset by (auto simp: cluster_ok_def)
  fix o' :: endpoint and z :: closed_state
  assume o': "o' \<in> Obs" and z: "an_left (fst z) o' = None \<and> starts_in (en o') es delay c A I o' (an_actors (fst z) o') \<and>
    alert_queued (en o') now (st0 o') (al o') (an_actors (fst z) o')"
  obtain s B where sB: "z = (s, B)" by (cases z)
  have p: "starts_in (en o') es delay c A I o' (an_actors s o')" "o' \<in> A" "an_left s o' = None" "st_send_queue (an_actors s o') = [al o']"
    "st_last_enqueue_at (an_actors s o') = Some now" "now + se_batching_window (st_settings (an_actors s o')) < T"
    using o' z T O by (auto simp: sB alert_queued_def)
  show "\<exists>evs z'. block en es c A E {o'} T z evs z' \<and> starts_in (en o') es delay c A I o' (an_actors (fst z') o') \<and>
      same_detection (en o') (st0 o') (an_actors (fst z') o') \<and> alert_batch o' (al o') \<in> snd z'"
    using observer_sends[OF ok p, where B = B] z unfolding sB same_detection_def alert_queued_def by fastforce
qed (use z none in \<open>auto simp: stable_def grows_def\<close>)

lemma members_announce:
  assumes ok: "cluster_ok x en A" and Q: "Q \<subseteq> A" and none: "an_left (fst z) = (\<lambda>_. None)"
    and z: "\<forall>a \<in> Q. starts_in (en a) es delay c A I a (an_actors (fst z) a) \<and> same_detection (en a) (st0 a) (an_actors (fst z) a)"
    and cd: "\<forall>a \<in> Q. cut_new k h l = Inr (st_cut_detector (st0 a)) \<and> iter_order (en_cut_order (en a)) \<and>
      sub \<notin> set (flux_observers x (st_view (st0 a)) sub)"
    and al: "\<forall>o' \<in> set os. alert_about c A sub nid (al o') \<and> alert_batch o' (al o') \<in> snd z"
    and rings: "unat h \<le> card (rings_reporting (all_reports (map al os)) (endpoint_key_of sub))"
  shows "\<exists>evs z'. block en es c A E Q T z evs z' \<and> (\<forall>a \<in> Q. has_announced c A sub nid a z')"
proof (rule in_turn[where pre = "\<lambda>a z. an_left (fst z) a = None \<and> starts_in (en a) es delay c A I a (an_actors (fst z) a) \<and>
    same_detection (en a) (st0 a) (an_actors (fst z) a) \<and> (\<forall>o' \<in> set os. alert_batch o' (al o') \<in> snd z)"])
  show "finite Q" using ok Q finite_subset by (auto simp: cluster_ok_def)
  show "stable (has_announced c A sub nid)" unfolding stable_def has_announced_def grows_def by fastforce
  fix a :: endpoint and z :: closed_state
  assume a: "a \<in> Q" and z: "an_left (fst z) a = None \<and> starts_in (en a) es delay c A I a (an_actors (fst z) a) \<and>
    same_detection (en a) (st0 a) (an_actors (fst z) a) \<and> (\<forall>o' \<in> set os. alert_batch o' (al o') \<in> snd z)"
  obtain s B where sB: "z = (s, B)" by (cases z)
  have d: "cut_new k h l = Inr (st_cut_detector (st0 a))" "iter_order (en_cut_order (en a))" "\<forall>o' \<in> set os. alert_about c A sub nid (al o')"
    and aA: "a \<in> A" using cd a al Q by auto
  have "0 < unat h" using cut_params_bounds[OF cut_invD(1)[OF cut_new_fresh(1)[OF d(1)]]] cut_new_fresh(5,6)[OF d(1)] by auto
  moreover have "counts_alerts (en a) (st_cut_detector (st0 a)) sub [] (an_actors s a)"
    using cd a z ok aA by (simp add: counts_alerts_def same_detection_def sB cluster_ok_def)
  ultimately show "\<exists>evs z'. block en es c A E {a} T z evs z' \<and> has_announced c A sub nid a z'"
    using member_announces[OF ok aA d, where s = s and rs = "[]" and B = B and es = es and delay = delay and I = I and E = E and T = T] z rings unfolding sB by (simp add: rings_reporting_def)
qed (use z none al in \<open>auto simp: stable_def grows_def\<close>)

section \<open>From the proposal to the next configuration\<close>

lemma same_next:
  assumes Q: "Q \<noteq> {}" and at: "\<forall>a \<in> Q. \<exists>st st' u. an_left t a = Some (st, st') \<and> view_inv x u \<and> configuration_of u = (A', I') \<and>
      starts_in (en a) es delay (true_configuration_id x u) A' I' a st'"
  shows "\<exists>c'. \<forall>a \<in> Q. \<exists>st st'. an_left t a = Some (st, st') \<and> starts_in (en a) es delay c' A' I' a st'"
proof -
  obtain u where u: "view_inv x u" "configuration_of u = (A', I')" using at Q by blast
  have "true_configuration_id x w = true_configuration_id x u" if "view_inv x w" "configuration_of w = (A', I')" for w
    using true_configuration_id_canonical[OF that(1) u(1)] u(2) that(2) by (simp add: configuration_of_def)
  then show ?thesis using at by (intro exI[of _ "true_configuration_id x u"]) metis
qed

lemma announced_move:
  assumes ok: "cluster_ok x en A" and starts: "\<forall>a \<in> A. starts_in (en a) es delay c A I a (st0 a)"
    and Q: "Q \<subseteq> A" "fast_quorum (card A) \<le> card Q" "sub \<in> set es"
    and r: "actors_reachable en es c A st0 (fst z)" "an_left (fst z) = (\<lambda>_. None)" "\<forall>a \<in> Q. has_announced c A sub nid a z"
    and next_one: "\<And>st. joiner_known A sub nid st \<Longrightarrow> next_configuration (joiner_ids st) sub (A, I) = (A', I')"
  shows "\<exists>evs t B c'. closed_run en es c A E z evs = Some (t, B) \<and> (\<forall>ev \<in> set evs. fst ev \<in> Q \<and> fst (snd ev) = T) \<and>
    (\<forall>a \<in> Q. \<exists>st st'. an_left t a = Some (st, st') \<and> starts_in (en a) es delay c' A' I' a st')"
proof -
  have sent: "\<forall>a \<in> Q. \<forall>b \<in> Q. (a, fast_req c b [sub]) \<in> an_sent (fst z)" using r(3) Q(1) by (auto simp: has_announced_def)
  obtain evs t where t: "actors_run en es c A (fst z) evs = Some t"
    "set evs \<subseteq> (\<lambda>(a, b). (a, T, 0, Request (fast_req c b [sub]) 0)) ` (Q \<times> Q)" "\<forall>a \<in> Q. an_left t a \<noteq> None"
    "\<forall>a. an_left (fst z) a = None \<longrightarrow> (\<forall>st st'. an_left t a = Some (st, st') \<longrightarrow> st_joiner_uuid st = st_joiner_uuid (an_actors (fst z) a))"
    using votes_can_arrive[OF r(1) ok starts Q(1,2), of "[sub]" T] Q(3) sent r(3) by (fastforce simp: has_announced_def)
  have "fast_req c b [sub] \<in> snd z" if "b \<in> Q" for b using r(3) that by (simp add: has_announced_def)
  then obtain B where B: "closed_run en es c A E (fst z, snd z) evs = Some (t, B)"
    using closed_run_requests[OF t(1), of "snd z" E] t(2) by fastforce
  have "\<forall>b \<in> Q. \<exists>a. (a, fast_req c b [sub]) \<in> an_sent t" using sent actors_run_sent[OF t(1)] by blast
  note moved = quorum_next_configuration[OF actors_run_reachable[OF r(1) t(1)] ok starts Q(2) this]
  have "\<exists>st st' u. an_left t a = Some (st, st') \<and> view_inv x u \<and> configuration_of u = (A', I') \<and>
      starts_in (en a) es delay (true_configuration_id x u) A' I' a st'" if a: "a \<in> Q" for a
  proof -
    obtain st st' where l: "an_left t a = Some (st, st')" using t(3) a by auto
    then have "st_joiner_uuid st = st_joiner_uuid (an_actors (fst z) a)" using t(4) r(2) by simp
    then have "joiner_known A sub nid st" using r(3) a by (simp add: has_announced_def joiner_known_def)
    then show ?thesis using moved[OF l] next_one l by (auto simp: configuration_of_def)
  qed
  moreover have "Q \<noteq> {}" using ok Q(2) qs.fast_fast[of "card A"] by (auto simp: cluster_ok_def card_gt_0_iff)
  ultimately obtain c' where "\<forall>a \<in> Q. \<exists>st st'. an_left t a = Some (st, st') \<and> starts_in (en a) es delay c' A' I' a st'"
    using same_next[of Q t x A' I' en es delay] by blast
  moreover have "\<forall>ev \<in> set evs. fst ev \<in> Q \<and> fst (snd ev) = T" using t(2) by auto
  ultimately show ?thesis using B by auto
qed

lemma blocks_sorted:
  assumes "\<forall>ev \<in> set evs. f ev = t" "\<forall>ev \<in> set evs'. f ev = T" "t \<le> (T :: nat)"
  shows "sorted (map f (evs @ evs'))"
proof -
  have "map f evs = replicate (length evs) t" "map f evs' = replicate (length evs') T"
    using assms(1,2) by (simp_all add: map_eq_conv replicate_length_same[symmetric] list_eq_iff_nth_eq)
  then show ?thesis using assms(3) by (auto simp: sorted_append)
qed

lemma subject_moves:
  assumes ok: "cluster_ok x en A" and starts: "\<forall>a \<in> A. starts_in (en a) es delay c A I a (st0 a)"
    and Q: "Q \<subseteq> A" "fast_quorum (card A) \<le> card Q" "sub \<in> set es" and O: "set os \<subseteq> A"
    and al: "\<forall>o' \<in> set os. queues_alert (en o') now (st0 o') (trigger o') (al o') \<and> alert_about c A sub nid (al o')"
    and cd: "\<forall>a \<in> Q. cut_new k h l = Inr (st_cut_detector (st0 a)) \<and> iter_order (en_cut_order (en a)) \<and>
      sub \<notin> set (flux_observers x (st_view (st0 a)) sub)"
    and rings: "unat h \<le> card (rings_reporting (all_reports (map al os)) (endpoint_key_of sub))"
    and next_one: "\<And>st. joiner_known A sub nid st \<Longrightarrow> next_configuration (joiner_ids st) sub (A, I) = (A', I')"
  shows "\<exists>evs t B c'. closed_run en es c A ((\<lambda>o'. (o', now, 0, trigger o')) ` set os) (actors_init st0, {}) evs = Some (t, B) \<and>
    fst ` set evs \<subseteq> Q \<union> set os \<and> sorted (map (\<lambda>ev. fst (snd ev)) evs) \<and>
    (\<forall>a \<in> Q. \<exists>st st'. an_left t a = Some (st, st') \<and> starts_in (en a) es delay c' A' I' a st')"
proof -
  let ?E = "(\<lambda>o'. (o', now, 0, trigger o')) ` set os" let ?w = "\<lambda>o'. se_batching_window (st_settings (st0 o'))"
  define T where "T = Suc (now + sum ?w (set os))"
  have T: "\<forall>o' \<in> set os. now + ?w o' < T" "now \<le> T" using member_le_sum[of _ "set os" ?w] by (auto simp: T_def less_Suc_eq_le)
  obtain evs1 z1 where z1: "block en es c A ?E (set os) now (actors_init st0, {}) evs1 z1"
    "\<forall>o' \<in> set os. starts_in (en o') es delay c A I o' (an_actors (fst z1) o') \<and> alert_queued (en o') now (st0 o') (al o') (an_actors (fst z1) o')"
    using observers_queue[OF ok starts O, of now trigger al] al by blast
  have l1: "an_left (fst z1) = (\<lambda>_. None)" using z1(1) by (simp add: block_def grows_def actors_init_def)
  obtain evs2 z2 where z2: "block en es c A ?E (set os) T z1 evs2 z2" "\<forall>o' \<in> set os. starts_in (en o') es delay c A I o' (an_actors (fst z2) o') \<and>
      same_detection (en o') (st0 o') (an_actors (fst z2) o') \<and> alert_batch o' (al o') \<in> snd z2"
    using observers_send[OF ok O l1 z1(2) T(1)] by blast
  have l2: "an_left (fst z2) = (\<lambda>_. None)" using z2(1) l1 by (simp add: block_def grows_def)
  have "starts_in (en a) es delay c A I a (an_actors (fst z2) a) \<and> same_detection (en a) (st0 a) (an_actors (fst z2) a)" if "a \<in> Q" for a
  proof (cases "a \<in> set os")
    case False
    then have "an_actors (fst z2) a = st0 a" using z1(1) z2(1) by (simp add: block_def actors_init_def)
    then show ?thesis using starts that Q(1) by (auto simp: same_detection_def)
  qed (use z2(2) in blast)
  moreover have "\<forall>o' \<in> set os. alert_about c A sub nid (al o') \<and> alert_batch o' (al o') \<in> snd z2" using al z2(2) by blast
  ultimately obtain evs3 z3 where z3: "block en es c A ?E Q T z2 evs3 z3" "\<forall>a \<in> Q. has_announced c A sub nid a z3"
    using members_announce[OF ok Q(1) l2 _ cd _ rings, where es = es and delay = delay and I = I and E = ?E and T = T] by blast
  have l3: "an_left (fst z3) = (\<lambda>_. None)" using z3(1) l2 by (simp add: block_def grows_def)
  note z23 = block_append[OF z2(1) z3(1)]
  have run3: "closed_run en es c A ?E (actors_init st0, {}) (evs1 @ evs2 @ evs3) = Some z3"
    using z1(1) z23 by (simp add: block_def closed_run_def exec_append)
  then have "actors_reachable en es c A st0 (fst z3)"
    using actors_run_reachable[OF actors_start closed_run_actors] by (metis prod.collapse)
  then obtain evs4 t B c' where z4: "closed_run en es c A ?E z3 evs4 = Some (t, B)" "\<forall>ev \<in> set evs4. fst ev \<in> Q \<and> fst (snd ev) = T"
    "\<forall>a \<in> Q. \<exists>st st'. an_left t a = Some (st, st') \<and> starts_in (en a) es delay c' A' I' a st'"
    using announced_move[OF ok starts Q _ l3 z3(2) next_one] by blast
  have "closed_run en es c A ?E (actors_init st0, {}) (evs1 @ evs2 @ evs3 @ evs4) = Some (t, B)"
    using closed_run_append[OF run3, of evs4] z4(1) by simp
  moreover have "sorted (map (\<lambda>ev. fst (snd ev)) (evs1 @ evs2 @ evs3 @ evs4))"
    using z1(1) z23 z4(2) T(2) by (intro blocks_sorted[of _ _ now _ T]) (auto simp: block_def)
  moreover have "fst ` set (evs1 @ evs2 @ evs3 @ evs4) \<subseteq> Q \<union> set os" using z1(1) z23 z4(2) by (auto simp: block_def)
  ultimately show ?thesis using z4(3) by blast
qed

end
