(* ===== verification/Removal.thy ===== *)
theory Removal
  imports Pipeline
begin

text \<open>
  The removal of a failed member, from the notifications of its observers' failure detectors to the next configuration,
  as a closed run of the actors (\<open>Pipeline\<close>).
\<close>

section \<open>The alerts of the observers\<close>

text \<open>The notifications: at the instant \<open>now\<close> the failure detectors of \<open>Obs\<close> report \<open>s\<close> in the configuration \<open>c\<close>.\<close>

definition failure_notices :: "i64 \<Rightarrow> endpoint \<Rightarrow> nat \<Rightarrow> endpoint set \<Rightarrow> actor_event set" where
  "failure_notices c s now Obs = (\<lambda>o'. (o', now, 0, EdgeFailureCommand (EdgeFailure s c))) ` Obs"

lemma failure_queued:
  assumes "parts_inv en es st" "c = true_configuration_id (en_xxh64 en) (st_view st)" "st_send_queue st = []" "st_my_addr st = a"
  shows "queues_alert en now st (EdgeFailureCommand (EdgeFailure s c)) (failure_alert en (st_view st) a s)"
proof -
  let ?st = "handle_edge_failure en now st (EdgeFailure s c)"
  have "snd (configuration_id en st) = c" using configuration_id_true[OF assms(1)] assms(2) by simp
  then have "st_last_enqueue_at ?st = Some now \<and> st_lifecycle ?st = st_lifecycle st \<and> st_settings ?st = st_settings st \<and>
      st_cut_detector ?st = st_cut_detector st \<and> st_view ?st = fst (current_configuration_id (en_xxh64 en) (st_view st))"
    by (simp add: handle_edge_failure_def enqueue_alert_def configuration_id_eq Let_def split_beta)
  moreover have "st_send_queue ?st = [failure_alert en (st_view st) a s]"
    using handle_edge_failure_queue[OF assms(1)] assms(2-4) by (simp add: failure_alert_def)
  ultimately show ?thesis
    by (simp add: queues_alert_def outside_input_def alert_queued_def same_detection_def handle_command_def fun_eq_iff Let_def)
qed

text \<open>A member is none of its own observers.\<close>

lemma member_observers:
  assumes "view_inv x v" "cache_coherent x v" "s \<in> members v" "2 \<le> card (members v)"
  shows "s \<notin> set (flux_observers x v s)"
proof -
  have p: "is_host_present v s" using assms(3) by (simp add: members_def)
  obtain f where f: "f \<in> members v" "f \<noteq> s"
    using assms(4) by (metis card_2_iff' card_le_Suc0_iff_eq card.infinite not_less_eq_eq numeral_2_eq_2 zero_le)
  have "flux_observers x v s = compute_observers_of x v s"
    using assms(2) p unfolding cache_coherent_def
    by (auto simp: flux_observers_def get_observers_of_def Let_def split: option.split)
  then show ?thesis
    using neighbours_distinct(1)[OF assms(1,3) f] by (simp add: compute_observers_map[OF assms(1,4)]) force
qed

lemma failed_member_leaves:
  assumes ok: "cluster_ok x en A" and starts: "\<forall>a \<in> A. starts_in (en a) es delay c A I a (st0 a)"
    and rings: "\<forall>a \<in> A. mv_k (st_view (st0 a)) = k"
    and "s \<in> A" "2 \<le> card A" "b \<in> A" "Q \<subseteq> A" "fast_quorum (card A) \<le> card Q"
    and cd: "\<forall>a \<in> Q. cut_new k h l = Inr (st_cut_detector (st0 a)) \<and> iter_order (en_cut_order (en a)) \<and> cache_coherent x (st_view (st0 a))"
    and O: "Obs \<subseteq> set (compute_observers_of x (st_view (st0 b)) s)" "\<forall>o' \<in> Obs. st_send_queue (st0 o') = []"
      "unat h \<le> card {i. i < unat k \<and> compute_observers_of x (st_view (st0 b)) s ! i \<in> Obs}"
  shows "\<exists>evs t B c'. closed_run en es c A (failure_notices c s now Obs) (actors_init st0, {}) evs = Some (t, B) \<and>
    fst ` set evs \<subseteq> Q \<union> Obs \<and> sorted (map (\<lambda>ev. fst (snd ev)) evs) \<and>
    (\<forall>a \<in> Q. \<exists>st st'. an_left t a = Some (st, st') \<and> starts_in (en a) es delay c' (A - {s}) I a st')"
proof -
  let ?v = "st_view (st0 b)" let ?al = "\<lambda>o'. failure_alert (en b) ?v o' s"
  have st: "starts_in (en d) es delay c A I d (st0 d)" if "d \<in> A" for d using starts that by blast
  note f = starts_facts[OF ok st] and fb = starts_facts[OF ok st[OF assms(6)] assms(6)]
  have sz: "2 \<le> card (members ?v)" "2 \<le> membership_size ?v" using fb(2,7) assms(5) by (simp_all add: membership_size_card)
  have OA: "Obs \<subseteq> A" using O(1) observers_are_members(2)[OF fb(7) sz(1), of s] fb(2) by auto
  then obtain os where os: "set os = Obs" using ok finite_list finite_subset by (metis cluster_ok_def)
  have "queues_alert (en o') now (st0 o') (EdgeFailureCommand (EdgeFailure s c)) (?al o') \<and> alert_about c A s nid (?al o')"
    if "o' \<in> Obs" for o' nid
  proof -
    have o': "o' \<in> A" using OA that by blast
    have "failure_alert (en o') (st_view (st0 o')) o' s = ?al o'"
      using failure_alert_canonical[of "en b" ?v "st_view (st0 o')" "en o'" o' s] f[OF o' o'] fb rings assms(4-6) o' sz by simp
    then show ?thesis
      using failure_queued[OF f(1)[OF o' o'], of c o' now s] f[OF o' o'] fb(8,10) O(2) that assms(4)
      by (simp add: alert_about_def failure_alert_def)
  qed
  moreover have "s \<notin> set (flux_observers x (st_view (st0 a)) s)" if "a \<in> Q" for a
    using member_observers[OF f(7)] f(2) cd that assms(4,5,7) by auto
  moreover have "unat h \<le> card (rings_reporting (all_reports (map ?al os)) (endpoint_key_of s))"
  proof -
    have m: "set (map ?al os) = (\<lambda>a. failure_alert (en b) ?v a s) ` Obs" by (simp add: os)
    have i: "{i. i < unat k \<and> compute_observers_of x ?v s ! i \<in> Obs} \<subseteq> {..<unat k}" by auto
    have "rings_reporting (all_reports (map ?al os)) (endpoint_key_of s) =
        of_nat ` {i. i < unat k \<and> compute_observers_of x ?v s ! i \<in> Obs}"
      using observers_report_rings(1)[of "en b" ?v s Obs, OF _ sz(2) _ _ m] fb rings assms(4,6) OA by simp
    then show ?thesis using O(3) card_rings[OF i] by simp
  qed
  moreover have "s \<in> set es" using f(1,2)[OF assms(4,4)] assms(4) by (auto simp: parts_inv_def view_inv_over_def)
  moreover have "set os \<subseteq> A" using os OA by simp
  ultimately show ?thesis
    using subject_moves[OF ok starts assms(7,8), of s os now "\<lambda>_. EdgeFailureCommand (EdgeFailure s c)" ?al undefined k h l "A - {s}" I] cd assms(4)
    unfolding failure_notices_def os by (simp add: next_configuration_def)
qed

section \<open>Results\<close>

text \<open>
  C3. A failed member is removed. Take a configuration of two or more members with the same number of rings, each
  just started in it, and a fast quorum \<open>Q\<close> of them with fresh cut detectors and coherent observer caches. Let \<open>Obs\<close> be observers of a
  member \<open>s\<close> that cover at least H rings and whose alert queues are empty. There is a run in which the only commands from
  outside are the notifications of their failure detectors: everything else is a tick of a batcher or a request that a
  member broadcast before, the instants ascend, and only members of \<open>Q\<close> and \<open>Obs\<close> do anything (the others, \<open>s\<close> among them,
  may have stopped). After it every member of \<open>Q\<close> has left the configuration and started in one and the same next
  one, whose members are the old ones without \<open>s\<close>.
\<close>

theorem failed_member_removed:
  assumes "cluster_ok x en A" and "\<forall>a \<in> A. starts_in (en a) es delay c A I a (st0 a)"
    and "\<forall>a \<in> A. mv_k (st_view (st0 a)) = k"
    and "s \<in> A" and "2 \<le> card A" and "b \<in> A" and "Q \<subseteq> A" and "fast_quorum (card A) \<le> card Q"
    and "\<forall>a \<in> Q. cut_new k h l = Inr (st_cut_detector (st0 a)) \<and> iter_order (en_cut_order (en a)) \<and> cache_coherent x (st_view (st0 a))"
    and "Obs \<subseteq> set (compute_observers_of x (st_view (st0 b)) s)" and "\<forall>o' \<in> Obs. st_send_queue (st0 o') = []"
    and "unat h \<le> card {i. i < unat k \<and> compute_observers_of x (st_view (st0 b)) s ! i \<in> Obs}"
  shows "\<exists>evs t B c'. closed_run en es c A (failure_notices c s now Obs) (actors_init st0, {}) evs = Some (t, B) \<and>
    fst ` set evs \<subseteq> Q \<union> Obs \<and> sorted (map (\<lambda>ev. fst (snd ev)) evs) \<and>
    (\<forall>a \<in> Q. \<exists>st st'. an_left t a = Some (st, st') \<and> starts_in (en a) es delay c' (A - {s}) I a st')"
  using assms by (rule failed_member_leaves)

text \<open>Five members, the fifth of which fails.\<close>

definition five_universe :: "endpoint list" where
  "five_universe = map demo_ep [1, 2, 3, 4, 5]"

definition five_view :: membership_view where
  "five_view = (case view_bootstrap first_byte_hash 3 (map demo_nid [1, 2, 3, 4, 5]) five_universe of Inr v \<Rightarrow> v)"

definition five_start :: "endpoint \<Rightarrow> service_state" where
  "five_start a = fst (install_fast_paxos pair_env (with_broadcaster
     (service_state_new a five_view demo_cut metadata_new settings_for_tests)))"

definition five_config :: i64 where
  "five_config = true_configuration_id first_byte_hash five_view"

lemma five_view_facts:
  "view_inv_over first_byte_hash five_universe five_view" "members five_view = set five_universe"
  "identifiers_seen five_view = set (map demo_nid [1, 2, 3, 4, 5])" "mv_k five_view = 3"
proof -
  have b: "view_bootstrap first_byte_hash 3 (map demo_nid [1, 2, 3, 4, 5]) five_universe = Inr five_view"
    by (simp add: five_view_def view_bootstrap_def view_new_def)
  have "no_collisions first_byte_hash 3 five_universe" by code_simp
  note f = view_bootstrap_inv[OF b this]
  show "view_inv_over first_byte_hash five_universe five_view" "members five_view = set five_universe"
    "identifiers_seen five_view = set (map demo_nid [1, 2, 3, 4, 5])" "mv_k five_view = 3"
    using f by simp_all
qed

lemma five_starts:
  "\<forall>a \<in> set five_universe. starts_in pair_env five_universe 300 five_config (set five_universe)
     (set (map demo_nid [1, 2, 3, 4, 5])) a (five_start a)"
  using new_member_starts[OF five_view_facts(1)] five_view_facts(2,3)
  by (auto simp: five_start_def five_config_def five_universe_def)

lemma five_cluster_ok: "cluster_ok first_byte_hash (\<lambda>_. pair_env) (set five_universe)"
proof -
  have "distinct (map (stable_node_index first_byte_hash) five_universe)"
    "distinct (map (endpoint_to_socket_addr pair_env) five_universe)" by code_simp+
  then have "inj_on (stable_node_index first_byte_hash) (set five_universe)"
    "inj_on (endpoint_to_socket_addr pair_env) (set five_universe)" by (simp_all add: distinct_map)
  moreover have "five_universe \<noteq> []" "en_xxh64 pair_env = first_byte_hash" "iter_order (en_proposal_order pair_env)"
    by (simp_all add: five_universe_def pair_env_def demo_env_def)
  ultimately show ?thesis unfolding cluster_ok_def by (auto dest: inj_onD)
qed

lemma five_start_facts:
  "st_view (five_start a) = fst (current_configuration_id first_byte_hash five_view)" "st_cut_detector (five_start a) = demo_cut"
  "st_send_queue (five_start a) = []"
  by (simp_all add: five_start_def install_fast_paxos_def with_broadcaster_def service_state_new_def reinstate_fast_paxos_def
      configuration_id_eq pair_env_def demo_env_def Let_def split_beta)

lemma five_observers:
  "mv_cached_observers five_view = fmempty" "compute_observers_of first_byte_hash five_view (demo_ep 5) = replicate 3 (demo_ep 1)"
  by code_simp+

theorem failed_member_removed_witness:
  "\<exists>evs t B c'. closed_run (\<lambda>_. pair_env) five_universe five_config (set five_universe)
       (failure_notices five_config (demo_ep 5) 7 {demo_ep 1}) (actors_init five_start, {}) evs = Some (t, B) \<and>
     fst ` set evs \<subseteq> set (map demo_ep [1, 2, 3, 4]) \<union> {demo_ep 1} \<and> sorted (map (\<lambda>ev. fst (snd ev)) evs) \<and>
     (\<forall>a \<in> set (map demo_ep [1, 2, 3, 4]). \<exists>st st'. an_left t a = Some (st, st') \<and>
        starts_in pair_env five_universe 300 c' (set five_universe - {demo_ep 5}) (set (map demo_nid [1, 2, 3, 4, 5])) a st')"
proof (rule failed_member_removed[OF five_cluster_ok five_starts])
  have o: "compute_observers_of first_byte_hash (st_view (five_start a)) (demo_ep 5) = replicate 3 (demo_ep 1)" for a
    using five_observers(2) by (simp add: five_start_facts(1) compute_observers_of_def split: if_splits)
  show "\<forall>a \<in> set five_universe. mv_k (st_view (five_start a)) = 3" using five_view_facts(4) by (simp add: five_start_facts)
  show "\<forall>a \<in> set (map demo_ep [1, 2, 3, 4]). cut_new 3 2 1 = Inr (st_cut_detector (five_start a)) \<and>
      iter_order (en_cut_order pair_env) \<and> cache_coherent first_byte_hash (st_view (five_start a))"
    using demo_cut_new five_observers(1) by (simp add: five_start_facts pair_env_def demo_env_def cache_coherent_def)
  show "2 \<le> card (set five_universe)" "fast_quorum (card (set five_universe)) \<le> card (set (map demo_ep [1, 2, 3, 4]))" by code_simp+
  show "{demo_ep 1} \<subseteq> set (compute_observers_of first_byte_hash (st_view (five_start (demo_ep 1))) (demo_ep 5))" by (simp add: o)
  have "{i. i < unat (3 :: u8) \<and> replicate 3 (demo_ep 1) ! i \<in> {demo_ep 1}} = {..<3}" by auto
  then show "unat (2 :: u8) \<le> card {i. i < unat (3 :: u8) \<and>
      compute_observers_of first_byte_hash (st_view (five_start (demo_ep 1))) (demo_ep 5) ! i \<in> {demo_ep 1}}" unfolding o by simp
qed (simp_all add: five_universe_def five_start_facts)

end
