(* ===== verification/Admission.thy ===== *)
theory Admission
  imports Pipeline
begin

text \<open>
  The admission of a joiner, from its second-phase requests at its expected observers (\<open>Join\<close>, \<open>Service\<close>) to the next
  configuration, as a closed run of the actors (\<open>Pipeline\<close>).
\<close>

section \<open>The alerts of a join\<close>

text \<open>The joiner's phase-2 requests: each observer gets one request with the rings it is listed for.\<close>

definition phase2_message :: "socket_addr \<Rightarrow> node_id \<Rightarrow> configuration_id \<Rightarrow> metadata \<Rightarrow> endpoint list \<Rightarrow> endpoint \<Rightarrow> join_message" where
  "phase2_message addr nid c meta obs a = \<lparr>jm_sender = Some (endpoint_from_socket addr), jm_node_id = Some nid,
     jm_ring_number = the (fmlookup (group_observers obs) (endpoint_key_of a)), jm_configuration_id = c, jm_metadata = Some meta\<rparr>"

definition phase2_requests ::
  "socket_addr \<Rightarrow> node_id \<Rightarrow> configuration_id \<Rightarrow> metadata \<Rightarrow> endpoint list \<Rightarrow> reply_id \<Rightarrow> nat \<Rightarrow> endpoint set \<Rightarrow> actor_event set" where
  "phase2_requests addr nid c meta obs r now Obs =
     (\<lambda>a. (a, now, 0, Request (RapidRequest (Some (JoinMessage (phase2_message addr nid c meta obs a)))) r)) ` Obs"

text \<open>These are the messages of \<^verbatim>\<open>run_join_protocol\<close>.\<close>

lemma phase2_message_sent:
  "join_request addr nid c meta (the (fmlookup (group_observers obs) (endpoint_key_of a))) =
     RapidRequest (Some (JoinMessage (phase2_message addr nid c meta obs a)))"
  by (simp add: join_request_def phase2_message_def)

definition up_alert :: "endpoint \<Rightarrow> node_id \<Rightarrow> configuration_id \<Rightarrow> metadata \<Rightarrow> endpoint list \<Rightarrow> endpoint \<Rightarrow> alert_message" where
  "up_alert j nid c meta obs a = \<lparr>al_edge_src = Some a, al_edge_dst = Some j, al_edge_status = edge_status_num Up,
     al_configuration_id = c, al_ring_number = map of_nat (ring_positions obs a), al_node_id = Some nid, al_metadata = Some meta\<rparr>"

lemma join_queued:
  assumes "parts_inv en es st" "c = true_configuration_id (en_xxh64 en) (st_view st)" "st_my_addr st = a" "a \<in> set obs"
    "st_send_queue st = []" "st_lifecycle st = Running"
  shows "queues_alert en now st (Request (RapidRequest (Some (JoinMessage (phase2_message addr nid c meta obs a)))) r)
    (up_alert (endpoint_from_socket addr) nid c meta obs a)"
proof -
  let ?st = "fst (handle_join en now st (phase2_message addr nid c meta obs a) r)"
  have "snd (configuration_id en st) = c" using configuration_id_true[OF assms(1)] assms(2) by simp
  then have "st_send_queue ?st = [up_alert (endpoint_from_socket addr) nid c meta obs a] \<and> st_last_enqueue_at ?st = Some now \<and>
      st_lifecycle ?st = st_lifecycle st \<and> st_settings ?st = st_settings st \<and> st_cut_detector ?st = st_cut_detector st \<and>
      st_view ?st = fst (current_configuration_id (en_xxh64 en) (st_view st))"
    using assms(3-5) group_observers_lookup[of obs a]
    by (simp add: handle_join_def phase2_message_def up_alert_def enqueue_alert_def configuration_id_eq Let_def split_beta)
  then show ?thesis
    using assms(6)
    by (simp add: queues_alert_def outside_input_def alert_queued_def same_detection_def handle_command_def handle_request_def
        fun_eq_iff Let_def split_beta)
qed

lemma up_alerts_report_rings:
  assumes "set msgs = up_alert j nid c meta obs ` Obs" "length obs = unat (k :: u8)"
  shows "rings_reporting (all_reports msgs) (endpoint_key_of j) = of_nat ` {i. i < unat k \<and> obs ! i \<in> Obs}"
proof -
  have u: "(ucast (of_nat i :: i32) :: u8) = of_nat i" for i
    by (rule bit_word_eqI) (simp add: bit_simps)
  have "set (all_reports msgs) = (\<Union>a \<in> Obs. (\<lambda>i. (a, j, Up, of_nat i)) ` set (ring_positions obs a))"
    by (simp add: all_reports_def assms(1) alert_reports_def up_alert_def u image_image)
  also have "\<dots> = (\<lambda>i. (obs ! i, j, Up, of_nat i)) ` {i. i < unat k \<and> obs ! i \<in> Obs}"
    using assms(2) by (force simp: ring_positions_def)
  finally show ?thesis unfolding rings_reporting_def by auto
qed

lemma expected_observers_are_members:
  assumes "view_inv x v" "members v \<noteq> {}"
  shows "length (get_expected_observers_of x v j) = unat (mv_k v)" "set (get_expected_observers_of x v j) \<subseteq> members v"
proof -
  have "membership_size v \<noteq> 0" using assms by (simp add: membership_size_card)
  then have "get_expected_observers_of x v j = map (\<lambda>r. the (predecessor x r j)) (mv_rings v)"
    using predecessors_map[OF assms] by (simp add: get_expected_observers_of_def membership_size_def)
  then show "length (get_expected_observers_of x v j) = unat (mv_k v)" "set (get_expected_observers_of x v j) \<subseteq> members v"
    using view_ring_ex(4)[OF assms] assms(1) by (auto simp: view_inv_def view_wf_def)
qed

text \<open>Phase 1 names the expected observers.\<close>

lemma pre_join_observers:
  assumes "pj_sender m = Some j" "pj_node_id m = Some nid" "j \<notin> members (st_view st)" "nid \<notin> identifiers_seen (st_view st)"
  shows "jr_endpoints (snd (handle_pre_join en st m)) = get_expected_observers_of (en_xxh64 en) (st_view st) j"
  using assms by (auto simp: handle_pre_join_def is_safe_to_join_def members_def identifiers_seen_def is_identifier_present_def
      configuration_id_eq get_expected_observers_of_def predecessors_of_def Let_def split_beta)

lemma joiner_moves_in:
  assumes ok: "cluster_ok x en A" and starts: "\<forall>a \<in> A. starts_in (en a) es delay c A I a (st0 a)"
    and rings: "\<forall>a \<in> A. mv_k (st_view (st0 a)) = k"
    and j: "j = endpoint_from_socket addr" "j \<notin> A" "j \<in> set es" "nid \<notin> I" and "b \<in> A" "Q \<subseteq> A" "fast_quorum (card A) \<le> card Q"
    and obs: "obs = get_expected_observers_of x (st_view (st0 b)) j"
    and cd: "\<forall>a \<in> Q. cut_new k h l = Inr (st_cut_detector (st0 a)) \<and> iter_order (en_cut_order (en a))"
    and O: "Obs \<subseteq> set obs" "\<forall>o' \<in> Obs. st_send_queue (st0 o') = []" "unat h \<le> card {i. i < unat k \<and> obs ! i \<in> Obs}"
  shows "\<exists>evs t B c'. closed_run en es c A (phase2_requests addr nid c meta obs r now Obs) (actors_init st0, {}) evs = Some (t, B) \<and>
    fst ` set evs \<subseteq> Q \<union> Obs \<and> sorted (map (\<lambda>ev. fst (snd ev)) evs) \<and>
    (\<forall>a \<in> Q. \<exists>st st'. an_left t a = Some (st, st') \<and> starts_in (en a) es delay c' (insert j A) (insert nid I) a st')"
proof -
  let ?al = "up_alert j nid c meta obs"
  let ?cmd = "\<lambda>a. Request (RapidRequest (Some (JoinMessage (phase2_message addr nid c meta obs a)))) r"
  have st: "starts_in (en d) es delay c A I d (st0 d)" if "d \<in> A" for d using starts that by blast
  note f = starts_facts[OF ok st] and fb = starts_facts[OF ok st[OF assms(8)] assms(8)]
  have ne: "members (st_view (st0 a)) \<noteq> {}" if "a \<in> A" for a using f(2)[OF that that] that by auto
  note m = expected_observers_are_members[OF fb(7) ne[OF assms(8)], of j]
  have OA: "Obs \<subseteq> A" using O(1) m(2) fb(2) by (auto simp: obs)
  then obtain os where os: "set os = Obs" using ok finite_list finite_subset by (metis cluster_ok_def)
  have "queues_alert (en o') now (st0 o') (?cmd o') (?al o') \<and> alert_about c A j nid (?al o')" if "o' \<in> Obs" for o'
  proof -
    have o': "o' \<in> A" "o' \<in> set obs" using OA O(1) that by auto
    show ?thesis
      using join_queued[OF f(1)[OF o'(1,1)] _ f(4)[OF o'(1,1)] o'(2)] f[OF o'(1,1)] O(2) that j(1,2)
      by (simp add: alert_about_def up_alert_def)
  qed
  moreover have "j \<notin> set (flux_observers x (st_view (st0 a)) j)" if "a \<in> Q" for a
  proof -
    have a: "a \<in> A" using that assms(9) by blast
    have "\<not> is_host_present (st_view (st0 a)) j" using f(2)[OF a a] j(2) by (auto simp: members_def)
    then show ?thesis using expected_observers_are_members(2)[OF f(7)[OF a a] ne[OF a], of j] f(2)[OF a a] j(2)
      by (auto simp: flux_observers_def)
  qed
  moreover have "unat h \<le> card (rings_reporting (all_reports (map ?al os)) (endpoint_key_of j))"
  proof -
    have l: "length obs = unat k" using m(1) rings assms(8) by (simp add: obs)
    have i: "{i. i < unat k \<and> obs ! i \<in> Obs} \<subseteq> {..<unat k}" by auto
    show ?thesis using up_alerts_report_rings[OF _ l, of "map ?al os" j nid c meta Obs] card_rings[OF i] O(3) by (simp add: os)
  qed
  moreover have "set os \<subseteq> A" using os OA by simp
  moreover have "next_configuration (joiner_ids st) j (A, I) = (insert j A, insert nid I)" if "joiner_known A j nid st" for st
    using that j by (simp add: joiner_known_def next_configuration_def joiner_ids_def)
  ultimately show ?thesis
    using subject_moves[OF ok starts assms(9,10) j(3), of os now ?cmd ?al nid k h l "insert j A" "insert nid I"] cd
    unfolding phase2_requests_def os by simp
qed

section \<open>Properties\<close>

text \<open>
  C4. A joiner is admitted. Take a configuration whose members, all with \<open>k\<close> rings, have just started in it, a
  fast quorum \<open>Q\<close> of them with fresh cut detectors, and a joiner with a fresh address and identifier. Let \<open>Obs\<close> be some of
  the observers that a member's phase-1 answer (\<open>handle_pre_join\<close>) gives the joiner, covering at least H rings, with empty alert queues. There is a run in which the only commands from outside are the
  joiner's phase-2 requests at them: everything else is a tick of a batcher or a request that a member broadcast before,
  the instants ascend, and only members of \<open>Q\<close> and \<open>Obs\<close> do anything. After it every member of \<open>Q\<close> has left the
  configuration and started in one and the same next one, whose members are the old ones and the joiner and which has seen the
  joiner's identifier.
\<close>

theorem joiner_admitted:
  assumes "cluster_ok x en A" and "\<forall>a \<in> A. starts_in (en a) es delay c A I a (st0 a)"
    and "\<forall>a \<in> A. mv_k (st_view (st0 a)) = k"
    and "j = endpoint_from_socket addr" "j \<notin> A" "j \<in> set es" "nid \<notin> I" and "b \<in> A" and "Q \<subseteq> A" and "fast_quorum (card A) \<le> card Q"
    and "pj_sender m = Some j" "pj_node_id m = Some nid" "obs = jr_endpoints (snd (handle_pre_join (en b) (st0 b) m))"
    and "\<forall>a \<in> Q. cut_new k h l = Inr (st_cut_detector (st0 a)) \<and> iter_order (en_cut_order (en a))"
    and "Obs \<subseteq> set obs" and "\<forall>o' \<in> Obs. st_send_queue (st0 o') = []" and "unat h \<le> card {i. i < unat k \<and> obs ! i \<in> Obs}"
  shows "\<exists>evs t B c'. closed_run en es c A (phase2_requests addr nid c meta obs r now Obs) (actors_init st0, {}) evs = Some (t, B) \<and>
    fst ` set evs \<subseteq> Q \<union> Obs \<and> sorted (map (\<lambda>ev. fst (snd ev)) evs) \<and>
    (\<forall>a \<in> Q. \<exists>st st'. an_left t a = Some (st, st') \<and> starts_in (en a) es delay c' (insert j A) (insert nid I) a st')"
proof -
  have "starts_in (en b) es delay c A I b (st0 b)" using assms(2,8) by blast
  note f = starts_facts[OF assms(1) this assms(8)]
  have "obs = get_expected_observers_of x (st_view (st0 b)) j"
    using pre_join_observers[OF assms(11,12), of "st0 b" "en b"] f(2,3,8) assms(5,7,13) by simp
  then show ?thesis by (intro joiner_moves_in[OF assms(1-10) _ assms(14-17)])
qed

lemma pair_start_facts:
  "st_view (pair_start a) = fst (current_configuration_id first_byte_hash pair_view)" "st_cut_detector (pair_start a) = demo_cut"
  "st_send_queue (pair_start a) = []"
  by (simp_all add: pair_start_def pair_member_def install_fast_paxos_def with_broadcaster_def service_state_new_def
      reinstate_fast_paxos_def configuration_id_eq pair_env_def demo_env_def Let_def split_beta)

lemma pair_observers: "get_expected_observers_of first_byte_hash pair_view (demo_ep 4) = replicate 3 (demo_ep 2)"
  by code_simp

theorem joiner_admitted_witness:
  "\<exists>evs t B c'. closed_run (\<lambda>_. pair_env) pair_universe pair_config pair_members
       (phase2_requests ([4], 4) (demo_nid 4) pair_config fmempty (replicate 3 (demo_ep 2)) 9 7 {demo_ep 2}) (actors_init pair_start, {}) evs = Some (t, B) \<and>
     fst ` set evs \<subseteq> pair_members \<union> {demo_ep 2} \<and> sorted (map (\<lambda>ev. fst (snd ev)) evs) \<and>
     (\<forall>a \<in> pair_members. \<exists>st st'. an_left t a = Some (st, st') \<and>
        starts_in pair_env pair_universe 300 c' (insert (demo_ep 4) pair_members) (insert (demo_nid 4) (set (map demo_nid [1, 2]))) a st')"
proof (rule joiner_admitted[OF pair_cluster_ok pair_starts])
  let ?m = "\<lparr>pj_sender = Some (demo_ep 4), pj_node_id = Some (demo_nid 4), pj_ring_number = [], pj_configuration_id = 0\<rparr>"
  have p: "demo_ep 4 \<notin> members (st_view (pair_start (demo_ep 1)))" "demo_nid 4 \<notin> identifiers_seen (st_view (pair_start (demo_ep 1)))"
    using pair_starts by (simp_all add: starts_in_def pair_members_def demo_nid_def demo_ep_def)
  show "replicate 3 (demo_ep 2) = jr_endpoints (snd (handle_pre_join pair_env (pair_start (demo_ep 1)) ?m))"
    using pre_join_observers[OF _ _ p, of ?m pair_env] pair_observers
    by (simp add: pair_start_facts(1) get_expected_observers_of_def predecessors_of_def pair_env_def demo_env_def split: if_splits)
  show "\<forall>a \<in> pair_members. mv_k (st_view (pair_start a)) = 3" using pair_view_facts(4) by (simp add: pair_start_facts)
  show "\<forall>a \<in> pair_members. cut_new 3 2 1 = Inr (st_cut_detector (pair_start a)) \<and> iter_order (en_cut_order pair_env)"
    using demo_cut_new by (simp add: pair_start_facts pair_env_def demo_env_def)
  have "{i. i < unat (3 :: u8) \<and> replicate 3 (demo_ep 2) ! i \<in> {demo_ep 2}} = {..<3}" by auto
  then show "unat (2 :: u8) \<le> card {i. i < unat (3 :: u8) \<and> replicate 3 (demo_ep 2) ! i \<in> {demo_ep 2}}" by simp
  show "demo_ep 4 = endpoint_from_socket ([4], 4)" by code_simp
  show "fast_quorum (card pair_members) \<le> card pair_members"
    by (simp add: pair_members_def fast_quorum_def card_insert_if)
  show "demo_ep 4 \<notin> pair_members" by code_simp
qed (simp_all add: pair_universe_def pair_members_def demo_nid_def pair_start_facts)

end
