(* ===== verification/Fallback.thy ===== *)
theory Fallback
  imports Consensus
begin

text \<open>
  Progress of the classic fallback (\<^verbatim>\<open>start_classic_round\<close> of \<^verbatim>\<open>fast_paxos.rs\<close> and the phases of
  \<^verbatim>\<open>paxos.rs\<close>) in the network of \<open>Consensus\<close>: from a reachable state a coordinator and a majority of the
  members, one of which has voted, can decide, whatever the others have done so far.
\<close>

section \<open>What a delivery does\<close>

definition px_at :: "consensus_net \<Rightarrow> endpoint \<Rightarrow> paxos" where
  "px_at s d = fp_paxos (cn_nodes s d)"

fun net_actor :: "net_event \<Rightarrow> endpoint" where
  "net_actor (NetPropose a _ _) = a"
| "net_actor (NetStart a) = a"
| "net_actor (NetDeliver a _) = a"

lemma px_at_deliver:
  assumes "handle_consensus_message (cn_nodes s d) req = handle_paxos (cn_nodes s d) (p, outs)"
  shows "px_at (net_apply x A s (NetDeliver d req)) = (px_at s)(d := p)"
    "cn_sent (net_apply x A s (NetDeliver d req)) = cn_sent s \<union> (\<Union>out \<in> set outs. addressed A (wrap out))"
    "cn_decisions (net_apply x A s (NetDeliver d req)) = cn_decisions s \<union> Pair d ` set (decided_values (map wrap outs))"
    "cn_consumed (net_apply x A s (NetDeliver d req)) = insert (d, req) (cn_consumed s)"
  by (auto simp: px_at_def assms absorb_def fun_eq_iff)

lemma staticD:
  assumes "node_static c A d (cn_nodes s d)"
  shows "px_my_addr (px_at s d) = d" "px_configuration_id (px_at s d) = c" "px_n (px_at s d) = card A"
  using assms by (simp_all add: node_static_def px_at_def)

lemma deliver_1a:
  assumes "node_static c A d (cn_nodes s d)" "px_rnd (px_at s d) < r"
  shows "handle_consensus_message (cn_nodes s d) (p1a_req c a r) = handle_paxos (cn_nodes s d)
    ((px_at s d)\<lparr>px_rnd := r\<rparr>, [PxUnicast a (p1b_req c d r (px_vrnd (px_at s d), px_vval (px_at s d)))])"
  using assms staticD[OF assms(1)]
  by (simp add: handle_consensus_message_def handle_phase1a_def req_defs px_at_def Let_def)

definition held_1b :: "consensus_net \<Rightarrow> endpoint \<Rightarrow> phase1b_message \<Rightarrow> paxos" where
  "held_1b s a m = (px_at s a)\<lparr>px_phase1b_messages := px_phase1b_messages (px_at s a) @ [m]\<rparr>"

lemma deliver_1b:
  assumes "node_static c A a (cn_nodes s a)" "px_crnd (px_at s a) = r" "p = held_1b s a (p1b_msg c d r l)"
    and "v = select_proposal_from_messages (px_phase1b_messages p) (card A)"
  shows "handle_consensus_message (cn_nodes s a) (p1b_req c d r l) = handle_paxos (cn_nodes s a)
    (if length (px_phase1b_messages p) \<le> card A div 2 \<or> px_cval p \<noteq> [] \<or> v = [] then (p, [])
     else (p\<lparr>px_cval := v\<rparr>, [PxBroadcast (p2a_req c a r v)]))"
  using assms staticD[OF assms(1)]
  by (auto simp: handle_consensus_message_def handle_phase1b_def held_1b_def req_defs px_at_def
      select_proposal_using_coordinator_rule_def Let_def)

lemma deliver_2a:
  assumes "node_static c A d (cn_nodes s d)" "px_rnd (px_at s d) \<le> r" "px_vrnd (px_at s d) \<noteq> r"
  shows "handle_consensus_message (cn_nodes s d) (p2a_req c a r v) = handle_paxos (cn_nodes s d)
    ((px_at s d)\<lparr>px_rnd := r, px_vrnd := r, px_vval := v\<rparr>, [PxBroadcast (p2b_req c d r v)])"
  using assms staticD[OF assms(1)]
  by (simp add: handle_consensus_message_def handle_phase2a_def req_defs px_at_def Let_def)

lemma deliver_2b:
  assumes "node_static c A d (cn_nodes s d)"
  obtains p outs where
    "handle_consensus_message (cn_nodes s d) (p2b_req c e r v) = handle_paxos (cn_nodes s d) (p, outs)"
    "px_decided (px_at s d) \<Longrightarrow> p = px_at s d"
    "\<not> px_decided (px_at s d) \<Longrightarrow> fmdom (bucket_of p r) = finsert (endpoint_key_of e) (fmdom (bucket_of (px_at s d) r))"
    "\<not> px_decided (px_at s d) \<Longrightarrow> px_decided p \<Longrightarrow> outs = [PxDecision v]"
    "\<not> px_decided p \<Longrightarrow> fm_len (bucket_of p r) \<le> card A div 2"
proof -
  have "handle_consensus_message (cn_nodes s d) (p2b_req c e r v) = handle_paxos (cn_nodes s d)
    (handle_phase2b (px_at s d) \<lparr>p2b_sender = Some e, p2b_configuration_id = c, p2b_rnd = Some r, p2b_endpoints = v\<rparr>)"
    by (simp add: handle_consensus_message_def p2b_req_def px_at_def)
  then show thesis
    using that[of "fst (handle_phase2b (px_at s d) \<lparr>p2b_sender = Some e, p2b_configuration_id = c, p2b_rnd = Some r, p2b_endpoints = v\<rparr>)"
        "snd (handle_phase2b (px_at s d) \<lparr>p2b_sender = Some e, p2b_configuration_id = c, p2b_rnd = Some r, p2b_endpoints = v\<rparr>)"]
      staticD[OF assms]
    by (auto simp: handle_phase2b_def bucket_of_def fm_get_or_def Let_def split: if_splits)
qed

section \<open>Runs that deliver to one member after the other\<close>

lemma net_run_append:
  "net_run x A s (evs @ evs') = (case net_run x A s evs of None \<Rightarrow> None | Some t \<Rightarrow> net_run x A t evs')"
  by (induction evs arbitrary: s) auto

lemma deliver_each:
  assumes "finite A" "inj_on (stable_node_index x) A" and inv: "net_inv x c A s" "P {} s" and "distinct ds"
    and step: "\<And>D d t. net_inv x c A t \<Longrightarrow> P D t \<Longrightarrow> d \<in> set ds \<Longrightarrow> d \<notin> D \<Longrightarrow>
      net_enabled A t (ev d) \<and> P (insert d D) (net_apply x A t (ev d))"
  shows "\<exists>t. net_run x A s (map ev ds) = Some t \<and> net_inv x c A t \<and> P (set ds) t"
proof -
  have "\<exists>t. net_run x A s (map ev es) = Some t \<and> net_inv x c A t \<and> P (D \<union> set es) t"
    if "net_inv x c A s" "P D s" "distinct es" "set es \<subseteq> set ds - D" for es D s
    using that
  proof (induction es arbitrary: s D)
    case (Cons d es)
    have "net_enabled A s (ev d)" "P (insert d D) (net_apply x A s (ev d))" using step[OF Cons.prems(1,2)] Cons.prems(4) by auto
    then show ?case
      using Cons.IH[of "net_apply x A s (ev d)" "insert d D"] net_inv_next[OF Cons.prems(1) assms(1,2)] Cons.prems by auto
  qed simp
  then show ?thesis using assms(5) inv by fastforce
qed

section \<open>Before the round\<close>

text \<open>A member that has not started a classic round has collected nothing, and a classic decision is a decision.\<close>

definition unstarted_ok :: "fast_paxos \<Rightarrow> bool" where
  "unstarted_ok fp \<longleftrightarrow> (px_decided (fp_paxos fp) \<longrightarrow> fp_decided fp) \<and>
     (\<not> fp_classic_started fp \<longrightarrow>
        px_crnd (fp_paxos fp) = Rank 0 0 \<and> px_phase1b_messages (fp_paxos fp) = [] \<and> px_cval (fp_paxos fp) = [])"

lemma unstarted_message:
  assumes "unstarted_ok fp" "\<And>m. req = RapidRequest (Some (Phase1bMessage m)) \<Longrightarrow> p1b_rnd m \<noteq> Some (Rank 0 0)"
  shows "unstarted_ok (fst (handle_consensus_message fp req))"
proof (cases req)
  case (RapidRequest content)
  show ?thesis
  proof (cases content)
    case (Some msg)
    then show ?thesis using assms RapidRequest
      by (cases msg) (auto simp: unstarted_ok_def handle_consensus_message_def handle_paxos_def handle_phase1a_def
          handle_phase1b_def handle_phase2a_def handle_phase2b_def handle_fast_round_proposal_def Let_def
          split: option.split)
  qed (use assms(1) RapidRequest in \<open>simp add: handle_consensus_message_def\<close>)
qed

lemma unstarted_own:
  assumes "unstarted_ok fp"
  shows "unstarted_ok (fst (propose j fp v))" "unstarted_ok (fst (start_classic_round x fp))"
  using assms by (auto simp: unstarted_ok_def propose_def register_fast_round_vote_def start_classic_round_def start_phase1a_def Let_def)

lemma reachable_unstarted:
  assumes "net_reachable x c delay A s" "finite A" "A \<noteq> {}" "inj_on (stable_node_index x) A"
  shows "cn_consumed s \<subseteq> cn_sent s \<and> (\<forall>d. unstarted_ok (cn_nodes s d))"
  using assms
proof (induction rule: net_reachable.induct)
  case net_start
  then show ?case by (simp add: net_init_def unstarted_ok_def fast_paxos_new_def paxos_new_def Let_def)
next
  case (net_next s ev)
  have inv: "net_inv x c A s" by (rule net_reachable_inv[OF net_next.hyps(1) net_next.prems])
  have IH: "cn_consumed s \<subseteq> cn_sent s" "unstarted_ok (cn_nodes s d)" for d using net_next.IH net_next.prems by blast+
  have rank: "p1b_rnd m \<noteq> Some (Rank 0 0)" if "(d, RapidRequest (Some (Phase1bMessage m))) \<in> cn_sent s" "d \<in> A" for d m
  proof -
    have "RapidRequest (Some (Phase1bMessage m)) \<in> said s" using that(1) by (force simp: said_def)
    with inv net_next.prems(1) that(2) obtain b r l where "m = p1b_msg c b r l" "classic_rank r" by (rule promise_req)
    then show ?thesis by (auto simp: p1b_msg_def classic_rank_def)
  qed
  show ?case
  proof (cases ev)
    case (NetDeliver d req)
    then have "unstarted_ok (fst (handle_consensus_message (cn_nodes s d) req))"
      using unstarted_message[OF IH(2)[of d], of req] rank[of d] net_next.hyps(2) by auto
    then show ?thesis using NetDeliver IH net_next.hyps(2) by (auto simp: absorb_def)
  qed (use IH unstarted_own[OF IH(2)] in \<open>auto simp: absorb_def\<close>)
qed

lemma select_nonempty:
  assumes "m \<in> set msgs" "p1b_vrnd m \<noteq> None" "p1b_vval m \<noteq> []"
  shows "select_proposal_from_messages msgs n \<noteq> []"
proof -
  have "p1b_vval m \<in> set (filter (\<lambda>v. v \<noteq> []) (map p1b_vval msgs))" using assms by simp
  then obtain w ws where w: "filter (\<lambda>v. v \<noteq> []) (map p1b_vval msgs) = w # ws"
    by (cases "filter (\<lambda>v. v \<noteq> []) (map p1b_vval msgs)") auto
  then have "w \<noteq> []" by (auto dest!: filter_eq_ConsD)
  then have first: "first_nonempty_vval msgs \<noteq> []" using w by (simp add: first_nonempty_vval_def)
  have "List.map_filter p1b_vrnd msgs \<noteq> []" using assms(1,2) by (force simp: List.map_filter_def filter_empty_conv)
  then obtain r where r: "max_vrnd msgs = Some r" by (cases "List.map_filter p1b_vrnd msgs") (auto simp: max_vrnd_def)
  have "u \<noteq> []" if "u \<in> set (collected_vvals msgs r)" for u using that by (auto simp: collected_vvals_def)
  then show ?thesis using first r assms(1) scan_counters_in[of "n div 4" fmempty "collected_vvals msgs r"]
    by (cases "collected_vvals msgs r") (auto simp: select_proposal_from_messages_def Let_def split: option.split)
qed

section \<open>The four phases\<close>

lemma is_phase1b_req [simp]:
  "\<not> is_phase1b (p1a_req c a r)" "is_phase1b (p1b_req c a r l)" "\<not> is_phase1b (p2a_req c a r v)" "\<not> is_phase1b (p2b_req c a r v)"
  by (simp_all add: is_phase1b_def req_defs)

lemma p1b_req_eq [simp]: "p1b_req c d r l \<noteq> p1a_req c a r'" "p1b_req c d r l = p1b_req c e r l' \<longleftrightarrow> d = e \<and> l = l'"
  by (auto simp: req_defs prod_eq_iff)

lemma net_inv_static: "net_inv x c A s \<Longrightarrow> d \<in> A \<Longrightarrow> node_static c A d (cn_nodes s d)"
  by (rule net_invD)

lemma phase1a_run:
  assumes "finite A" "inj_on (stable_node_index x) A" "net_inv x c A s" "distinct ds" "set ds \<subseteq> A"
    and sent: "\<forall>d \<in> set ds. (d, p1a_req c a r) \<in> cn_sent s" and low: "\<forall>d \<in> set ds. px_rnd (px_at s d) < r"
  shows "\<exists>t. net_run x A s (map (\<lambda>d. NetDeliver d (p1a_req c a r)) ds) = Some t \<and> net_inv x c A t \<and>
    cn_sent s \<subseteq> cn_sent t \<and> (\<forall>d. px_at t d = (if d \<in> set ds then (px_at s d)\<lparr>px_rnd := r\<rparr> else px_at s d)) \<and>
    (\<forall>d \<in> set ds. (a, p1b_req c d r (px_vrnd (px_at s d), px_vval (px_at s d))) \<in> cn_sent t) \<and>
    (\<forall>d l. (a, p1b_req c d r l) \<in> cn_consumed t \<longrightarrow> (a, p1b_req c d r l) \<in> cn_consumed s)"
proof (rule deliver_each[OF assms(1-3) _ assms(4)], goal_cases)
  case (2 D d t)
  have d: "d \<in> A" "px_at t d = px_at s d" "px_rnd (px_at t d) < r" "(d, p1a_req c a r) \<in> cn_sent t"
    using 2 assms(5) low sent by auto
  show ?case using 2(2) d px_at_deliver[OF deliver_1a[OF net_inv_static[OF 2(1) d(1)] d(3), of a], of x A]
    by (auto simp del: net_apply.simps)
qed simp

lemma phase1b_run:
  assumes "finite A" "inj_on (stable_node_index x) A" "net_inv x c A s" "distinct ds" "a \<in> A"
    and fresh: "px_crnd (px_at s a) = r" "px_phase1b_messages (px_at s a) = []" "px_cval (px_at s a) = []"
    and sent: "\<forall>d \<in> set ds. (a, p1b_req c d r (L d)) \<in> cn_sent s \<and> (a, p1b_req c d r (L d)) \<notin> cn_consumed s"
    and quorum: "card A div 2 < length ds" "\<exists>d \<in> set ds. snd (L d) \<noteq> []"
  shows "\<exists>t v. net_run x A s (map (\<lambda>d. NetDeliver a (p1b_req c d r (L d))) ds) = Some t \<and> net_inv x c A t \<and> v \<noteq> [] \<and>
    (\<forall>d \<in> A. (d, p2a_req c a r v) \<in> cn_sent t) \<and>
    (\<forall>d. px_rnd (px_at t d) = px_rnd (px_at s d) \<and> px_vrnd (px_at t d) = px_vrnd (px_at s d) \<and>
       px_decided (px_at t d) = px_decided (px_at s d))"
proof -
  let ?m = "\<lambda>d. p1b_msg c d r (L d)"
  let ?P = "\<lambda>D t. cn_sent s \<subseteq> cn_sent t \<and> px_crnd (px_at t a) = r \<and> D \<subseteq> set ds \<and>
    (\<forall>d \<in> set ds - D. (a, p1b_req c d r (L d)) \<notin> cn_consumed t) \<and>
    (px_cval (px_at t a) \<noteq> [] \<longrightarrow> (\<forall>d \<in> A. (d, p2a_req c a r (px_cval (px_at t a))) \<in> cn_sent t)) \<and>
    (px_cval (px_at t a) = [] \<longrightarrow> set (px_phase1b_messages (px_at t a)) = ?m ` D \<and>
       length (px_phase1b_messages (px_at t a)) = card D \<and>
       (card A div 2 < card D \<longrightarrow> select_proposal_from_messages (px_phase1b_messages (px_at t a)) (card A) = [])) \<and>
    (\<forall>d. px_rnd (px_at t d) = px_rnd (px_at s d) \<and> px_vrnd (px_at t d) = px_vrnd (px_at s d) \<and>
       px_decided (px_at t d) = px_decided (px_at s d))"
  have "\<exists>t. net_run x A s (map (\<lambda>d. NetDeliver a (p1b_req c d r (L d))) ds) = Some t \<and> net_inv x c A t \<and> ?P (set ds) t"
  proof (rule deliver_each[of A x c s ?P ds, OF assms(1-3) _ assms(4)], goal_cases)
    case (2 D d t)
    let ?p = "held_1b t a (?m d)" and ?r = "p1b_req c d r (L d)"
    let ?v = "select_proposal_from_messages (px_phase1b_messages ?p) (card A)"
    let ?q = "length (px_phase1b_messages ?p) \<le> card A div 2 \<or> px_cval ?p \<noteq> [] \<or> ?v = []"
    have D: "finite D" using 2(2) finite_subset[of D "set ds"] by simp
    have h: "handle_consensus_message (cn_nodes t a) ?r = handle_paxos (cn_nodes t a)
      (if ?q then ?p else ?p\<lparr>px_cval := ?v\<rparr>, if ?q then [] else [PxBroadcast (p2a_req c a r ?v)])"
      using deliver_1b[OF net_inv_static[OF 2(1) assms(5)], of r ?p d "L d" ?v] 2(2) by simp
    have "net_enabled A t (NetDeliver a ?r)" using 2 sent assms(5) by auto
    moreover have "?P (insert d D) (net_apply x A t (NetDeliver a ?r))"
      using 2(2-4) D px_at_deliver[OF h, of x A] by (auto simp: held_1b_def simp del: net_apply.simps)
    ultimately show ?case by simp
  qed (use fresh sent in auto)
  then obtain t where t: "net_run x A s (map (\<lambda>d. NetDeliver a (p1b_req c d r (L d))) ds) = Some t" "net_inv x c A t" "?P (set ds) t"
    by blast
  have "px_cval (px_at t a) \<noteq> []"
  proof
    assume "px_cval (px_at t a) = []"
    then have e: "set (px_phase1b_messages (px_at t a)) = ?m ` set ds"
      "select_proposal_from_messages (px_phase1b_messages (px_at t a)) (card A) = []"
      using t(3) quorum(1) assms(4) by (auto simp: distinct_card)
    obtain d where "d \<in> set ds" "snd (L d) \<noteq> []" using quorum(2) by blast
    then show False using select_nonempty[of "?m d" "px_phase1b_messages (px_at t a)" "card A"] e by (simp add: p1b_msg_def)
  qed
  then show ?thesis using t by blast
qed

lemma phase2a_run:
  assumes "finite A" "inj_on (stable_node_index x) A" "net_inv x c A s" "distinct ds" "set ds \<subseteq> A"
    and sent: "\<forall>d \<in> A. (d, p2a_req c a r v) \<in> cn_sent s"
    and open_for: "\<forall>d \<in> set ds. px_rnd (px_at s d) \<le> r \<and> px_vrnd (px_at s d) \<noteq> r"
  shows "\<exists>t. net_run x A s (map (\<lambda>d. NetDeliver d (p2a_req c a r v)) ds) = Some t \<and> net_inv x c A t \<and>
    (\<forall>d \<in> set ds. \<forall>e \<in> A. (e, p2b_req c d r v) \<in> cn_sent t) \<and> (\<forall>d. px_decided (px_at t d) = px_decided (px_at s d))"
proof -
  let ?P = "\<lambda>D t. cn_sent s \<subseteq> cn_sent t \<and> (\<forall>d. d \<notin> D \<longrightarrow> px_at t d = px_at s d) \<and>
    (\<forall>d \<in> D. \<forall>e \<in> A. (e, p2b_req c d r v) \<in> cn_sent t) \<and> (\<forall>d. px_decided (px_at t d) = px_decided (px_at s d))"
  have "\<exists>t. net_run x A s (map (\<lambda>d. NetDeliver d (p2a_req c a r v)) ds) = Some t \<and> net_inv x c A t \<and> ?P (set ds) t"
  proof (rule deliver_each[of A x c s ?P ds, OF assms(1-3) _ assms(4)], goal_cases)
    case (2 D d t)
    have d: "d \<in> A" "px_rnd (px_at t d) \<le> r" "px_vrnd (px_at t d) \<noteq> r" "(d, p2a_req c a r v) \<in> cn_sent t"
      using 2 assms(5) open_for sent by auto
    show ?case using 2(2) d px_at_deliver[OF deliver_2a[OF net_inv_static[OF 2(1) d(1)] d(2,3), of a v], of x A]
      by (auto simp del: net_apply.simps)
  qed simp
  then show ?thesis by blast
qed

lemma fm_len_keys: "endpoint_key_of ` E \<subseteq> fset (fmdom m) \<Longrightarrow> card E \<le> fm_len (m :: (endpoint_key, 'v) fmap)"
proof -
  assume a: "endpoint_key_of ` E \<subseteq> fset (fmdom m)"
  have "inj_on endpoint_key_of E" by (simp add: inj_on_def)
  then have "card E = card (endpoint_key_of ` E)" by (simp add: card_image)
  also have "\<dots> \<le> card (fset (fmdom m))" using a by (intro card_mono) auto
  finally show ?thesis by (simp add: fm_len_def fcard.rep_eq)
qed

lemma phase2b_run:
  assumes "finite A" "inj_on (stable_node_index x) A" "net_inv x c A s" "distinct ts" "distinct ds" "set ts \<subseteq> A"
    and sent: "\<forall>d \<in> set ds. \<forall>e \<in> A. (e, p2b_req c d r v) \<in> cn_sent s"
    and undecided: "\<forall>d \<in> set ts. \<not> px_decided (px_at s d)" and quorum: "card A div 2 < length ds"
  shows "\<exists>t. net_run x A s (map (\<lambda>(d, e). NetDeliver d (p2b_req c e r v)) (List.product ts ds)) = Some t \<and>
    (\<forall>d \<in> set ts. (d, v) \<in> cn_decisions t)"
proof -
  let ?P = "\<lambda>D t. cn_sent s \<subseteq> cn_sent t \<and> (\<forall>d \<in> set ts. px_decided (px_at t d) \<longrightarrow> (d, v) \<in> cn_decisions t) \<and>
    (\<forall>d e. (d, e) \<in> D \<longrightarrow> px_decided (px_at t d) \<or>
       endpoint_key_of e |\<in>| fmdom (bucket_of (px_at t d) r) \<and> fm_len (bucket_of (px_at t d) r) \<le> card A div 2)"
  have "\<exists>t. net_run x A s (map (\<lambda>(d, e). NetDeliver d (p2b_req c e r v)) (List.product ts ds)) = Some t \<and> net_inv x c A t \<and>
      ?P (set (List.product ts ds)) t"
  proof (rule deliver_each[of A x c s ?P "List.product ts ds", OF assms(1-3) _ distinct_product[OF assms(4,5)]], goal_cases)
    case (2 D de t)
    obtain d e where de: "de = (d, e)" "d \<in> set ts" "e \<in> set ds" using 2(3) by auto
    have A: "d \<in> A" "(d, p2b_req c e r v) \<in> cn_sent t" using de assms(6) sent 2(2) by auto
    obtain p outs where h: "handle_consensus_message (cn_nodes t d) (p2b_req c e r v) = handle_paxos (cn_nodes t d) (p, outs)"
      "px_decided (px_at t d) \<Longrightarrow> p = px_at t d"
      "\<not> px_decided (px_at t d) \<Longrightarrow> fmdom (bucket_of p r) = finsert (endpoint_key_of e) (fmdom (bucket_of (px_at t d) r))"
      "\<not> px_decided (px_at t d) \<Longrightarrow> px_decided p \<Longrightarrow> outs = [PxDecision v]"
      "\<not> px_decided p \<Longrightarrow> fm_len (bucket_of p r) \<le> card A div 2"
      using deliver_2b[OF net_inv_static[OF 2(1) A(1)]] by metis
    show ?case using 2(2) A px_at_deliver[OF h(1), of x A] h(2-5) unfolding de
      by (cases "px_decided (px_at t d)") (auto simp del: net_apply.simps)
  qed (use undecided in auto)
  then obtain t where t: "net_run x A s (map (\<lambda>(d, e). NetDeliver d (p2b_req c e r v)) (List.product ts ds)) = Some t"
    "?P (set ts \<times> set ds) t" by auto
  have "px_decided (px_at t d)" if "d \<in> set ts" for d
  proof (rule ccontr)
    assume n: "\<not> px_decided (px_at t d)"
    obtain e where "e \<in> set ds" using quorum by (cases ds) auto
    then have "endpoint_key_of ` set ds \<subseteq> fset (fmdom (bucket_of (px_at t d) r))" "fm_len (bucket_of (px_at t d) r) \<le> card A div 2"
      using t(2) that n by blast+
    then show False using fm_len_keys[of "set ds" "bucket_of (px_at t d) r"] quorum assms(5) by (simp add: distinct_card)
  qed
  then show ?thesis using t by blast
qed

section \<open>The round\<close>

lemma net_start_effects:
  assumes "node_static c A a (cn_nodes s a)" "\<not> fp_classic_started (cn_nodes s a)" "\<not> fp_decided (cn_nodes s a)"
    and "px_crnd (px_at s a) = Rank 0 0" "r = Rank 2 (stable_node_index x a)"
  shows "px_at (net_apply x A s (NetStart a)) = (px_at s)(a := (px_at s a)\<lparr>px_crnd := r\<rparr>)"
    "cn_sent (net_apply x A s (NetStart a)) = cn_sent s \<union> (\<lambda>b. (b, p1a_req c a r)) ` A"
    "cn_consumed (net_apply x A s (NetStart a)) = cn_consumed s"
  using assms staticD[OF assms(1)]
  by (auto simp: px_at_def start_classic_round_def start_phase1a_def absorb_def p1a_req_def fun_eq_iff Let_def)

text \<open>What reachability gives of the members that take part.\<close>

lemma before_round:
  assumes reach: "net_reachable x c delay A s" "finite A" "inj_on (stable_node_index x) A" "a \<in> A"
  shows "net_inv x c A s" "px_vrnd (px_at s d) \<le> px_rnd (px_at s d)"
    "\<not> fp_decided (cn_nodes s d) \<Longrightarrow> \<not> px_decided (px_at s d)"
    "px_rnd (px_at s d) < r \<Longrightarrow> (a, p1b_req c d r l) \<notin> cn_consumed s"
    "\<not> fp_classic_started (cn_nodes s d) \<Longrightarrow>
       px_crnd (px_at s d) = Rank 0 0 \<and> px_phase1b_messages (px_at s d) = [] \<and> px_cval (px_at s d) = []"
proof -
  have ne: "A \<noteq> {}" using reach(4) by auto
  note R = reachable_unstarted[OF reach(1,2) ne reach(3)]
  show inv: "net_inv x c A s" by (rule net_reachable_inv[OF reach(1,2) ne reach(3)])
  have v: "votes_ok A (abs_net c s)" "promises_ok A (abs_net c s)"
    using voting_reachable_inv[OF net_invD(7)[OF inv reach(4)] reach(2)] by (simp_all add: voting_inv_def)
  show "px_vrnd (px_at s d) \<le> px_rnd (px_at s d)" using v(1) by (simp add: votes_ok_def px_at_def)
  show "\<not> fp_decided (cn_nodes s d) \<Longrightarrow> \<not> px_decided (px_at s d)"
    "\<not> fp_classic_started (cn_nodes s d) \<Longrightarrow>
       px_crnd (px_at s d) = Rank 0 0 \<and> px_phase1b_messages (px_at s d) = [] \<and> px_cval (px_at s d) = []"
    using R by (auto simp: unstarted_ok_def px_at_def)
  show "(a, p1b_req c d r l) \<notin> cn_consumed s" if low: "px_rnd (px_at s d) < r"
  proof
    assume "(a, p1b_req c d r l) \<in> cn_consumed s"
    then have "p1b_req c d r l \<in> said s" using R by (force simp: said_def)
    then have "(d, r, l) \<in> vt_promises (abs_net c s)" by (simp add: promises_in_def)
    then have "r \<le> px_rnd (px_at s d)" using promises_okD(3)[OF v(2)] by (simp add: px_at_def)
    then show False using low by simp
  qed
qed

text \<open>The first two messages of the round: the members in \<open>ds\<close> have promised and their answers are under way.\<close>

lemma round_prepared:
  assumes reach: "net_reachable x c delay A s" "finite A" "inj_on (stable_node_index x) A"
    and a: "a \<in> A" "\<not> fp_classic_started (cn_nodes s a)" "\<not> fp_decided (cn_nodes s a)"
    and ds: "distinct ds" "set ds \<subseteq> A" and r: "r = Rank 2 (stable_node_index x a)" and low: "\<forall>d \<in> set ds. px_rnd (px_at s d) < r"
  obtains t where
    "net_run x A s (NetStart a # map (\<lambda>d. NetDeliver d (p1a_req c a r)) ds) = Some t" "net_inv x c A t"
    "px_crnd (px_at t a) = r" "px_phase1b_messages (px_at t a) = []" "px_cval (px_at t a) = []"
    "\<forall>d \<in> set ds. (a, p1b_req c d r (px_vrnd (px_at s d), px_vval (px_at s d))) \<in> cn_sent t \<and>
       (a, p1b_req c d r (px_vrnd (px_at s d), px_vval (px_at s d))) \<notin> cn_consumed t"
    "\<forall>d \<in> set ds. px_rnd (px_at t d) = r \<and> px_vrnd (px_at t d) \<noteq> r"
    "\<forall>d. px_decided (px_at t d) = px_decided (px_at s d)"
proof -
  let ?s = "net_apply x A s (NetStart a)"
  note B = before_round[OF reach a(1)]
  have st: "px_crnd (px_at s a) = Rank 0 0" "px_phase1b_messages (px_at s a) = []" "px_cval (px_at s a) = []"
    using B(5)[OF a(2)] by simp_all
  note e = net_start_effects[OF net_inv_static[OF B(1) a(1)] a(2,3) st(1) r]
  have inv: "net_inv x c A ?s" by (rule net_inv_next[OF B(1) reach(2,3)]) (simp add: a)
  have "\<forall>d \<in> set ds. (d, p1a_req c a r) \<in> cn_sent ?s" using ds(2) unfolding e by blast
  moreover have "\<forall>d \<in> set ds. px_rnd (px_at ?s d) < r" using low unfolding e by simp
  ultimately obtain t where t: "net_run x A ?s (map (\<lambda>d. NetDeliver d (p1a_req c a r)) ds) = Some t" "net_inv x c A t"
    "\<forall>d. px_at t d = (if d \<in> set ds then (px_at ?s d)\<lparr>px_rnd := r\<rparr> else px_at ?s d)"
    "\<forall>d \<in> set ds. (a, p1b_req c d r (px_vrnd (px_at ?s d), px_vval (px_at ?s d))) \<in> cn_sent t"
    "\<forall>d l. (a, p1b_req c d r l) \<in> cn_consumed t \<longrightarrow> (a, p1b_req c d r l) \<in> cn_consumed ?s"
    using phase1a_run[OF reach(2,3) inv ds, of a r] by blast
  have same: "px_vrnd (px_at ?s d) = px_vrnd (px_at s d)" "px_vval (px_at ?s d) = px_vval (px_at s d)"
    "px_decided (px_at ?s d) = px_decided (px_at s d)" for d unfolding e by simp_all
  show thesis
  proof (rule that[OF _ t(2)])
    show "net_run x A s (NetStart a # map (\<lambda>d. NetDeliver d (p1a_req c a r)) ds) = Some t"
      using t(1) a(1) by simp
    show "px_crnd (px_at t a) = r" "px_phase1b_messages (px_at t a) = []" "px_cval (px_at t a) = []"
      using t(3) st unfolding e by auto
    show "\<forall>d \<in> set ds. px_rnd (px_at t d) = r \<and> px_vrnd (px_at t d) \<noteq> r"
      using t(3) low B(2) same(1) by (auto simp: not_le[symmetric])
    show "\<forall>d. px_decided (px_at t d) = px_decided (px_at s d)" using t(3) same(3) by auto
    show "\<forall>d \<in> set ds. (a, p1b_req c d r (px_vrnd (px_at s d), px_vval (px_at s d))) \<in> cn_sent t \<and>
       (a, p1b_req c d r (px_vrnd (px_at s d), px_vval (px_at s d))) \<notin> cn_consumed t"
      using t(4,5)[unfolded same e(3)] B(4) low by blast
  qed
qed

lemma classic_round:
  assumes reach: "net_reachable x c delay A s" "finite A" "inj_on (stable_node_index x) A"
    and a: "a \<in> A" "\<not> fp_classic_started (cn_nodes s a)" and M: "M \<subseteq> A" "card A < 2 * card M"
    and undecided: "\<forall>d \<in> insert a M. \<not> fp_decided (cn_nodes s d)"
    and low: "\<forall>d \<in> M. px_rnd (px_at s d) < Rank 2 (stable_node_index x a)"
    and voted: "\<exists>d \<in> M. px_vval (px_at s d) \<noteq> []"
  shows "\<exists>evs t v. net_run x A s evs = Some t \<and> net_actor ` set evs \<subseteq> insert a M \<and> v \<noteq> [] \<and>
    (\<forall>d \<in> insert a M. (d, v) \<in> cn_decisions t)"
proof -
  let ?r = "Rank 2 (stable_node_index x a)" and ?L = "\<lambda>d. (px_vrnd (px_at s d), px_vval (px_at s d))"
  have fin: "finite M" using finite_subset[OF M(1) reach(2)] .
  obtain ds where ds: "set ds = M" "distinct ds" using finite_distinct_list[OF fin] by blast
  obtain ts where ts: "set ts = insert a M" "distinct ts" using finite_distinct_list[of "insert a M"] fin by auto
  have tA: "set ts \<subseteq> A" using ts(1) a(1) M(1) by simp
  have q: "card A div 2 < length ds" using ds M(2) distinct_card[OF ds(2)] by simp
  have ok: "\<not> fp_decided (cn_nodes s a)" "set ds \<subseteq> A" "\<forall>d \<in> set ds. px_rnd (px_at s d) < ?r" "\<exists>d \<in> set ds. snd (?L d) \<noteq> []"
    using undecided M(1) low voted ds(1) by auto
  obtain s1 where s1: "net_run x A s (NetStart a # map (\<lambda>d. NetDeliver d (p1a_req c a ?r)) ds) = Some s1" "net_inv x c A s1"
    "px_crnd (px_at s1 a) = ?r" "px_phase1b_messages (px_at s1 a) = []" "px_cval (px_at s1 a) = []"
    "\<forall>d \<in> set ds. (a, p1b_req c d ?r (?L d)) \<in> cn_sent s1 \<and> (a, p1b_req c d ?r (?L d)) \<notin> cn_consumed s1"
    "\<forall>d \<in> set ds. px_rnd (px_at s1 d) = ?r \<and> px_vrnd (px_at s1 d) \<noteq> ?r"
    "\<forall>d. px_decided (px_at s1 d) = px_decided (px_at s d)"
    using round_prepared[OF reach a ok(1) ds(2) ok(2) refl ok(3)] by metis
  obtain s2 v where s2: "net_run x A s1 (map (\<lambda>d. NetDeliver a (p1b_req c d ?r (?L d))) ds) = Some s2" "net_inv x c A s2" "v \<noteq> []"
    "\<forall>d \<in> A. (d, p2a_req c a ?r v) \<in> cn_sent s2"
    "\<forall>d. px_rnd (px_at s2 d) = px_rnd (px_at s1 d) \<and> px_vrnd (px_at s2 d) = px_vrnd (px_at s1 d) \<and>
       px_decided (px_at s2 d) = px_decided (px_at s1 d)"
    using phase1b_run[OF reach(2,3) s1(2) ds(2) a(1) s1(3-6) q ok(4)] by blast
  have "\<forall>d \<in> set ds. px_rnd (px_at s2 d) \<le> ?r \<and> px_vrnd (px_at s2 d) \<noteq> ?r" using s1(7) s2(5) by simp
  then obtain s3 where s3: "net_run x A s2 (map (\<lambda>d. NetDeliver d (p2a_req c a ?r v)) ds) = Some s3" "net_inv x c A s3"
    "\<forall>d \<in> set ds. \<forall>e \<in> A. (e, p2b_req c d ?r v) \<in> cn_sent s3" "\<forall>d. px_decided (px_at s3 d) = px_decided (px_at s2 d)"
    using phase2a_run[OF reach(2,3) s2(2) ds(2) ok(2) s2(4)] by blast
  have "\<forall>d \<in> set ts. \<not> px_decided (px_at s3 d)"
    using undecided before_round(3)[OF reach a(1)] ts(1) s3(4) s2(5) s1(8) by simp
  then obtain t where t: "net_run x A s3 (map (\<lambda>(d, e). NetDeliver d (p2b_req c e ?r v)) (List.product ts ds)) = Some t"
    "\<forall>d \<in> set ts. (d, v) \<in> cn_decisions t"
    using phase2b_run[OF reach(2,3) s3(2) ts(2) ds(2) tA s3(3) _ q] by blast
  let ?evs = "(NetStart a # map (\<lambda>d. NetDeliver d (p1a_req c a ?r)) ds) @ map (\<lambda>d. NetDeliver a (p1b_req c d ?r (?L d))) ds @
    map (\<lambda>d. NetDeliver d (p2a_req c a ?r v)) ds @ map (\<lambda>(d, e). NetDeliver d (p2b_req c e ?r v)) (List.product ts ds)"
  have "net_run x A s ?evs = Some t" unfolding net_run_append s1(1) using s2(1) s3(1) t(1) by (simp add: net_run_append)
  moreover have "net_actor ` set ?evs \<subseteq> insert a M" by (auto simp: ds(1) ts(1))
  moreover have "\<forall>d \<in> insert a M. (d, v) \<in> cn_decisions t" using t(2) unfolding ts(1) .
  ultimately show ?thesis using s2(3) by (intro exI conjI)
qed

section \<open>Properties\<close>

text \<open>
  C5. The classic fallback decides. From every reachable state of a configuration's consensus, a member that
  has not decided and not started its classic round, and a majority of members (it need not be among them), of which
  one has voted and none has promised a rank as high as this coordinator's, can finish the round: there is
  a run, made of steps of these members alone, after which all of them have decided one and the same value. A split fast
  round, lost votes and rounds of lower coordinators that stopped halfway do not prevent it, and neither do the members that have failed.
\<close>

theorem classic_round_decides:
  assumes "net_reachable x c delay A s" and "finite A" and "inj_on (stable_node_index x) A"
    and "a \<in> A" and "\<not> fp_classic_started (cn_nodes s a)" and "M \<subseteq> A" and "card A < 2 * card M"
    and "\<forall>d \<in> insert a M. \<not> fp_decided (cn_nodes s d)"
    and "\<forall>d \<in> M. px_rnd (px_at s d) < Rank 2 (stable_node_index x a)"
    and "\<exists>d \<in> M. px_vval (px_at s d) \<noteq> []"
  shows "\<exists>evs t v. net_run x A s evs = Some t \<and> net_actor ` set evs \<subseteq> insert a M \<and> v \<noteq> [] \<and>
    (\<forall>d \<in> insert a M. (d, v) \<in> cn_decisions t)"
  using assms by (rule classic_round)

text \<open>Two members that proposed different values, while the third never takes part.\<close>

definition split_votes :: "net_event list" where
  "split_votes = [NetPropose (demo_ep 1) 0 [demo_ep 4], NetPropose (demo_ep 2) 0 [demo_ep 5]]"

definition split_pair :: "endpoint set" where
  "split_pair = {demo_ep 1, demo_ep 2}"

lemma split_state:
  "map_option (\<lambda>s. (\<forall>d \<in> split_pair. \<not> fp_decided (cn_nodes s d) \<and> px_rnd (px_at s d) < demo_rank) \<and>
     \<not> fp_classic_started (cn_nodes s (demo_ep 1)) \<and> px_vval (px_at s (demo_ep 2)) \<noteq> [])
   (net_run demo_hash demo_members (net_init 0 100 demo_members) split_votes) = Some True"
  by code_simp

theorem classic_round_decides_witness:
  "\<exists>s evs t v. net_run demo_hash demo_members (net_init 0 100 demo_members) split_votes = Some s \<and>
     net_run demo_hash demo_members s evs = Some t \<and> net_actor ` set evs \<subseteq> split_pair \<and> v \<noteq> [] \<and>
     (\<forall>d \<in> split_pair. (d, v) \<in> cn_decisions t)"
proof -
  obtain s where s: "net_run demo_hash demo_members (net_init 0 100 demo_members) split_votes = Some s"
    "\<forall>d \<in> split_pair. \<not> fp_decided (cn_nodes s d) \<and> px_rnd (px_at s d) < demo_rank"
    "\<not> fp_classic_started (cn_nodes s (demo_ep 1))" "px_vval (px_at s (demo_ep 2)) \<noteq> []"
    using split_state by auto
  have "demo_ep 1 \<in> split_pair" by (simp add: split_pair_def)
  then have i: "insert (demo_ep 1) split_pair = split_pair" "\<not> fp_decided (cn_nodes s (demo_ep 1))" using s(2) by auto
  have "demo_ep 1 \<in> demo_members" "split_pair \<subseteq> demo_members" by (simp_all add: demo_members_def split_pair_def)
  moreover have "card demo_members < 2 * card split_pair" by code_simp
  moreover have "\<exists>d \<in> split_pair. px_vval (px_at s d) \<noteq> []" using s(4) by (auto simp: split_pair_def)
  ultimately have "\<exists>evs t v. net_run demo_hash demo_members s evs = Some t \<and> net_actor ` set evs \<subseteq> insert (demo_ep 1) split_pair \<and>
      v \<noteq> [] \<and> (\<forall>d \<in> insert (demo_ep 1) split_pair. (d, v) \<in> cn_decisions t)"
    using s(2,3) i(2) by (intro classic_round_decides[OF net_run_reachable[OF net_start s(1)] demo_members_facts(1,3)])
      (simp_all add: i(1) demo_rank_def)
  then show ?thesis using s(1) unfolding i(1) by blast
qed

end
