(* ===== verification/Outputs.thy ===== *)
theory Outputs
  imports Service_Props
begin

text \<open>
  What the membership-service actor puts on the wire is well typed. Protobuf leaves every nested
  message optional and every enum an integer (\<^verbatim>\<open>crates/rapid/proto/rapid.proto\<close>); the receivers of
  \<^verbatim>\<open>crates/rapid/src/service\<close> ignore a message whose sender is missing and read an unknown enum number
  as the first variant. The definitions below say what a receiver may rely on, and the property that
  the actor's outputs always satisfy it.
\<close>

section \<open>Well-typed outputs\<close>

definition alert_typed :: "endpoint \<Rightarrow> alert_message \<Rightarrow> bool" where
  "alert_typed a al \<longleftrightarrow> al_edge_src al = Some a \<and> al_edge_dst al \<noteq> None \<and>
     edge_status_try_from (al_edge_status al) \<noteq> None \<and>
     (edge_status_try_from (al_edge_status al) = Some Up \<longleftrightarrow> al_node_id al \<noteq> None)"

definition request_typed :: "endpoint \<Rightarrow> rapid_request \<Rightarrow> bool" where
  "request_typed a req = (case req_content req of
       Some (BatchedAlertMessage b) \<Rightarrow>
         ba_sender b = Some a \<and> ba_messages b \<noteq> [] \<and> list_all (alert_typed a) (ba_messages b)
     | Some (FastRoundPhase2bMessage m) \<Rightarrow> fr_sender m = Some a
     | Some (Phase1aMessage m) \<Rightarrow> p1a_sender m = Some a \<and> p1a_rank m \<noteq> None
     | Some (Phase1bMessage m) \<Rightarrow> p1b_sender m = Some a \<and> p1b_rnd m \<noteq> None \<and> p1b_vrnd m \<noteq> None
     | Some (Phase2aMessage m) \<Rightarrow> p2a_sender m = Some a \<and> p2a_rnd m \<noteq> None \<and> p2a_vval m \<noteq> []
     | Some (Phase2bMessage m) \<Rightarrow> p2b_sender m = Some a \<and> p2b_rnd m \<noteq> None
     | _ \<Rightarrow> False)"

definition join_response_typed :: "endpoint \<Rightarrow> join_response \<Rightarrow> bool" where
  "join_response_typed a r \<longleftrightarrow> jr_sender r = Some a \<and>
     (\<exists>code. jr_status_code r = join_status_num code \<and> code \<noteq> MembershipRejectedCode) \<and>
     length (jr_metadata_keys r) = length (jr_metadata_values r)"

definition response_typed :: "endpoint \<Rightarrow> rapid_response \<Rightarrow> bool" where
  "response_typed a resp = (case resp_content resp of
       None \<Rightarrow> True
     | Some (JoinResponse r) \<Rightarrow> join_response_typed a r
     | Some (ProbeResponse p) \<Rightarrow> node_status_try_from (pr_status p) = Some OkStatus
     | Some _ \<Rightarrow> False)"

definition effect_typed :: "endpoint \<Rightarrow> service_effect \<Rightarrow> bool" where
  "effect_typed a e = (case e of
       BroadcastEffect req \<Rightarrow> request_typed a req
     | UnicastEffect _ req \<Rightarrow> request_typed a req
     | Reply _ (Inr resp) \<Rightarrow> response_typed a resp
     | _ \<Rightarrow> True)"

text \<open>The state this needs: queued alerts are typed and the consensus instance is this node's.\<close>

definition own_instance :: "endpoint \<Rightarrow> fast_paxos \<Rightarrow> bool" where
  "own_instance a fp \<longleftrightarrow> fp_my_addr fp = a \<and> px_my_addr (fp_paxos fp) = a"

definition typed_state :: "service_state \<Rightarrow> bool" where
  "typed_state st \<longleftrightarrow> list_all (alert_typed (st_my_addr st)) (st_send_queue st) \<and>
     pred_option (own_instance (st_my_addr st)) (st_fast_paxos st)"

definition typed_step :: "service_state \<Rightarrow> service_state \<times> service_effect list \<Rightarrow> bool" where
  "typed_step st r \<longleftrightarrow> typed_state (fst r) \<and> st_my_addr (fst r) = st_my_addr st \<and>
     list_all (effect_typed (st_my_addr st)) (snd r)"

section \<open>Every handler keeps it\<close>

lemma effect_typed_simps [simp]:
  "effect_typed a (BroadcastEffect req) = request_typed a req"
  "effect_typed a (UnicastEffect addr req) = request_typed a req"
  "effect_typed a (Reply r (Inr resp)) = response_typed a resp" "effect_typed a (Reply r (Inl e))"
  "effect_typed a (ReplyEndpoints r es)" "effect_typed a (ReplyNat r n)" "effect_typed a (ReplyMetadata r m)"
  "effect_typed a (ReplyConfigurationId r c)" "effect_typed a (ReplyUnit r)" "effect_typed a (SetMembership rs)"
  "effect_typed a (Publish k ev)" "effect_typed a (ProposalEmitted p)" "effect_typed a (SpawnDetector t)"
  "effect_typed a (AbortDetector t)" "effect_typed a (SpawnFallback d)" "effect_typed a (AbortFallback d)"
  "response_typed a default_response" "response_typed a (RapidResponse (Some (JoinResponse j))) = join_response_typed a j"
  "response_typed a (probe_response \<lparr>pr_status = node_status_num OkStatus\<rparr>)"
  by (simp_all add: effect_typed_def response_typed_def default_response_def probe_response_def
      node_status_try_from_def node_status_num_def)

lemma typed_frame:
  assumes "st_send_queue st' = st_send_queue st" "st_my_addr st' = st_my_addr st" "st_fast_paxos st' = st_fast_paxos st"
  shows "typed_state st' = typed_state st"
  using assms by (simp add: typed_state_def)

lemma typed_updates [simp]:
  "typed_state (st\<lparr>st_joiners_to_respond_to := a0\<rparr>) = typed_state st"
  "typed_state (st\<lparr>st_joiner_uuid := a1\<rparr>) = typed_state st"
  "typed_state (st\<lparr>st_joiner_metadata := a2\<rparr>) = typed_state st"
  "typed_state (st\<lparr>st_lifecycle := a3\<rparr>) = typed_state st"
  "typed_state (st\<lparr>st_failure_detector_tasks := a6\<rparr>) = typed_state st"
  "typed_state (st\<lparr>st_pending_fallback := a7\<rparr>) = typed_state st"
  "typed_state (st\<lparr>st_view := a8\<rparr>) = typed_state st"
  "typed_state (st\<lparr>st_metadata := a9\<rparr>) = typed_state st"
  "typed_state (st\<lparr>st_cut_detector := a10\<rparr>) = typed_state st"
  by (rule typed_frame; simp)+

lemma configuration_id_typed [simp]:
  "typed_state (fst (configuration_id en st)) = typed_state st"
  "st_my_addr (fst (configuration_id en st)) = st_my_addr st"
  by (simp_all add: configuration_id_eq)

lemma enqueue_typed:
  "typed_state st \<Longrightarrow> alert_typed (st_my_addr st) al \<Longrightarrow> typed_state (enqueue_alert now st al)"
  by (simp add: typed_state_def enqueue_alert_def)

lemma handle_pre_join_typed:
  "typed_state st \<Longrightarrow> typed_state (fst (handle_pre_join en st m)) \<and>
     st_my_addr (fst (handle_pre_join en st m)) = st_my_addr st \<and>
     join_response_typed (st_my_addr st) (snd (handle_pre_join en st m))"
  by (auto simp: handle_pre_join_def Let_def split_beta join_response_typed_def java_status_code_def
      split: join_disposition.split)

lemma mismatch_typed:
  "typed_state st \<Longrightarrow> typed_state (fst (build_config_mismatch_response en st e i)) \<and>
     st_my_addr (fst (build_config_mismatch_response en st e i)) = st_my_addr st \<and>
     join_response_typed (st_my_addr st) (snd (build_config_mismatch_response en st e i))"
  by (auto simp: build_config_mismatch_response_def Let_def split_beta join_response_typed_def collect_metadata_def)

lemma handle_join_typed:
  assumes "typed_state st"
  shows "typed_step st (handle_join en now st m r)"
proof -
  have c: "typed_state (fst (configuration_id en st))" using assms by simp
  show ?thesis
    using mismatch_typed[OF c] c
    by (auto simp: typed_step_def handle_join_def Let_def split_beta alert_typed_def edge_status_try_from_def
        edge_status_num_def intro!: enqueue_typed)
qed

lemma handle_edge_failure_typed:
  assumes "typed_state st"
  shows "typed_state (handle_edge_failure en now st ev)" "st_my_addr (handle_edge_failure en now st ev) = st_my_addr st"
  using assms
  by (auto simp: handle_edge_failure_def Let_def split_beta alert_typed_def edge_status_try_from_def
      edge_status_num_def intro!: enqueue_typed)

lemma handle_tick_typed: "typed_state st \<Longrightarrow> typed_step st (handle_tick now st)"
  by (auto simp: typed_step_def handle_tick_def Let_def request_typed_def typed_state_def split: option.split)

lemma cancel_typed: "typed_state st \<Longrightarrow> typed_step st (cancel_failure_detectors st)"
  by (simp add: typed_step_def cancel_failure_detectors_def list_all_iff)

lemma rebuild_typed: "typed_state st \<Longrightarrow> typed_step st (rebuild en st)"
  by (auto simp: typed_step_def rebuild_def cancel_failure_detectors_def Let_def split_beta list_all_iff
      split: sum.split)

lemma reinstate_typed:
  "typed_state st \<Longrightarrow> typed_step st (reinstate_fast_paxos en st)"
  by (auto simp: typed_step_def reinstate_fast_paxos_def Let_def split_beta typed_state_def configuration_id_eq
      own_instance_def fast_paxos_new_def paxos_new_def split: option.split)

lemma apply_node_outputs [simp]:
  "st_send_queue (fst (apply_node en st n)) = st_send_queue st"
  "st_fast_paxos (fst (apply_node en st n)) = st_fast_paxos st"
  by (auto simp: apply_node_def Let_def split: option.split sum.split)

lemma apply_nodes_outputs [simp]:
  "st_send_queue (fst (apply_nodes en st ns)) = st_send_queue st"
  "st_fast_paxos (fst (apply_nodes en st ns)) = st_fast_paxos st"
  by (induction ns arbitrary: st) (simp_all add: Let_def split_beta)

lemma respond_parked_typed:
  "typed_state st \<Longrightarrow> response_typed (st_my_addr st) w \<Longrightarrow> typed_step st (respond_parked w st ns)"
proof (induction ns arbitrary: st)
  case (Cons n ns)
  then show ?case
    using Cons.IH[of "st\<lparr>st_joiners_to_respond_to := fmdrop (endpoint_key_of n) (st_joiners_to_respond_to st)\<rparr>"]
    by (auto simp: typed_step_def Let_def split_beta list_all_iff split: option.split)
qed (simp add: typed_step_def)

lemma respond_to_joiners_typed:
  assumes "typed_state st"
  shows "typed_step st (respond_to_joiners en st p m)"
proof -
  let ?st = "fst (configuration_id en st)"
  have "typed_state ?st" using assms by simp
  then show ?thesis
    using respond_parked_typed[of ?st]
    by (auto simp: respond_to_joiners_def Let_def split_beta typed_step_def join_response_typed_def)
qed

lemma typed_step_trans:
  "typed_step st (st', es) \<Longrightarrow> typed_step st' r \<Longrightarrow> typed_step st (fst r, es @ snd r)"
  by (simp add: typed_step_def)

lemma typed_step_map:
  "typed_step st r \<Longrightarrow> list_all (effect_typed (st_my_addr st)) es \<Longrightarrow> typed_step st (fst r, snd r @ es)"
  by (simp add: typed_step_def)

lemma decide_view_change_typed:
  assumes "typed_state st"
  shows "typed_step st (decide_view_change en st p)"
proof -
  let ?reset = "vc_reset en st p" let ?fp = "reinstate_fast_paxos en ?reset" and ?det = "vc_detectors en st p"
  let ?resp = "respond_to_joiners en (fst ?det) p (csc_membership (vc_event en st p))"
  have "typed_state (vc_applied en st p)" "st_my_addr (vc_applied en st p) = st_my_addr st"
    using assms typed_frame[of "vc_applied en st p" st]
    by (simp_all add: vc_applied_def cancel_failure_detectors_def)
  then have r: "typed_state ?reset" "st_my_addr ?reset = st_my_addr st"
    by (simp_all add: vc_reset_def Let_def)
  then have f: "typed_state (fst ?fp)" "st_my_addr (fst ?fp) = st_my_addr st"
    "list_all (effect_typed (st_my_addr st)) (snd ?fp)"
    using reinstate_typed[of ?reset en] by (simp_all add: typed_step_def)
  then have d: "typed_state (fst ?det)" "st_my_addr (fst ?det) = st_my_addr st"
    "list_all (effect_typed (st_my_addr st)) (snd ?det)"
    using rebuild_typed[of "fst ?fp" en] by (simp_all add: vc_detectors_def Let_def typed_step_def)
  then have j: "typed_state (fst ?resp)" "st_my_addr (fst ?resp) = st_my_addr st"
    "list_all (effect_typed (st_my_addr st)) (snd ?resp)"
    using respond_to_joiners_typed[of "fst ?det"] by (simp_all add: typed_step_def)
  have "list_all (effect_typed (st_my_addr st)) (snd (cancel_failure_detectors st))"
    using cancel_typed[OF assms] by (simp add: typed_step_def)
  then show ?thesis
    using f(3) d(3) j by (simp add: typed_step_def decide_view_change_stages split_beta Let_def)
qed

section \<open>Consensus outputs\<close>

definition outgoing_typed :: "endpoint \<Rightarrow> fast_outgoing \<Rightarrow> bool" where
  "outgoing_typed a out = (case out of
       FastBroadcast req \<Rightarrow> request_typed a req
     | FastUnicast _ req \<Rightarrow> request_typed a req
     | _ \<Rightarrow> True)"

lemma fast_handlers_typed:
  assumes "own_instance a fp"
  shows "own_instance a (fst (propose j fp v)) \<and> list_all (outgoing_typed a) (snd (propose j fp v))"
    "own_instance a (fst (start_classic_round x fp)) \<and> list_all (outgoing_typed a) (snd (start_classic_round x fp))"
  using assms
  by (auto simp: own_instance_def propose_def start_classic_round_def start_phase1a_def register_fast_round_vote_def
      Let_def outgoing_typed_def request_typed_def)

lemma consensus_typed:
  assumes "own_instance a fp"
  shows "own_instance a (fst (handle_consensus_message fp r)) \<and>
    list_all (outgoing_typed a) (snd (handle_consensus_message fp r))"
proof (cases "req_content r")
  case None
  then show ?thesis using assms by (simp add: handle_consensus_message_def)
next
  case (Some content)
  then show ?thesis
    using assms
    by (cases content)
      (auto simp: handle_consensus_message_def own_instance_def handle_paxos_def
        handle_fast_round_proposal_def handle_phase1a_def handle_phase1b_def handle_phase2a_def
        handle_phase2b_def Let_def outgoing_typed_def request_typed_def split: option.split)
qed

lemma dispatch_one_typed:
  assumes "typed_state st" "outgoing_typed (st_my_addr st) out"
  shows "typed_step st (dispatch_one en st out)"
proof (cases out)
  case (FastDecision v)
  let ?d = "decide_view_change en st v"
  have "typed_step st (fst ?d, snd ?d)" using decide_view_change_typed[OF assms(1)] by simp
  moreover from this have "typed_step (fst ?d) (reinstate_fast_paxos en (fst ?d))"
    by (intro reinstate_typed) (simp add: typed_step_def)
  ultimately show ?thesis
    using FastDecision by (simp add: dispatch_one_def split_beta Let_def typed_step_def)
qed (use assms in \<open>auto simp: typed_step_def dispatch_one_def spawn_broadcast_def spawn_unicast_def spawn_fallback_def
    outgoing_typed_def Let_def split: option.split\<close>)

lemma dispatch_typed:
  "typed_state st \<Longrightarrow> list_all (outgoing_typed (st_my_addr st)) outs \<Longrightarrow> typed_step st (dispatch en st outs)"
proof (induction outs arbitrary: st)
  case (Cons out outs)
  let ?d = "dispatch_one en st out"
  have one: "typed_step st (fst ?d, snd ?d)" using dispatch_one_typed Cons.prems by simp
  then have "typed_step (fst ?d) (dispatch en (fst ?d) outs)"
    using Cons.prems by (intro Cons.IH) (simp_all add: typed_step_def)
  from typed_step_trans[OF one this] show ?case by (simp add: Let_def split_beta)
qed (simp add: typed_step_def)

lemma set_instance_typed:
  assumes "typed_state st" "own_instance (st_my_addr st) fp" "list_all (outgoing_typed (st_my_addr st)) outs"
  shows "typed_step st (dispatch en (st\<lparr>st_fast_paxos := Some fp\<rparr>) outs)"
proof -
  have "typed_state (st\<lparr>st_fast_paxos := Some fp\<rparr>)" using assms(1,2) by (simp add: typed_state_def)
  from dispatch_typed[OF this, of outs en] assms(3) show ?thesis by (simp add: typed_step_def)
qed

lemma typed_instance: "typed_state st \<Longrightarrow> st_fast_paxos st = Some fp \<Longrightarrow> own_instance (st_my_addr st) fp"
  by (simp add: typed_state_def)

lemma consensus_glue_typed:
  assumes "typed_state st"
  shows "typed_step st (service_propose en j st p)" "typed_step st (start_classic en st)"
    "typed_step st (handle_consensus_request en st r)"
  using assms typed_instance[OF assms] fast_handlers_typed consensus_typed
  by (auto simp: service_propose_def start_classic_def handle_consensus_request_def Let_def split_beta typed_step_def[of st "(st, [])"]
      intro!: set_instance_typed split: option.split)

lemma extract_joiner_outputs [simp]:
  "st_send_queue (extract_joiner st al) = st_send_queue st"
  by (auto simp: extract_joiner_def Let_def split: option.split)

lemma filter_alerts_outputs [simp]:
  "st_send_queue (fst (filter_alerts c st als)) = st_send_queue st"
  by (induction als arbitrary: st) (auto simp: Let_def split_beta)

lemma handle_batched_alerts_typed:
  assumes "typed_state st"
  shows "typed_step st (fst (handle_batched_alerts en st b), snd (snd (handle_batched_alerts en st b)))"
proof -
  let ?c = "configuration_id en st" let ?f = "filter_alerts (snd ?c) (fst ?c) (ba_messages b)"
  have "typed_state (fst ?f)" "st_my_addr (fst ?f) = st_my_addr st"
    using assms typed_frame[of "fst ?f" "fst ?c"] by simp_all
  then have "typed_state (fst (detect_cut en (fst ?f) (snd ?f)))" "st_my_addr (fst (detect_cut en (fst ?f) (snd ?f))) = st_my_addr st"
    by (simp_all add: detect_cut_def Let_def split_beta)
  then show ?thesis
    using assms by (simp add: typed_step_def handle_batched_alerts_def Let_def split_beta)
qed

section \<open>The property\<close>

lemma handle_request_typed:
  assumes "typed_state st"
  shows "typed_step st (handle_request en now j st r reply)"
proof (cases "st_lifecycle st = ShuttingDown \<or> req_content r = None")
  case True
  then show ?thesis using assms by (auto simp: handle_request_def typed_step_def)
next
  case False
  then obtain content where r: "r = RapidRequest (Some content)" by (cases r) auto
  show ?thesis
  proof (cases content)
    case (BatchedAlertMessage m)
    let ?b = "handle_batched_alerts en st m"
    let ?p = "if fst (snd ?b) \<noteq> [] then service_propose en j (fst ?b) (fst (snd ?b)) else (fst ?b, [])"
    have b: "typed_step st (fst ?b, snd (snd ?b))" by (rule handle_batched_alerts_typed[OF assms])
    then have "typed_state (fst ?b)" by (simp add: typed_step_def)
    then have "typed_step (fst ?b) ?p"
      using consensus_glue_typed(1) by (simp add: typed_step_def)
    from typed_step_trans[OF b this] show ?thesis
      using False by (simp add: handle_request_def r BatchedAlertMessage Let_def split_beta typed_step_def)
  qed (use False assms handle_pre_join_typed[OF assms] handle_join_typed[OF assms] handle_edge_failure_typed
      consensus_glue_typed(3)[OF assms] in
      \<open>auto simp: handle_request_def r Let_def split_beta typed_step_def split: option.split\<close>)
qed

lemma handle_command_typed:
  assumes "typed_state st"
  shows "typed_step st (fst (handle_command en now j st cmd), fst (snd (handle_command en now j st cmd)))"
proof (cases cmd)
  case (ApplyProposal p reply)
  let ?d = "decide_view_change en st p"
  have d: "typed_step st (fst ?d, snd ?d)" using decide_view_change_typed[OF assms] by simp
  moreover from this have "typed_step (fst ?d) (reinstate_fast_paxos en (fst ?d))"
    by (intro reinstate_typed) (simp add: typed_step_def)
  ultimately show ?thesis
    using ApplyProposal by (simp add: handle_command_def split_beta Let_def typed_step_def)
qed (use assms handle_request_typed[OF assms] handle_tick_typed[OF assms] rebuild_typed[OF assms]
    handle_edge_failure_typed[OF assms] consensus_glue_typed(2)[OF assms] in
    \<open>auto simp: handle_command_def split_beta Let_def typed_step_def publish_initial_view_def\<close>)

lemma command_loop_typed:
  "typed_state st \<Longrightarrow> typed_step st (command_loop en st cmds)"
proof (induction cmds arbitrary: st)
  case (Cons c cmds)
  obtain now j cmd where c: "c = (now, j, cmd)" by (cases c)
  let ?h = "handle_command en now j st cmd"
  have h: "typed_step st (fst ?h, fst (snd ?h))" by (rule handle_command_typed[OF Cons.prems])
  then have "typed_step (fst ?h) (command_loop en (fst ?h) cmds)"
    by (intro Cons.IH) (simp add: typed_step_def)
  from typed_step_trans[OF h this] h show ?case by (simp add: c split_beta Let_def)
qed (simp add: typed_step_def)

text \<open>
  C21. The actor's outputs are well typed. Whatever commands it processes, and however malformed the
  requests among them are, every request it broadcasts or unicasts names this node as its sender,
  carries its ranks, and a batch of alerts is not empty, each alert with a destination, a known
  status and a node identifier exactly when it announces a joiner; every join response names this
  node and has a known status code and as many metadata values as keys.
\<close>

theorem outputs_well_typed:
  assumes "typed_state st"
  shows "list_all (effect_typed (st_my_addr st)) (snd (service_run en st cmds))"
proof -
  let ?r = "rebuild en st" let ?l = "command_loop en (fst ?r) cmds"
  have r: "typed_step st (fst ?r, snd ?r)" using rebuild_typed[OF assms] by simp
  then have l: "typed_step (fst ?r) (fst ?l, snd ?l)" using command_loop_typed[of "fst ?r" en cmds] by (simp add: typed_step_def)
  then have "typed_step (fst ?l) (cancel_failure_detectors (fst ?l))" by (intro cancel_typed) (simp add: typed_step_def)
  with r l show ?thesis by (simp add: service_run_def Let_def split_beta typed_step_def)
qed

theorem outputs_well_typed_witness:
  "list_all (effect_typed (demo_ep 1)) (snd (service_run demo_env demo_service
      [(10, 0, demo_batch [demo_alert 2 4 Up [0, 1]] 7), (20, 0, TickAlertBatcher)]))"
proof -
  have "list_all (alert_typed (st_my_addr demo_service)) (st_send_queue demo_service) \<and>
      (case st_fast_paxos demo_service of None \<Rightarrow> True | Some fp \<Rightarrow> own_instance (st_my_addr demo_service) fp)"
    by code_simp
  then have "typed_state demo_service" by (auto simp: typed_state_def split: option.splits)
  moreover have "st_my_addr demo_service = demo_ep 1" by code_simp
  ultimately show ?thesis using outputs_well_typed[of demo_service demo_env] by simp
qed

end
