(* ===== verification/Handle.thy ===== *)
theory Handle
  imports Service_Props "HOL-Library.Sublist"
begin

text \<open>
  The handle of the membership-service actor (\<^verbatim>\<open>crates/rapid/src/service/handle.rs\<close>,
  \<^verbatim>\<open>service/handler.rs\<close>) and the mailbox between it and the actor's task. A handle's call posts a
  command with a fresh reply channel and waits for the answer on it; the task takes the commands
  in the order in which they were posted. An actor is its state, the commands waiting in its
  mailbox, the effects it has produced and whether its task has returned. Events interleave the
  posts of any number of handles with the turns of the task, which draw the clock reading and the
  jitter.

  Properties: the actor refines the command loop on the commands in posting order, and every
  query answers with the state after exactly the commands posted before it.
\<close>

section \<open>The actor and its mailbox\<close>

record actor =
  ac_state :: service_state
  ac_mailbox :: "service_command list"
  ac_effects :: "service_effect list"
  ac_exited :: bool

definition spawn_actor :: "env \<Rightarrow> service_state \<Rightarrow> actor" where
  "spawn_actor en st = (let (st, effects) = rebuild en st
     in \<lparr>ac_state = st, ac_mailbox = [], ac_effects = effects, ac_exited = False\<rparr>)"

text \<open>\<^verbatim>\<open>self.tx.send(command).await\<close>: an error once the receiver is dropped.\<close>

definition tx_send :: "actor \<Rightarrow> service_command \<Rightarrow> actor result" where
  "tx_send a cmd = (if ac_exited a then Inl Shutdown else Inr (a\<lparr>ac_mailbox := ac_mailbox a @ [cmd]\<rparr>))"

text \<open>One iteration of \<^verbatim>\<open>task::run\<close>; on a stop the detectors are aborted and the mailbox is dropped.\<close>

definition actor_turn :: "env \<Rightarrow> nat \<Rightarrow> nat \<Rightarrow> actor \<Rightarrow> actor" where
  "actor_turn en now jitter a =
     (if ac_exited a then a
      else case ac_mailbox a of
        [] \<Rightarrow> a
      | cmd # rest \<Rightarrow>
          (let (st, effects, stop) = handle_command en now jitter (ac_state a) cmd
           in if stop
              then (let (st, aborts) = cancel_failure_detectors st
                    in \<lparr>ac_state = st, ac_mailbox = [], ac_effects = ac_effects a @ effects @ aborts, ac_exited = True\<rparr>)
              else a\<lparr>ac_state := st, ac_mailbox := rest, ac_effects := ac_effects a @ effects\<rparr>))"

text \<open>
  \<^verbatim>\<open>rx.await\<close>: the answer sent on the channel, a shutdown error when the task returned without one,
  \<open>None\<close> while the caller waits.
\<close>

definition rx_await :: "(service_effect \<Rightarrow> 'a option) \<Rightarrow> actor \<Rightarrow> 'a result option" where
  "rx_await answer a = (case List.map_filter answer (ac_effects a) of
       x # _ \<Rightarrow> Some (Inr x)
     | [] \<Rightarrow> if ac_exited a then Some (Inl Shutdown) else None)"

fun endpoints_on :: "reply_id \<Rightarrow> service_effect \<Rightarrow> endpoint list option" where
  "endpoints_on r (ReplyEndpoints r' x) = (if r = r' then Some x else None)"
| "endpoints_on r _ = None"

fun nat_on :: "reply_id \<Rightarrow> service_effect \<Rightarrow> nat option" where
  "nat_on r (ReplyNat r' x) = (if r = r' then Some x else None)"
| "nat_on r _ = None"

fun metadata_on :: "reply_id \<Rightarrow> service_effect \<Rightarrow> (endpoint \<times> metadata) list option" where
  "metadata_on r (ReplyMetadata r' x) = (if r = r' then Some x else None)"
| "metadata_on r _ = None"

fun configuration_on :: "reply_id \<Rightarrow> service_effect \<Rightarrow> configuration_id option" where
  "configuration_on r (ReplyConfigurationId r' x) = (if r = r' then Some x else None)"
| "configuration_on r _ = None"

fun unit_on :: "reply_id \<Rightarrow> service_effect \<Rightarrow> unit option" where
  "unit_on r (ReplyUnit r') = (if r = r' then Some () else None)"
| "unit_on r _ = None"

fun response_on :: "reply_id \<Rightarrow> service_effect \<Rightarrow> rapid_response result option" where
  "response_on r (Reply r' x) = (if r = r' then Some x else None)"
| "response_on r _ = None"

section \<open>The calls of a handle\<close>

text \<open>Each call is its post and the wait for its answer, on the channel \<open>r\<close> made for it.\<close>

definition ask_memberlist :: "reply_id \<Rightarrow> (actor \<Rightarrow> actor result) \<times> (actor \<Rightarrow> endpoint list result option)" where
  "ask_memberlist r = (\<lambda>a. tx_send a (Memberlist r), rx_await (endpoints_on r))"

definition ask_membership_size :: "reply_id \<Rightarrow> (actor \<Rightarrow> actor result) \<times> (actor \<Rightarrow> nat result option)" where
  "ask_membership_size r = (\<lambda>a. tx_send a (MembershipSize r), rx_await (nat_on r))"

definition ask_metadata ::
  "reply_id \<Rightarrow> (actor \<Rightarrow> actor result) \<times> (actor \<Rightarrow> (endpoint \<times> metadata) list result option)" where
  "ask_metadata r = (\<lambda>a. tx_send a (MetadataQuery r), rx_await (metadata_on r))"

definition ask_configuration_id ::
  "reply_id \<Rightarrow> (actor \<Rightarrow> actor result) \<times> (actor \<Rightarrow> configuration_id result option)" where
  "ask_configuration_id r = (\<lambda>a. tx_send a (ConfigurationIdQuery r), rx_await (configuration_on r))"

definition ask_apply_proposal ::
  "endpoint list \<Rightarrow> reply_id \<Rightarrow> (actor \<Rightarrow> actor result) \<times> (actor \<Rightarrow> unit result option)" where
  "ask_apply_proposal proposal r = (\<lambda>a. tx_send a (ApplyProposal proposal r), rx_await (unit_on r))"

definition ask_rebuild_failure_detectors :: "reply_id \<Rightarrow> (actor \<Rightarrow> actor result) \<times> (actor \<Rightarrow> nat result option)" where
  "ask_rebuild_failure_detectors r = (\<lambda>a. tx_send a (RebuildFailureDetectors r), rx_await (nat_on r))"

definition ask_alert_queue_len :: "reply_id \<Rightarrow> (actor \<Rightarrow> actor result) \<times> (actor \<Rightarrow> nat result option)" where
  "ask_alert_queue_len r = (\<lambda>a. tx_send a (AlertQueueLen r), rx_await (nat_on r))"

text \<open>\<^verbatim>\<open>dispatch\<close> passes the actor's own error on.\<close>

definition ask_dispatch ::
  "rapid_request \<Rightarrow> reply_id \<Rightarrow> (actor \<Rightarrow> actor result) \<times> (actor \<Rightarrow> rapid_response result option)" where
  "ask_dispatch request r = (\<lambda>a. tx_send a (Request request r),
     \<lambda>a. map_option (\<lambda>x. case x of Inl err \<Rightarrow> Inl err | Inr y \<Rightarrow> y) (rx_await (response_on r) a))"

definition post_shutdown :: "actor \<Rightarrow> actor" where
  "post_shutdown a = (case tx_send a ShutdownCommand of Inl _ \<Rightarrow> a | Inr a' \<Rightarrow> a')"

section \<open>Interleavings\<close>

datatype actor_event = Post service_command | Turn nat nat

fun actor_step :: "env \<Rightarrow> actor \<Rightarrow> actor_event \<Rightarrow> actor" where
  "actor_step en a (Post cmd) = (case tx_send a cmd of Inl _ \<Rightarrow> a | Inr a' \<Rightarrow> a')"
| "actor_step en a (Turn now jitter) = actor_turn en now jitter a"

section \<open>The mailbox is first-in first-out\<close>

fun posts :: "actor_event list \<Rightarrow> service_command list" where
  "posts [] = []"
| "posts (Post cmd # evs) = cmd # posts evs"
| "posts (Turn _ _ # evs) = posts evs"

lemma posts_append [simp]: "posts (xs @ ys) = posts xs @ posts ys"
  by (induction xs rule: posts.induct) auto

lemma posts_turns [simp]: "posts (map (\<lambda>(now, j). Turn now j) ts) = []"
  by (induction ts) auto

abbreviation commands :: "(nat \<times> nat \<times> service_command) list \<Rightarrow> service_command list" where
  "commands ds \<equiv> map (snd \<circ> snd) ds"

lemma command_loop_append:
  "ShutdownCommand \<notin> set (commands xs) \<Longrightarrow> command_loop en st (xs @ ys) =
     (let (st', es) = command_loop en st xs; (st'', es') = command_loop en st' ys in (st'', es @ es'))"
proof (induction xs arbitrary: st)
  case (Cons x xs)
  obtain now j cmd where x: "x = (now, j, cmd)" by (cases x)
  have "\<not> snd (snd (handle_command en now j st cmd))" using Cons.prems by (auto simp: x handle_command_stop)
  then show ?case using Cons by (simp add: x split_beta Let_def)
qed simp

text \<open>The run of an actor follows the command loop over the commands it has taken.\<close>

definition follows :: "env \<Rightarrow> service_state \<Rightarrow> service_command list \<Rightarrow> (nat \<times> nat \<times> service_command) list \<Rightarrow> actor \<Rightarrow> bool" where
  "follows en st posted ds a \<longleftrightarrow>
     (let (st', es) = command_loop en (fst (rebuild en st)) ds in
      if ac_exited a
      then (\<exists>d now j. ds = d @ [(now, j, ShutdownCommand)] \<and> ShutdownCommand \<notin> set (commands d)) \<and>
        prefix (commands ds) posted \<and> ac_mailbox a = [] \<and>
        ac_state a = fst (cancel_failure_detectors st') \<and>
        ac_effects a = snd (rebuild en st) @ es @ snd (cancel_failure_detectors st')
      else ShutdownCommand \<notin> set (commands ds) \<and> commands ds @ ac_mailbox a = posted \<and>
        ac_state a = st' \<and> ac_effects a = snd (rebuild en st) @ es)"

lemma follows_spawn: "follows en st [] [] (spawn_actor en st)"
  by (simp add: follows_def spawn_actor_def split_beta)

lemma follows_post:
  assumes "follows en st posted ds a"
  shows "follows en st (posted @ [cmd]) ds (actor_step en a (Post cmd))"
  using assms by (auto simp: follows_def tx_send_def split_beta Let_def intro: prefix_prefix)

lemma follows_turn:
  assumes "follows en st posted ds a"
  shows "\<exists>ds'. follows en st posted ds' (actor_step en a (Turn now j))"
proof (cases "ac_exited a \<or> ac_mailbox a = []")
  case True
  then have "actor_step en a (Turn now j) = a" by (auto simp: actor_turn_def)
  then show ?thesis using assms by auto
next
  case False
  then obtain cmd rest where m: "ac_mailbox a = cmd # rest" "\<not> ac_exited a" by (cases "ac_mailbox a") auto
  let ?h = "handle_command en now j (ac_state a) cmd"
  have d: "ShutdownCommand \<notin> set (commands ds)" "commands ds @ cmd # rest = posted"
    "ac_state a = fst (command_loop en (fst (rebuild en st)) ds)"
    "ac_effects a = snd (rebuild en st) @ snd (command_loop en (fst (rebuild en st)) ds)"
    using assms m by (auto simp: follows_def split_beta Let_def)
  have l: "command_loop en (fst (rebuild en st)) (ds @ [(now, j, cmd)]) =
      (fst ?h, snd (command_loop en (fst (rebuild en st)) ds) @ fst (snd ?h))"
    using command_loop_append[OF d(1)] d(3) by (simp add: split_beta Let_def)
  have "follows en st posted (ds @ [(now, j, cmd)]) (actor_turn en now j a)"
  proof (cases "cmd = ShutdownCommand")
    case True
    then have "snd (snd ?h)" by (simp add: handle_command_stop)
    then show ?thesis
      using m d True unfolding follows_def l
      by (auto simp: actor_turn_def split_beta Let_def prefix_def)
  next
    case False
    then have "\<not> snd (snd ?h)" by (simp add: handle_command_stop)
    then show ?thesis
      using m d False unfolding follows_def l by (auto simp: actor_turn_def split_beta Let_def)
  qed
  then show ?thesis by auto
qed

lemma follows_step:
  assumes "follows en st posted ds a"
  shows "\<exists>ds'. follows en st (posted @ posts [ev]) ds' (actor_step en a ev)"
proof (cases ev)
  case (Post cmd)
  then show ?thesis using follows_post[OF assms] by auto
next
  case (Turn now j)
  then show ?thesis using follows_turn[OF assms] by auto
qed

lemma follows_run:
  "follows en st posted ds a \<Longrightarrow> \<exists>ds'. follows en st (posted @ posts evs) ds' (run (actor_step en) a evs)"
proof (induction evs arbitrary: posted ds a)
  case (Cons ev evs)
  obtain ds' where "follows en st (posted @ posts [ev]) ds' (actor_step en a ev)"
    using follows_step[OF Cons.prems] by blast
  then have "\<exists>ds''. follows en st ((posted @ posts [ev]) @ posts evs) ds'' (run (actor_step en) (actor_step en a ev) evs)"
    by (rule Cons.IH)
  moreover have "posts [ev] @ posts evs = posts (ev # evs)" using posts_append[of "[ev]" evs] by simp
  ultimately show ?case by simp
qed auto

text \<open>
  C22. The actor refines the command loop. However the posts of its handles interleave with the
  turns of its task, an actor that has returned has gone through exactly a run of the service on
  commands taken in the order in which they were posted, up to the first shutdown; one that has
  not returned is in the state of the loop after the commands taken so far and the rest wait in
  its mailbox in order. No command is lost, repeated or reordered, and nothing is processed after
  the shutdown.
\<close>

theorem actor_refines_service_run:
  "let a = run (actor_step en) (spawn_actor en st) evs in
   \<exists>ds. (if ac_exited a
      then (ac_state a, ac_effects a) = service_run en st ds \<and> prefix (commands ds) (posts evs) \<and>
        (\<exists>d. commands ds = d @ [ShutdownCommand] \<and> ShutdownCommand \<notin> set d)
      else ac_state a = fst (command_loop en (fst (rebuild en st)) ds) \<and>
        ac_effects a = snd (rebuild en st) @ snd (command_loop en (fst (rebuild en st)) ds) \<and>
        commands ds @ ac_mailbox a = posts evs \<and> ShutdownCommand \<notin> set (commands ds))"
proof -
  let ?a = "run (actor_step en) (spawn_actor en st) evs"
  obtain ds where f: "follows en st (posts evs) ds ?a" using follows_run[OF follows_spawn] by fastforce
  show ?thesis unfolding Let_def
  proof (rule exI[of _ ds], cases "ac_exited ?a")
    case True
    then have "\<exists>d. commands ds = d @ [ShutdownCommand] \<and> ShutdownCommand \<notin> set d"
      using f by (auto simp: follows_def split_beta Let_def)
    then show "if ac_exited ?a
      then (ac_state ?a, ac_effects ?a) = service_run en st ds \<and> prefix (commands ds) (posts evs) \<and>
        (\<exists>d. commands ds = d @ [ShutdownCommand] \<and> ShutdownCommand \<notin> set d)
      else ac_state ?a = fst (command_loop en (fst (rebuild en st)) ds) \<and>
        ac_effects ?a = snd (rebuild en st) @ snd (command_loop en (fst (rebuild en st)) ds) \<and>
        commands ds @ ac_mailbox ?a = posts evs \<and> ShutdownCommand \<notin> set (commands ds)"
      using f True by (simp add: follows_def service_run_def split_beta Let_def)
  qed (use f in \<open>simp add: follows_def split_beta Let_def\<close>)
qed

section \<open>Queries see the commands before them\<close>

lemma actor_turns_mailbox:
  "\<not> ac_exited (run (actor_step en) a (map (\<lambda>(now, j). Turn now j) ts)) \<Longrightarrow>
     ac_mailbox (run (actor_step en) a (map (\<lambda>(now, j). Turn now j) ts)) = drop (length ts) (ac_mailbox a) \<and> \<not> ac_exited a"
proof (induction ts arbitrary: a)
  case (Cons t ts)
  obtain now j where t: "t = (now, j)" by (cases t)
  let ?b = "actor_turn en now j a"
  have "ac_mailbox ?b = tl (ac_mailbox a) \<and> \<not> ac_exited a" if "\<not> ac_exited ?b"
    using that by (cases "ac_mailbox a") (auto simp: actor_turn_def split_beta Let_def split: if_splits)
  then show ?case using Cons by (auto simp: t drop_Suc)
qed simp

lemma map_filter_append: "List.map_filter f (xs @ ys) = List.map_filter f xs @ List.map_filter f ys"
  by (induction xs) (simp_all add: List.map_filter_simps split: option.split)

text \<open>The commands before a position are the ones taken before it.\<close>

lemma follows_position:
  assumes "follows en st (before @ cmd # after) ds a" "length before < length ds" "ShutdownCommand \<notin> set before"
  obtains d now j d' where "ds = d @ (now, j, cmd) # d'" "commands d = before"
proof -
  have p: "prefix (commands ds) (before @ cmd # after)"
    using assms(1) by (auto simp: follows_def split_beta Let_def intro: prefixI[OF sym] split: if_splits)
  let ?n = "length before"
  have s: "ds = take ?n ds @ ds ! ?n # drop (Suc ?n) ds" by (rule id_take_nth_drop[OF assms(2)])
  have t: "take (Suc ?n) (commands ds) = before @ [cmd]"
  proof -
    obtain zs where "before @ cmd # after = commands ds @ zs" using p by (auto simp: prefix_def)
    from arg_cong[OF this, of "take (Suc ?n)"] show ?thesis using assms(2) by simp
  qed
  then have "commands (take ?n ds) = before" "snd (snd (ds ! ?n)) = cmd"
    using assms(2) by (simp_all add: take_Suc_conv_app_nth take_map)
  then show ?thesis using that[of "take ?n ds" "fst (ds ! ?n)" "fst (snd (ds ! ?n))"] s by (metis prod.collapse)
qed

lemma turns_reach:
  assumes "posts evs = before @ cmd # after" "ShutdownCommand \<notin> set before" "cmd \<noteq> ShutdownCommand"
    and "length before < length ts"
  obtains ds where "follows en st (posts evs) ds (run (actor_step en) (spawn_actor en st) (evs @ map (\<lambda>(now, j). Turn now j) ts))"
    "length before < length ds"
proof -
  let ?a = "run (actor_step en) (spawn_actor en st) evs"
  let ?b = "run (actor_step en) ?a (map (\<lambda>(now, j). Turn now j) ts)"
  have r: "run (actor_step en) (spawn_actor en st) (evs @ map (\<lambda>(now, j). Turn now j) ts) = ?b" by (rule run_append)
  obtain ds where b: "follows en st (posts evs) ds ?b"
    using follows_run[OF follows_spawn, of en st "evs @ map (\<lambda>(now, j). Turn now j) ts"] r by auto
  obtain ds1 where a: "follows en st (posts evs) ds1 ?a" using follows_run[OF follows_spawn] by fastforce
  have "length before < length ds"
  proof (cases "ac_exited ?b")
    case True
    then obtain d now j where d: "ds = d @ [(now, j, ShutdownCommand)]" and p: "prefix (commands ds) (before @ cmd # after)"
      using b assms(1) by (auto simp: follows_def split_beta Let_def)
    have "ShutdownCommand \<in> set before" if "length ds \<le> length before"
    proof -
      have "prefix (commands ds) before" using p that prefix_length_prefix[OF p, of before] by simp
      then show ?thesis using d set_mono_prefix by fastforce
    qed
    then show ?thesis using assms(2) by force
  next
    case False
    then have m: "ac_mailbox ?b = drop (length ts) (ac_mailbox ?a)" "\<not> ac_exited ?a"
      using actor_turns_mailbox by blast+
    have l: "commands ds @ ac_mailbox ?b = posts evs" "commands ds1 @ ac_mailbox ?a = posts evs"
      using a b False m(2) by (auto simp: follows_def split_beta Let_def)
    have "length ds + length (ac_mailbox ?b) = length (posts evs)" "length ds1 + length (ac_mailbox ?a) = length (posts evs)"
      using arg_cong[OF l(1), of length] arg_cong[OF l(2), of length] by simp_all
    then show ?thesis using m(1) assms(1,4) by (cases "length ts \<le> length (ac_mailbox ?a)") auto
  qed
  then show ?thesis using that b r by metis
qed

text \<open>
  A query: a command that is answered at once on its channel, with a value of the state it finds,
  and an extractor that reads only that channel.
\<close>

locale actor_query =
  fixes en :: env
    and r :: reply_id
    and cmd :: service_command
    and answer :: "service_effect \<Rightarrow> 'a option"
    and val :: "service_state \<Rightarrow> 'a"
  assumes own_channel: "answer e = Some x \<Longrightarrow> reply_channel e = Some r"
    and answered: "\<exists>es es' e. fst (snd (handle_command en now j st cmd)) = es @ e # es' \<and>
      List.map_filter answer es = [] \<and> answer e = Some (val st)"
    and not_shutdown: "cmd \<noteq> ShutdownCommand"
begin

lemma answers_Nil: "replies_to r es = 0 \<Longrightarrow> List.map_filter answer es = []"
proof (induction es)
  case (Cons e es)
  then have "reply_channel e \<noteq> Some r" by (auto split: if_splits)
  then have "answer e = None" using own_channel[of e] by (cases "answer e") auto
  then show ?case using Cons by (simp add: List.map_filter_simps split: if_splits)
qed (simp add: List.map_filter_simps)

lemma first_answer:
  assumes "ShutdownCommand \<notin> set (commands d)" "replies_to r (snd (command_loop en st d)) = 0"
  shows "\<exists>es. List.map_filter answer (snd (command_loop en st (d @ (now, j, cmd) # d'))) =
    val (fst (command_loop en st d)) # es"
proof -
  let ?L = "command_loop en st d"
  have "\<not> snd (snd (handle_command en now j (fst ?L) cmd))" using not_shutdown by (simp add: handle_command_stop)
  then have "\<exists>es. snd (command_loop en st (d @ (now, j, cmd) # d')) =
      snd ?L @ fst (snd (handle_command en now j (fst ?L) cmd)) @ es"
    using command_loop_append[OF assms(1)] by (auto simp: split_beta Let_def)
  then show ?thesis
    using answers_Nil[OF assms(2)] answered[of now j "fst ?L"]
    by (auto simp: map_filter_append List.map_filter_simps)
qed

lemma linearizable:
  assumes "posts evs = before @ cmd # after" and "ShutdownCommand \<notin> set before"
    and "Some r \<notin> command_channel ` set before" and "parked r st = 0" and "length before < length ts"
  shows "\<exists>d. commands d = before \<and>
    rx_await answer (run (actor_step en) (spawn_actor en st) (evs @ map (\<lambda>(now, j). Turn now j) ts)) =
      Some (Inr (val (fst (command_loop en (fst (rebuild en st)) d))))"
proof -
  let ?a = "run (actor_step en) (spawn_actor en st) (evs @ map (\<lambda>(now, j). Turn now j) ts)"
  obtain ds where f: "follows en st (posts evs) ds ?a" "length before < length ds"
    using turns_reach[OF assms(1,2) not_shutdown assms(5)] by blast
  then obtain d now j d' where d: "ds = d @ (now, j, cmd) # d'" "commands d = before"
    using follows_position[OF _ f(2) assms(2)] assms(1) by metis
  let ?st = "fst (rebuild en st)"
  have "taken d = before" using d(2) assms(2) by (auto simp: taken_def takeWhile_eq_all_conv)
  then have "replies_to r (snd (command_loop en ?st d)) = 0"
    using command_loop_replies[of r en ?st d] assms(3,4) by (auto simp: parked_def count_list_0_iff)
  then obtain es where l: "List.map_filter answer (snd (command_loop en ?st ds)) =
      val (fst (command_loop en ?st d)) # es"
    using first_answer[of d ?st now j d'] d assms(2) by auto
  have "\<exists>es'. ac_effects ?a = snd (rebuild en st) @ snd (command_loop en ?st ds) @ es'"
    using f(1) by (auto simp: follows_def split_beta Let_def split: if_splits)
  then have "\<exists>es'. List.map_filter answer (ac_effects ?a) = val (fst (command_loop en ?st d)) # es'"
    using l answers_Nil[OF replies_quiet(2)] by (auto simp: map_filter_append)
  then show ?thesis using d(2) by (auto simp: rx_await_def)
qed

end

lemmas query_simps = handle_command_def List.map_filter_simps

interpretation qm: actor_query en r "Memberlist r" "endpoints_on r" memberlist for en r
proof unfold_locales
  show "endpoints_on r e = Some x \<Longrightarrow> reply_channel e = Some r" for e x by (cases e) (auto split: if_splits)
qed (rule exI[of _ "[]"], simp_all add: query_simps)

interpretation qs: actor_query en r "MembershipSize r" "nat_on r" service_membership_size for en r
proof unfold_locales
  show "nat_on r e = Some x \<Longrightarrow> reply_channel e = Some r" for e x by (cases e) (auto split: if_splits)
qed (rule exI[of _ "[]"], simp_all add: query_simps)

interpretation qq: actor_query en r "AlertQueueLen r" "nat_on r" "\<lambda>st. length (st_send_queue st)" for en r
proof unfold_locales
  show "nat_on r e = Some x \<Longrightarrow> reply_channel e = Some r" for e x by (cases e) (auto split: if_splits)
qed (rule exI[of _ "[]"], simp_all add: query_simps)

interpretation qd: actor_query en r "MetadataQuery r" "metadata_on r" "metadata_snapshot en" for en r
proof unfold_locales
  show "metadata_on r e = Some x \<Longrightarrow> reply_channel e = Some r" for e x by (cases e) (auto split: if_splits)
qed (rule exI[of _ "[]"], simp_all add: query_simps)

interpretation qc: actor_query en r "ConfigurationIdQuery r" "configuration_on r" "\<lambda>st. snd (configuration_id en st)" for en r
proof unfold_locales
  show "configuration_on r e = Some x \<Longrightarrow> reply_channel e = Some r" for e x by (cases e) (auto split: if_splits)
qed (rule exI[of _ "[]"], simp_all add: query_simps split_beta Let_def)

text \<open>
  C23. A query sees exactly the commands posted before it. Take any interleaving of posts and turns
  in which a handle posts the member-list query on a fresh channel after the commands \<open>before\<close>, none
  a shutdown. Once the task has had more turns than there are commands before the query, the
  handle has its answer, and it is the member list in the state after those commands and no
  others, whatever is posted later.
\<close>

theorem memberlist_linearizable:
  assumes "posts evs = before @ Memberlist r # after" and "ShutdownCommand \<notin> set before"
    and "Some r \<notin> command_channel ` set before" and "parked r st = 0" and "length before < length ts"
  shows "\<exists>d. commands d = before \<and>
    snd (ask_memberlist r) (run (actor_step en) (spawn_actor en st) (evs @ map (\<lambda>(now, j). Turn now j) ts)) =
      Some (Inr (memberlist (fst (command_loop en (fst (rebuild en st)) d))))"
  using qm.linearizable[OF assms] by (simp add: ask_memberlist_def)

theorem memberlist_linearizable_witness:
  "\<exists>d. commands d = [ApplyProposal [demo_ep 2] 8] \<and>
    snd (ask_memberlist 9) (run (actor_step demo_env) (spawn_actor demo_env demo_service)
      ([Post (ApplyProposal [demo_ep 2] 8), Post (Memberlist 9), Post ShutdownCommand] @
       map (\<lambda>(now, j). Turn now j) [(1, 0), (2, 0)])) =
      Some (Inr (memberlist (fst (command_loop demo_env (fst (rebuild demo_env demo_service)) d))))"
  by (rule memberlist_linearizable[where after = "[ShutdownCommand]"]) (simp_all add: parked_def parked_in_def)

text \<open>
  Calls on a returned actor fail. Once the task has returned, no call changes the actor, every
  post is refused with \<open>Shutdown\<close> and a caller still waiting for an answer that was not sent gets
  \<open>Shutdown\<close> as well, so no call waits forever.
\<close>

theorem exited_actor_refuses:
  assumes "ac_exited a"
  shows "fst (ask_dispatch request r) a = Inl Shutdown \<and> fst (ask_memberlist r) a = Inl Shutdown \<and>
    run (actor_step en) a evs = a \<and>
    snd (ask_dispatch request r) a \<noteq> None \<and>
    (if List.map_filter (response_on r) (ac_effects a) = [] then snd (ask_dispatch request r) a = Some (Inl Shutdown) else True)"
proof -
  have "actor_step en a ev = a" for ev using assms by (cases ev) (simp_all add: tx_send_def actor_turn_def)
  then have "run (actor_step en) a evs = a" by (induction evs) auto
  then show ?thesis
    using assms by (auto simp: ask_dispatch_def ask_memberlist_def tx_send_def rx_await_def split: list.split)
qed

theorem exited_actor_refuses_witness:
  "let a = run (actor_step demo_env) (spawn_actor demo_env demo_service) [Post ShutdownCommand, Turn 1 0] in
   fst (ask_dispatch (RapidRequest None) 3) a = Inl Shutdown \<and> run (actor_step demo_env) a [Turn 2 0] = a"
proof -
  have e: "ac_exited (run (actor_step demo_env) (spawn_actor demo_env demo_service) [Post ShutdownCommand, Turn 1 0])"
    by (simp add: tx_send_def spawn_actor_def actor_turn_def split_beta Let_def handle_command_def)
  show ?thesis unfolding Let_def using exited_actor_refuses[OF e, of "RapidRequest None" 3 demo_env "[Turn 2 0]"] by blast
qed

end
