(* ===== verification/Rust_Str.thy ===== *)
theory Rust_Str
  imports Prelude
begin

text \<open>
  What the sources use of Rust's \<^verbatim>\<open>str\<close>: a string is a list of code points (\<open>rust_str\<close>);
  \<^verbatim>\<open>str::from_utf8\<close>, \<^verbatim>\<open>char::is_whitespace\<close>, \<^verbatim>\<open>trim\<close> and \<^verbatim>\<open>split\<close> are written out, with the UTF-8 encoder
  that \<^verbatim>\<open>from_utf8\<close> inverts and the lossy decoder that agrees with it on valid input.
\<close>

section \<open>Strings\<close>

type_synonym rust_str = "nat list"

definition continuation :: "8 word \<Rightarrow> bool" where
  "continuation b \<longleftrightarrow> unat b div 64 = 2"

definition cont_bits :: "8 word \<Rightarrow> nat" where
  "cont_bits b = unat b mod 64"

text \<open>\<^verbatim>\<open>str::from_utf8\<close>: the shortest encoding of every scalar value, no surrogates, at most \<open>0x10FFFF\<close>.\<close>

fun from_utf8 :: "bytes \<Rightarrow> rust_str option" where
  "from_utf8 [] = Some []"
| "from_utf8 (a # bs) =
     (if unat a < 0x80 then map_option ((#) (unat a)) (from_utf8 bs)
      else if unat a div 32 = 6 then
        (case bs of
           b # rest \<Rightarrow>
             (let c = (unat a mod 32) * 64 + cont_bits b
              in if continuation b \<and> 0x80 \<le> c then map_option ((#) c) (from_utf8 rest) else None)
         | _ \<Rightarrow> None)
      else if unat a div 16 = 14 then
        (case bs of
           b # b' # rest \<Rightarrow>
             (let c = (unat a mod 16) * 4096 + cont_bits b * 64 + cont_bits b'
              in if continuation b \<and> continuation b' \<and> 0x800 \<le> c \<and> \<not> (0xD800 \<le> c \<and> c \<le> 0xDFFF)
                 then map_option ((#) c) (from_utf8 rest) else None)
         | _ \<Rightarrow> None)
      else if unat a div 8 = 30 then
        (case bs of
           b # b' # b'' # rest \<Rightarrow>
             (let c = (unat a mod 8) * 262144 + cont_bits b * 4096 + cont_bits b' * 64 + cont_bits b''
              in if continuation b \<and> continuation b' \<and> continuation b'' \<and> 0x10000 \<le> c \<and> c \<le> 0x10FFFF
                 then map_option ((#) c) (from_utf8 rest) else None)
         | _ \<Rightarrow> None)
      else None)"

text \<open>\<^verbatim>\<open>char::is_whitespace\<close>\<close>

definition is_whitespace :: "nat \<Rightarrow> bool" where
  "is_whitespace c \<longleftrightarrow> (0x09 \<le> c \<and> c \<le> 0x0D) \<or> c = 0x20 \<or> c = 0x85 \<or> c = 0xA0 \<or> c = 0x1680 \<or>
     (0x2000 \<le> c \<and> c \<le> 0x200A) \<or> c = 0x2028 \<or> c = 0x2029 \<or> c = 0x202F \<or> c = 0x205F \<or> c = 0x3000"

definition trim :: "rust_str \<Rightarrow> rust_str" where
  "trim s = rev (dropWhile is_whitespace (rev (dropWhile is_whitespace s)))"

fun split_on :: "nat \<Rightarrow> rust_str \<Rightarrow> rust_str list" where
  "split_on d [] = [[]]"
| "split_on d (c # cs) =
     (if c = d then [] # split_on d cs
      else case split_on d cs of
        [] \<Rightarrow> [[c]]
      | t # ts \<Rightarrow> (c # t) # ts)"

text \<open>Keep the first occurrence of every element.\<close>

fun dedupe :: "'a list \<Rightarrow> 'a list \<Rightarrow> 'a list" where
  "dedupe seen [] = []"
| "dedupe seen (x # xs) = (if x \<in> set seen then dedupe seen xs else x # dedupe (x # seen) xs)"

definition str_of :: "string \<Rightarrow> rust_str" where
  "str_of s = map of_char s"

section \<open>Encoding\<close>

text \<open>The encoder \<^verbatim>\<open>from_utf8\<close> inverts, on Unicode scalar values.\<close>

definition scalar :: "nat \<Rightarrow> bool" where
  "scalar c \<longleftrightarrow> c < 0xD800 \<or> (0xDFFF < c \<and> c \<le> 0x10FFFF)"

definition utf8_char :: "nat \<Rightarrow> bytes" where
  "utf8_char c = map of_nat
     (if c < 0x80 then [c]
      else if c < 0x800 then [192 + c div 64, 128 + c mod 64]
      else if c < 0x10000 then [224 + c div 4096, 128 + c div 64 mod 64, 128 + c mod 64]
      else [240 + c div 262144, 128 + c div 4096 mod 64, 128 + c div 64 mod 64, 128 + c mod 64])"

definition to_utf8 :: "rust_str \<Rightarrow> bytes" where
  "to_utf8 s = concat (map utf8_char s)"

lemma unat_byte: "n < 256 \<Longrightarrow> unat (of_nat n :: 8 word) = n"
  by (simp add: unat_of_nat)

lemma byte_split:
  assumes "(x :: nat) < n"
  shows "(n * q + x) div n = q" "(n * q + x) mod n = x"
  using assms by simp_all

lemma lead_byte: "x < 32 \<Longrightarrow> (192 + x) div 32 = (6 :: nat)" "x < 32 \<Longrightarrow> (192 + x) mod 32 = x"
  "x < 16 \<Longrightarrow> (224 + x) div 16 = (14 :: nat)" "x < 16 \<Longrightarrow> (224 + x) mod 16 = x"
  "x < 8 \<Longrightarrow> (240 + x) div 8 = (30 :: nat)" "x < 8 \<Longrightarrow> (240 + x) mod 8 = x"
  using byte_split[of x 32 6] byte_split[of x 16 14] byte_split[of x 8 30] by simp_all

lemma cont_byte:
  "x < 64 \<Longrightarrow> continuation (of_nat (128 + x))" "x < 64 \<Longrightarrow> cont_bits (of_nat (128 + x)) = x"
proof -
  assume x: "x < 64"
  then have "unat (of_nat (128 + x) :: 8 word) = 128 + x" by (intro unat_byte) simp
  moreover have "(128 + x) div 64 = 2" "(128 + x) mod 64 = x" using byte_split[OF x, of 2] by simp_all
  ultimately show "continuation (of_nat (128 + x))" "cont_bits (of_nat (128 + x)) = x"
    by (simp_all only: continuation_def cont_bits_def)
qed

lemma digits:
  fixes c :: nat
  shows "c div 64 * 64 + c mod 64 = c"
    "c div 4096 * 4096 + c div 64 mod 64 * 64 + c mod 64 = c"
    "c div 262144 * 262144 + c div 4096 mod 64 * 4096 + c div 64 mod 64 * 64 + c mod 64 = c"
proof -
  have d: "c div 4096 = c div 64 div 64" "c div 262144 = c div 4096 div 64"
    by (simp_all flip: div_mult2_eq)
  show a: "c div 64 * 64 + c mod 64 = c" by simp
  have "c div 4096 * 64 + c div 64 mod 64 = c div 64" unfolding d(1) by simp
  then show b: "c div 4096 * 4096 + c div 64 mod 64 * 64 + c mod 64 = c" using a by linarith
  have "c div 262144 * 64 + c div 4096 mod 64 = c div 4096" unfolding d(2) by simp
  then show "c div 262144 * 262144 + c div 4096 mod 64 * 4096 + c div 64 mod 64 * 64 + c mod 64 = c"
    using b by linarith
qed

lemma from_utf8_char:
  assumes "scalar c"
  shows "from_utf8 (utf8_char c @ rest) = map_option ((#) c) (from_utf8 rest)"
proof -
  have m: "c div 64 mod 64 < 64" "c mod 64 < 64" "c div 4096 mod 64 < 64" by simp_all
  note cb = cont_byte[OF m(1)] cont_byte[OF m(2)] cont_byte[OF m(3)]
  consider "c < 0x80" | "0x80 \<le> c" "c < 0x800" | "0x800 \<le> c" "c < 0x10000" | "0x10000 \<le> c" "c \<le> 0x10FFFF"
    using assms by (fastforce simp: scalar_def)
  then show ?thesis
  proof cases
    case 1
    then show ?thesis using unat_byte[of c] by (simp add: utf8_char_def)
  next
    case 2
    then have x: "c div 64 < 32" by (simp add: div_less_iff_less_mult)
    then have u: "unat (of_nat (192 + c div 64) :: 8 word) = 192 + c div 64" by (intro unat_byte) simp
    show ?thesis
      using 2 by (simp add: utf8_char_def Let_def u lead_byte(1,2)[OF x] cb digits del: of_nat_add)
  next
    case 3
    then have x: "c div 4096 < 16" by (simp add: div_less_iff_less_mult)
    then have u: "unat (of_nat (224 + c div 4096) :: 8 word) = 224 + c div 4096" by (intro unat_byte) simp
    have "(224 + c div 4096) div 32 \<noteq> 6" using div_le_mono[of 224 "224 + c div 4096" 32] by simp
    then show ?thesis
      using 3 assms by (auto simp: utf8_char_def Let_def u lead_byte(3,4)[OF x] cb digits scalar_def simp del: of_nat_add)
  next
    case 4
    then have x: "c div 262144 < 8" by (simp add: div_less_iff_less_mult)
    then have u: "unat (of_nat (240 + c div 262144) :: 8 word) = 240 + c div 262144" by (intro unat_byte) simp
    have "(240 + c div 262144) div 32 \<noteq> 6" "(240 + c div 262144) div 16 \<noteq> 14"
      using div_le_mono[of 240 "240 + c div 262144" 32] div_le_mono[of 240 "240 + c div 262144" 16] by simp_all
    then show ?thesis
      using 4 by (simp add: utf8_char_def Let_def u lead_byte(5,6)[OF x] cb digits del: of_nat_add)
  qed
qed

lemma from_to_utf8: "list_all scalar s \<Longrightarrow> from_utf8 (to_utf8 s) = Some s"
  by (induction s) (simp_all add: to_utf8_def from_utf8_char)

section \<open>Decoding with replacement\<close>

text \<open>
  \<^verbatim>\<open>String::from_utf8_lossy\<close>: each maximal part of an ill-formed sequence becomes one replacement character.
  The step returns how many further bytes it consumes.
\<close>

definition byte_at :: "bytes \<Rightarrow> nat \<Rightarrow> 8 word" where
  "byte_at bs i = (if i < length bs then bs ! i else 0)"

definition lossy_step :: "8 word \<Rightarrow> bytes \<Rightarrow> nat \<times> nat" where
  "lossy_step a bs =
     (let u = unat a; b = byte_at bs 0; b' = byte_at bs 1; b'' = byte_at bs 2; v = unat b; bad = 0xFFFD
      in if u < 0x80 then (0, u)
         else if 0xC2 \<le> u \<and> u \<le> 0xDF then
           if continuation b then (1, (u mod 32) * 64 + cont_bits b) else (0, bad)
         else if 0xE0 \<le> u \<and> u \<le> 0xEF then
           if \<not> (if u = 0xE0 then 0xA0 \<le> v \<and> v \<le> 0xBF
                 else if u = 0xED then 0x80 \<le> v \<and> v \<le> 0x9F else 0x80 \<le> v \<and> v \<le> 0xBF) then (0, bad)
           else if \<not> continuation b' then (1, bad)
           else (2, (u mod 16) * 4096 + cont_bits b * 64 + cont_bits b')
         else if 0xF0 \<le> u \<and> u \<le> 0xF4 then
           if \<not> (if u = 0xF0 then 0x90 \<le> v \<and> v \<le> 0xBF
                 else if u = 0xF4 then 0x80 \<le> v \<and> v \<le> 0x8F else 0x80 \<le> v \<and> v \<le> 0xBF) then (0, bad)
           else if \<not> continuation b' then (1, bad)
           else if \<not> continuation b'' then (2, bad)
           else (3, (u mod 8) * 262144 + cont_bits b * 4096 + cont_bits b' * 64 + cont_bits b'')
         else (0, bad))"

function from_utf8_lossy :: "bytes \<Rightarrow> rust_str" where
  "from_utf8_lossy [] = []"
| "from_utf8_lossy (a # bs) = (let (n, c) = lossy_step a bs in c # from_utf8_lossy (drop n bs))"
  by pat_completeness auto
termination by (relation "measure length") auto

lemma div_range:
  assumes "(n :: nat) div k = q" "0 < k"
  shows "k * q \<le> n" "n < k * q + k" "n mod k = n - k * q"
proof -
  have "n = k * q + n mod k" "n mod k < k" using assms by auto
  then show "k * q \<le> n" "n < k * q + k" "n mod k = n - k * q" by linarith+
qed

lemma continuation_bounds:
  assumes "continuation b"
  shows "0x80 \<le> unat b" "unat b \<le> 0xBF" "cont_bits b = unat b - 0x80"
  using div_range[of "unat b" 64 2] assms by (simp_all add: continuation_def cont_bits_def)

lemma lossy_two:
  assumes "unat a div 32 = 6" "continuation b" "0x80 \<le> unat a mod 32 * 64 + cont_bits b"
  shows "lossy_step a (b # rest) = (1, unat a mod 32 * 64 + cont_bits b)"
proof -
  have "cont_bits b < 64" by (simp add: cont_bits_def)
  then have "2 \<le> unat a mod 32" using assms(3) by linarith
  then have "0xC2 \<le> unat a" "unat a \<le> 0xDF" using div_range[OF assms(1)] by simp_all
  then show ?thesis using assms(2) by (simp add: lossy_step_def byte_at_def Let_def)
qed

lemma lossy_three:
  assumes "unat a div 16 = 14" "continuation b" "continuation b'"
    and "0x800 \<le> c" "\<not> (0xD800 \<le> c \<and> c \<le> 0xDFFF)" "c = unat a mod 16 * 4096 + cont_bits b * 64 + cont_bits b'"
  shows "lossy_step a (b # b' # rest) = (2, c)"
proof -
  have r: "0xE0 \<le> unat a" "unat a \<le> 0xEF" "unat a mod 16 = unat a - 0xE0" using div_range[OF assms(1)] by simp_all
  have b: "0x80 \<le> unat b" "unat b \<le> 0xBF" using continuation_bounds[OF assms(2)] by simp_all
  have c: "cont_bits b = unat b - 0x80" "cont_bits b' < 64" using continuation_bounds[OF assms(2)] by (simp_all add: cont_bits_def)
  have "if unat a = 0xE0 then 0xA0 \<le> unat b \<and> unat b \<le> 0xBF
    else if unat a = 0xED then 0x80 \<le> unat b \<and> unat b \<le> 0x9F else 0x80 \<le> unat b \<and> unat b \<le> 0xBF"
    using assms(4-6) r b c by auto
  then show ?thesis using assms(3,6) r(1,2) by (auto simp: lossy_step_def byte_at_def Let_def)
qed

lemma lossy_four:
  assumes "unat a div 8 = 30" "continuation b" "continuation b'" "continuation b''"
    and "0x10000 \<le> c" "c \<le> 0x10FFFF" "c = unat a mod 8 * 262144 + cont_bits b * 4096 + cont_bits b' * 64 + cont_bits b''"
  shows "lossy_step a (b # b' # b'' # rest) = (3, c)"
proof -
  have r: "0xF0 \<le> unat a" "unat a \<le> 0xF7" "unat a mod 8 = unat a - 0xF0" using div_range[OF assms(1)] by simp_all
  have b: "0x80 \<le> unat b" "unat b \<le> 0xBF" using continuation_bounds[OF assms(2)] by simp_all
  have c: "cont_bits b = unat b - 0x80" "cont_bits b' < 64" "cont_bits b'' < 64"
    using continuation_bounds[OF assms(2)] by (simp_all add: cont_bits_def)
  have "unat a \<le> 0xF4" "if unat a = 0xF0 then 0x90 \<le> unat b \<and> unat b \<le> 0xBF
    else if unat a = 0xF4 then 0x80 \<le> unat b \<and> unat b \<le> 0x8F else 0x80 \<le> unat b \<and> unat b \<le> 0xBF"
    using assms(5-7) r b c by auto
  then show ?thesis using assms(3,4,7) r(1) by (auto simp: lossy_step_def byte_at_def Let_def)
qed

lemma from_utf8_lossy_valid: "from_utf8 bs = Some s \<Longrightarrow> from_utf8_lossy bs = s"
proof (induction bs arbitrary: s rule: length_induct)
  case (1 bs)
  show ?case
  proof (cases bs)
    case (Cons a rest)
    note IH = 1(1)[rule_format, unfolded Cons]
    consider "unat a < 0x80" "map_option ((#) (unat a)) (from_utf8 rest) = Some s"
      | b r where "rest = b # r" "unat a div 32 = 6" "continuation b" "0x80 \<le> unat a mod 32 * 64 + cont_bits b"
          "map_option ((#) (unat a mod 32 * 64 + cont_bits b)) (from_utf8 r) = Some s" "\<not> unat a < 0x80"
      | b b' r c where "rest = b # b' # r" "unat a div 16 = 14" "continuation b" "continuation b'"
          "c = unat a mod 16 * 4096 + cont_bits b * 64 + cont_bits b'" "0x800 \<le> c" "\<not> (0xD800 \<le> c \<and> c \<le> 0xDFFF)"
          "map_option ((#) c) (from_utf8 r) = Some s"
      | b b' b'' r c where "rest = b # b' # b'' # r" "unat a div 8 = 30" "continuation b" "continuation b'" "continuation b''"
          "c = unat a mod 8 * 262144 + cont_bits b * 4096 + cont_bits b' * 64 + cont_bits b''" "0x10000 \<le> c" "c \<le> 0x10FFFF"
          "map_option ((#) c) (from_utf8 r) = Some s"
      using 1(2) unfolding Cons by (auto simp: Let_def split: if_splits list.splits)
    then show ?thesis
    proof cases
      case 1
      then show ?thesis using IH[of rest] Cons by (auto simp: lossy_step_def Let_def)
    next
      case (2 b r)
      then show ?thesis using IH[of r] Cons lossy_two[OF 2(2-4), of r] by auto
    next
      case (3 b b' r c)
      then show ?thesis using IH[of r] Cons lossy_three[OF 3(2-4,6,7,5), of r] by auto
    next
      case (4 b b' b'' r c)
      then show ?thesis using IH[of r] Cons lossy_four[OF 4(2-5,7,8,6), of r] by auto
    qed
  qed (use 1(2) in simp)
qed

section \<open>Splitting\<close>

lemma split_on_nonempty: "split_on d s \<noteq> []"
  by (induction s) (auto split: list.split)

lemma split_on_simple: "d \<notin> set s \<Longrightarrow> split_on d s = [s]"
  by (induction s) auto

lemma split_on_sep: "d \<notin> set s \<Longrightarrow> split_on d (s @ d # t) = s # split_on d t"
  by (induction s) auto

lemma split_on_append: "split_on d (xs @ d # ys) = split_on d xs @ split_on d ys"
proof (induction xs)
  case (Cons c xs)
  then show ?case using split_on_nonempty[of d xs] by (auto split: list.split)
qed simp

end
