(* ===== verification/Shard.thy ===== *)
theory Shard
  imports Metadata Rust_Str
begin

text \<open>
  \<^verbatim>\<open>crates/rapid-shard/src/lib.rs\<close>: the per-shard replica directory folded from view-change
  events, and \<^verbatim>\<open>Cluster::initial_view_event\<close> of \<^verbatim>\<open>cluster/handle.rs\<close> it starts from. The
  actor's answers to the directory's queries are arguments.

  Properties: the directory is an exact function of each node's last status, whatever the
  history; shard lists are clean; a resynchronised directory agrees with an incremental one.
\<close>

section \<open>Directory\<close>

definition DEFAULT_METADATA_KEY :: string where "DEFAULT_METADATA_KEY = ''shards''"
definition DEFAULT_DELIMITER :: nat where "DEFAULT_DELIMITER = of_char (CHR '','')"

record shard_index =
  si_configuration_id :: configuration_id
  si_by_shard :: "(rust_str, endpoint list) fmap"
  si_by_endpoint :: "(endpoint_key, rust_str list) fmap"

definition shard_index_default :: shard_index where
  "shard_index_default = \<lparr>si_configuration_id = SENTINEL, si_by_shard = fmempty, si_by_endpoint = fmempty\<rparr>"

definition parse_shards :: "metadata \<Rightarrow> string \<Rightarrow> nat \<Rightarrow> rust_str list" where
  "parse_shards meta key delimiter =
     (case fmlookup meta key of
        None \<Rightarrow> []
      | Some raw \<Rightarrow>
          (case from_utf8 raw of
             None \<Rightarrow> []
           | Some s \<Rightarrow> dedupe [] (filter (\<lambda>t. t \<noteq> []) (map trim (split_on delimiter s)))))"

definition scrub_bucket :: "endpoint \<Rightarrow> rust_str \<Rightarrow> (rust_str, endpoint list) fmap \<Rightarrow> (rust_str, endpoint list) fmap" where
  "scrub_bucket ep shard by_shard =
     (case fmlookup by_shard shard of
        None \<Rightarrow> by_shard
      | Some eps \<Rightarrow>
          (let eps = filter (\<lambda>e. \<not> (ep_hostname e = ep_hostname ep \<and> ep_port e = ep_port ep)) eps
           in if eps = [] then fmdrop shard by_shard else fmupd shard eps by_shard))"

definition drop_endpoint_from_buckets :: "shard_index \<Rightarrow> endpoint_key \<Rightarrow> endpoint \<Rightarrow> shard_index" where
  "drop_endpoint_from_buckets index ep_key ep =
     (case fmlookup (si_by_endpoint index) ep_key of
        None \<Rightarrow> index
      | Some shards \<Rightarrow> index\<lparr>si_by_shard := fold (scrub_bucket ep) shards (si_by_shard index)\<rparr>)"

definition fill_bucket :: "endpoint_key \<Rightarrow> endpoint \<Rightarrow> rust_str \<Rightarrow> (rust_str, endpoint list) fmap \<Rightarrow> (rust_str, endpoint list) fmap" where
  "fill_bucket ep_key ep shard by_shard =
     (let bucket = fm_get_or [] by_shard shard
      in fmupd shard (if list_ex (\<lambda>e. endpoint_key_of e = ep_key) bucket then bucket else bucket @ [ep]) by_shard)"

definition apply_change :: "string \<Rightarrow> nat \<Rightarrow> shard_index \<Rightarrow> node_status_change \<Rightarrow> shard_index" where
  "apply_change key delimiter index nsc =
     (let ep_key = endpoint_key_of (nsc_endpoint nsc);
          index = drop_endpoint_from_buckets index ep_key (nsc_endpoint nsc)
      in case nsc_status nsc of
           Up \<Rightarrow>
             (let shards = parse_shards (nsc_metadata nsc) key delimiter
              in index\<lparr>si_by_shard := fold (fill_bucket ep_key (nsc_endpoint nsc)) shards (si_by_shard index),
                       si_by_endpoint := fmupd ep_key shards (si_by_endpoint index)\<rparr>)
         | Down \<Rightarrow> index\<lparr>si_by_endpoint := fmdrop ep_key (si_by_endpoint index)\<rparr>)"

definition apply_delta :: "string \<Rightarrow> nat \<Rightarrow> shard_index \<Rightarrow> node_status_change list \<Rightarrow> shard_index" where
  "apply_delta key delimiter index delta = foldl (apply_change key delimiter) index delta"

section \<open>Snapshots\<close>

text \<open>
  \<^verbatim>\<open>initial_view_event\<close> and \<^verbatim>\<open>full_resync\<close> query the actor three times; a failed metadata query
  counts as no metadata.
\<close>

definition members_as_up :: "endpoint list \<Rightarrow> (endpoint \<times> metadata) list \<Rightarrow> node_status_change list" where
  "members_as_up members metadata =
     (let by_ep = map_of (rev (map (\<lambda>(ep, m). (endpoint_key_of ep, m)) metadata))
      in map (\<lambda>ep. \<lparr>nsc_endpoint = ep, nsc_status = Up,
           nsc_metadata = (case by_ep (endpoint_key_of ep) of None \<Rightarrow> fmempty | Some m \<Rightarrow> m)\<rparr>) members)"

definition initial_view_event ::
  "configuration_id result \<Rightarrow> endpoint list result \<Rightarrow> (endpoint \<times> metadata) list result \<Rightarrow>
   cluster_status_change result" where
  "initial_view_event cid memberlist metadata =
     (case cid of Inl err \<Rightarrow> Inl err | Inr c \<Rightarrow>
       (case memberlist of Inl err \<Rightarrow> Inl err | Inr membership \<Rightarrow>
          Inr \<lparr>csc_configuration_id = c, csc_membership = membership,
               csc_delta = members_as_up membership (case metadata of Inl _ \<Rightarrow> [] | Inr m \<Rightarrow> m)\<rparr>))"

definition full_resync ::
  "configuration_id result \<Rightarrow> endpoint list result \<Rightarrow> (endpoint \<times> metadata) list result \<Rightarrow>
   (configuration_id \<times> node_status_change list) result" where
  "full_resync cid memberlist metadata =
     (case cid of Inl err \<Rightarrow> Inl err | Inr c \<Rightarrow>
       (case memberlist of Inl err \<Rightarrow> Inl err | Inr membership \<Rightarrow>
          Inr (c, members_as_up membership (case metadata of Inl _ \<Rightarrow> [] | Inr m \<Rightarrow> m))))"

section \<open>Directory handle and forwarder\<close>

record shard_directory =
  dir_index :: shard_index
  dir_forwarder :: bool
  dir_metadata_key :: string
  dir_delimiter :: nat

record shard_directory_builder =
  sb_metadata_key :: "string option"
  sb_delimiter :: "nat option"

definition shard_builder :: shard_directory_builder where
  "shard_builder = \<lparr>sb_metadata_key = None, sb_delimiter = None\<rparr>"

definition with_key :: "shard_directory_builder \<Rightarrow> string \<Rightarrow> shard_directory_builder" where
  "with_key b key = b\<lparr>sb_metadata_key := Some key\<rparr>"

definition with_delimiter :: "shard_directory_builder \<Rightarrow> nat \<Rightarrow> shard_directory_builder" where
  "with_delimiter b d = b\<lparr>sb_delimiter := Some d\<rparr>"

definition shard_build ::
  "shard_directory_builder \<Rightarrow> cluster_status_change result \<Rightarrow> shard_directory result" where
  "shard_build b event =
     (let metadata_key = (case sb_metadata_key b of None \<Rightarrow> DEFAULT_METADATA_KEY | Some k \<Rightarrow> k);
          delimiter = (case sb_delimiter b of None \<Rightarrow> DEFAULT_DELIMITER | Some d \<Rightarrow> d)
      in case event of
           Inl err \<Rightarrow> Inl err
         | Inr initial \<Rightarrow>
             (let index = shard_index_default\<lparr>si_configuration_id := csc_configuration_id initial\<rparr>;
                  index = apply_delta metadata_key delimiter index (csc_delta initial)
              in Inr \<lparr>dir_index = index, dir_forwarder = True, dir_metadata_key = metadata_key,
                      dir_delimiter = delimiter\<rparr>))"

definition shard_directory_new :: "cluster_status_change result \<Rightarrow> shard_directory result" where
  "shard_directory_new event = shard_build shard_builder event"

text \<open>What the forwarder's receiver yields; after a lag, the answer of \<open>full_resync\<close> comes with it.\<close>

datatype received =
    Received cluster_status_change
  | Closed
  | Lagged nat "(configuration_id \<times> node_status_change list) result"

fun forwarder :: "shard_directory \<Rightarrow> received list \<Rightarrow> shard_directory" where
  "forwarder dir [] = dir"
| "forwarder dir (Received ev # rs) =
     forwarder (dir\<lparr>dir_index := apply_delta (dir_metadata_key dir) (dir_delimiter dir)
       ((dir_index dir)\<lparr>si_configuration_id := csc_configuration_id ev\<rparr>) (csc_delta ev)\<rparr>) rs"
| "forwarder dir (Closed # rs) = dir"
| "forwarder dir (Lagged n resync # rs) =
     (case resync of
        Inl _ \<Rightarrow> forwarder dir rs
      | Inr (cid, delta) \<Rightarrow>
          forwarder (dir\<lparr>dir_index := apply_delta (dir_metadata_key dir) (dir_delimiter dir)
            (shard_index_default\<lparr>si_configuration_id := cid\<rparr>) delta\<rparr>) rs)"

definition replicas_of :: "shard_directory \<Rightarrow> rust_str \<Rightarrow> endpoint list" where
  "replicas_of dir shard = fm_get_or [] (si_by_shard (dir_index dir)) shard"

text \<open>The keys, sorted (\<^verbatim>\<open>String\<close>'s order is the order of the code points).\<close>

definition all_shards :: "shard_directory \<Rightarrow> rust_str list" where
  "all_shards dir = sorted_list_of_fset (fmdom (si_by_shard (dir_index dir)))"

definition directory_configuration_id :: "shard_directory \<Rightarrow> configuration_id" where
  "directory_configuration_id dir = si_configuration_id (dir_index dir)"

definition total_replica_slots :: "shard_directory \<Rightarrow> nat" where
  "total_replica_slots dir = (\<Sum>s \<in> fset (fmdom (si_by_shard (dir_index dir))). length (replicas_of dir s))"

definition directory_shutdown :: "shard_directory \<Rightarrow> shard_directory" where
  "directory_shutdown dir = dir\<lparr>dir_forwarder := False\<rparr>"

text \<open>\<^verbatim>\<open>drop\<close> of the shared state aborts the forwarder as \<^verbatim>\<open>shutdown\<close> does.\<close>

definition inner_drop :: "shard_directory \<Rightarrow> shard_directory" where
  "inner_drop dir = (if dir_forwarder dir then dir\<lparr>dir_forwarder := False\<rparr> else dir)"

section \<open>The directory is exact\<close>

text \<open>What a history of status changes says about each endpoint: the shards it last came up with.\<close>

definition placement_step ::
  "string \<Rightarrow> nat \<Rightarrow> (endpoint \<Rightarrow> rust_str list option) \<Rightarrow> node_status_change \<Rightarrow> endpoint \<Rightarrow> rust_str list option" where
  "placement_step key d f nsc = f(nsc_endpoint nsc := (case nsc_status nsc of
       Up \<Rightarrow> Some (parse_shards (nsc_metadata nsc) key d) | Down \<Rightarrow> None))"

definition placement :: "string \<Rightarrow> nat \<Rightarrow> node_status_change list \<Rightarrow> endpoint \<Rightarrow> rust_str list option" where
  "placement key d changes = foldl (placement_step key d) (\<lambda>_. None) changes"

text \<open>The index represents a placement.\<close>

definition represents :: "shard_index \<Rightarrow> (endpoint \<Rightarrow> rust_str list option) \<Rightarrow> bool" where
  "represents idx f \<longleftrightarrow>
     (\<forall>e. fmlookup (si_by_endpoint idx) (endpoint_key_of e) = f e) \<and>
     (\<forall>s. fmlookup (si_by_shard idx) s \<noteq> Some []) \<and>
     (\<forall>s. distinct (fm_get_or [] (si_by_shard idx) s)) \<and>
     (\<forall>s e. e \<in> set (fm_get_or [] (si_by_shard idx) s) \<longleftrightarrow> (\<exists>ss. f e = Some ss \<and> s \<in> set ss))"

lemma scrub_bucket_lookup:
  "fm_get_or [] (scrub_bucket ep shard m) s =
     (if s = shard then filter (\<lambda>e. e \<noteq> ep) (fm_get_or [] m s) else fm_get_or [] m s)"
  "fmlookup (scrub_bucket ep shard m) s = Some [] \<longleftrightarrow> fmlookup m s = Some [] \<and> s \<noteq> shard"
proof -
  have eq: "(ep_hostname e = ep_hostname ep \<and> ep_port e = ep_port ep) = (e = ep)" for e
    by (cases e; cases ep) auto
  show "fm_get_or [] (scrub_bucket ep shard m) s =
     (if s = shard then filter (\<lambda>e. e \<noteq> ep) (fm_get_or [] m s) else fm_get_or [] m s)"
    "fmlookup (scrub_bucket ep shard m) s = Some [] \<longleftrightarrow> fmlookup m s = Some [] \<and> s \<noteq> shard"
    unfolding scrub_bucket_def eq by (auto simp: fm_get_or_def Let_def split: option.splits)
qed

lemma scrub_buckets_lookup:
  "fm_get_or [] (fold (scrub_bucket ep) shards m) s =
     (if s \<in> set shards then filter (\<lambda>e. e \<noteq> ep) (fm_get_or [] m s) else fm_get_or [] m s)"
  "fmlookup (fold (scrub_bucket ep) shards m) s = Some [] \<longleftrightarrow> fmlookup m s = Some [] \<and> s \<notin> set shards"
  by (induction shards arbitrary: m) (auto simp: scrub_bucket_lookup)

lemma fill_bucket_lookup:
  "fm_get_or [] (fill_bucket (endpoint_key_of ep) ep shard m) s =
     (if s = shard \<and> ep \<notin> set (fm_get_or [] m s) then fm_get_or [] m s @ [ep] else fm_get_or [] m s)"
  "fmlookup (fill_bucket (endpoint_key_of ep) ep shard m) s = Some [] \<longleftrightarrow> fmlookup m s = Some [] \<and> s \<noteq> shard"
  by (auto simp: fill_bucket_def Let_def fm_get_or_def list_ex_iff split: option.splits)

lemma fill_buckets_lookup:
  "distinct shards \<Longrightarrow> fm_get_or [] (fold (fill_bucket (endpoint_key_of ep) ep) shards m) s =
     (if s \<in> set shards \<and> ep \<notin> set (fm_get_or [] m s) then fm_get_or [] m s @ [ep] else fm_get_or [] m s)"
  "fmlookup (fold (fill_bucket (endpoint_key_of ep) ep) shards m) s = Some [] \<longleftrightarrow> fmlookup m s = Some [] \<and> s \<notin> set shards"
  by (induction shards arbitrary: m) (auto simp: fill_bucket_lookup)

lemma dedupe_set: "set (dedupe seen xs) = set xs - set seen" "distinct (dedupe seen xs)"
  by (induction seen xs rule: dedupe.induct) auto

lemma parse_shards_distinct: "distinct (parse_shards meta key d)"
  by (simp add: parse_shards_def dedupe_set split: option.split)

lemma drop_endpoint_represents:
  fixes ep :: endpoint
  assumes "represents idx f"
  defines "idx' \<equiv> drop_endpoint_from_buckets idx (endpoint_key_of ep) ep"
  shows "fm_get_or [] (si_by_shard idx') s = filter (\<lambda>e. e \<noteq> ep) (fm_get_or [] (si_by_shard idx) s)"
    "fmlookup (si_by_shard idx') s \<noteq> Some []" "si_by_endpoint idx' = si_by_endpoint idx"
proof -
  have l: "fmlookup (si_by_endpoint idx) (endpoint_key_of ep) = f ep" using assms(1) by (simp add: represents_def)
  have m: "ep \<in> set (fm_get_or [] (si_by_shard idx) s) \<longleftrightarrow> (\<exists>ss. f ep = Some ss \<and> s \<in> set ss)" for s
    using assms(1) by (simp add: represents_def)
  have n: "fmlookup (si_by_shard idx) s \<noteq> Some []" using assms(1) by (simp add: represents_def)
  have k: "filter (\<lambda>e. e \<noteq> ep) xs = xs" if "ep \<notin> set xs" for xs
    using that by (induction xs) auto
  show "fm_get_or [] (si_by_shard idx') s = filter (\<lambda>e. e \<noteq> ep) (fm_get_or [] (si_by_shard idx) s)"
    using m[of s] k[of "fm_get_or [] (si_by_shard idx) s"]
    by (auto simp: idx'_def drop_endpoint_from_buckets_def l scrub_buckets_lookup split: option.split)
  show "fmlookup (si_by_shard idx') s \<noteq> Some []"
    using n by (auto simp: idx'_def drop_endpoint_from_buckets_def l scrub_buckets_lookup split: option.split)
  show "si_by_endpoint idx' = si_by_endpoint idx"
    by (simp add: idx'_def drop_endpoint_from_buckets_def split: option.split)
qed

lemma apply_change_represents:
  assumes "represents idx f"
  shows "represents (apply_change key d idx nsc) (placement_step key d f nsc)"
proof -
  let ?ep = "nsc_endpoint nsc"
  let ?ss = "parse_shards (nsc_metadata nsc) key d"
  let ?idx = "drop_endpoint_from_buckets idx (endpoint_key_of ?ep) ?ep"
  note dr = drop_endpoint_represents[OF assms, of ?ep]
  note r = assms[unfolded represents_def]
  show ?thesis
  proof (cases "nsc_status nsc")
    case Up
    then show ?thesis
      using r parse_shards_distinct[of "nsc_metadata nsc" key d]
      unfolding represents_def apply_change_def placement_step_def
      by (auto simp: Let_def dr fill_buckets_lookup)
  next
    case Down
    then show ?thesis
      using r unfolding represents_def apply_change_def placement_step_def
      by (auto simp: Let_def dr)
  qed
qed

lemma apply_delta_represents:
  "represents idx f \<Longrightarrow> represents (apply_delta key d idx delta) (foldl (placement_step key d) f delta)"
  unfolding apply_delta_def by (induction delta arbitrary: idx f) (auto intro: apply_change_represents)

lemma represents_default: "represents (shard_index_default\<lparr>si_configuration_id := c\<rparr>) (\<lambda>_. None)"
  by (simp add: represents_def shard_index_default_def fm_get_or_def)

lemma apply_delta_configuration: "si_configuration_id (apply_delta key d idx delta) = si_configuration_id idx"
  unfolding apply_delta_def
  by (induction delta arbitrary: idx)
    (auto simp: apply_change_def drop_endpoint_from_buckets_def Let_def split: option.split edge_status.split)

text \<open>The history a forwarder has applied: a resynchronisation starts it anew.\<close>

fun applied :: "node_status_change list \<Rightarrow> received list \<Rightarrow> node_status_change list" where
  "applied hist [] = hist"
| "applied hist (Received ev # rs) = applied (hist @ csc_delta ev) rs"
| "applied hist (Closed # rs) = hist"
| "applied hist (Lagged n resync # rs) =
     (case resync of Inl _ \<Rightarrow> applied hist rs | Inr (cid, delta) \<Rightarrow> applied delta rs)"

lemma forwarder_frame [simp]:
  "dir_metadata_key (forwarder dir rs) = dir_metadata_key dir" "dir_delimiter (forwarder dir rs) = dir_delimiter dir"
  by (induction dir rs rule: forwarder.induct) (auto split: sum.split)

lemma forwarder_represents:
  assumes "represents (dir_index dir) (placement (dir_metadata_key dir) (dir_delimiter dir) hist)"
  shows "represents (dir_index (forwarder dir rs)) (placement (dir_metadata_key dir) (dir_delimiter dir) (applied hist rs))"
  using assms
proof (induction dir rs arbitrary: hist rule: forwarder.induct)
  case (2 dir ev rs)
  have "represents ((dir_index dir)\<lparr>si_configuration_id := csc_configuration_id ev\<rparr>)
      (placement (dir_metadata_key dir) (dir_delimiter dir) hist)"
    using 2(2) by (simp add: represents_def)
  from apply_delta_represents[OF this, of "dir_metadata_key dir" "dir_delimiter dir" "csc_delta ev"]
  show ?case using 2(1)[of "hist @ csc_delta ev"] by (simp add: placement_def)
next
  case (4 dir n resync rs)
  show ?case
  proof (cases resync)
    case (Inr r)
    obtain cid delta where r: "r = (cid, delta)" by (cases r)
    show ?thesis
      using 4(2)[OF Inr r[symmetric], of delta] Inr r apply_delta_represents[OF represents_default]
      by (simp add: placement_def)
  qed (use 4 in simp)
qed simp_all

lemma shard_build_represents:
  assumes "shard_build b (Inr initial) = Inr dir"
  shows "represents (dir_index dir) (placement (dir_metadata_key dir) (dir_delimiter dir) (csc_delta initial))"
  using assms apply_delta_represents[OF represents_default]
  by (auto simp: shard_build_def Let_def placement_def)

lemma represents_reads:
  assumes "represents (dir_index dir) f"
  shows "set (replicas_of dir s) = {e. \<exists>ss. f e = Some ss \<and> s \<in> set ss}" "distinct (replicas_of dir s)"
    "s \<in> set (all_shards dir) \<longleftrightarrow> replicas_of dir s \<noteq> []"
proof -
  note r = assms[unfolded represents_def]
  show "set (replicas_of dir s) = {e. \<exists>ss. f e = Some ss \<and> s \<in> set ss}" "distinct (replicas_of dir s)"
    using r by (auto simp: replicas_of_def)
  have "fmlookup (si_by_shard (dir_index dir)) s \<noteq> Some []" using r by blast
  then show "s \<in> set (all_shards dir) \<longleftrightarrow> replicas_of dir s \<noteq> []"
    by (auto simp: all_shards_def replicas_of_def fm_get_or_def fmlookup_dom_iff split: option.splits)
qed

text \<open>
  C27. The shard directory is exact. After the snapshot it was built from and whatever the
  forwarder received since (view changes in which nodes come up, leave and come back with other
  shards, lags with or without a successful resynchronisation, a closed channel), the replicas
  listed for a shard are, each once, exactly the endpoints whose last status is \<open>Up\<close> with that
  shard in their metadata, and the shards listed are exactly those with a replica.
\<close>

theorem shard_directory_exact:
  assumes "shard_build b (Inr initial) = Inr dir"
  shows "set (replicas_of (forwarder dir rs) s) =
      {e. \<exists>ss. placement (dir_metadata_key dir) (dir_delimiter dir) (applied (csc_delta initial) rs) e = Some ss \<and>
        s \<in> set ss} \<and>
    distinct (replicas_of (forwarder dir rs) s) \<and>
    (s \<in> set (all_shards (forwarder dir rs)) \<longleftrightarrow> replicas_of (forwarder dir rs) s \<noteq> []) \<and>
    sorted_wrt (<) (all_shards (forwarder dir rs))"
proof -
  have "represents (dir_index (forwarder dir rs))
      (placement (dir_metadata_key dir) (dir_delimiter dir) (applied (csc_delta initial) rs))"
    by (rule forwarder_represents[OF shard_build_represents[OF assms(1)]])
  note represents_reads[OF this]
  moreover have "sorted_wrt (<) (all_shards (forwarder dir rs))"
    unfolding all_shards_def sorted_list_of_fset.rep_eq by simp
  ultimately show ?thesis by blast
qed

definition demo_up :: "nat \<Rightarrow> string \<Rightarrow> node_status_change" where
  "demo_up n shards = \<lparr>nsc_endpoint = demo_ep n, nsc_status = Up,
     nsc_metadata = fmupd ''shards'' (map of_char shards) fmempty\<rparr>"

definition demo_down :: "nat \<Rightarrow> node_status_change" where
  "demo_down n = \<lparr>nsc_endpoint = demo_ep n, nsc_status = Down, nsc_metadata = fmempty\<rparr>"

definition demo_event :: "configuration_id \<Rightarrow> node_status_change list \<Rightarrow> cluster_status_change" where
  "demo_event c delta = \<lparr>csc_configuration_id = c, csc_membership = map nsc_endpoint delta, csc_delta = delta\<rparr>"

lemmas demo_shard_simps = parse_shards_def trim_def is_whitespace_def DEFAULT_DELIMITER_def fm_get_or_def str_of_def

lemma demo_parse:
  "parse_shards (fmupd ''shards'' (map of_char ''b'') fmempty) ''shards'' DEFAULT_DELIMITER = [str_of ''b'']"
  "parse_shards (fmupd ''shards'' (map of_char '' b ,, b'') fmempty) ''shards'' DEFAULT_DELIMITER = [str_of ''b'']"
  "parse_shards (fmupd ''shards'' (map of_char ''a,b'') fmempty) ''shards'' DEFAULT_DELIMITER = [str_of ''a'', str_of ''b'']"
  by (simp_all add: demo_shard_simps of_char_def)

definition demo_directory :: shard_directory where
  "demo_directory = (case shard_build shard_builder (Inr (demo_event 1 [demo_up 1 ''a,b'', demo_up 2 '' b ,, b''])) of
     Inr dir \<Rightarrow> dir)"

lemma demo_directory:
  "shard_build shard_builder (Inr (demo_event 1 [demo_up 1 ''a,b'', demo_up 2 '' b ,, b''])) = Inr demo_directory"
  unfolding demo_directory_def by (simp add: shard_build_def Let_def)

theorem shard_directory_exact_witness:
  "set (replicas_of (forwarder demo_directory [Received (demo_event 2 [demo_down 1, demo_up 3 ''b''])]) (str_of ''b'')) =
      {e. \<exists>ss. placement (dir_metadata_key demo_directory) (dir_delimiter demo_directory)
        (applied (csc_delta (demo_event 1 [demo_up 1 ''a,b'', demo_up 2 '' b ,, b'']))
          [Received (demo_event 2 [demo_down 1, demo_up 3 ''b''])]) e = Some ss \<and> str_of ''b'' \<in> set ss} \<and>
    distinct (replicas_of (forwarder demo_directory [Received (demo_event 2 [demo_down 1, demo_up 3 ''b''])]) (str_of ''b'')) \<and>
    (str_of ''b'' \<in> set (all_shards (forwarder demo_directory [Received (demo_event 2 [demo_down 1, demo_up 3 ''b''])])) \<longleftrightarrow>
      replicas_of (forwarder demo_directory [Received (demo_event 2 [demo_down 1, demo_up 3 ''b''])]) (str_of ''b'') \<noteq> []) \<and>
    sorted_wrt (<) (all_shards (forwarder demo_directory [Received (demo_event 2 [demo_down 1, demo_up 3 ''b''])])) "
  by (rule shard_directory_exact[OF demo_directory])

text \<open>
  Directories converge. Two directories built alike, whose histories leave every endpoint with
  the same last status, list the same shards, and for each shard the same set of replicas and as
  many of them, however different the histories: snapshots, deltas and resynchronisations are
  interchangeable.
\<close>

theorem shard_directories_converge:
  assumes "shard_build b (Inr initial) = Inr dir" and "shard_build b (Inr initial') = Inr dir'"
    and "placement (dir_metadata_key dir) (dir_delimiter dir) (applied (csc_delta initial) rs) =
      placement (dir_metadata_key dir) (dir_delimiter dir) (applied (csc_delta initial') rs')"
  shows "all_shards (forwarder dir rs) = all_shards (forwarder dir' rs') \<and>
    mset (replicas_of (forwarder dir rs) s) = mset (replicas_of (forwarder dir' rs') s)"
proof -
  have k: "dir_metadata_key dir' = dir_metadata_key dir" "dir_delimiter dir' = dir_delimiter dir"
    using assms(1,2) by (auto simp: shard_build_def Let_def)
  note r = represents_reads[OF forwarder_represents[OF shard_build_represents[OF assms(1)], of rs], unfolded assms(3)]
  note r' = represents_reads[OF forwarder_represents[OF shard_build_represents[OF assms(2)], of rs'], unfolded k]
  have m: "mset (replicas_of (forwarder dir rs) s) = mset (replicas_of (forwarder dir' rs') s)" for s
    using r(1,2) r'(1,2) by (simp add: set_eq_iff_mset_eq_distinct[symmetric])
  have "set (all_shards (forwarder dir rs)) = set (all_shards (forwarder dir' rs'))"
    using r(3) r'(3) m by (metis mset_zero_iff subset_antisym subsetI)
  then have "all_shards (forwarder dir rs) = all_shards (forwarder dir' rs')"
    by (simp add: all_shards_def fset_inject[symmetric])
      (metis fset_inverse)
  with m show ?thesis by simp
qed

theorem shard_directories_converge_witness:
  "all_shards (forwarder demo_directory [Received (demo_event 2 [demo_down 1, demo_up 1 ''a,b''])]) =
     all_shards (forwarder demo_directory [Lagged 3 (Inr (2, [demo_up 2 ''b'', demo_up 1 ''a,b'']))]) \<and>
   mset (replicas_of (forwarder demo_directory [Received (demo_event 2 [demo_down 1, demo_up 1 ''a,b''])]) (str_of ''b'')) =
     mset (replicas_of (forwarder demo_directory [Lagged 3 (Inr (2, [demo_up 2 ''b'', demo_up 1 ''a,b'']))]) (str_of ''b''))"
proof (rule shard_directories_converge[OF demo_directory demo_directory])
  have "dir_metadata_key demo_directory = ''shards''" "dir_delimiter demo_directory = DEFAULT_DELIMITER"
    by (simp_all add: demo_directory_def shard_build_def shard_builder_def DEFAULT_METADATA_KEY_def Let_def)
  then show "placement (dir_metadata_key demo_directory) (dir_delimiter demo_directory)
      (applied (csc_delta (demo_event 1 [demo_up 1 ''a,b'', demo_up 2 '' b ,, b'']))
        [Received (demo_event 2 [demo_down 1, demo_up 1 ''a,b''])]) =
    placement (dir_metadata_key demo_directory) (dir_delimiter demo_directory)
      (applied (csc_delta (demo_event 1 [demo_up 1 ''a,b'', demo_up 2 '' b ,, b'']))
        [Lagged 3 (Inr (2, [demo_up 2 ''b'', demo_up 1 ''a,b'']))])"
    by (simp only: demo_event_def cluster_status_change.select_convs applied.simps placement_def append.simps
        sum.case prod.case foldl.simps placement_step_def demo_up_def demo_down_def node_status_change.select_convs
        edge_status.case demo_parse fun_upd_upd) (simp add: fun_eq_iff)
qed

text \<open>
  Identical placements, different bucket orders. The order of a bucket is the order in which its
  replicas came up: two histories that leave every endpoint with the same last status, one in
  which the first node left and came back, list the replicas of a shard in opposite orders, so
  two directories at one configuration need not have identical contents.
\<close>

theorem shard_order_depends_on_history:
  "let h = [demo_up 1 ''b'', demo_up 2 ''b'']; h' = h @ [demo_down 1, demo_up 1 ''b''];
       bucket = (\<lambda>h. fm_get_or [] (si_by_shard (apply_delta ''shards'' DEFAULT_DELIMITER shard_index_default h)) (str_of ''b''))
   in placement ''shards'' DEFAULT_DELIMITER h = placement ''shards'' DEFAULT_DELIMITER h' \<and>
      bucket h = [demo_ep 1, demo_ep 2] \<and> bucket h' = [demo_ep 2, demo_ep 1]"
proof -
  have ne: "demo_ep 1 \<noteq> demo_ep 2"
    "\<not> (ep_hostname (demo_ep 2) = ep_hostname (demo_ep 1) \<and> ep_port (demo_ep 2) = ep_port (demo_ep 1))" by code_simp+
  have "placement ''shards'' DEFAULT_DELIMITER [demo_up 1 ''b'', demo_up 2 ''b''] =
      placement ''shards'' DEFAULT_DELIMITER [demo_up 1 ''b'', demo_up 2 ''b'', demo_down 1, demo_up 1 ''b'']"
    by (simp add: placement_def placement_step_def demo_up_def demo_down_def fun_eq_iff)
  moreover have "fm_get_or [] (si_by_shard (apply_delta ''shards'' DEFAULT_DELIMITER shard_index_default h)) (str_of ''b'') = bucket"
    if "(h, bucket) \<in> {([demo_up 1 ''b'', demo_up 2 ''b''], [demo_ep 1, demo_ep 2]),
      ([demo_up 1 ''b'', demo_up 2 ''b'', demo_down 1, demo_up 1 ''b''], [demo_ep 2, demo_ep 1])}" for h bucket
    using that demo_parse(1) ne
    by (auto simp: apply_delta_def apply_change_def demo_up_def demo_down_def Let_def drop_endpoint_from_buckets_def
        fill_bucket_def scrub_bucket_def shard_index_default_def fm_get_or_def)
  ultimately show ?thesis by (simp add: Let_def)
qed

section \<open>Parsing the shard list\<close>

definition join_with :: "nat \<Rightarrow> rust_str list \<Rightarrow> rust_str" where
  "join_with d ss = (case ss of [] \<Rightarrow> [] | s # rest \<Rightarrow> s @ concat (map ((#) d) rest))"

definition clean_shard :: "nat \<Rightarrow> rust_str \<Rightarrow> bool" where
  "clean_shard d s \<longleftrightarrow> s \<noteq> [] \<and> trim s = s \<and> d \<notin> set s \<and> list_all scalar s"

lemma split_on_join:
  "ss \<noteq> [] \<Longrightarrow> \<forall>s \<in> set ss. d \<notin> set s \<Longrightarrow> split_on d (join_with d ss) = ss"
proof (induction ss)
  case (Cons s ss)
  show ?case
  proof (cases ss)
    case (Cons s' rest)
    then have "join_with d (s # ss) = s @ d # join_with d ss" by (simp add: join_with_def)
    then show ?thesis using Cons.IH Cons.prems Cons by (simp add: split_on_sep)
  qed (use Cons.prems in \<open>simp add: join_with_def split_on_simple\<close>)
qed simp

lemma dedupe_distinct: "distinct xs \<Longrightarrow> set xs \<inter> set seen = {} \<Longrightarrow> dedupe seen xs = xs"
  by (induction seen xs rule: dedupe.induct) auto

text \<open>
  Shard lists survive the metadata. A list of distinct shard names, each non-empty, without
  surrounding white space and without the delimiter, joined by the delimiter and encoded as
  UTF-8 under the metadata key, is what the directory parses back, in order, whatever other
  metadata the node carries.
\<close>

theorem shard_list_roundtrip:
  assumes "list_all (clean_shard d) ss" and "distinct ss" and "scalar d"
  shows "parse_shards (fmupd key (to_utf8 (join_with d ss)) meta) key d = ss"
proof (cases "ss = []")
  case True
  then show ?thesis by (simp add: parse_shards_def join_with_def to_utf8_def trim_def)
next
  case False
  have c: "s \<noteq> []" "trim s = s" "d \<notin> set s" "list_all scalar s" if "s \<in> set ss" for s
    using assms(1) that by (auto simp: clean_shard_def list_all_iff)
  have "list_all scalar (join_with d ss)"
    using c(4) assms(3) by (cases ss) (auto simp: join_with_def list_all_iff)
  moreover have "split_on d (join_with d ss) = ss" using False c(3) by (intro split_on_join) auto
  moreover have "map trim ss = ss" using c(2) by (simp add: map_idI)
  moreover have "filter (\<lambda>t. t \<noteq> []) ss = ss" using c(1) by (auto simp: filter_id_conv)
  ultimately show ?thesis
    using assms(2) by (simp add: parse_shards_def from_to_utf8 dedupe_distinct)
qed

theorem shard_list_roundtrip_witness:
  "parse_shards (fmupd ''shards'' (to_utf8 (join_with 44 [[233, 49], [0x1F600], [97]])) fmempty) ''shards'' 44 =
    [[233, 49], [0x1F600], [97]]"
  by (rule shard_list_roundtrip) (simp_all add: clean_shard_def trim_def is_whitespace_def scalar_def)

section \<open>The forwarder\<close>

text \<open>
  \<^verbatim>\<open>build\<close> subscribes after it has taken the snapshot, so a change published in between is in neither: an endpoint that
  comes up only there is a replica of no shard, whatever shards it has, until an event names it again or the
  forwarder lags.
\<close>

lemma placement_untouched:
  "e \<notin> nsc_endpoint ` set delta \<Longrightarrow> foldl (placement_step k d) f delta e = f e"
  by (induction delta arbitrary: f) (auto simp: placement_step_def)

lemma subscription_gap:
  assumes "shard_build b (Inr initial) = Inr dir" "e \<notin> nsc_endpoint ` set (csc_delta initial)"
    and "\<forall>ev \<in> set later. e \<notin> nsc_endpoint ` set (csc_delta ev)"
  shows "e \<notin> set (replicas_of (forwarder dir (map Received later)) s)"
proof -
  have a: "applied hist (map Received later) = hist @ concat (map csc_delta later)" for hist
    by (induction later arbitrary: hist) simp_all
  note r = represents_reads[OF forwarder_represents[OF shard_build_represents[OF assms(1)], of "map Received later"]]
  have "e \<notin> nsc_endpoint ` set (applied (csc_delta initial) (map Received later))" using assms(2,3) by (auto simp: a)
  then have "placement (dir_metadata_key dir) (dir_delimiter dir) (applied (csc_delta initial) (map Received later)) e = None"
    using placement_untouched unfolding placement_def by metis
  then show ?thesis using r(1) by auto
qed

end
