(* ===== verification/Grpc.thy ===== *)
theory Grpc
  imports Messaging
begin

text \<open>
  \<^verbatim>\<open>crates/rapid/src/messaging/grpc.rs\<close>: the gRPC transport. What tonic does is an argument: the
  outcome of binding a socket, of parsing and dialling an address, of a remote call. A tonic channel
  is a value of the type variable \<open>'ch\<close>. Instants and durations are milliseconds;
  \<^verbatim>\<open>Instant::duration_since\<close> saturates at zero, as the subtraction of \<open>nat\<close> does.

  \<^verbatim>\<open>GrpcPool\<close> is shared by all tasks of a node and holds its lock only inside the sections between
  two awaits. Each such section is an operation of the model (\<open>client_lookup\<close>, \<open>client_insert\<close>,
  \<open>invalidate\<close>), and what other tasks do to the pool during an await is an argument of the call.

  Properties: how often a request is transmitted and what the caller gets back; a failed call leaves
  no cached channel; the pool, which prunes on access, behaves as a cache that expires entries by
  their last access.
\<close>

section \<open>Server\<close>

record ('task, 'tx) grpc_server_handle =
  gs_addr :: socket_addr
  gs_task :: "'task option"
  gs_shutdown :: "'tx option"

text \<open>What the spawned task reports through \<^verbatim>\<open>ready_tx\<close>; \<open>None\<close> when the task ends without a report.\<close>

definition serve_ready :: "(unit + 'l) option \<Rightarrow> ('l \<Rightarrow> unit + socket_addr) \<Rightarrow> socket_addr result option" where
  "serve_ready bound local_addr = (case bound of
       None \<Rightarrow> None
     | Some (Inl _) \<Rightarrow> Some (Inl Transport)
     | Some (Inr l) \<Rightarrow> (case local_addr l of Inl _ \<Rightarrow> Some (Inl Transport) | Inr a \<Rightarrow> Some (Inr a)))"

definition serve :: "(socket_addr \<Rightarrow> (unit + 'l) option) \<Rightarrow> ('l \<Rightarrow> unit + socket_addr) \<Rightarrow> 'task \<Rightarrow> 'tx \<Rightarrow>
    socket_addr \<Rightarrow> ('task, 'tx) grpc_server_handle result" where
  "serve bind local_addr task shutdown_tx addr =
     (case serve_ready (bind addr) local_addr of
        None \<Rightarrow> Inl Transport
      | Some (Inl e) \<Rightarrow> Inl e
      | Some (Inr a) \<Rightarrow> Inr \<lparr>gs_addr = a, gs_task = Some task, gs_shutdown = Some shutdown_tx\<rparr>)"

datatype ('task, 'tx) server_effect = SignalShutdown 'tx | AbortTask 'task

text \<open>\<^verbatim>\<open>shutdown\<close> and \<^verbatim>\<open>drop\<close> have the same body.\<close>

definition grpc_shutdown :: "('task, 'tx) grpc_server_handle \<Rightarrow>
    ('task, 'tx) grpc_server_handle \<times> ('task, 'tx) server_effect list" where
  "grpc_shutdown h =
     (h\<lparr>gs_shutdown := None, gs_task := None\<rparr>,
      (case gs_shutdown h of None \<Rightarrow> [] | Some tx \<Rightarrow> [SignalShutdown tx]) @
      (case gs_task h of None \<Rightarrow> [] | Some t \<Rightarrow> [AbortTask t]))"

definition grpc_drop :: "('task, 'tx) grpc_server_handle \<Rightarrow>
    ('task, 'tx) grpc_server_handle \<times> ('task, 'tx) server_effect list" where
  "grpc_drop h = grpc_shutdown h"

text \<open>
  A \<^verbatim>\<open>tonic::Status\<close>, of which the program makes only \<^verbatim>\<open>internal\<close> ones, and the conversions of
  \<^verbatim>\<open>error.rs\<close> that \<^verbatim>\<open>?\<close> applies to a status and to a transport error.
\<close>

datatype status = InternalStatus | OtherStatus

definition adapter_send_request :: "(rapid_request \<Rightarrow> rapid_response result) \<Rightarrow> rapid_request \<Rightarrow> status + rapid_response" where
  "adapter_send_request handler req = (case handler req of Inr resp \<Rightarrow> Inr resp | Inl _ \<Rightarrow> Inl InternalStatus)"

definition error_from_status :: "status \<Rightarrow> error" where
  "error_from_status _ = Transport"

definition error_from_transport :: "unit \<Rightarrow> error" where
  "error_from_transport _ = Transport"

section \<open>Client\<close>

record 'ch grpc_client =
  gc_inner :: 'ch

definition grpc_connect :: "(socket_addr \<Rightarrow> unit + 'uri) \<Rightarrow> ('uri \<Rightarrow> unit + 'ch) \<Rightarrow> socket_addr \<Rightarrow> 'ch grpc_client result" where
  "grpc_connect parse dial remote = (case parse remote of
       Inl _ \<Rightarrow> Inl Transport
     | Inr uri \<Rightarrow> (case dial uri of
         Inl e \<Rightarrow> Inl (error_from_transport e)
       | Inr channel \<Rightarrow> Inr \<lparr>gc_inner = channel\<rparr>))"

definition grpc_client_send :: "('ch \<Rightarrow> rapid_request \<Rightarrow> status + rapid_response) \<Rightarrow> 'ch grpc_client \<Rightarrow>
    rapid_request \<Rightarrow> rapid_response result" where
  "grpc_client_send call c req = (case call (gc_inner c) req of
       Inl s \<Rightarrow> Inl (error_from_status s)
     | Inr resp \<Rightarrow> Inr resp)"

text \<open>As a \<^verbatim>\<open>MessagingClient\<close>, a single-peer client ignores the address it is given.\<close>

definition grpc_client_send_to :: "('ch \<Rightarrow> rapid_request \<Rightarrow> status + rapid_response) \<Rightarrow> 'ch grpc_client \<Rightarrow>
    socket_addr \<Rightarrow> rapid_request \<Rightarrow> rapid_response result" where
  "grpc_client_send_to call c remote req = grpc_client_send call c req"

section \<open>Pool\<close>

record 'ch cached_client =
  cc_client :: "'ch grpc_client"
  cc_last_access :: nat

record 'ch grpc_pool =
  gp_inner :: "(socket_addr, 'ch cached_client) fmap"
  gp_expire_after :: nat

definition pool_with_expiry :: "nat \<Rightarrow> 'ch grpc_pool" where
  "pool_with_expiry expire_after = \<lparr>gp_inner = fmempty, gp_expire_after = expire_after\<rparr>"

definition pool_new :: "'ch grpc_pool" where
  "pool_new = pool_with_expiry 30000"

text \<open>\<^verbatim>\<open>map.retain\<close> at an instant.\<close>

definition live_at :: "nat \<Rightarrow> nat \<Rightarrow> 'ch cached_client \<Rightarrow> bool" where
  "live_at expire_after now c \<longleftrightarrow> now - cc_last_access c < expire_after"

definition retain_live :: "nat \<Rightarrow> nat \<Rightarrow> (socket_addr, 'ch cached_client) fmap \<Rightarrow> (socket_addr, 'ch cached_client) fmap" where
  "retain_live expire_after now m =
     fmfilter (\<lambda>r. case fmlookup m r of None \<Rightarrow> False | Some c \<Rightarrow> live_at expire_after now c) m"

definition client_lookup :: "nat \<Rightarrow> socket_addr \<Rightarrow> 'ch grpc_pool \<Rightarrow> 'ch grpc_pool \<times> 'ch grpc_client option" where
  "client_lookup now remote pool =
     (let m = retain_live (gp_expire_after pool) now (gp_inner pool)
      in case fmlookup m remote of
           Some c \<Rightarrow> (pool\<lparr>gp_inner := fmupd remote (c\<lparr>cc_last_access := now\<rparr>) m\<rparr>, Some (cc_client c))
         | None \<Rightarrow> (pool\<lparr>gp_inner := m\<rparr>, None))"

definition client_insert :: "nat \<Rightarrow> socket_addr \<Rightarrow> 'ch grpc_client \<Rightarrow> 'ch grpc_pool \<Rightarrow> 'ch grpc_pool" where
  "client_insert now remote client pool =
     (case fmlookup (gp_inner pool) remote of
        Some _ \<Rightarrow> pool
      | None \<Rightarrow> pool\<lparr>gp_inner := fmupd remote \<lparr>cc_client = client, cc_last_access = now\<rparr> (gp_inner pool)\<rparr>)"

definition invalidate :: "socket_addr \<Rightarrow> 'ch grpc_pool \<Rightarrow> 'ch grpc_pool" where
  "invalidate remote pool = pool\<lparr>gp_inner := fmdrop remote (gp_inner pool)\<rparr>"

definition cache_size :: "'ch grpc_pool \<Rightarrow> nat" where
  "cache_size pool = fm_len (gp_inner pool)"

text \<open>
  The circumstances of one attempt: the instant it reads, what dialling yields if the pool has no
  channel, what a call on a channel yields, and what other tasks do to the pool during the two awaits.
\<close>

record 'ch attempt =
  at_now :: nat
  at_dialled :: "'ch grpc_client result"
  at_call :: "'ch \<Rightarrow> rapid_request \<Rightarrow> status + rapid_response"
  at_while_dialling :: "'ch grpc_pool \<Rightarrow> 'ch grpc_pool"
  at_while_calling :: "'ch grpc_pool \<Rightarrow> 'ch grpc_pool"

definition client_for :: "'ch attempt \<Rightarrow> socket_addr \<Rightarrow> 'ch grpc_pool \<Rightarrow> 'ch grpc_pool \<times> 'ch grpc_client result" where
  "client_for at remote pool =
     (case client_lookup (at_now at) remote pool of
        (pool, Some c) \<Rightarrow> (pool, Inr c)
      | (pool, None) \<Rightarrow>
          (let pool = at_while_dialling at pool in
           case at_dialled at of
             Inl e \<Rightarrow> (pool, Inl e)
           | Inr c \<Rightarrow> (client_insert (at_now at) remote c pool, Inr c)))"

text \<open>
  One turn of the loop. Its last component is the client the request went out on, if any.
\<close>

definition one_attempt :: "'ch attempt \<Rightarrow> socket_addr \<Rightarrow> rapid_request \<Rightarrow> 'ch grpc_pool \<Rightarrow>
    'ch grpc_pool \<times> rapid_response result \<times> 'ch grpc_client option" where
  "one_attempt at remote req pool =
     (case client_for at remote pool of
        (pool, Inl e) \<Rightarrow> (invalidate remote pool, Inl e, None)
      | (pool, Inr c) \<Rightarrow>
          (let pool = at_while_calling at pool in
           case grpc_client_send (at_call at) c req of
             Inr resp \<Rightarrow> (pool, Inr resp, Some c)
           | Inl e \<Rightarrow> (invalidate remote pool, Inl e, Some c)))"

text \<open>
  The loop over \<^verbatim>\<open>0..=retries\<close>, with the number of turns left. The result carries the history of the
  attempts beside what the method returns.
\<close>

type_synonym 'ch attempt_log = "(rapid_response result \<times> 'ch grpc_client option) list"

fun retry_loop :: "(nat \<Rightarrow> 'ch attempt) \<Rightarrow> socket_addr \<Rightarrow> rapid_request \<Rightarrow> nat \<Rightarrow> nat \<Rightarrow> error option \<Rightarrow>
    'ch grpc_pool \<Rightarrow> 'ch grpc_pool \<times> rapid_response result \<times> 'ch attempt_log" where
  "retry_loop world remote req i 0 last_err pool =
     (pool, Inl (case last_err of Some e \<Rightarrow> e | None \<Rightarrow> Transport), [])"
| "retry_loop world remote req i (Suc left) last_err pool =
     (case one_attempt (world i) remote req pool of
        (pool, Inr resp, via) \<Rightarrow> (pool, Inr resp, [(Inr resp, via)])
      | (pool, Inl e, via) \<Rightarrow>
          (case retry_loop world remote req (Suc i) left (Some e) pool of
             (pool, res, log) \<Rightarrow> (pool, res, (Inl e, via) # log)))"

definition send_with_retries :: "(nat \<Rightarrow> 'ch attempt) \<Rightarrow> socket_addr \<Rightarrow> rapid_request \<Rightarrow> u8 \<Rightarrow> 'ch grpc_pool \<Rightarrow>
    'ch grpc_pool \<times> rapid_response result \<times> 'ch attempt_log" where
  "send_with_retries world remote req retries pool =
     retry_loop world remote req 0 (unat retries + 1) None pool"

definition pool_send :: "(nat \<Rightarrow> 'ch attempt) \<Rightarrow> socket_addr \<Rightarrow> rapid_request \<Rightarrow> 'ch grpc_pool \<Rightarrow>
    'ch grpc_pool \<times> rapid_response result \<times> 'ch attempt_log" where
  "pool_send world remote req pool = send_with_retries world remote req 5 pool"

definition pool_send_best_effort :: "(nat \<Rightarrow> 'ch attempt) \<Rightarrow> socket_addr \<Rightarrow> rapid_request \<Rightarrow> 'ch grpc_pool \<Rightarrow>
    'ch grpc_pool \<times> rapid_response result \<times> 'ch attempt_log" where
  "pool_send_best_effort world remote req pool = send_with_retries world remote req 0 pool"

section \<open>Retries\<close>

lemma one_attempt_evicts:
  "one_attempt at remote req pool = (p, Inl e, via) \<Longrightarrow> fmlookup (gp_inner p) remote = None"
  by (auto simp: one_attempt_def invalidate_def Let_def split: prod.splits sum.splits)

lemma retry_loop_log:
  assumes "retry_loop world remote req i (Suc left) last_err pool = (p, res, log)"
  shows "log \<noteq> [] \<and> length log \<le> Suc left \<and> fst (last log) = res \<and> list_all (isl \<circ> fst) (butlast log) \<and>
    (isl res \<longrightarrow> length log = Suc left \<and> fmlookup (gp_inner p) remote = None)"
  using assms
proof (induction left arbitrary: i last_err pool p res log)
  case 0
  then show ?case by (auto split: prod.splits sum.splits dest: one_attempt_evicts)
next
  case (Suc left)
  obtain q r via where a: "one_attempt (world i) remote req pool = (q, r, via)" by (metis prod_cases3)
  show ?case
  proof (cases r)
    case (Inr resp)
    then show ?thesis using Suc.prems a by auto
  next
    case (Inl e)
    obtain q' res' log' where l: "retry_loop world remote req (Suc i) (Suc left) (Some e) q = (q', res', log')"
      by (metis prod_cases3)
    then have "p = q'" "res = res'" "log = (Inl e, via) # log'" using Suc.prems a Inl by simp_all
    then show ?thesis using Suc.IH[OF l] by auto
  qed
qed

text \<open>
  C34. What a call over the pool does. With \<open>retries\<close> retransmissions allowed, whatever the network, the
  clock and the other tasks that share the pool do: the request is attempted at least once and at
  most \<open>retries + 1\<close> times, every attempt but the last failed, and the caller gets the outcome of
  the last one. If that is an error, all attempts were used and the peer has no cached channel.
\<close>

theorem retries_exact:
  "case send_with_retries world remote req retries pool of (pool', res, log) \<Rightarrow>
     log \<noteq> [] \<and> length log \<le> unat retries + 1 \<and> res = fst (last log) \<and> list_all (isl \<circ> fst) (butlast log) \<and>
     (if isl res then length log = unat retries + 1 \<and> fmlookup (gp_inner pool') remote = None else True)"
proof -
  obtain p res log where r: "send_with_retries world remote req retries pool = (p, res, log)" by (metis prod_cases3)
  then have "retry_loop world remote req 0 (Suc (unat retries)) None pool = (p, res, log)"
    by (simp add: send_with_retries_def)
  from retry_loop_log[OF this] show ?thesis unfolding r by auto
qed

text \<open>
  A best-effort send puts the request on the wire at most once. Consensus messages to one member, the
  phase 1b answers among them, are sent this way.
\<close>

lemma best_effort_at_most_once:
  "length (filter (\<lambda>a. snd a \<noteq> None) (snd (snd (pool_send_best_effort world remote req pool)))) \<le> 1"
proof -
  obtain p res log where r: "pool_send_best_effort world remote req pool = (p, res, log)" by (metis prod_cases3)
  then have "retry_loop world remote req 0 (Suc 0) None pool = (p, res, log)"
    by (simp add: pool_send_best_effort_def send_with_retries_def)
  from retry_loop_log[OF this] have "length log \<le> 1" by simp
  then show ?thesis using r by (simp add: order.trans[OF length_filter_le])
qed

section \<open>Expiry by last access\<close>

datatype 'ch pool_event =
    LookupEv nat socket_addr
  | InsertEv nat socket_addr "'ch grpc_client"
  | InvalidateEv socket_addr

fun pool_step :: "'ch grpc_pool \<Rightarrow> 'ch pool_event \<Rightarrow> 'ch grpc_pool \<times> 'ch grpc_client option list" where
  "pool_step pool (LookupEv now remote) = (case client_lookup now remote pool of (pool, hit) \<Rightarrow> (pool, [hit]))"
| "pool_step pool (InsertEv now remote c) = (client_insert now remote c pool, [])"
| "pool_step pool (InvalidateEv remote) = (invalidate remote pool, [])"

text \<open>
  The reference: entries are never pruned; a lookup judges the one entry it reads by the time since its
  last access. \<open>ex_clock\<close> is the instant of the latest lookup.
\<close>

record 'ch expiring_cache =
  ex_entries :: "socket_addr \<Rightarrow> 'ch cached_client option"
  ex_clock :: nat

fun expiring_step :: "nat \<Rightarrow> 'ch expiring_cache \<Rightarrow> 'ch pool_event \<Rightarrow> 'ch expiring_cache \<times> 'ch grpc_client option list" where
  "expiring_step expiry s (LookupEv now remote) =
     (case ex_entries s remote of
        Some c \<Rightarrow> (if now < cc_last_access c + expiry
           then (s\<lparr>ex_entries := (ex_entries s)(remote \<mapsto> c\<lparr>cc_last_access := now\<rparr>), ex_clock := now\<rparr>, [Some (cc_client c)])
           else (s\<lparr>ex_clock := now\<rparr>, [None]))
      | None \<Rightarrow> (s\<lparr>ex_clock := now\<rparr>, [None]))"
| "expiring_step expiry s (InsertEv now remote c) =
     (s\<lparr>ex_entries := (ex_entries s)(remote \<mapsto> (case ex_entries s remote of
          Some old \<Rightarrow> if ex_clock s < cc_last_access old + expiry then old else \<lparr>cc_client = c, cc_last_access = now\<rparr>
        | None \<Rightarrow> \<lparr>cc_client = c, cc_last_access = now\<rparr>))\<rparr>, [])"
| "expiring_step expiry s (InvalidateEv remote) = (s\<lparr>ex_entries := (ex_entries s)(remote := None)\<rparr>, [])"

text \<open>
  Lookups read a clock that does not go back, and a channel is dialled within the expiry time of the
  lookups that happen meanwhile.
\<close>

fun well_timed :: "nat \<Rightarrow> nat \<Rightarrow> 'ch pool_event list \<Rightarrow> bool" where
  "well_timed expiry clock [] \<longleftrightarrow> True"
| "well_timed expiry clock (LookupEv now remote # evs) \<longleftrightarrow> clock \<le> now \<and> well_timed expiry now evs"
| "well_timed expiry clock (InsertEv now remote c # evs) \<longleftrightarrow> clock - now < expiry \<and> well_timed expiry clock evs"
| "well_timed expiry clock (InvalidateEv remote # evs) \<longleftrightarrow> well_timed expiry clock evs"

fun answers :: "('s \<Rightarrow> 'e \<Rightarrow> 's \<times> 'o list) \<Rightarrow> 's \<Rightarrow> 'e list \<Rightarrow> 'o list" where
  "answers step s [] = []"
| "answers step s (ev # evs) = snd (step s ev) @ answers step (fst (step s ev)) evs"

definition pool_shows :: "nat \<Rightarrow> 'ch grpc_pool \<Rightarrow> 'ch expiring_cache \<Rightarrow> bool" where
  "pool_shows expiry pool s \<longleftrightarrow> 0 < expiry \<and> gp_expire_after pool = expiry \<and>
     (\<forall>r. fmlookup (gp_inner pool) r = (case ex_entries s r of
        Some c \<Rightarrow> if live_at expiry (ex_clock s) c then Some c else None | None \<Rightarrow> None))"

lemma retain_live_lookup [simp]:
  "fmlookup (retain_live expiry now m) r = (case fmlookup m r of
     Some c \<Rightarrow> if live_at expiry now c then Some c else None | None \<Rightarrow> None)"
  by (simp add: retain_live_def split: option.split)

lemma live_at_iff: "0 < expiry \<Longrightarrow> live_at expiry now c \<longleftrightarrow> now < cc_last_access c + expiry"
  by (auto simp: live_at_def)

lemma live_at_mono: "clock \<le> now \<Longrightarrow> live_at expiry now c \<Longrightarrow> live_at expiry clock c"
  by (auto simp: live_at_def)

lemma pool_shows_step:
  assumes "pool_shows expiry pool s" "well_timed expiry (ex_clock s) (ev # evs)"
  shows "snd (pool_step pool ev) = snd (expiring_step expiry s ev)"
    "pool_shows expiry (fst (pool_step pool ev)) (fst (expiring_step expiry s ev))"
    "well_timed expiry (ex_clock (fst (expiring_step expiry s ev))) evs"
proof -
  have pos: "0 < expiry" and exp: "gp_expire_after pool = expiry"
    and inner: "fmlookup (gp_inner pool) r = (case ex_entries s r of
        Some c \<Rightarrow> if live_at expiry (ex_clock s) c then Some c else None | None \<Rightarrow> None)" for r
    using assms(1) unfolding pool_shows_def by blast+
  show "snd (pool_step pool ev) = snd (expiring_step expiry s ev)"
    using assms(2) live_at_mono
    by (cases ev) (fastforce simp: client_lookup_def Let_def inner exp live_at_iff[OF pos, symmetric] split: option.splits)+
  show "well_timed expiry (ex_clock (fst (expiring_step expiry s ev))) evs"
    using assms(2) by (cases ev) (auto split: option.split)
  show "pool_shows expiry (fst (pool_step pool ev)) (fst (expiring_step expiry s ev))"
  proof (cases ev)
    case (LookupEv now remote)
    then have "ex_clock s \<le> now" using assms(2) by simp
    then show ?thesis
      using LookupEv pos live_at_mono[of "ex_clock s" now expiry]
      by (auto simp: pool_shows_def client_lookup_def Let_def inner exp live_at_def split: option.split)
  next
    case (InsertEv now remote c)
    then show ?thesis using assms(2) pos
      by (auto simp: pool_shows_def client_insert_def inner exp live_at_def split: option.split)
  next
    case (InvalidateEv remote)
    then show ?thesis using pos by (auto simp: pool_shows_def invalidate_def inner exp split: option.split)
  qed
qed

lemma pool_answers:
  assumes "pool_shows expiry pool s" "well_timed expiry (ex_clock s) evs"
  shows "answers pool_step pool evs = answers (expiring_step expiry) s evs"
  using assms
proof (induction evs arbitrary: pool s)
  case (Cons ev evs)
  note step = pool_shows_step[OF Cons.prems]
  from Cons.IH[OF step(2,3)] step(1) show ?case by simp
qed simp

text \<open>
  C35. The pool is a cache that expires by last access. Over any interleaving of lookups, insertions and
  invalidations by any number of tasks, with a clock that does not go back and channels dialled
  within the expiry time, every lookup returns what a cache returns that prunes nothing and judges
  each entry, when it is asked for, by the time since its last access: dropping expired entries of
  all peers on each access is not observable.
\<close>

theorem pool_expires_by_access:
  assumes "0 < expiry" and "well_timed expiry 0 evs"
  shows "answers pool_step (pool_with_expiry expiry) evs =
    answers (expiring_step expiry) \<lparr>ex_entries = (\<lambda>_. None), ex_clock = 0\<rparr> evs"
  using assms by (intro pool_answers) (simp_all add: pool_shows_def pool_with_expiry_def)

definition demo_addr :: "nat \<Rightarrow> socket_addr" where
  "demo_addr n = ([], of_nat n)"

definition demo_pool_events :: "nat pool_event list" where
  "demo_pool_events = [LookupEv 5 (demo_addr 1), InsertEv 5 (demo_addr 1) \<lparr>gc_inner = 7\<rparr>, LookupEv 20 (demo_addr 1),
     LookupEv 31 (demo_addr 2), LookupEv 49 (demo_addr 1), LookupEv 90 (demo_addr 1)]"

theorem pool_expires_by_access_witness:
  "answers pool_step (pool_with_expiry 30) demo_pool_events = answers (expiring_step 30)
     \<lparr>ex_entries = (\<lambda>_. None), ex_clock = 0\<rparr> demo_pool_events"
  by (rule pool_expires_by_access) (simp_all add: demo_pool_events_def)

section \<open>Server handle\<close>

text \<open>Only the first \<^verbatim>\<open>shutdown\<close> or \<^verbatim>\<open>drop\<close> of a handle has an effect.\<close>

lemma shutdown_once:
  "snd (grpc_shutdown (fst (grpc_shutdown h))) = []" "snd (grpc_drop (fst (grpc_shutdown h))) = []"
  by (simp_all add: grpc_shutdown_def grpc_drop_def)

end
