(* ===== verification/Assembly.thy ===== *)
theory Assembly
  imports Join Handle Shard Grpc
begin

text \<open>
  How a running node is put together and taken down: the clock (\<^verbatim>\<open>crates/rapid/src/clock.rs\<close>), the
  client and the server of a transport and the pump of failure notifications
  (\<^verbatim>\<open>cluster/bootstrap.rs\<close>), the loop of the alert batcher (\<^verbatim>\<open>service/alert_batcher.rs\<close>), the calls of the cluster handle that go to the actor and its shutdown
  (\<^verbatim>\<open>cluster/handle.rs\<close>), and the bootstrap loop of the agent \<^verbatim>\<open>crates/rapid-example/src/main.rs\<close>.
  Tokio's timer and the outcomes of binding and joining are arguments.

  Properties: the agent's retries; notifications reach the mailbox in order; a shut-down node takes no
  request; a snapshot taken through three calls may mix two configurations.
\<close>

section \<open>Clock\<close>

definition clock_sleep :: "(nat \<Rightarrow> nat) \<Rightarrow> nat \<Rightarrow> nat \<Rightarrow> nat" where
  "clock_sleep sleep_until now dur = (let deadline = now + dur in sleep_until deadline)"

record mock_clock =
  mk_sleeps :: u64

definition mock_clock_new :: mock_clock where
  "mock_clock_new = \<lparr>mk_sleeps = 0\<rparr>"

definition sleep_call_count :: "mock_clock \<Rightarrow> u64" where
  "sleep_call_count c = mk_sleeps c"

definition mock_sleep_until :: "(nat \<Rightarrow> nat) \<Rightarrow> mock_clock \<Rightarrow> nat \<Rightarrow> mock_clock \<times> nat" where
  "mock_sleep_until sleep_until c deadline = (c\<lparr>mk_sleeps := mk_sleeps c + 1\<rparr>, sleep_until deadline)"

section \<open>Client and server\<close>

datatype 'ch raw_client = InProcessRaw in_process_network | PoolRaw "'ch grpc_pool" | CustomRaw

record 'ch timed_client =
  tc_inner :: "'ch raw_client"
  tc_timeouts :: message_timeouts

definition build_client :: "transport_choice \<Rightarrow> message_timeouts \<Rightarrow> 'ch timed_client" where
  "build_client transport timeouts =
     (let inner = (case transport of
          InProcess net \<Rightarrow> InProcessRaw net
        | Grpc \<Rightarrow> PoolRaw pool_new
        | Custom \<Rightarrow> CustomRaw)
      in \<lparr>tc_inner = inner, tc_timeouts = timeouts\<rparr>)"

datatype ('task, 'tx) running_server =
    InProcessServer server_handle
  | GrpcServer "('task, 'tx) grpc_server_handle"
  | CustomServer

text \<open>
  What binding a gRPC socket and a custom server factory yield, and the tasks and channels that are
  created, are arguments. The result carries the function that the server answers requests with.
\<close>

record ('l, 'task, 'tx) server_world =
  sw_bind :: "socket_addr \<Rightarrow> (unit + 'l) option"
  sw_local_addr :: "'l \<Rightarrow> unit + socket_addr"
  sw_task :: 'task
  sw_shutdown_tx :: 'tx
  sw_inbox :: nat
  sw_factory :: "socket_addr \<Rightarrow> unit result"

definition spawn_server :: "('l, 'task, 'tx) server_world \<Rightarrow> transport_choice \<Rightarrow> socket_addr \<Rightarrow> service_dispatch \<Rightarrow>
    transport_choice \<times> (('task, 'tx) running_server \<times> service_dispatch) result" where
  "spawn_server w transport listen_addr service = (case transport of
       InProcess network \<Rightarrow>
         (let (network, handle) = spawn_server_task network listen_addr (sw_inbox w)
          in (InProcess network, Inr (InProcessServer handle, service)))
     | Grpc \<Rightarrow>
         (let lazy = lazy_install lazy_new service
          in (Grpc, case serve (sw_bind w) (sw_local_addr w) (sw_task w) (sw_shutdown_tx w) listen_addr of
                Inl e \<Rightarrow> Inl e
              | Inr handle \<Rightarrow> Inr (GrpcServer handle, lazy_handle lazy)))
     | Custom \<Rightarrow> (Custom, case sw_factory w listen_addr of Inl e \<Rightarrow> Inl e | Inr _ \<Rightarrow> Inr (CustomServer, service)))"

text \<open>\<^verbatim>\<open>spawn_fd_notifier_pump\<close>: it stops at the first notification the mailbox refuses.\<close>

fun fd_notifier_pump :: "actor \<Rightarrow> edge_failure list \<Rightarrow> actor" where
  "fd_notifier_pump a [] = a"
| "fd_notifier_pump a (ev # evs) = (case tx_send a (EdgeFailureCommand ev) of
     Inl _ \<Rightarrow> a
   | Inr a' \<Rightarrow> fd_notifier_pump a' evs)"

text \<open>
  One turn of \<^verbatim>\<open>spawn_batcher_loop\<close> after its sleep: \<open>None\<close> when the task returns, because the mailbox is closed.
\<close>

definition batcher_turn :: "actor \<Rightarrow> actor option" where
  "batcher_turn a = (case tx_send a TickAlertBatcher of Inl _ \<Rightarrow> None | Inr a' \<Rightarrow> Some a')"

definition endpoints_to_socket_addrs :: "env \<Rightarrow> endpoint list \<Rightarrow> socket_addr list" where
  "endpoints_to_socket_addrs en endpoints = List.map_filter (\<lambda>e.
     let port = sint (ep_port e) in
     if 0 \<le> port \<and> port < 65536 then en_parse_addr en (ep_hostname e) (ucast (ep_port e)) else None) endpoints"

text \<open>\<^verbatim>\<open>Cluster::shutdown\<close>: the server first, then the actor.\<close>

definition stop_server :: "in_process_network \<Rightarrow> ('task, 'tx) running_server \<Rightarrow>
    in_process_network \<times> ('task, 'tx) server_effect list" where
  "stop_server net srv = (case srv of
       InProcessServer h \<Rightarrow> (fst (server_shutdown net h), [])
     | GrpcServer h \<Rightarrow> (net, snd (grpc_shutdown h))
     | CustomServer \<Rightarrow> (net, []))"

definition cluster_shutdown :: "in_process_network \<Rightarrow> ('task, 'tx) running_server \<Rightarrow> actor \<Rightarrow>
    in_process_network \<times> ('task, 'tx) server_effect list \<times> actor" where
  "cluster_shutdown net srv a = (let (net, effects) = stop_server net srv in (net, effects, post_shutdown a))"

section \<open>The agent\<close>

text \<open>
  \<^verbatim>\<open>bootstrap\<close> of the example agent. \<open>joined i\<close> is the outcome of the join attempt number \<open>i\<close>; the result
  carries the milliseconds slept between attempts.
\<close>

function agent_join_loop :: "(nat \<Rightarrow> 'c result) \<Rightarrow> nat \<Rightarrow> 'c result \<times> nat list" where
  "agent_join_loop joined tries = (case joined tries of
       Inr c \<Rightarrow> (Inr c, [])
     | Inl e \<Rightarrow>
         if tries < 20 then (let (res, slept) = agent_join_loop joined (tries + 1) in (res, 3000 # slept))
         else (Inl e, []))"
  by pat_completeness auto
termination by (relation "measure (\<lambda>(_, tries). 20 - tries)") auto

declare agent_join_loop.simps [simp del]

definition agent_bootstrap :: "'c result \<Rightarrow> (nat \<Rightarrow> 'c result) \<Rightarrow> socket_addr \<Rightarrow> socket_addr option \<Rightarrow> 'c result \<times> nat list" where
  "agent_bootstrap started joined listen seed = (case seed of
       None \<Rightarrow> (started, [])
     | Some s \<Rightarrow> if s = listen then (started, []) else agent_join_loop joined 0)"

section \<open>Properties\<close>

lemma agent_join_loop_exact:
  assumes "tries \<le> 20"
  shows "\<exists>k. tries \<le> k \<and> k \<le> 20 \<and> agent_join_loop joined tries = (joined k, replicate (k - tries) 3000) \<and>
    (\<forall>i. tries \<le> i \<longrightarrow> i < k \<longrightarrow> isl (joined i)) \<and> (isl (joined k) \<longrightarrow> k = 20)"
  using assms
proof (induction "20 - tries" arbitrary: tries)
  case 0
  then show ?case by (intro exI[of _ tries]) (auto simp: agent_join_loop.simps split: sum.split)
next
  case (Suc n)
  show ?case
  proof (cases "joined tries")
    case (Inr c)
    then show ?thesis using Suc.prems by (intro exI[of _ tries]) (auto simp: agent_join_loop.simps)
  next
    case (Inl e)
    have "n = 20 - (tries + 1)" "tries + 1 \<le> 20" using Suc.hyps(2) by simp_all
    from Suc.hyps(1)[OF this] obtain k where k: "tries + 1 \<le> k" "k \<le> 20"
      "agent_join_loop joined (tries + 1) = (joined k, replicate (k - (tries + 1)) 3000)"
      "\<forall>i. tries + 1 \<le> i \<longrightarrow> i < k \<longrightarrow> isl (joined i)" "isl (joined k) \<longrightarrow> k = 20" by blast
    have "isl (joined i)" if "tries \<le> i" "i < k" for i
      using k(4) Inl that by (cases "i = tries") auto
    moreover have "k - tries = Suc (k - (tries + 1))" using k(1) by simp
    ultimately show ?thesis
      using k Inl Suc.hyps(2) by (intro exI[of _ k]) (simp add: agent_join_loop.simps[of joined tries])
  qed
qed

text \<open>
  The agent's bootstrap ends. An agent that joins through a seed makes at most 21 attempts, three
  seconds apart, and returns the outcome of the last one; every earlier attempt failed, and it
  gives up only after the 21st, with that attempt's error.
\<close>

lemma agent_bootstrap_bounded:
  assumes "seed \<noteq> listen"
  shows "\<exists>k \<le> 20. agent_bootstrap started joined listen (Some seed) = (joined k, replicate k 3000) \<and>
    list_all (\<lambda>i. isl (joined i)) [0..<k] \<and> (if isl (joined k) then k = 20 else True)"
  using agent_join_loop_exact[of 0 joined] assms by (auto simp: agent_bootstrap_def list_all_iff)

text \<open>Failure notifications enter the mailbox in their order, unless the actor has exited.\<close>

lemma fd_pump_exact:
  "fd_notifier_pump a evs = (if ac_exited a then a else a\<lparr>ac_mailbox := ac_mailbox a @ map EdgeFailureCommand evs\<rparr>)"
  by (induction evs arbitrary: a) (auto simp: tx_send_def)

text \<open>The batcher ticks as long as the actor lives and returns at its first turn after the actor has exited.\<close>

lemma batcher_turn_exact:
  "batcher_turn a = (if ac_exited a then None else Some (a\<lparr>ac_mailbox := ac_mailbox a @ [TickAlertBatcher]\<rparr>))"
  by (auto simp: batcher_turn_def tx_send_def)

text \<open>
  The server answers as the service does from the start, over every transport: the lazy handler of the
  gRPC server has the service installed before the socket is bound, so no probe is answered with
  \<^verbatim>\<open>BOOTSTRAPPING\<close>.
\<close>

lemma server_answers_as_service:
  "snd (spawn_server w transport listen_addr service) = Inr (srv, handler) \<Longrightarrow> handler = service"
  by (auto simp: spawn_server_def lazy_install_def lazy_handle_def Let_def split_beta fun_eq_iff
      split: transport_choice.splits sum.splits)

lemma shutdown_unroutes:
  "fst (cluster_shutdown net (InProcessServer h) a) = net' \<Longrightarrow> route net' (sh_addr h) = None"
  by (auto simp: cluster_shutdown_def stop_server_def server_shutdown_def unregister_def route_def)

lemma endpoints_to_socket_addrs_same: "endpoints_to_socket_addrs en es = endpoints_as_socket_addrs en es"
  by (simp add: endpoints_to_socket_addrs_def endpoints_as_socket_addrs_def
      endpoint_to_socket_addr_def[abs_def] Let_def)

section \<open>Snapshots span three states\<close>

text \<open>The state of an actor after its first commands, each with the clock reading and jitter of its turn.\<close>

definition state_after :: "env \<Rightarrow> service_state \<Rightarrow> (nat \<times> nat \<times> service_command) list \<Rightarrow> service_state" where
  "state_after en st d = fst (command_loop en (fst (rebuild en st)) d)"

text \<open>\<^verbatim>\<open>Cluster::initial_view_event\<close> as its three calls, read off the answers an actor has given.\<close>

definition initial_view_calls :: "reply_id \<Rightarrow> reply_id \<Rightarrow> reply_id \<Rightarrow> actor \<Rightarrow> cluster_status_change result option" where
  "initial_view_calls rc rm rd a =
     (case (snd (ask_configuration_id rc) a, snd (ask_memberlist rm) a, snd (ask_metadata rd) a) of
        (Some c, Some m, Some md) \<Rightarrow> Some (initial_view_event c m md)
      | _ \<Rightarrow> None)"

text \<open>
  C36. What a snapshot through the handle is. Let a handle post its three queries on fresh channels with
  the commands \<open>mid\<close> and \<open>late\<close> of others in between. Once the task has had enough turns, the event
  consists of the configuration identifier after the commands \<open>before\<close>, of the members after \<open>before\<close>
  and \<open>mid\<close>, and of the metadata after \<open>late\<close> as well: when a view change is among \<open>mid\<close>, the event
  names one configuration and lists the members of another.
\<close>

theorem initial_view_spans_states:
  assumes "posts evs = before @ ConfigurationIdQuery rc # mid @ Memberlist rm # late @ MetadataQuery rd # after"
    and "ShutdownCommand \<notin> set (before @ mid @ late)"
    and "Some rc \<notin> command_channel ` set before" and "Some rm \<notin> command_channel ` set (before @ mid)"
    and "Some rd \<notin> command_channel ` set (before @ mid @ late)" and "distinct [rc, rm, rd]"
    and "parked rc st = 0" and "parked rm st = 0" and "parked rd st = 0"
    and "length (before @ mid @ late) + 2 < length ts"
  shows "\<exists>d1 d2 d3. commands d1 = before \<and> commands d2 = before @ ConfigurationIdQuery rc # mid \<and>
    commands d3 = before @ ConfigurationIdQuery rc # mid @ Memberlist rm # late \<and>
    initial_view_calls rc rm rd (run (actor_step en) (spawn_actor en st) (evs @ map (\<lambda>(now, j). Turn now j) ts)) =
      Some (Inr \<lparr>csc_configuration_id = snd (configuration_id en (state_after en st d1)),
        csc_membership = memberlist (state_after en st d2),
        csc_delta = members_as_up (memberlist (state_after en st d2)) (metadata_snapshot en (state_after en st d3))\<rparr>)"
proof -
  let ?a = "run (actor_step en) (spawn_actor en st) (evs @ map (\<lambda>(now, j). Turn now j) ts)"
  let ?b2 = "before @ ConfigurationIdQuery rc # mid"
  let ?b3 = "before @ ConfigurationIdQuery rc # mid @ Memberlist rm # late"
  obtain d1 where d1: "commands d1 = before"
    "rx_await (configuration_on rc) ?a = Some (Inr (snd (configuration_id en (state_after en st d1))))"
    using qc.linearizable[of evs before rc _ st ts en] assms(1-3,7,10) by (auto simp: state_after_def)
  obtain d2 where d2: "commands d2 = ?b2"
    "rx_await (endpoints_on rm) ?a = Some (Inr (memberlist (state_after en st d2)))"
    using qm.linearizable[of evs ?b2 rm "late @ MetadataQuery rd # after" st ts en] assms(1,2,4,6,8,10)
    by (auto simp: state_after_def)
  obtain d3 where d3: "commands d3 = ?b3"
    "rx_await (metadata_on rd) ?a = Some (Inr (metadata_snapshot en (state_after en st d3)))"
    using qd.linearizable[of evs ?b3 rd after st ts en] assms(1,2,5,6,9,10)
    by (auto simp: state_after_def)
  have "initial_view_calls rc rm rd ?a = Some (Inr \<lparr>csc_configuration_id = snd (configuration_id en (state_after en st d1)),
        csc_membership = memberlist (state_after en st d2),
        csc_delta = members_as_up (memberlist (state_after en st d2)) (metadata_snapshot en (state_after en st d3))\<rparr>)"
    using d1(2) d2(2) d3(2)
    by (simp add: initial_view_calls_def ask_configuration_id_def ask_memberlist_def ask_metadata_def initial_view_event_def)
  then show ?thesis using d1(1) d2(1) d3(1) by blast
qed

theorem initial_view_spans_states_witness:
  "\<exists>d1 d2 d3. commands d1 = [] \<and> commands d2 = [ConfigurationIdQuery 11, ApplyProposal [demo_ep 2] 8] \<and>
    commands d3 = [ConfigurationIdQuery 11, ApplyProposal [demo_ep 2] 8, Memberlist 12] \<and>
    initial_view_calls 11 12 13 (run (actor_step demo_env) (spawn_actor demo_env demo_service)
      ([Post (ConfigurationIdQuery 11), Post (ApplyProposal [demo_ep 2] 8), Post (Memberlist 12), Post (MetadataQuery 13)] @
       map (\<lambda>(now, j). Turn now j) [(1, 0), (2, 0), (3, 0), (4, 0)])) =
      Some (Inr \<lparr>csc_configuration_id = snd (configuration_id demo_env (state_after demo_env demo_service d1)),
        csc_membership = memberlist (state_after demo_env demo_service d2),
        csc_delta = members_as_up (memberlist (state_after demo_env demo_service d2))
          (metadata_snapshot demo_env (state_after demo_env demo_service d3))\<rparr>)"
  using initial_view_spans_states[where before = "[]" and mid = "[ApplyProposal [demo_ep 2] 8]" and late = "[]"
      and after = "[]" and rc = 11 and rm = 12 and rd = 13 and st = demo_service and en = demo_env
      and evs = "[Post (ConfigurationIdQuery 11), Post (ApplyProposal [demo_ep 2] 8), Post (Memberlist 12), Post (MetadataQuery 13)]"
      and ts = "[(1, 0), (2, 0), (3, 0), (4, 0)]"]
  by (simp add: parked_def parked_in_def)

end
