(* ===== verification/Trace.thy ===== *)
theory Trace
  imports Wire Rust_Str
begin

unbundle bit_operations_syntax

text \<open>
  The NDJSON trace reader and writer (\<^verbatim>\<open>crates/rapid-compat-tests/src/ndjson.rs\<close>) with its own
  base64. A file is its text; \<open>Io\<close> errors do not arise. The protobuf codec and the text form of a
  socket address are arguments (\<open>codec\<close>): the sources take them from prost and the standard library.

  Properties: base64 decoding inverts encoding; what was appended to a trace is read back.
\<close>

section \<open>Base64\<close>

definition ALPHABET :: rust_str where
  "ALPHABET = str_of ''ABCDEFGHIJKLMNOPQRSTUVWXYZabcdefghijklmnopqrstuvwxyz0123456789+/''"

text \<open>\<^verbatim>\<open>slice::chunks\<close>\<close>

function chunks :: "nat \<Rightarrow> 'a list \<Rightarrow> 'a list list" where
  "chunks n xs = (if n = 0 \<or> xs = [] then [] else take n xs # chunks n (drop n xs))"
  by auto
termination by (relation "measure (length \<circ> snd)") auto

declare chunks.simps [simp del]

definition symbol :: "8 word \<Rightarrow> nat" where
  "symbol v = ALPHABET ! unat v"

definition encode_chunk :: "8 word list \<Rightarrow> rust_str" where
  "encode_chunk chunk =
     (let b0 = chunk ! 0;
          b1 = (if 1 < length chunk then chunk ! 1 else 0);
          b2 = (if 2 < length chunk then chunk ! 2 else 0)
      in [symbol (drop_bit 2 b0), symbol (push_bit 4 (b0 AND 0x03) OR drop_bit 4 b1),
          if 1 < length chunk then symbol (push_bit 2 (b1 AND 0x0F) OR drop_bit 6 b2) else of_char CHR ''='',
          if 2 < length chunk then symbol (b2 AND 0x3F) else of_char CHR ''=''])"

definition base64_encode :: "bytes \<Rightarrow> rust_str" where
  "base64_encode bytes = concat (map encode_chunk (chunks 3 bytes))"

definition decode_table :: "8 word \<Rightarrow> 8 word" where
  "decode_table = fold (\<lambda>(i, c) table. table(of_nat c := of_nat i)) (zip [0..<length ALPHABET] ALPHABET) (\<lambda>_. 255)"

definition is_ascii_whitespace :: "8 word \<Rightarrow> bool" where
  "is_ascii_whitespace b \<longleftrightarrow> b \<in> {0x20, 0x09, 0x0A, 0x0C, 0x0D}"

text \<open>The entries of \<^verbatim>\<open>buf\<close> past the chunk are not read.\<close>

definition decode_chunk :: "bytes \<Rightarrow> bytes option" where
  "decode_chunk chunk =
     (let buf = map decode_table chunk
      in if 255 \<in> set buf then None
         else Some ((if 2 \<le> length chunk then [push_bit 2 (buf ! 0) OR drop_bit 4 (buf ! 1)] else []) @
                    (if 3 \<le> length chunk then [push_bit 4 (buf ! 1) OR drop_bit 2 (buf ! 2)] else []) @
                    (if 4 \<le> length chunk then [push_bit 6 (buf ! 2) OR buf ! 3] else [])))"

fun decode_chunks :: "bytes list \<Rightarrow> bytes option" where
  "decode_chunks [] = Some []"
| "decode_chunks (chunk # rest) =
     (case decode_chunk chunk of
        None \<Rightarrow> None
      | Some decoded \<Rightarrow> map_option ((@) decoded) (decode_chunks rest))"

definition base64_decode :: "rust_str \<Rightarrow> bytes option" where
  "base64_decode s =
     (let bytes = filter (\<lambda>b. b \<noteq> of_char CHR ''='' \<and> \<not> is_ascii_whitespace b) (to_utf8 s)
      in if length bytes mod 4 = 1 then None else decode_chunks (chunks 4 bytes))"

section \<open>Records\<close>

record trace_record =
  tr_ts_ms :: u64
  tr_dst :: socket_addr
  tr_request :: rapid_request

datatype trace_error = Malformed nat | Base64 nat | Protobuf nat

record codec =
  co_encode :: "rapid_request \<Rightarrow> bytes"
  co_decode :: "bytes \<Rightarrow> rapid_request option"
  co_show_addr :: "socket_addr \<Rightarrow> rust_str"
  co_parse_addr :: "rust_str \<Rightarrow> socket_addr option"

text \<open>\<^verbatim>\<open>str::find\<close> of a key, as the text after its first occurrence.\<close>

fun after_key :: "rust_str \<Rightarrow> rust_str \<Rightarrow> rust_str option" where
  "after_key key [] = (if key = [] then Some [] else None)"
| "after_key key (c # cs) =
     (if take (length key) (c # cs) = key then Some (drop (length key) (c # cs)) else after_key key cs)"

definition is_digit :: "nat \<Rightarrow> bool" where
  "is_digit c \<longleftrightarrow> 48 \<le> c \<and> c \<le> 57"

definition parse_nat :: "rust_str \<Rightarrow> nat" where
  "parse_nat s = foldl (\<lambda>n c. 10 * n + (c - 48)) 0 s"

text \<open>\<^verbatim>\<open>str::parse::<u64>\<close> of digits: empty text and overflow are errors.\<close>

definition parse_u64 :: "rust_str \<Rightarrow> u64 option" where
  "parse_u64 s = (if s = [] \<or> 2 ^ 64 \<le> parse_nat s then None else Some (of_nat (parse_nat s)))"

definition extract_u64 :: "rust_str \<Rightarrow> rust_str \<Rightarrow> nat \<Rightarrow> trace_error + u64" where
  "extract_u64 line key lineno = (case after_key key line of
       None \<Rightarrow> Inl (Malformed lineno)
     | Some after \<Rightarrow>
         (case parse_u64 (takeWhile is_digit after) of None \<Rightarrow> Inl (Malformed lineno) | Some n \<Rightarrow> Inr n))"

definition quote_char :: nat where "quote_char = of_char CHR 0x22"

definition extract_string :: "rust_str \<Rightarrow> rust_str \<Rightarrow> nat \<Rightarrow> trace_error + rust_str" where
  "extract_string line key lineno = (case after_key key line of
       None \<Rightarrow> Inl (Malformed lineno)
     | Some after \<Rightarrow>
         if quote_char \<in> set after then Inr (takeWhile (\<lambda>c. c \<noteq> quote_char) after) else Inl (Malformed lineno))"

definition parse_line :: "codec \<Rightarrow> rust_str \<Rightarrow> nat \<Rightarrow> trace_error + trace_record" where
  "parse_line co line lineno =
     (case extract_u64 line (str_of ''\"ts_ms\":'') lineno of Inl e \<Rightarrow> Inl e | Inr ts_ms \<Rightarrow>
      (case extract_string line (str_of ''\"dst\":\"'') lineno of Inl e \<Rightarrow> Inl e | Inr dst_raw \<Rightarrow>
       (case extract_string line (str_of ''\"req_b64\":\"'') lineno of Inl e \<Rightarrow> Inl e | Inr req_b64 \<Rightarrow>
        (case co_parse_addr co dst_raw of None \<Rightarrow> Inl (Malformed lineno) | Some dst \<Rightarrow>
         (case base64_decode req_b64 of None \<Rightarrow> Inl (Base64 lineno) | Some bytes \<Rightarrow>
          (case co_decode co bytes of None \<Rightarrow> Inl (Protobuf lineno) | Some request \<Rightarrow>
             Inr \<lparr>tr_ts_ms = ts_ms, tr_dst = dst, tr_request = request\<rparr>))))))"

section \<open>Files\<close>

definition newline :: nat where "newline = 10"

text \<open>\<^verbatim>\<open>BufRead::lines\<close>: the last line may lack its newline; a carriage return before a newline is dropped.\<close>

definition strip_cr :: "rust_str \<Rightarrow> rust_str" where
  "strip_cr s = (if s \<noteq> [] \<and> last s = 13 then butlast s else s)"

definition file_lines :: "rust_str \<Rightarrow> rust_str list" where
  "file_lines text =
     (let parts = split_on newline text
      in map strip_cr (butlast parts) @ (if last parts = [] then [] else [last parts]))"

fun read_lines :: "codec \<Rightarrow> nat \<Rightarrow> rust_str list \<Rightarrow> trace_error + trace_record list" where
  "read_lines co idx [] = Inr []"
| "read_lines co idx (line # rest) =
     (let trimmed = trim line
      in if trimmed = [] then read_lines co (Suc idx) rest
         else case parse_line co trimmed (idx + 1) of
           Inl e \<Rightarrow> Inl e
         | Inr r \<Rightarrow> (case read_lines co (Suc idx) rest of Inl e \<Rightarrow> Inl e | Inr rs \<Rightarrow> Inr (r # rs)))"

definition read_trace :: "codec \<Rightarrow> rust_str \<Rightarrow> trace_error + trace_record list" where
  "read_trace co text = read_lines co 0 (file_lines text)"

fun show_nat :: "nat \<Rightarrow> rust_str" where
  "show_nat n = (if n < 10 then [48 + n] else show_nat (n div 10) @ [48 + n mod 10])"

declare show_nat.simps [simp del]

definition render_record :: "codec \<Rightarrow> trace_record \<Rightarrow> rust_str" where
  "render_record co r = str_of ''{\"ts_ms\":'' @ show_nat (unat (tr_ts_ms r)) @ str_of '',\"dst\":\"'' @
     co_show_addr co (tr_dst r) @ str_of ''\",\"req_b64\":\"'' @
     base64_encode (co_encode co (tr_request r)) @ str_of ''\"}''"

definition append_trace :: "codec \<Rightarrow> rust_str \<Rightarrow> trace_record list \<Rightarrow> rust_str" where
  "append_trace co text records = text @ concat (map (\<lambda>r. render_record co r @ [newline]) records)"

section \<open>Base64 round trip\<close>

lemma chunks_Nil [simp]: "chunks n [] = []"
  by (simp add: chunks.simps)

lemma chunks_step: "0 < n \<Longrightarrow> xs \<noteq> [] \<Longrightarrow> chunks n xs = take n xs # chunks n (drop n xs)"
  by (subst chunks.simps) simp

lemma chunks3 [simp]:
  "chunks 3 [a] = [[a]]" "chunks 3 [a, b] = [[a, b]]" "chunks 3 (a # b # c # xs) = [a, b, c] # chunks 3 xs"
  by (simp_all add: chunks_step)

lemma chunks4 [simp]:
  "chunks 4 [a, b] = [[a, b]]" "chunks 4 [a, b, c] = [[a, b, c]]" "chunks 4 (a # b # c # d # xs) = [a, b, c, d] # chunks 4 xs"
  by (simp_all add: chunks_step)

lemma mask_numerals: "(0x03 :: 8 word) = mask 2" "(0x0F :: 8 word) = mask 4" "(0x3F :: 8 word) = mask 6"
  by (simp_all add: mask_eq_exp_minus_1)

lemma byte_bits: "n < 8 \<longleftrightarrow> n = 0 \<or> n = 1 \<or> n = 2 \<or> n = 3 \<or> n = 4 \<or> n = 5 \<or> n = 6 \<or> n = (7 :: nat)"
  by auto

lemma no_high_bits [simp]: "\<not> bit (a :: 8 word) 8" "\<not> bit (a :: 8 word) 9" "\<not> bit (a :: 8 word) 10"
  "\<not> bit (a :: 8 word) 11" "\<not> bit (a :: 8 word) 12" "\<not> bit (a :: 8 word) 13"
  using bit_imp_le_length[of a] by fastforce+

lemma byte_eqI: "(\<And>n. n < 8 \<Longrightarrow> bit a n \<longleftrightarrow> bit b n) \<Longrightarrow> a = (b :: 8 word)"
  by (rule bit_word_eqI) simp

text \<open>The four groups of six bits determine the three bytes.\<close>

definition group1 :: "8 word \<Rightarrow> 8 word" where "group1 a = drop_bit 2 a"
definition group2 :: "8 word \<Rightarrow> 8 word \<Rightarrow> 8 word" where "group2 a b = push_bit 4 (a AND 0x03) OR drop_bit 4 b"
definition group3 :: "8 word \<Rightarrow> 8 word \<Rightarrow> 8 word" where "group3 b c = push_bit 2 (b AND 0x0F) OR drop_bit 6 c"
definition group4 :: "8 word \<Rightarrow> 8 word" where "group4 c = c AND 0x3F"

lemmas group_defs = group1_def group2_def group3_def group4_def

lemma groups:
  "push_bit 2 (group1 a) OR drop_bit 4 (group2 a b) = a"
  "push_bit 4 (group2 a b) OR drop_bit 2 (group3 b c) = b"
  "push_bit 6 (group3 b c) OR group4 c = c"
  unfolding group_defs mask_numerals by (rule byte_eqI, auto simp only: byte_bits, simp_all add: bit_simps)+

definition sextet :: "8 word \<Rightarrow> bool" where
  "sextet v \<longleftrightarrow> unat v < 64"

lemma sextet_bits: "take_bit 6 v = v \<Longrightarrow> sextet v"
proof -
  assume "take_bit 6 v = v"
  then have "unat v = take_bit 6 (unat v)" by (metis unsigned_take_bit_eq)
  then have "unat v = unat v mod 64" by (simp add: take_bit_eq_mod)
  then show ?thesis using mod_less_divisor[of 64 "unat v"] by (simp add: sextet_def)
qed

lemma groups_small [simp]: "sextet (group1 a)" "sextet (group2 a b)" "sextet (group3 b c)" "sextet (group4 c)"
  unfolding group_defs mask_numerals by (rule sextet_bits, rule byte_eqI, auto simp only: byte_bits, simp_all add: bit_simps)+

lemma ALPHABET_codes:
  "ALPHABET = [65, 66, 67, 68, 69, 70, 71, 72, 73, 74, 75, 76, 77, 78, 79, 80, 81, 82, 83, 84,
    85, 86, 87, 88, 89, 90, 97, 98, 99, 100, 101, 102, 103, 104, 105, 106, 107, 108, 109, 110,
    111, 112, 113, 114, 115, 116, 117, 118, 119, 120, 121, 122, 48, 49, 50, 51, 52, 53, 54, 55,
    56, 57, 43, 47]"
  by (simp add: ALPHABET_def str_of_def)

lemma ALPHABET_facts: "distinct ALPHABET" "length ALPHABET = 64" "list_all (\<lambda>c. c < 128 \<and> c \<noteq> 61 \<and> 42 < c) ALPHABET"
  by (simp_all add: ALPHABET_codes)

lemma fold_table:
  assumes "distinct (map f xs)" "i < length xs"
  shows "fold (\<lambda>(i, c) t. t(f c := g i)) (zip [0..<length xs] xs) t0 (f (xs ! i)) = g i"
  using assms
proof (induction xs rule: rev_induct)
  case (snoc x xs)
  have z: "zip [0..<length (xs @ [x])] (xs @ [x]) = zip [0..<length xs] xs @ [(length xs, x)]" by simp
  show ?case
  proof (cases "i = length xs")
    case False
    then have i: "i < length xs" using snoc.prems by simp
    then have "f (xs ! i) \<in> f ` set xs" by simp
    moreover have "f x \<notin> f ` set xs" using snoc.prems(1) by simp
    ultimately have "f (xs ! i) \<noteq> f x" by metis
    then show ?thesis using snoc i unfolding z by (simp add: nth_append)
  qed (simp add: z)
qed simp

lemma decode_symbol:
  assumes "sextet v"
  shows "decode_table (of_nat (symbol v)) = v" "symbol v < 128" "symbol v \<noteq> 61" "42 < symbol v"
proof -
  have i: "unat v < length ALPHABET" using assms by (simp add: sextet_def ALPHABET_facts)
  have "ALPHABET ! unat v \<in> set ALPHABET" using i by simp
  then show s: "symbol v < 128" "symbol v \<noteq> 61" "42 < symbol v"
    using ALPHABET_facts(3) by (auto simp: symbol_def list_all_iff)
  have "inj_on (of_nat :: nat \<Rightarrow> 8 word) (set ALPHABET)"
  proof (rule inj_onI)
    fix x y
    assume xy: "x \<in> set ALPHABET" "y \<in> set ALPHABET" and eq: "(of_nat x :: 8 word) = of_nat y"
    have "x < 128" "y < 128" using xy ALPHABET_facts(3) by (simp_all add: list_all_iff)
    then have "unat (of_nat x :: 8 word) = x" "unat (of_nat y :: 8 word) = y" by (simp_all add: unat_byte)
    then show "x = y" using eq by metis
  qed
  then have "distinct (map (of_nat :: nat \<Rightarrow> 8 word) ALPHABET)" using ALPHABET_facts(1) by (simp add: distinct_map)
  from fold_table[OF this i, of "of_nat :: nat \<Rightarrow> 8 word" "\<lambda>_. 255"] show "decode_table (of_nat (symbol v)) = v"
    by (simp add: decode_table_def symbol_def)
qed

lemma symbol_byte: "sextet v \<Longrightarrow> utf8_char (symbol v) = [of_nat (symbol v)]"
  using decode_symbol(2) by (simp add: utf8_char_def)

definition payload :: "8 word \<Rightarrow> bool" where
  "payload b \<longleftrightarrow> b \<noteq> of_char CHR ''='' \<and> \<not> is_ascii_whitespace b"

lemma symbol_payload: "sextet v \<Longrightarrow> payload (of_nat (symbol v))"
proof -
  assume v: "sextet v"
  note d = decode_symbol[OF v]
  have u: "unat (of_nat (symbol v) :: 8 word) = symbol v" using d(2) by (intro unat_byte) simp
  have "(of_nat (symbol v) :: 8 word) \<noteq> w" if "unat w \<le> 32 \<or> unat w = 61" for w
    using that u d(3,4) by force
  then show ?thesis by (simp add: payload_def is_ascii_whitespace_def)
qed

lemma pad_payload: "utf8_char (of_char CHR ''='') = [of_char CHR ''='']" "\<not> payload (of_char CHR ''='')"
  by (simp_all add: utf8_char_def payload_def)

text \<open>The symbols a chunk of bytes leaves after the decoder's filter.\<close>

abbreviation sym :: "8 word \<Rightarrow> 8 word" where
  "sym v \<equiv> of_nat (symbol v)"

lemma encode_chunk_groups:
  "encode_chunk [a] = [symbol (group1 a), symbol (group2 a 0), of_char CHR ''='', of_char CHR ''='']"
  "encode_chunk [a, b] = [symbol (group1 a), symbol (group2 a b), symbol (group3 b 0), of_char CHR ''='']"
  "encode_chunk [a, b, c] = [symbol (group1 a), symbol (group2 a b), symbol (group3 b c), symbol (group4 c)]"
  by (simp_all add: encode_chunk_def group_defs)

lemma encoded_bytes:
  "filter payload (to_utf8 (encode_chunk [a])) = [sym (group1 a), sym (group2 a 0)]"
  "filter payload (to_utf8 (encode_chunk [a, b])) = [sym (group1 a), sym (group2 a b), sym (group3 b 0)]"
  "filter payload (to_utf8 (encode_chunk [a, b, c])) = [sym (group1 a), sym (group2 a b), sym (group3 b c), sym (group4 c)]"
  unfolding encode_chunk_groups to_utf8_def
  by (simp_all add: symbol_byte symbol_payload pad_payload del: of_char_Char)

lemma sym_not_255: "sextet v \<Longrightarrow> v \<noteq> 255"
  by (auto simp: sextet_def)

lemma decode_groups:
  "decode_chunk [sym (group1 a), sym (group2 a 0)] = Some [a]"
  "decode_chunk [sym (group1 a), sym (group2 a b), sym (group3 b 0)] = Some [a, b]"
  "decode_chunk [sym (group1 a), sym (group2 a b), sym (group3 b c), sym (group4 c)] = Some [a, b, c]"
  by (simp_all add: decode_chunk_def decode_symbol groups sym_not_255[THEN not_sym])

lemma filter_encode:
  "filter payload (to_utf8 (base64_encode (a # b # c # bs))) =
     [sym (group1 a), sym (group2 a b), sym (group3 b c), sym (group4 c)] @ filter payload (to_utf8 (base64_encode bs))"
  using encoded_bytes(3)[of a b c] by (simp add: base64_encode_def to_utf8_def)

lemma chunk3_induct [case_names Nil One Two Three]:
  assumes "P []" "\<And>a. P [a]" "\<And>a b. P [a, b]" "\<And>a b c bs. P bs \<Longrightarrow> P (a # b # c # bs)"
  shows "P bs"
proof (induction bs rule: measure_induct_rule[of length])
  case (less bs)
  show ?case
  proof (cases "length bs < 3")
    case True
    then show ?thesis using assms(1-3) by (auto simp: less_Suc_eq numeral_eq_Suc length_Suc_conv)
  next
    case False
    then obtain a b c rest where "bs = a # b # c # rest"
      by (auto simp: not_less numeral_eq_Suc Suc_le_length_iff)
    then show ?thesis using assms(4) less[of rest] by simp
  qed
qed

lemma base64_bytes:
  "length (filter payload (to_utf8 (base64_encode bs))) mod 4 \<noteq> 1 \<and>
   decode_chunks (chunks 4 (filter payload (to_utf8 (base64_encode bs)))) = Some bs"
proof (induction bs rule: chunk3_induct)
  case (One a)
  then show ?case using encoded_bytes(1)[of a] decode_groups(1)[of a] by (simp add: base64_encode_def)
next
  case (Two a b)
  then show ?case using encoded_bytes(2)[of a b] decode_groups(2)[of a b] by (simp add: base64_encode_def)
next
  case (Three a b c bs)
  then show ?case using decode_groups(3)[of a b c] by (simp add: filter_encode)
qed (simp add: base64_encode_def to_utf8_def)

lemma base64_decode_encode: "base64_decode (base64_encode bs) = Some bs"
  unfolding base64_decode_def payload_def[symmetric] Let_def using base64_bytes[of bs] by simp

text \<open>
  Base64 round trip: decoding what was encoded gives the bytes back, for every byte string.
\<close>

lemma base64_roundtrip: "base64_decode (base64_encode bs) = Some bs"
  by (rule base64_decode_encode)

section \<open>Trace round trip\<close>

lemma show_nat_digits: "list_all is_digit (show_nat n)"
proof (induction n rule: show_nat.induct)
  case (1 n)
  then show ?case by (subst show_nat.simps) (auto simp: list_all_iff is_digit_def)
qed

lemma show_nat_nonempty [simp]: "show_nat n \<noteq> []"
  by (subst show_nat.simps) simp

lemma parse_show_nat: "parse_nat (show_nat n) = n"
proof (induction n rule: show_nat.induct)
  case (1 n)
  then show ?case by (subst show_nat.simps) (auto simp: parse_nat_def)
qed

lemma parse_show_u64: "parse_u64 (show_nat (unat t)) = Some (t :: u64)"
proof -
  have "unat t < 2 ^ 64" using unsigned_less[of t] by simp
  then show ?thesis by (simp add: parse_u64_def parse_show_nat del: One_nat_def)
qed

lemma base64_chars: "list_all (\<lambda>c. 42 < c \<and> c < 128) (base64_encode bs)"
  by (induction bs rule: chunk3_induct) (simp_all add: base64_encode_def encode_chunk_groups decode_symbol)

lemma after_key_skip:
  "key = quote_char # key' \<Longrightarrow> quote_char \<notin> set xs \<Longrightarrow> after_key key (xs @ ys) = after_key key ys"
  by (induction xs) auto

lemma after_key_hit: "key \<noteq> [] \<Longrightarrow> after_key key (key @ xs) = Some xs"
  by (cases key) simp_all

lemma after_key_miss:
  "key = quote_char # k # key' \<Longrightarrow> c \<noteq> k \<Longrightarrow> after_key key (quote_char # c # xs) = after_key key (c # xs)"
  by simp

lemma after_key_part:
  assumes "key = quote_char # k # key'" "c \<noteq> k" "quote_char \<notin> set (c # xs)"
  shows "after_key key (quote_char # c # xs @ ys) = after_key key ys"
  using after_key_miss[OF assms(1,2)] after_key_skip[OF assms(1,3)] by simp

definition key_ts :: rust_str where "key_ts = str_of ''\"ts_ms\":''"
definition key_dst :: rust_str where "key_dst = str_of ''\"dst\":\"''"
definition key_req :: rust_str where "key_req = str_of ''\"req_b64\":\"''"

lemma keys:
  "key_ts = quote_char # 116 # [115, 95, 109, 115, quote_char, 58]"
  "key_dst = quote_char # 100 # [115, 116, quote_char, 58, quote_char]"
  "key_req = quote_char # 114 # [101, 113, 95, 98, 54, 52, quote_char, 58, quote_char]"
  by (simp_all add: key_ts_def key_dst_def key_req_def str_of_def quote_char_def)

lemma render_pieces:
  "render_record co r = [123] @ key_ts @ show_nat (unat (tr_ts_ms r)) @ [44] @ key_dst @ co_show_addr co (tr_dst r) @
     [quote_char, 44] @ key_req @ base64_encode (co_encode co (tr_request r)) @ [quote_char, 125]"
  by (simp add: render_record_def key_ts_def key_dst_def key_req_def str_of_def quote_char_def)

text \<open>The characters of a printed socket address: decimal and hexadecimal digits, dots, colons, brackets and \<open>%\<close>.\<close>

definition addr_char :: "nat \<Rightarrow> bool" where
  "addr_char c \<longleftrightarrow> is_digit c \<or> (97 \<le> c \<and> c \<le> 102) \<or> c \<in> {37, 46, 58, 91, 93}"

text \<open>The codec carries a record: its two halves invert each other on it and the address prints as an address.\<close>

definition carries :: "codec \<Rightarrow> trace_record \<Rightarrow> bool" where
  "carries co r \<longleftrightarrow> co_decode co (co_encode co (tr_request r)) = Some (tr_request r) \<and>
     co_parse_addr co (co_show_addr co (tr_dst r)) = Some (tr_dst r) \<and>
     list_all addr_char (co_show_addr co (tr_dst r))"

lemma plain_chars:
  assumes "carries co r"
  shows "quote_char \<notin> set (show_nat n)" "quote_char \<notin> set (co_show_addr co (tr_dst r))" "quote_char \<notin> set (base64_encode bs)"
    "newline \<notin> set (show_nat n)" "newline \<notin> set (co_show_addr co (tr_dst r))" "newline \<notin> set (base64_encode bs)"
    "114 \<notin> set (co_show_addr co (tr_dst r))"
  using assms show_nat_digits[of n] base64_chars[of bs]
  by (auto simp: carries_def list_all_iff addr_char_def is_digit_def quote_char_def newline_def)

lemma find_keys:
  assumes "carries co r"
  shows "after_key key_ts (render_record co r) = Some (show_nat (unat (tr_ts_ms r)) @ [44] @ key_dst @ co_show_addr co (tr_dst r) @
     [quote_char, 44] @ key_req @ base64_encode (co_encode co (tr_request r)) @ [quote_char, 125])" (is ?ts)
   "after_key key_dst (render_record co r) = Some (co_show_addr co (tr_dst r) @
     [quote_char, 44] @ key_req @ base64_encode (co_encode co (tr_request r)) @ [quote_char, 125])" (is ?dst)
   "after_key key_req (render_record co r) = Some (base64_encode (co_encode co (tr_request r)) @ [quote_char, 125])" (is ?req)
proof -
  note plain = plain_chars[OF assms]
  have q: "quote_char = 34" by (simp add: quote_char_def)
  have ts: "after_key k ([123] @ ys) = after_key k ys" if "k = quote_char # k'" for k k' ys
    using that by (intro after_key_skip) (simp_all add: q)
  show ?ts unfolding render_pieces using ts[OF keys(1)] after_key_hit[of key_ts] by (simp add: keys)
  have d: "after_key key_dst (show_nat n @ [44] @ ys) = after_key key_dst ys" "after_key key_req (show_nat n @ [44] @ ys) = after_key key_req ys" for n ys
    using after_key_skip[OF keys(2) plain(1)] after_key_skip[OF keys(3) plain(1)]
      after_key_skip[OF keys(2), of "[44]"] after_key_skip[OF keys(3), of "[44]"] by (simp_all add: q)
  have k: "after_key key_dst ([123] @ key_ts @ show_nat n @ [44] @ ys) = after_key key_dst ys"
    "after_key key_req ([123] @ key_ts @ show_nat n @ [44] @ ys) = after_key key_req ys" for n ys
    using ts[OF keys(2)] ts[OF keys(3)] d[of n ys] after_key_part[OF keys(2), of 116 "[115, 95, 109, 115]"]
      after_key_part[OF keys(3), of 116 "[115, 95, 109, 115]"]
      after_key_part[OF keys(2), of 58 "[]"] after_key_part[OF keys(3), of 58 "[]"]
    by (simp_all add: keys(1) q)
  show ?dst unfolding render_pieces k using after_key_hit[of key_dst] by (simp add: keys)
  have a: "after_key key_req (key_dst @ co_show_addr co (tr_dst r) @ [quote_char, 44] @ ys) = after_key key_req ys" for ys
  proof -
    let ?a = "co_show_addr co (tr_dst r)"
    have e: "after_key key_req (quote_char # 44 # ys) = after_key key_req ys"
      using after_key_part[OF keys(3), of 44 "[]"] by (simp add: q)
    have "after_key key_req (quote_char # ?a @ quote_char # 44 # ys) = after_key key_req ys"
    proof (cases ?a)
      case Nil
      then show ?thesis using e after_key_miss[OF keys(3), of quote_char "44 # ys"] by (simp add: q)
    next
      case (Cons c cs)
      then show ?thesis using e after_key_part[OF keys(3), of c cs] plain(2,7) by simp
    qed
    then show ?thesis
      using after_key_part[OF keys(3), of 100 "[115, 116]"] after_key_part[OF keys(3), of 58 "[]"]
      by (simp add: keys(2) q)
  qed
  show ?req unfolding render_pieces k a using after_key_hit[of key_req] by (simp add: keys)
qed

lemma parse_render:
  assumes "carries co r"
  shows "parse_line co (render_record co r) n = Inr r"
proof -
  note plain = plain_chars[OF assms]
  have "takeWhile is_digit (show_nat m @ 44 # ys) = show_nat m" for m ys
    using show_nat_digits[of m] by (simp add: takeWhile_append list_all_iff is_digit_def)
  then have ts: "extract_u64 (render_record co r) key_ts n = Inr (tr_ts_ms r)"
    using find_keys(1)[OF assms] by (simp add: extract_u64_def parse_show_u64)
  have quoted: "takeWhile (\<lambda>c. c \<noteq> quote_char) (xs @ quote_char # ys) = xs" if "quote_char \<notin> set xs" for xs ys
    using that by (induction xs) auto
  have dst: "extract_string (render_record co r) key_dst n = Inr (co_show_addr co (tr_dst r))"
    using find_keys(2)[OF assms] quoted[OF plain(2)] by (simp add: extract_string_def)
  have req: "extract_string (render_record co r) key_req n = Inr (base64_encode (co_encode co (tr_request r)))"
    using find_keys(3)[OF assms] quoted[OF plain(3)] by (simp add: extract_string_def)
  show ?thesis
    using ts dst req assms base64_bytes
    by (simp add: parse_line_def carries_def base64_decode_encode flip: key_ts_def key_dst_def key_req_def)
qed

lemma trim_render: "trim (render_record co r) = render_record co r"
  by (simp add: trim_def render_pieces is_whitespace_def)

lemma render_last: "last (render_record co r) = 125" "render_record co r \<noteq> []"
  by (simp_all add: render_pieces)

lemma render_line:
  assumes "carries co r"
  shows "newline \<notin> set (render_record co r)"
  using plain_chars[OF assms] by (simp add: render_pieces keys quote_char_def newline_def)

lemma read_lines_append:
  "read_lines co i (xs @ ys) = (case read_lines co i xs of Inl e \<Rightarrow> Inl e | Inr rs \<Rightarrow>
     (case read_lines co (i + length xs) ys of Inl e \<Rightarrow> Inl e | Inr rs' \<Rightarrow> Inr (rs @ rs')))"
  by (induction xs arbitrary: i) (auto simp: Let_def split: sum.split)

lemma read_rendered: "list_all (carries co) rs \<Longrightarrow> read_lines co i (map (render_record co) rs) = Inr rs"
  by (induction rs arbitrary: i) (simp_all add: Let_def trim_render render_last parse_render)

lemma file_lines_Nil [simp]: "file_lines [] = []"
  by (simp add: file_lines_def)

lemma file_lines_append: "file_lines (t @ newline # rest) = map strip_cr (split_on newline t) @ file_lines rest"
  using split_on_nonempty[of newline rest] by (simp add: file_lines_def split_on_append butlast_append Let_def)

lemma file_lines_rendered:
  "list_all (carries co) rs \<Longrightarrow>
     file_lines (concat (map (\<lambda>r. render_record co r @ [newline]) rs)) = map (render_record co) rs"
  by (induction rs) (simp_all add: file_lines_append split_on_simple render_line strip_cr_def render_last)

text \<open>
  C32. Traces round trip. Records appended to a trace (empty, or ended by a newline) that reads as
  \<open>old\<close> are read back after \<open>old\<close>, in order, with their timestamps, destinations and requests,
  whatever the old text looks like (blank lines, white space, carriage returns): provided the
  message codec and the address syntax carry each appended record.
\<close>

theorem trace_roundtrip:
  assumes "read_trace co text = Inr old" and "text = [] \<or> last text = newline"
    and "list_all (carries co) records"
  shows "read_trace co (append_trace co text records) = Inr (old @ records)"
proof (cases "text = []")
  case True
  then show ?thesis
    using assms by (simp add: read_trace_def append_trace_def file_lines_rendered read_rendered)
next
  case False
  then obtain t where t: "text = t @ [newline]" using assms(2) append_butlast_last_id[OF False] by metis
  have "read_lines co 0 (map strip_cr (split_on newline t)) = Inr old"
    using assms(1) by (simp add: read_trace_def t file_lines_append)
  then show ?thesis
    using assms(3) by (simp add: read_trace_def append_trace_def t file_lines_append read_lines_append
        file_lines_rendered read_rendered)
qed

text \<open>A codec for one record, which prints an address as its port.\<close>

definition demo_request :: rapid_request where
  "demo_request = probe_request \<lparr>pm_sender = None, pm_payload = []\<rparr>"

definition demo_codec :: codec where
  "demo_codec = \<lparr>co_encode = (\<lambda>_. [1, 2, 250, 7]), co_decode = (\<lambda>bs. if bs = [1, 2, 250, 7] then Some demo_request else None),
     co_show_addr = (\<lambda>a. [58] @ show_nat (unat (snd a))), co_parse_addr = (\<lambda>s. Some ([], of_nat (parse_nat (tl s))))\<rparr>"

definition demo_record :: "u64 \<Rightarrow> trace_record" where
  "demo_record t = \<lparr>tr_ts_ms = t, tr_dst = ([], 7000), tr_request = demo_request\<rparr>"

lemma demo_carries: "carries demo_codec (demo_record t)"
  using show_nat_digits[of 7000]
  by (simp add: carries_def demo_codec_def demo_record_def parse_show_nat list_all_iff addr_char_def)

theorem trace_roundtrip_witness:
  "read_trace demo_codec (append_trace demo_codec [newline] [demo_record 1, demo_record 20]) =
     Inr [demo_record 1, demo_record 20]"
proof -
  have "read_trace demo_codec [newline] = Inr []" by code_simp
  from trace_roundtrip[OF this, of "[demo_record 1, demo_record 20]"] show ?thesis
    by (simp add: demo_carries)
qed

end
