(* ===== verification/Agent.thy ===== *)
theory Agent
  imports Assembly Configurations Trace "HOL-Library.List_Lexorder"
begin

text \<open>
  The text the programs show: \<^verbatim>\<open>Display\<close> of a configuration identifier and the other newtypes of
  \<^verbatim>\<open>crates/rapid/src/types.rs\<close>, and the output of the agent \<^verbatim>\<open>crates/rapid-example/src/main.rs\<close>, whose
  bootstrap is in \<open>Assembly\<close>.

  Properties: the text of a configuration identifier is 16 digits and determines it; members of the same
  configuration print the same view line.
\<close>

section \<open>Newtypes\<close>

datatype ring_number = RingNumber (ring_number_as_u8: u8)

definition ring_number_as_usize :: "ring_number \<Rightarrow> nat" where
  "ring_number_as_usize r = unat (ring_number_as_u8 r)"

definition ring_number_into_i32 :: "ring_number \<Rightarrow> i32" where
  "ring_number_into_i32 r = ucast (ring_number_as_u8 r)"

datatype node_index = NodeIndex (node_index_as_usize: nat)

datatype round = Round (round_as_i32: i32)

text \<open>\<^verbatim>\<open>{:016x}\<close>: lower-case digits, padded with zeros to 16.\<close>

definition hex_digit :: "nat \<Rightarrow> nat" where
  "hex_digit d = (if d < 10 then 48 + d else 87 + d)"

fun show_hex :: "nat \<Rightarrow> rust_str" where
  "show_hex n = (if n < 16 then [hex_digit n] else show_hex (n div 16) @ [hex_digit (n mod 16)])"

declare show_hex.simps [simp del]

definition display_configuration_id :: "configuration_id \<Rightarrow> rust_str" where
  "display_configuration_id c =
     (let digits = show_hex (unat c) in replicate (16 - length digits) 48 @ digits)"

definition hex_value :: "nat \<Rightarrow> nat" where
  "hex_value d = (if d < 58 then d - 48 else d - 87)"

definition read_hex :: "rust_str \<Rightarrow> nat" where
  "read_hex s = foldl (\<lambda>n d. 16 * n + hex_value d) 0 s"

lemma hex_value_digit [simp]: "d < 16 \<Longrightarrow> hex_value (hex_digit d) = d"
  by (auto simp: hex_value_def hex_digit_def)

lemma read_show_hex: "read_hex (show_hex n) = n"
proof (induction n rule: show_hex.induct)
  case (1 n)
  then show ?case by (subst show_hex.simps) (simp add: read_hex_def)
qed

lemma show_hex_length: "n < 16 ^ k \<Longrightarrow> 0 < k \<Longrightarrow> length (show_hex n) \<le> k"
proof (induction n arbitrary: k rule: show_hex.induct)
  case (1 n)
  show ?case
  proof (cases "n < 16")
    case False
    obtain k' where k: "k = Suc k'" using 1(3) by (cases k) auto
    then have k': "0 < k'" using 1(2) False by (cases k') auto
    have "n div 16 < 16 ^ k'" using 1(2) k by (simp add: div_less_iff_less_mult mult.commute)
    then show ?thesis using 1(1)[OF False] k k' False by (subst show_hex.simps) simp
  qed (use 1(3) in \<open>subst show_hex.simps, simp\<close>)
qed

lemma read_hex_zeros: "read_hex (replicate m 48 @ s) = read_hex s"
  by (induction m) (simp_all add: read_hex_def hex_value_def)

lemma display_read: "read_hex (display_configuration_id c) = unat c" "length (display_configuration_id c) = 16"
proof -
  have "unat c < 16 ^ 16" using unsigned_less[of c, where 'a = nat] by simp
  then have "length (show_hex (unat c)) \<le> 16" by (rule show_hex_length) simp
  then show "read_hex (display_configuration_id c) = unat c" "length (display_configuration_id c) = 16"
    by (simp_all add: display_configuration_id_def Let_def read_hex_zeros read_show_hex)
qed

section \<open>What the agent prints\<close>

definition show_i32 :: "i32 \<Rightarrow> rust_str" where
  "show_i32 p = (if sint p < 0 then of_char CHR ''-'' # show_nat (nat (- sint p)) else show_nat (nat (sint p)))"

fun join_parts :: "rust_str \<Rightarrow> rust_str list \<Rightarrow> rust_str" where
  "join_parts sep [] = []"
| "join_parts sep [p] = p"
| "join_parts sep (p # q # ps) = p @ sep @ join_parts sep (q # ps)"

text \<open>Strings are ordered by their bytes, which for UTF-8 is the order of the code points.\<close>

definition summarize :: "endpoint list \<Rightarrow> rust_str" where
  "summarize endpoints =
     (let parts = map (\<lambda>e. from_utf8_lossy (ep_hostname e) @ str_of '':'' @ show_i32 (ep_port e)) endpoints
      in str_of ''['' @ join_parts (str_of '','') (sort parts) @ str_of '']'')"

definition view_change_line :: "cluster_status_change \<Rightarrow> rust_str" where
  "view_change_line ev = str_of ''ViewChange: config='' @ display_configuration_id (csc_configuration_id ev) @
     str_of '' membership='' @ summarize (csc_membership ev) @ str_of '' delta-size='' @ show_nat (length (csc_delta ev))"

definition proposal_line :: "cluster_status_change \<Rightarrow> rust_str" where
  "proposal_line ev = str_of ''ViewChangeProposal: config='' @ display_configuration_id (csc_configuration_id ev) @
     str_of '' delta-size='' @ show_nat (length (csc_delta ev))"

definition kicked_line :: "cluster_status_change \<Rightarrow> rust_str" where
  "kicked_line ev = str_of ''Kicked: config='' @ display_configuration_id (csc_configuration_id ev)"

text \<open>A printing task: it ends at the first \<^verbatim>\<open>recv\<close> that is not \<^verbatim>\<open>Ok\<close>, be it a closed channel or one it lags behind on.\<close>

fun print_events :: "(cluster_status_change \<Rightarrow> rust_str) \<Rightarrow> (unit + cluster_status_change) list \<Rightarrow> rust_str list" where
  "print_events line [] = []"
| "print_events line (Inl _ # rest) = []"
| "print_events line (Inr ev # rest) = line ev # print_events line rest"

text \<open>One tick of the view printer; the two calls to the service are separate.\<close>

definition view_line :: "configuration_id \<Rightarrow> endpoint list \<Rightarrow> rust_str" where
  "view_line i ms = str_of ''view: '' @ display_configuration_id i @ str_of '' '' @ summarize ms"

definition print_view :: "endpoint list result \<Rightarrow> configuration_id result \<Rightarrow> rust_str list" where
  "print_view answer i = (case answer of
       Inl _ \<Rightarrow> []
     | Inr ms \<Rightarrow> (case i of Inl _ \<Rightarrow> [] | Inr c \<Rightarrow> [view_line c ms]))"

text \<open>
  \<^verbatim>\<open>main\<close>: the outcome of the bootstrap, what the three subscriptions and the ticks deliver and the outcome of
  waiting for the interrupt are arguments; the tasks print independently, so each has its own list of lines.
\<close>

record agent_cli =
  ag_listen :: socket_addr
  ag_seed :: "socket_addr option"
  ag_print_view_every :: u64

record agent_output =
  out_view_changes :: "rust_str list"
  out_proposals :: "rust_str list"
  out_kicked :: "rust_str list"
  out_views :: "rust_str list"
  out_main :: "rust_str list"
  out_shutdown :: bool

definition agent_main ::
  "(socket_addr \<Rightarrow> rust_str) \<Rightarrow> 'c result \<Rightarrow> (nat \<Rightarrow> 'c result) \<Rightarrow> agent_cli \<Rightarrow>
   (unit + cluster_status_change) list \<Rightarrow> (unit + cluster_status_change) list \<Rightarrow> (unit + cluster_status_change) list \<Rightarrow>
   (endpoint list result \<times> configuration_id result) list \<Rightarrow> unit result \<Rightarrow> unit result \<times> agent_output" where
  "agent_main show_addr started joined cli changes proposals kicked ticks ctrl_c =
     (let silent_output = \<lparr>out_view_changes = [], out_proposals = [], out_kicked = [], out_views = [], out_main = [], out_shutdown = False\<rparr>
      in case fst (agent_bootstrap started joined (ag_listen cli) (ag_seed cli)) of
        Inl err \<Rightarrow> (Inl err, silent_output)
      | Inr cluster \<Rightarrow>
          (let ready = str_of ''rapid-example: ready on '' @ show_addr (ag_listen cli);
               out = \<lparr>out_view_changes = print_events view_change_line changes,
                 out_proposals = print_events proposal_line proposals, out_kicked = print_events kicked_line kicked,
                 out_views = concat (map (\<lambda>(ms, i). print_view ms i) ticks), out_main = [ready], out_shutdown = False\<rparr>
           in case ctrl_c of
             Inl err \<Rightarrow> (Inl err, out)
           | Inr _ \<Rightarrow> (Inr (), out\<lparr>out_main := [ready, str_of ''rapid-example: ctrl-c received, shutting down''],
                              out_shutdown := True\<rparr>)))"

section \<open>Lemmas\<close>

text \<open>Events behind a missed one are not printed.\<close>

lemma print_events_stops: "print_events line (map Inr evs @ Inl () # rest) = map line evs"
  by (induction evs) simp_all

lemma summarize_perm: "mset es = mset es' \<Longrightarrow> summarize es = summarize es'"
proof -
  assume m: "mset es = mset es'"
  let ?f = "\<lambda>e. from_utf8_lossy (ep_hostname e) @ str_of '':'' @ show_i32 (ep_port e)"
  have "sort (map ?f es) = sort (map ?f es')"
    by (rule properties_for_sort) (use m in simp_all)
  then show ?thesis by (simp add: summarize_def)
qed

lemma view_line_configuration: "view_line i ms = view_line i' ms' \<Longrightarrow> i = i'"
proof -
  assume "view_line i ms = view_line i' ms'"
  then have "display_configuration_id i @ str_of '' '' @ summarize ms = display_configuration_id i' @ str_of '' '' @ summarize ms'"
    by (simp add: view_line_def)
  then have "display_configuration_id i = display_configuration_id i'" using display_read(2) by (simp add: append_eq_append_conv)
  then show ?thesis using display_read(1) by (metis unsigned_word_eqI)
qed

lemma memberlist_canonical:
  assumes "parts_inv en es st" "parts_inv en' es' st'" "en_xxh64 en' = en_xxh64 en" "members (st_view st') = members (st_view st)"
  shows "memberlist st' = memberlist st"
  using assms ring_zero_canonical[of "en_xxh64 en" "st_view st'" "st_view st"]
  by (auto simp: memberlist_def parts_inv_def view_inv_over_def)

section \<open>Results\<close>

text \<open>
  The text of a configuration identifier is faithful: always 16 hexadecimal digits, from which the
  identifier, negative values included, is read back, so different configurations are shown differently.
\<close>

theorem configuration_id_display_roundtrip:
  "length (display_configuration_id c) = 16 \<and> word_of_nat (read_hex (display_configuration_id c)) = c"
  using display_read[of c] by simp

text \<open>
  Members of one configuration print the same view line. Two nodes with the same members and identifiers seen,
  whatever the order in which they learned of them, print the same line, byte for byte; and nodes that
  print the same line have the same configuration identifier.
\<close>

theorem view_line_agrees:
  assumes "parts_inv en es st" and "parts_inv en' es' st'" and "en_xxh64 en' = en_xxh64 en"
  shows "(members (st_view st') = members (st_view st) \<and> identifiers_seen (st_view st') = identifiers_seen (st_view st) \<longrightarrow>
      print_view (Inr (memberlist st')) (Inr (snd (configuration_id en' st'))) =
      print_view (Inr (memberlist st)) (Inr (snd (configuration_id en st)))) \<and>
    (print_view (Inr (memberlist st')) (Inr (snd (configuration_id en' st'))) =
      print_view (Inr (memberlist st)) (Inr (snd (configuration_id en st))) \<longrightarrow>
      snd (configuration_id en' st') = snd (configuration_id en st))"
proof (intro conjI impI)
  assume m: "members (st_view st') = members (st_view st) \<and> identifiers_seen (st_view st') = identifiers_seen (st_view st)"
  have "view_inv (en_xxh64 en) (st_view st')" "view_inv (en_xxh64 en) (st_view st)"
    using assms by (auto simp: parts_inv_def view_inv_over_def)
  then have "snd (configuration_id en' st') = snd (configuration_id en st)"
    using configuration_id_true[OF assms(1)] configuration_id_true[OF assms(2)] true_configuration_id_canonical m assms(3) by metis
  then show "print_view (Inr (memberlist st')) (Inr (snd (configuration_id en' st'))) =
      print_view (Inr (memberlist st)) (Inr (snd (configuration_id en st)))"
    using memberlist_canonical[OF assms] m by simp
next
  assume "print_view (Inr (memberlist st')) (Inr (snd (configuration_id en' st'))) =
      print_view (Inr (memberlist st)) (Inr (snd (configuration_id en st)))"
  then show "snd (configuration_id en' st') = snd (configuration_id en st)" using view_line_configuration by (simp add: print_view_def)
qed

definition agent_node :: "nat list \<Rightarrow> service_state" where
  "agent_node order = service_state_new (demo_ep 1)
     (case view_bootstrap demo_hash 3 (map demo_nid order) (map demo_ep order) of Inr v \<Rightarrow> v) demo_cut metadata_new settings_for_tests"

lemma agent_node_facts:
  assumes "set order = {1, 2, 3}"
  shows "parts_inv demo_env (map demo_ep [1, 2, 3, 4, 5]) (agent_node order)"
    "members (st_view (agent_node order)) = demo_ep ` {1, 2, 3}" "identifiers_seen (st_view (agent_node order)) = demo_nid ` {1, 2, 3}"
proof -
  obtain v where b: "view_bootstrap demo_hash 3 (map demo_nid order) (map demo_ep order) = Inr v"
    by (simp add: view_bootstrap_def view_new_def)
  then have v: "st_view (agent_node order) = v" by (simp add: agent_node_def service_state_new_def)
  note f = view_bootstrap_inv[OF b demo_no_collisions]
  have sub: "set (map demo_ep order) \<subseteq> set (map demo_ep [1, 2, 3, 4, 5])" using assms by auto
  show "members (st_view (agent_node order)) = demo_ep ` {1, 2, 3}" "identifiers_seen (st_view (agent_node order)) = demo_nid ` {1, 2, 3}"
    using f(2,3)[OF sub] assms by (simp_all add: v)
  show "parts_inv demo_env (map demo_ep [1, 2, 3, 4, 5]) (agent_node order)"
    using f(1)[OF sub] cut_new_fresh(1)[OF demo_cut_new] v
    by (simp add: parts_inv_def agent_node_def service_state_new_def demo_env_def)
qed

theorem view_line_agrees_witness:
  "print_view (Inr (memberlist (agent_node [3, 1, 2]))) (Inr (snd (configuration_id demo_env (agent_node [3, 1, 2])))) =
   print_view (Inr (memberlist (agent_node [1, 2, 3]))) (Inr (snd (configuration_id demo_env (agent_node [1, 2, 3]))))"
proof -
  have o: "set [1, 2, 3] = {1, 2, 3 :: nat}" "set [3, 1, 2] = {1, 2, 3 :: nat}" by auto
  show ?thesis using view_line_agrees[OF agent_node_facts(1)[OF o(1)] agent_node_facts(1)[OF o(2)] refl] agent_node_facts(2,3)[OF o(1)]
      agent_node_facts(2,3)[OF o(2)] by simp
qed

end
