(* ===== verification/Soak.thy ===== *)
theory Soak
  imports Assembly Configurations Rust_Str
begin

text \<open>
  The soak program \<^verbatim>\<open>crates/rapid-soak/src/main.rs\<close>: it boots nodes on consecutive ports of the loopback address, lets
  the first one apply the empty proposal again and again and compares heap snapshots. The outcomes of
  \<^verbatim>\<open>start\<close> and \<^verbatim>\<open>join\<close>, the clock and the heap statistics (of the \<^verbatim>\<open>dhat\<close> allocator, \<open>None\<close> without that feature) are
  arguments; times are nanoseconds, and port numbers wrap as in a release build. While the loop runs
  the first node handles no other command.

  Result: the view changes of the soak are no-ops on the configuration, and all nodes get different addresses.
\<close>

section \<open>The program\<close>

record soak_cli =
  sk_view_changes :: u32
  sk_duration_secs :: u64
  sk_nodes :: u16
  sk_base_port :: u16

datatype soak_error = SoakRapid error | HeapDelta int

definition THRESHOLD_BYTES :: u64 where
  "THRESHOLD_BYTES = 5 * 1024 * 1024"

definition soak_addr :: "u16 \<Rightarrow> socket_addr" where
  "soak_addr port = (to_utf8 (str_of ''127.0.0.1''), port)"

fun soak_join :: "(socket_addr \<Rightarrow> socket_addr \<Rightarrow> 'c result) \<Rightarrow> u16 \<Rightarrow> u16 list \<Rightarrow> 'c list \<Rightarrow> 'c list result" where
  "soak_join join base [] nodes = Inr nodes"
| "soak_join join base (i # rest) nodes = (case join (soak_addr (base + i)) (soak_addr base) of
       Inl err \<Rightarrow> Inl err
     | Inr c \<Rightarrow> soak_join join base rest (nodes @ [c]))"

definition soak_boot :: "(socket_addr \<Rightarrow> 'c result) \<Rightarrow> (socket_addr \<Rightarrow> socket_addr \<Rightarrow> 'c result) \<Rightarrow> soak_cli \<Rightarrow> 'c list result" where
  "soak_boot start join cli = (case start (soak_addr (sk_base_port cli)) of
       Inl err \<Rightarrow> Inl err
     | Inr seed \<Rightarrow> soak_join join (sk_base_port cli) (map of_nat [1..<unat (sk_nodes cli)]) [seed])"

definition soak_total :: "soak_cli \<Rightarrow> nat" where
  "soak_total cli = unat (sk_duration_secs cli) * 10 ^ 9"

definition soak_per_iter :: "soak_cli \<Rightarrow> nat" where
  "soak_per_iter cli = soak_total cli div unat (max (sk_view_changes cli) 1)"

text \<open>The loop from iteration \<open>i\<close> with \<open>k\<close> to go: the state of the first node, the iterations done and the sleeps.\<close>

fun soak_loop :: "env \<Rightarrow> nat \<Rightarrow> nat \<Rightarrow> (nat \<Rightarrow> nat) \<Rightarrow> nat \<Rightarrow> nat \<Rightarrow> service_state \<Rightarrow> service_state \<times> nat \<times> nat list" where
  "soak_loop en per_iter limit elapsed i 0 st = (st, i, [])"
| "soak_loop en per_iter limit elapsed i (Suc k) st =
     (let (st, _, _) = handle_command en 0 0 st (ApplyProposal [] i)
      in if elapsed i \<ge> limit then (st, i + 1, [])
         else (let (st, n, slept) = soak_loop en per_iter limit elapsed (i + 1) k st in (st, n, per_iter # slept)))"

definition soak_heap_check :: "(u64 \<times> u64) option \<Rightarrow> soak_error + unit" where
  "soak_heap_check heap = (case heap of
       None \<Rightarrow> Inr ()
     | Some (warm_bytes, final_bytes) \<Rightarrow>
         (let delta = final_bytes - warm_bytes
          in if sint delta > sint THRESHOLD_BYTES then Inl (HeapDelta (sint delta)) else Inr ()))"

definition soak_main ::
  "env \<Rightarrow> (socket_addr \<Rightarrow> service_state result) \<Rightarrow> (socket_addr \<Rightarrow> socket_addr \<Rightarrow> service_state result) \<Rightarrow>
   (nat \<Rightarrow> nat) \<Rightarrow> (u64 \<times> u64) option \<Rightarrow> soak_cli \<Rightarrow> soak_error + service_state \<times> nat \<times> nat list" where
  "soak_main en start join elapsed heap cli = (case soak_boot start join cli of
       Inl err \<Rightarrow> Inl (SoakRapid err)
     | Inr nodes \<Rightarrow>
         (let r = soak_loop en (soak_per_iter cli) (soak_total cli) elapsed 0 (unat (sk_view_changes cli)) (nodes ! 0)
          in case soak_heap_check heap of Inl err \<Rightarrow> Inl err | Inr _ \<Rightarrow> Inr r))"

section \<open>Results\<close>

lemma noop_view_change:
  assumes "service_inv en es st"
  shows "service_inv en es (fst (handle_command en now j st (ApplyProposal [] r)))"
    "configuration_of (st_view (fst (handle_command en now j st (ApplyProposal [] r)))) = configuration_of (st_view st)"
    "snd (configuration_id en (fst (handle_command en now j st (ApplyProposal [] r)))) = snd (configuration_id en st)"
proof -
  let ?s = "fst (handle_command en now j st (ApplyProposal [] r))"
  show i: "service_inv en es ?s"
    using service_step_inv[OF assms, of "(now, j, ApplyProposal [] r)"] by (simp add: service_step_def command_over_def)
  have "configuration_of (st_view (fst (decide_view_change en st []))) = configuration_of (st_view st)"
    using decide_view_change_configuration[of en es st "[]"] assms by (simp add: service_inv_def)
  then show c: "configuration_of (st_view ?s) = configuration_of (st_view st)"
    using same_view_facts(1,2)[OF reinstate_frame(4)[of en "fst (decide_view_change en st [])"]]
    by (simp add: handle_command_def Let_def split_beta configuration_of_def)
  have p: "parts_inv en es st" "parts_inv en es ?s" using assms i by (simp_all add: service_inv_def)
  then show "snd (configuration_id en ?s) = snd (configuration_id en st)"
    using configuration_id_true[OF p(1)] configuration_id_true[OF p(2)] c
      true_configuration_id_canonical[of "en_xxh64 en" "st_view ?s" "st_view st"]
    by (auto simp: parts_inv_def view_inv_over_def configuration_of_def)
qed

text \<open>
  However often and for however long the soak applies the empty proposal, the configuration of the node, its
  identifier and the invariant of its state stay, and every iteration but those cut off by the time limit is done.
\<close>

lemma soak_loop_noop:
  assumes "service_inv en es st" "soak_loop en per_iter limit elapsed i k st = (st', n, slept)"
  shows "service_inv en es st' \<and> configuration_of (st_view st') = configuration_of (st_view st) \<and>
    snd (configuration_id en st') = snd (configuration_id en st) \<and> n \<le> i + k \<and>
    (n < i + k \<longrightarrow> limit \<le> elapsed (n - 1)) \<and> i \<le> n"
  using assms
proof (induction k arbitrary: i st slept)
  case (Suc k)
  let ?s = "fst (handle_command en 0 0 st (ApplyProposal [] i))"
  note f = noop_view_change[OF Suc.prems(1), of 0 0 i]
  show ?case
  proof (cases "limit \<le> elapsed i")
    case True
    then show ?thesis using Suc.prems(2) f by (auto simp: Let_def split_beta)
  next
    case False
    then obtain slept' where "soak_loop en per_iter limit elapsed (i + 1) k ?s = (st', n, slept')"
      using Suc.prems(2) by (auto simp: Let_def split_beta prod_eq_iff)
    from Suc.IH[OF f(1) this] show ?thesis using f by auto
  qed
qed auto

lemma soak_addresses_distinct:
  "distinct (map (\<lambda>i. soak_addr (base + i)) (0 # map of_nat [1..<unat (n :: u16)]))"
proof -
  have "inj_on (of_nat :: nat \<Rightarrow> u16) {0..<unat n}"
  proof (rule inj_onI)
    fix i j assume "i \<in> {0..<unat n}" "j \<in> {0..<unat n}" and e: "(of_nat i :: u16) = of_nat j"
    then have "i < 2 ^ 16" "j < 2 ^ 16" using unsigned_less[of n, where 'a = nat] by auto
    then show "i = j" using arg_cong[OF e, of unat] by (simp add: unat_of_nat)
  qed
  then have "distinct (map (of_nat :: nat \<Rightarrow> u16) [0..<unat n])" by (simp add: distinct_map)
  moreover have "0 < unat n \<Longrightarrow> map (of_nat :: nat \<Rightarrow> u16) [0..<unat n] = 0 # map of_nat [1..<unat n]"
    by (simp add: upt_conv_Cons)
  ultimately have "distinct (0 # map of_nat [1..<unat n] :: u16 list)" by (cases "0 < unat n") simp_all
  then show ?thesis by (simp only: distinct_map) (auto simp: inj_on_def soak_addr_def)
qed

text \<open>A growth of exactly the threshold passes.\<close>

lemma soak_heap_boundary: "soak_heap_check (Some (w, w + THRESHOLD_BYTES)) = Inr ()"
  by (simp add: soak_heap_check_def)

end
