(* ===== verification/Tools.thy ===== *)
theory Tools
  imports Trace
begin

text \<open>
  The build helper \<^verbatim>\<open>xtask/src/main.rs\<close>. A file system is a tree: a file with its bytes (\<open>None\<close> when it cannot be
  read), a directory with its entries in the order \<^verbatim>\<open>read_dir\<close> yields them, or a directory that cannot be listed.
  Symbolic links and entries that fail to be read are not in the tree. A path is the list of its components from
  the root. Messages are dropped: what is kept is the exit code and the list of violations.

  Property: the check reports exactly the Rust files that are too long.
\<close>

section \<open>Files\<close>

type_synonym fs_path = "rust_str list"

datatype fs_node = FsFile "bytes option" | FsDir "(rust_str \<times> fs_node) list" | FsDenied

definition is_dir :: "fs_node \<Rightarrow> bool" where
  "is_dir n = (case n of FsFile _ \<Rightarrow> False | _ \<Rightarrow> True)"

text \<open>\<^verbatim>\<open>fs::read_to_string\<close>\<close>

definition read_to_string :: "fs_node \<Rightarrow> rust_str option" where
  "read_to_string n = (case n of FsFile (Some bytes) \<Rightarrow> from_utf8 bytes | _ \<Rightarrow> None)"

text \<open>\<^verbatim>\<open>Path::extension\<close>: what follows the last dot, unless that dot starts the name.\<close>

definition extension :: "rust_str \<Rightarrow> rust_str option" where
  "extension name =
     (let dot = of_char CHR ''.''; stem = dropWhile (\<lambda>c. c \<noteq> dot) (rev name)
      in if length stem \<le> 1 then None else Some (rev (takeWhile (\<lambda>c. c \<noteq> dot) (rev name))))"

fun fs_lookup :: "fs_node \<Rightarrow> fs_path \<Rightarrow> fs_node option" where
  "fs_lookup n [] = Some n"
| "fs_lookup n (name # rest) = (case n of
       FsDir entries \<Rightarrow> (case map_of entries name of None \<Rightarrow> None | Some m \<Rightarrow> fs_lookup m rest)
     | _ \<Rightarrow> None)"

section \<open>The check\<close>

definition HARD_LIMIT :: nat where
  "HARD_LIMIT = 400"

definition starts_with :: "rust_str \<Rightarrow> rust_str \<Rightarrow> bool" where
  "starts_with s p \<longleftrightarrow> take (length p) s = p"

fun str_contains :: "rust_str \<Rightarrow> rust_str \<Rightarrow> bool" where
  "str_contains [] p \<longleftrightarrow> p = []"
| "str_contains (c # cs) p \<longleftrightarrow> starts_with (c # cs) p \<or> str_contains cs p"

fun count_until_tests :: "nat \<Rightarrow> rust_str list \<Rightarrow> nat" where
  "count_until_tests n [] = n"
| "count_until_tests n (line # rest) =
     (let trimmed = dropWhile is_whitespace line
      in if starts_with trimmed (str_of ''#[cfg(test)]'') then n else count_until_tests (n + 1) rest)"

definition count_logical_lines :: "fs_node \<Rightarrow> nat" where
  "count_logical_lines file = (case read_to_string file of
       None \<Rightarrow> 0
     | Some s \<Rightarrow>
         if str_contains s (str_of ''@generated'') \<or> str_contains s (str_of ''DO NOT EDIT'') then 0
         else count_until_tests 0 (file_lines s))"

fun walk_rust_files :: "fs_path \<Rightarrow> fs_node \<Rightarrow> (fs_path \<times> nat) list \<Rightarrow> (fs_path \<times> nat) list"
  and walk_entries :: "fs_path \<Rightarrow> (rust_str \<times> fs_node) list \<Rightarrow> (fs_path \<times> nat) list \<Rightarrow> (fs_path \<times> nat) list" where
  "walk_rust_files dir (FsDir entries) violations = walk_entries dir entries violations"
| "walk_rust_files dir (FsFile c) violations = violations"
| "walk_rust_files dir FsDenied violations = violations"
| "walk_entries dir [] violations = violations"
| "walk_entries dir ((name, node) # rest) violations =
     (let path = dir @ [name];
          violations =
            (if is_dir node then
               if name = str_of ''target'' then violations else walk_rust_files path node violations
             else if extension name = Some (str_of ''rs'') then
               (let count = count_logical_lines node in if count > HARD_LIMIT then violations @ [(path, count)] else violations)
             else violations)
      in walk_entries dir rest violations)"

definition is_workspace_root :: "fs_node \<Rightarrow> fs_path \<Rightarrow> bool" where
  "is_workspace_root fs p = (case fs_lookup fs (p @ [str_of ''Cargo.toml'']) of
       None \<Rightarrow> False
     | Some n \<Rightarrow> (case read_to_string n of None \<Rightarrow> False | Some s \<Rightarrow> str_contains s (str_of ''[workspace]'')))"

text \<open>The search from \<open>p\<close> upwards; the root has no parent.\<close>

function search_root :: "fs_node \<Rightarrow> fs_path \<Rightarrow> fs_path option" where
  "search_root fs p = (if is_workspace_root fs p then Some p else if p = [] then None else search_root fs (butlast p))"
  by auto
termination by (relation "measure (length \<circ> snd)") auto

declare search_root.simps [simp del]

definition locate_workspace_root :: "fs_node \<Rightarrow> fs_path option \<Rightarrow> fs_path option" where
  "locate_workspace_root fs current_dir = (case current_dir of None \<Rightarrow> None | Some here \<Rightarrow> search_root fs here)"

type_synonym exit_code = u8

definition crates_of :: "fs_node \<Rightarrow> fs_path \<Rightarrow> fs_node" where
  "crates_of fs root = (case fs_lookup fs (root @ [str_of ''crates'']) of None \<Rightarrow> FsDenied | Some n \<Rightarrow> n)"

definition check_file_length :: "fs_node \<Rightarrow> fs_path option \<Rightarrow> exit_code \<times> (fs_path \<times> nat) list" where
  "check_file_length fs current_dir = (case locate_workspace_root fs current_dir of
       None \<Rightarrow> (2, [])
     | Some root \<Rightarrow>
         (let violations = walk_rust_files (root @ [str_of ''crates'']) (crates_of fs root) []
          in if violations = [] then (0, []) else (1, violations)))"

definition xtask_main :: "fs_node \<Rightarrow> fs_path option \<Rightarrow> rust_str list \<Rightarrow> exit_code \<times> (fs_path \<times> nat) list" where
  "xtask_main fs current_dir args = (case args of
       a # _ \<Rightarrow> if a = str_of ''check-file-length'' then check_file_length fs current_dir else (2, [])
     | [] \<Rightarrow> (2, []))"

section \<open>What is checked\<close>

text \<open>The files below a node, with the names on the way.\<close>

inductive file_at :: "fs_node \<Rightarrow> fs_path \<Rightarrow> fs_node \<Rightarrow> bool" where
  file_here: "(name, FsFile c) \<in> set entries \<Longrightarrow> file_at (FsDir entries) [name] (FsFile c)"
| file_below: "(name, node) \<in> set entries \<Longrightarrow> file_at node p f \<Longrightarrow> file_at (FsDir entries) (name # p) f"

inductive_cases file_at_dir: "file_at (FsDir entries) p f"
inductive_cases file_at_other: "file_at (FsFile c) p f" "file_at FsDenied p f"

text \<open>
  The lines that count: none of a file that cannot be read or has one of the two markers of generated code somewhere, and otherwise those above the
  first that starts with the test attribute, spaces aside.
\<close>

definition has_substring :: "rust_str \<Rightarrow> rust_str \<Rightarrow> bool" where
  "has_substring s p \<longleftrightarrow> (\<exists>u w. s = u @ p @ w)"

definition logical_lines :: "fs_node \<Rightarrow> nat" where
  "logical_lines file = (case read_to_string file of
       None \<Rightarrow> 0
     | Some s \<Rightarrow>
         if has_substring s (str_of ''@generated'') \<or> has_substring s (str_of ''DO NOT EDIT'') then 0
         else length (takeWhile (\<lambda>l. \<nexists>w. dropWhile is_whitespace l = str_of ''#[cfg(test)]'' @ w) (file_lines s)))"

definition too_long :: "fs_path \<Rightarrow> fs_node \<Rightarrow> bool" where
  "too_long p f \<longleftrightarrow> extension (last p) = Some (str_of ''rs'') \<and> str_of ''target'' \<notin> set (butlast p) \<and> 400 < logical_lines f"

lemma starts_with_iff: "starts_with s p \<longleftrightarrow> (\<exists>w. s = p @ w)"
  unfolding starts_with_def by (metis append_eq_conv_conj append_take_drop_id)

lemma str_contains_iff: "str_contains s p \<longleftrightarrow> has_substring s p"
proof (induction s)
  case (Cons c cs)
  have "has_substring (c # cs) p \<longleftrightarrow> (\<exists>w. c # cs = p @ w) \<or> has_substring cs p"
    unfolding has_substring_def by (metis append_Cons append_Nil append_eq_Cons_conv)
  then show ?case by (simp add: Cons starts_with_iff)
qed (simp add: has_substring_def)

lemma count_until_tests_eq:
  "count_until_tests n ls = n + length (takeWhile (\<lambda>l. \<nexists>w. dropWhile is_whitespace l = str_of ''#[cfg(test)]'' @ w) ls)"
  by (induction ls arbitrary: n) (simp_all add: starts_with_iff)

lemma count_logical_lines_eq: "count_logical_lines = logical_lines"
  by (simp add: fun_eq_iff count_logical_lines_def logical_lines_def str_contains_iff count_until_tests_eq split: option.split)

lemma file_at_nonempty: "file_at n p f \<Longrightarrow> p \<noteq> [] \<and> (\<exists>c. f = FsFile c) \<and> is_dir n"
  by (induction rule: file_at.induct) (auto simp: is_dir_def)

lemma file_at_Cons:
  "file_at (FsDir ((name, node) # rest)) p f \<longleftrightarrow> file_at (FsDir rest) p f \<or>
     (p = [name] \<and> node = f \<and> \<not> is_dir node) \<or> (\<exists>q. p = name # q \<and> file_at node q f)"
  by (auto simp: is_dir_def split: fs_node.splits elim!: file_at_dir intro: file_at.intros)

lemma walk_exact:
  "set (walk_rust_files dir n vs) = set vs \<union> {(dir @ p, logical_lines f) |p f. file_at n p f \<and> too_long p f}"
  "set (walk_entries dir es vs) = set vs \<union> {(dir @ p, logical_lines f) |p f. file_at (FsDir es) p f \<and> too_long p f}"
proof (induction dir n vs and dir es vs rule: walk_rust_files_walk_entries.induct)
  case (5 dir name node rest vs)
  let ?S = "\<lambda>n dir. {(dir @ p, logical_lines f) |p f. file_at n p f \<and> too_long p f}"
  have split: "?S (FsDir ((name, node) # rest)) dir = ?S (FsDir rest) dir \<union>
      (if is_dir node then if name = str_of ''target'' then {} else ?S node (dir @ [name])
       else if too_long [name] node then {(dir @ [name], logical_lines node)} else {})"
  proof -
    have "too_long (name # q) f \<longleftrightarrow> name \<noteq> str_of ''target'' \<and> too_long q f" if "file_at node q f" for q f
      using file_at_nonempty[OF that] by (auto simp: too_long_def)
    moreover have d: "is_dir node" if "file_at node q f" for q f using file_at_nonempty[OF that] by simp
    ultimately show ?thesis unfolding file_at_Cons by (auto dest: d)
  qed
  have here: "too_long [name] node \<longleftrightarrow> extension name = Some (str_of ''rs'') \<and> 400 < logical_lines node"
    by (auto simp: too_long_def)
  show ?case unfolding split here using 5 by (auto simp: Let_def count_logical_lines_eq HARD_LIMIT_def)
qed (auto elim: file_at_other elim!: file_at_dir)

text \<open>
  C40. The length check is exact. When the workspace root is found, the check lists exactly the Rust files below its
  \<^verbatim>\<open>crates\<close> directory that are outside every directory named \<^verbatim>\<open>target\<close> and have more than 400 logical lines
  (\<open>logical_lines\<close>: the lines above the first test attribute, none in generated or unreadable files), each with its count, and the exit code is 0 when there is none and 1 otherwise.
\<close>

theorem check_file_length_exact:
  assumes "locate_workspace_root fs cwd = Some root"
  shows "set (snd (check_file_length fs cwd)) =
      {(root @ str_of ''crates'' # p, logical_lines f) |p f. file_at (crates_of fs root) p f \<and> too_long p f} \<and>
    fst (check_file_length fs cwd) = (if \<exists>p f. file_at (crates_of fs root) p f \<and> too_long p f then 1 else 0)"
proof -
  let ?w = "walk_rust_files (root @ [str_of ''crates'']) (crates_of fs root) []"
  have w: "set ?w = {(root @ str_of ''crates'' # p, logical_lines f) |p f. file_at (crates_of fs root) p f \<and> too_long p f}"
    unfolding walk_exact(1) by simp
  have "?w = [] \<longleftrightarrow> set ?w = {}" by simp
  also have "\<dots> \<longleftrightarrow> \<not> (\<exists>p f. file_at (crates_of fs root) p f \<and> too_long p f)" unfolding w by blast
  finally show ?thesis using assms w by (simp add: check_file_length_def)
qed

definition demo_workspace :: fs_node where
  "demo_workspace =
     (let text = (\<lambda>s. FsFile (Some (to_utf8 s)));
          lines = (\<lambda>n. FsFile (Some (replicate n 10)))
      in FsDir [(str_of ''Cargo.toml'', text (str_of ''[workspace]'')),
           (str_of ''crates'', FsDir [(str_of ''rapid'', FsDir [(str_of ''lib.rs'', lines 401), (str_of ''view.rs'', lines 400),
             (str_of ''target'', FsDir [(str_of ''gen.rs'', lines 500)])])])])"

lemma blank_lines_count: "logical_lines (FsFile (Some (replicate n 10))) = n"
proof -
  have u: "from_utf8 (replicate n (10 :: u8)) = Some (replicate n 10)" by (induction n) simp_all
  have p: "\<not> starts_with (replicate m 10) (str_of ''@generated'')" "\<not> starts_with (replicate m 10) (str_of ''DO NOT EDIT'')" for m
    by (cases m; simp add: starts_with_def str_of_def)+
  have c: "\<not> str_contains (replicate m 10) (str_of ''@generated'')" "\<not> str_contains (replicate m 10) (str_of ''DO NOT EDIT'')" for m
    using p[of "Suc _"] by (induction m) (simp_all add: str_of_def)
  have l: "file_lines (replicate m 10) = replicate m []" for m
    by (induction m) (auto simp: file_lines_def newline_def strip_cr_def Let_def split_on_nonempty)
  show ?thesis
    using c[of n] by (simp add: logical_lines_def read_to_string_def u l takeWhile_replicate flip: str_contains_iff)
      (simp add: str_of_def)
qed

theorem check_file_length_exact_witness:
  "fst (check_file_length demo_workspace (Some [str_of ''crates''])) = 1"
proof -
  have "locate_workspace_root demo_workspace (Some [str_of ''crates'']) = Some []" by code_simp
  note e = check_file_length_exact[OF this]
  have "str_of ''Cargo.toml'' \<noteq> str_of ''crates''" by code_simp
  then have c: "crates_of demo_workspace [] = FsDir [(str_of ''rapid'', FsDir [(str_of ''lib.rs'', FsFile (Some (replicate 401 10))),
      (str_of ''view.rs'', FsFile (Some (replicate 400 10))), (str_of ''target'', FsDir [(str_of ''gen.rs'', FsFile (Some (replicate 500 10)))])])]"
    by (simp add: crates_of_def demo_workspace_def Let_def)
  have "file_at (crates_of demo_workspace []) [str_of ''rapid'', str_of ''lib.rs''] (FsFile (Some (replicate 401 10)))"
    unfolding c by (rule file_below, simp, rule file_here, simp)
  moreover have "extension (str_of ''lib.rs'') = Some (str_of ''rs'')" "str_of ''target'' \<noteq> str_of ''rapid''" by code_simp+
  then have "too_long [str_of ''rapid'', str_of ''lib.rs''] (FsFile (Some (replicate 401 10)))"
    by (simp add: too_long_def blank_lines_count)
  ultimately show ?thesis using e by auto
qed

end
