(* ===== verification/Spec2Isabelle.thy ===== *)
theory Spec2Isabelle
  imports Removal Admission Fallback Outputs Agent Soak Tools
begin

text \<open>
  Verification of \<^verbatim>\<open>rapid-rs\<close>, a Rust implementation of the Rapid membership protocol: every member of
  a cluster monitors others on K rings, the reports about failed and joining nodes are aggregated
  into stable cuts, the members agree on a cut by Fast Paxos with a classic fallback, and all of
  them move to the next configuration together. Paths are relative to \<^verbatim>\<open>src/crates/rapid/src\<close> unless
  they name another crate.

  \<^bold>\<open>Theories and what they model.\<close>

  \<^item> \<open>Prelude\<close>: machine integers, errors (\<^verbatim>\<open>error.rs\<close>), results, iteration orders of hash containers
    (\<open>iter_order\<close>), \<open>run\<close> and the locale \<open>event_machine\<close> (invariants of histories), counting lemmas.
    \<open>Rust_Str\<close>: what is used of Rust's strings, UTF-8 included.
  \<^item> \<open>Wire\<close>: every message of \<^verbatim>\<open>proto/rapid.proto\<close>, the hash-map keys, the constructors of
    \<^verbatim>\<open>proto_traits.rs\<close>, linear orders for the keys. \<open>View_Hash\<close>: \<^verbatim>\<open>view_hash.rs\<close> and \<^verbatim>\<open>types.rs\<close>; xxh64 is an
    argument \<open>x\<close> of every definition that hashes.
  \<^item> \<open>Ring\<close> (\<^verbatim>\<open>ring.rs\<close>) and \<open>View\<close> (\<^verbatim>\<open>view.rs\<close>): the K rings, the observer cache, the lazily refreshed
    configuration identifier, with \<^verbatim>\<open>bootstrap\<close>, \<^verbatim>\<open>ring_add\<close>, \<^verbatim>\<open>ring_delete\<close> and all queries.
  \<^item> \<open>Cut_Detector\<close> (\<^verbatim>\<open>cut_detector.rs\<close>): reports per subject and ring, the two watermarks, implicit
    detection.
  \<^item> \<open>Paxos\<close> and \<open>Fast_Paxos\<close> (\<^verbatim>\<open>consensus/paxos.rs\<close>, \<^verbatim>\<open>consensus/fast_paxos.rs\<close>): all handlers; the messages
    and requests they return are the outputs of the definitions. The exponential jitter is an argument.
  \<^item> \<open>Voting\<close>: the specification of consensus, an abstract machine of promises, votes and proposals
    with its agreement theorem. \<open>Consensus\<close>: the members of a configuration, each with its Fast Paxos
    instance, over a network (\<open>net_exec\<close>): the set of messages ever sent, of which any may be
    delivered any number of times or never; \<open>net_reachable\<close> are the states of the executions without the two events
    named below. \<open>Fallback\<close>: what a coordinator and a
    majority can do in that network.
  \<^item> \<open>Metadata\<close> (\<^verbatim>\<open>metadata.rs\<close>, \<^verbatim>\<open>settings.rs\<close>, \<^verbatim>\<open>events.rs\<close>).
  \<^item> \<open>Service\<close>: the membership-service actor, \<^verbatim>\<open>service/state.rs\<close>, \<^verbatim>\<open>handlers.rs\<close>, \<^verbatim>\<open>alert_handler.rs\<close>,
    \<^verbatim>\<open>alert_batcher.rs\<close>, \<^verbatim>\<open>fd_scheduler.rs\<close>, \<^verbatim>\<open>view_change.rs\<close>, \<^verbatim>\<open>consensus_dispatch.rs\<close>, \<^verbatim>\<open>command.rs\<close>,
    \<^verbatim>\<open>task.rs\<close>. Each handler is a function from the state to the new state and the list of its effects
    (replies, broadcasts, unicasts, published events, detectors spawned and aborted, timers), in
    the order of the code. \<open>Service_Props\<close>, \<open>Outputs\<close>, \<open>Detection\<close> and \<open>Subject\<close> hold its properties.
  \<^item> \<open>Handle\<close>: \<^verbatim>\<open>service/handle.rs\<close>, the mailbox between handles and the actor's task, and their
    interleavings.
  \<^item> \<open>Monitoring\<close>: \<^verbatim>\<open>monitoring/*.rs\<close>, the three edge failure detectors and their factories.
  \<^item> \<open>Messaging\<close>: \<^verbatim>\<open>messaging/handler.rs\<close>, \<^verbatim>\<open>lazy_handler.rs\<close>, \<^verbatim>\<open>broadcaster.rs\<close>, \<^verbatim>\<open>timed_client.rs\<close>,
    \<^verbatim>\<open>fault_injection.rs\<close>, \<^verbatim>\<open>in_process.rs\<close>. \<open>Grpc\<close>: \<^verbatim>\<open>grpc.rs\<close>, server, client, channel pool and retries, with
    the outcomes of tonic's calls as arguments.
  \<^item> \<open>Join\<close>: \<^verbatim>\<open>cluster_join.rs\<close>, \<^verbatim>\<open>cluster/builder.rs\<close>, \<^verbatim>\<open>cluster/bootstrap.rs\<close> and leaving
    (\<^verbatim>\<open>cluster/handle.rs\<close>). \<open>Assembly\<close>: the rest of those files (transports, pump of notifications,
    shutdown), the batcher loop, \<^verbatim>\<open>clock.rs\<close> and the bootstrap of the agent in \<^verbatim>\<open>rapid-example\<close>.
  \<^item> \<open>Configurations\<close>: the abstract configuration and its step. \<open>Actors\<close>: the members of a configuration as
    whole actors over the network (\<open>actors_exec\<close>), each followed until it applies a view change.
    \<open>Progress\<close>: what they are bound to do in that model. \<open>Pipeline\<close>: closed runs (\<open>closed_run\<close>), in which every command but the given ones is a
    batcher's tick or a request broadcast before, and how alerts about one subject pass through the cluster; \<open>Removal\<close> and
    \<open>Admission\<close> apply it to a failed member and to a joiner.
  \<^item> \<open>Shard\<close>: the crate \<^verbatim>\<open>rapid-shard\<close>. \<open>Trace\<close>: the trace files of
    \<^verbatim>\<open>rapid-compat-tests\<close>, with their base64.
  \<^item> \<open>Agent\<close>: the newtypes and the text of a configuration identifier (\<^verbatim>\<open>types.rs\<close>) and what the agent of
    \<^verbatim>\<open>rapid-example\<close> prints. \<open>Soak\<close>: the program of \<^verbatim>\<open>rapid-soak\<close>. \<open>Tools\<close>: \<^verbatim>\<open>xtask/src/main.rs\<close> over a file tree.

  \<^bold>\<open>How the parts interact.\<close> A detector (\<open>Monitoring\<close>) notifies the actor of a failed edge; the actor
  queues an alert and broadcasts batches of them. A batch that arrives is filtered, fed to the cut
  detector, completed by implicit detection, and a cut becomes a sorted proposal, which the Fast
  Paxos instance of the configuration votes on. A decision is applied by \<open>decide_view_change\<close>: rings,
  metadata, detector, consensus instance, recipients, failure detectors, parked joiners and
  subscribers all move to the new configuration. A joiner asks a contact, then its future
  observers; the answer it gets when the view change is applied is the configuration it boots with.

  \<^bold>\<open>What the theorems show.\<close>

  \<^item> Topology: K observers and K subjects per member, each relation the inverse of the other
    (\<open>observers_subjects_dual\<close>); the rings equal the member set through every history
    (\<open>view_history_inv\<close>); the configuration identifier is a function of members and identifiers
    (\<open>configuration_id_canonical\<close>); identifiers are used once; when the observer cache is right.
  \<^item> Detection: the incremental detector computes the watermark specification (\<open>cut_reports_exact\<close>),
    whatever the order of the reports (\<open>cut_order_independent\<close>); a failure that all observers see
    becomes the same proposal at every node (\<open>failure_becomes_proposal\<close>, \<open>proposal_canonical\<close>).
  \<^item> Consensus: the network of instances refines the voting machine (\<open>consensus_refines_voting\<close>), so any
    two decisions of a configuration are equal, in the fast round and in classic rounds
    (\<open>consensus_agreement\<close>), and are values somebody proposed (\<open>consensus_validity\<close>). Agreement is about the executions in
    which no member proposes after it has promised a classic round and no phase 1b message is handled twice, two hypotheses of the
    theorems (\<open>late_vote\<close>, \<open>repeated_promise\<close>), since the code ensures neither; \<open>late_fast_vote_disagreement\<close> and
    \<open>repeated_promise_disagreement\<close> show by execution that the handlers need both. Beside them:
    quorums behind every decision, promises, a full vote decides in one instance.
  \<^item> Actor: the invariant of all its parts over every history (\<open>service_history_inv\<close>), one fast vote per
    configuration, every request answered once (\<open>replies_conserved\<close>), exact view-change events, well-typed
    outputs whatever the inputs (\<open>outputs_well_typed\<close>); the mailbox refines the command loop and
    queries are linearizable, while a snapshot made of three queries is not (\<open>initial_view_spans_states\<close>).
  \<^item> Whole cluster, in \<open>Configurations\<close>, \<open>Actors\<close> and below: a view change implements the abstract configuration step
    (\<open>view_change_refines\<close>); the actors of a configuration, run as a cluster, contain a consensus network, so
    all that leave the configuration start in the same next one (\<open>actors_move_together\<close>), and so do the
    joiners they answer (\<open>joiner_starts_with_members\<close>): the conclusion is the assumption on the next
    configuration's start. Assumed there, beside the conditions on consensus: the members that leave know the same
    identifiers for the joiners (\<open>same_joiner_ids\<close>), which the code does not ensure either (\<open>unknown_joiner_diverges\<close>). Broadcasts reach the new view and
    shard directories track it.
  \<^item> Progress: an actor's tally is exact for the votes it handled, so a member that handled a fast quorum of
    equal votes has moved on, in every reachable state (\<open>fast_votes_move_member\<close>); and a member whose failure
    observers covering H rings notice is removed by any fast quorum of the members, without the others
    (\<open>failed_member_removed\<close>): the chain from the detectors' notifications, the only input from outside, over alerts, batches, cut, proposal, votes and
    view change is one closed run; likewise a joiner whose phase-2 requests reach expected observers covering H rings is
    admitted by any fast quorum (\<open>joiner_admitted\<close>). Where the fast round is split or its votes are lost, a
    coordinator and any majority of the members, one of which has voted, can decide in the classic round from every
    reachable state in which none of them has promised a rank as high (\<open>classic_round_decides\<close>).
  \<^item> Round trips of shard lists, base64 and traces; the exact behaviour of the ping-pong detector, of
    the phase-2 fan-out and of the fault filters; the end of the join protocol; the retries of the gRPC
    client and the expiry of its channels; what the file-length check reports; that the soak's view changes are no-ops.

  \<^bold>\<open>Conventions.\<close> Rust's integers are words of their width; \<^verbatim>\<open>i64\<close> and \<^verbatim>\<open>i32\<close> are words read as signed
  where the code compares or prints them. A hash map is a finite map and its iteration order an argument
  constrained by \<open>iter_order\<close> only. Errors are values (\<open>Inl\<close>); the text of a message is dropped. Loops
  are structural or have a measure; the join loop is bounded by its retries, so no fuel is used.
  Time, random jitter, fresh identifiers, network answers and channel contents are arguments of the
  operations that read them. Hash collisions are excluded where a theorem needs it by
  \<open>no_collisions\<close> on a finite universe of endpoints: the code does not handle them. The witnesses use a
  small hash (\<open>demo_hash\<close>, \<open>first_byte_hash\<close>) in place of xxh64, on which the definitions can be evaluated.

  \<^bold>\<open>Not modelled.\<close> What tonic and tokio do (their outcomes are arguments), logging, the parsing of command
  lines, interface declarations, code generated from the protobuf file, and test code, the loom test
  among it. That the classic round ends is stated as what its members can do and not as what they will: the
  handlers start it at most once per instance, so it depends on which of its messages arrive.
\<close>

section \<open>What the other components do with a view change\<close>

text \<open>
  After a view change the broadcaster reaches the new view. The actor hands the broadcaster one
  list of recipients; whatever permutation the broadcaster shuffles it into, each broadcast sends
  the request once to the address of every member of the new view that has one, and to nobody else.
\<close>

lemma broadcast_reaches_new_view:
  assumes "service_inv en es st" and "set p \<subseteq> set es" and "st_broadcaster st"
    and "\<forall>xs. mset (shuffle xs) = mset xs"
  shows "\<exists>recipients. SetMembership recipients \<in> set (snd (decide_view_change en st p)) \<and>
    mset (broadcast (set_membership shuffle bc recipients) req) =
      image_mset (\<lambda>a. (a, req)) (mset (List.map_filter (endpoint_to_socket_addr en)
        (memberlist (fst (decide_view_change en st p)))))"
proof -
  let ?r = "endpoints_as_socket_addrs en (csc_membership (vc_event en st p))"
  have "parts_inv en es st" using assms(1) by (simp add: service_inv_def)
  then have m: "csc_membership (vc_event en st p) = memberlist (fst (decide_view_change en st p))"
    using vc_event_facts(3) assms(2) by (simp add: memberlist_def)
  have "SetMembership ?r \<in> set (snd (decide_view_change en st p))"
    using assms(3) by (simp add: decide_view_change_stages split_beta Let_def)
  moreover have "mset (broadcast (set_membership shuffle bc ?r) req) = image_mset (\<lambda>a. (a, req)) (mset ?r)"
    using assms(4) by (simp add: broadcast_def set_membership_def)
  ultimately show ?thesis unfolding m endpoints_as_socket_addrs_def by blast
qed

lemma dom_placement_step:
  "dom (placement_step key d f c) =
     (case nsc_status c of Up \<Rightarrow> insert (nsc_endpoint c) (dom f) | Down \<Rightarrow> dom f - {nsc_endpoint c})"
  by (auto simp: placement_step_def split: edge_status.split if_splits)

lemma changed_Cons:
  "changed s (c # delta) = (if nsc_status c = s then insert (nsc_endpoint c) (changed s delta) else changed s delta)"
  by (auto simp: changed_def)

lemma placement_dom:
  "distinct (map nsc_endpoint delta) \<Longrightarrow>
     dom (foldl (placement_step key d) f delta) = (dom f - changed Down delta) \<union> changed Up delta"
proof (induction delta arbitrary: f)
  case (Cons c delta)
  then have "dom (foldl (placement_step key d) f (c # delta)) =
      (dom (placement_step key d f c) - changed Down delta) \<union> changed Up delta" by simp
  moreover have "nsc_endpoint c \<notin> changed Down delta" "nsc_endpoint c \<notin> changed Up delta"
    using Cons.prems by (auto simp: changed_def)
  ultimately show ?case
    by (cases "nsc_status c") (simp_all add: dom_placement_step changed_Cons del: foldl_Cons, blast+)
qed simp

text \<open>
  C28. A shard directory tracks the members. If a directory's index represents a placement of
  exactly the members of the actor's view, then folding in the delta of the \<open>ViewChange\<close> event that
  the actor publishes for a decided proposal gives an index that represents a placement of exactly
  the members of the new view: no departed node keeps a replica, no new node is missed.
\<close>

theorem directory_tracks_view:
  assumes "service_inv en es st" and "set p \<subseteq> set es" and "distinct p"
    and "represents idx f" and "dom f = members (st_view st)"
    and "(ViewChange, ev) \<in> set (published (snd (decide_view_change en st p)))"
  shows "\<exists>g. represents (apply_delta key d idx (csc_delta ev)) g \<and>
    dom g = members (st_view (fst (decide_view_change en st p)))"
proof -
  have pi: "parts_inv en es st" using assms(1) by (simp add: service_inv_def)
  let ?c = "fst (cancel_failure_detectors st)"
  have ev: "ev = vc_event en st p" using assms(6) by (auto simp: decide_view_change_published split: if_splits)
  have c: "parts_inv en es ?c" "st_view ?c = st_view st"
    using pi by (simp_all add: cancel_failure_detectors_def parts_inv_def)
  have "delta_exact p (members (st_view st)) (csc_delta ev) (members (st_view (vc_applied en st p)))"
    using apply_nodes_delta[OF c(1) assms(2,3)] by (simp add: ev vc_event_def vc_applied_def Let_def c(2))
  moreover have "members (st_view (vc_applied en st p)) = members (st_view (fst (decide_view_change en st p)))"
    using same_view_facts(1)[OF decide_view_change_frame(3)] by metis
  ultimately have e: "delta_exact p (members (st_view st)) (csc_delta ev) (members (st_view (fst (decide_view_change en st p))))"
    by simp
  have old: "members (st_view st) - set p \<inter> members (st_view st) = members (st_view st) - set p" by blast
  from e have "dom (foldl (placement_step key d) f (csc_delta ev)) = members (st_view (fst (decide_view_change en st p)))"
    using placement_dom[of "csc_delta ev" key d f] assms(5) old by (simp add: delta_exact_def)
  then show ?thesis using apply_delta_represents[OF assms(4)] by blast
qed

theorem directory_tracks_view_witness:
  "\<exists>g. represents (apply_delta ''shards'' 44
      (apply_delta ''shards'' 44 (shard_index_default\<lparr>si_configuration_id := demo_config\<rparr>)
        (members_as_up (map demo_ep [1, 2, 3]) []))
      (csc_delta (vc_event demo_env demo_waiting [demo_ep 4, demo_ep 2]))) g \<and>
    dom g = members (st_view (fst (decide_view_change demo_env demo_waiting [demo_ep 4, demo_ep 2])))"
proof (rule directory_tracks_view)
  show "service_inv demo_env (map demo_ep [1, 2, 3, 4, 5]) demo_waiting"
    using demo_service_inv by (simp add: demo_waiting_def)
  show "distinct [demo_ep 4, demo_ep 2]" by code_simp
  show "represents (apply_delta ''shards'' 44 (shard_index_default\<lparr>si_configuration_id := demo_config\<rparr>)
        (members_as_up (map demo_ep [1, 2, 3]) []))
      (foldl (placement_step ''shards'' 44) (\<lambda>_. None) (members_as_up (map demo_ep [1, 2, 3]) []))"
    by (rule apply_delta_represents[OF represents_default])
  have "members (st_view demo_waiting) = set (map demo_ep [1, 2, 3])"
    using same_view_facts(1)[OF demo_service_view] demo_view_inv by (simp add: demo_waiting_def)
  then show "dom (foldl (placement_step ''shards'' 44) (\<lambda>_. None) (members_as_up (map demo_ep [1, 2, 3]) [])) =
      members (st_view demo_waiting)"
    by (auto simp: members_as_up_def placement_step_def)
qed (simp_all add: decide_view_change_published)

end
